(* ===== verification/Fm_Prelude.thy ===== *)
theory Fm_Prelude
  imports Main "HOL-Library.Word" "HOL-Library.Monad_Syntax"
begin

text \<open>
  Shared vocabulary of the FASTMEM development.

  \<^item> The machine types of \<open>fm_core.h\<close>: \<open>u8\<close>, \<open>u16\<close>, \<open>u32\<close> and \<open>u64\<close> are words, so that
    \<open>+\<close>, \<open>-\<close> and \<open>*\<close> wrap as in C++. A slot index (\<open>fm_i32\<close>) is an \<open>int\<close>; a conversion
    into it goes through \<open>i32_of\<close>, which wraps. Sizes and counters of type \<open>fm_u32\<close> that only
    grow under a checked limit are \<open>nat\<close>; where the source computes with them the wrap-around
    is written out by \<open>u32_of\<close>.
  \<^item> The outcome of a piece of C++ code is an \<open>option\<close>: \<open>None\<close> stands for undefined behaviour
    (a null or out-of-range access) or for a loop that never ends (a spin lock nobody releases,
    a cyclic chain), \<open>Some\<close> for a normal return. Total correctness is a statement
    \<open>f x = Some r\<close>.
  \<^item> Linked chains threaded through arrays (\<open>key_next\<close>, \<open>free_next\<close>) are described by
    \<open>linked f h xs\<close>: following \<open>f\<close> from \<open>h\<close> visits exactly the nodes \<open>xs\<close> and ends
    at \<open>FM_NULL_SLOT\<close>.
\<close>

unbundle bit_operations_syntax

section \<open>Machine types\<close>

type_synonym u8 = "8 word"
type_synonym u16 = "16 word"
type_synonym u32 = "32 word"
type_synonym u64 = "64 word"

text \<open>A record image is a sequence of bytes; a slot index is a signed 32-bit integer.\<close>

type_synonym image = "u8 list"
type_synonym slot_id = int

named_theorems cast_simps \<open>conversions between the integer types that do not wrap\<close>
named_theorems fm_defs \<open>definitions of the accessors of the concurrency core\<close>

definition u32_of :: "nat \<Rightarrow> nat" where
  "u32_of n = n mod 2 ^ 32"

definition i32_of :: "nat \<Rightarrow> int" where
  "i32_of n = (if u32_of n < 2 ^ 31 then int (u32_of n) else int (u32_of n) - 2 ^ 32)"

lemma u32_of_id [cast_simps]: "n < 2 ^ 32 \<Longrightarrow> u32_of n = n"
  by (simp add: u32_of_def)

lemma i32_of_id [cast_simps]: "n < 2 ^ 31 \<Longrightarrow> i32_of n = int n"
  by (simp add: i32_of_def u32_of_def)

lemma u32_of_less: "u32_of n < 2 ^ 32"
  by (simp add: u32_of_def)

section \<open>Masks and parity on words\<close>

lemma word_and_mask_less:
  fixes h n :: "'a::len word"
  assumes "n \<noteq> 0"
  shows "h AND (n - 1) < n"
proof -
  have "h AND (n - 1) \<le> n - 1" by (rule word_and_le1)
  also have "n - 1 < n" using assms by (simp add: word_gt_0 measure_unat unat_mono word_less_nat_alt)
  finally show ?thesis .
qed

lemma and_one_even [simp]: "(w :: 'a::len word) AND 1 = 0 \<longleftrightarrow> even w"
  by (simp add: and_one_eq even_iff_mod_2_eq_zero)

lemma even_add_two_steps: "even (w :: 'a::len word) \<Longrightarrow> even (w + 1 + 1)"
  by (metis add.assoc dvd_triv_left even_add mult_2 one_add_one)

section \<open>Option monad\<close>

lemma bind_eq_SomeD: "Option.bind m f = Some r \<Longrightarrow> \<exists>x. m = Some x \<and> f x = Some r"
  by (cases m) auto

text \<open>\<open>assert_that b\<close> is the guard of a step: an access that is undefined unless \<open>b\<close>.\<close>

definition assert_that :: "bool \<Rightarrow> unit option" where
  "assert_that b = (if b then Some () else None)"

lemma assert_that_True [simp]: "assert_that True = Some ()"
  by (simp add: assert_that_def)

lemma assert_that_False [simp]: "assert_that False = None"
  by (simp add: assert_that_def)

lemma assert_that_Some_iff [simp]: "assert_that b = Some u \<longleftrightarrow> b"
  by (simp add: assert_that_def)

section \<open>Chains threaded through arrays\<close>

definition FM_NULL_SLOT :: slot_id where
  "FM_NULL_SLOT = -1"

primrec linked :: "(slot_id \<Rightarrow> slot_id) \<Rightarrow> slot_id \<Rightarrow> slot_id list \<Rightarrow> bool" where
  "linked f h [] \<longleftrightarrow> h = FM_NULL_SLOT"
| "linked f h (x # xs) \<longleftrightarrow> h = x \<and> x \<noteq> FM_NULL_SLOT \<and> linked f (f x) xs"

lemma linked_null [simp]: "linked f FM_NULL_SLOT xs \<longleftrightarrow> xs = []"
  by (cases xs) auto

lemma linked_not_null:
  "h \<noteq> FM_NULL_SLOT \<Longrightarrow> linked f h xs \<longleftrightarrow> (\<exists>ys. xs = h # ys \<and> linked f (f h) ys)"
  by (cases xs) auto

lemma linked_unique: "linked f h xs \<Longrightarrow> linked f h ys \<Longrightarrow> xs = ys"
proof (induction xs arbitrary: h ys)
  case Nil
  then show ?case by simp
next
  case (Cons x xs)
  then show ?case by (cases ys) auto
qed

lemma linked_cong:
  "(\<And>x. x \<in> set xs \<Longrightarrow> f x = g x) \<Longrightarrow> linked f h xs = linked g h xs"
  by (induction xs arbitrary: h) auto

lemma linked_upd_other [simp]: "x \<notin> set xs \<Longrightarrow> linked (f(x := v)) h xs = linked f h xs"
  by (rule linked_cong) auto

lemma linked_suffix: "linked f h (ys @ x # zs) \<Longrightarrow> linked f x (x # zs)"
  by (induction ys arbitrary: h) auto

lemma linked_distinct: "linked f h xs \<Longrightarrow> distinct xs"
proof (induction xs arbitrary: h)
  case Nil
  then show ?case by simp
next
  case (Cons x xs)
  have "x \<notin> set xs"
  proof
    assume "x \<in> set xs"
    then obtain ys zs where "xs = ys @ x # zs" by (auto simp: in_set_conv_decomp)
    moreover from this Cons.prems have "linked f x (x # zs)"
      using linked_suffix [of f "f x" ys x zs] by simp
    ultimately have "x # xs = x # zs"
      using Cons.prems linked_unique [of f x "x # xs" "x # zs"] by simp
    with \<open>xs = ys @ x # zs\<close> show False by simp
  qed
  with Cons show ?case by auto
qed

lemma linked_null_notin: "linked f h xs \<Longrightarrow> FM_NULL_SLOT \<notin> set xs"
  by (induction xs arbitrary: h) auto

text \<open>Removing a node in the middle: its predecessor is made to point past it.\<close>

lemma linked_remove:
  "linked f h (ys @ y # x # zs) \<Longrightarrow> linked (f(y := f x)) h (ys @ y # zs)"
proof (induction ys arbitrary: h)
  case Nil
  then have "linked f y (y # x # zs)" by simp
  from linked_distinct [OF this] have "y \<notin> set zs" by simp
  with Nil show ?case by (simp del: fun_upd_apply add: fun_upd_same)
next
  case (Cons a ys)
  then have "linked f a (a # ys @ y # x # zs)" by simp
  from linked_distinct [OF this] have "a \<noteq> y" by auto
  with Cons show ?case by (simp del: fun_upd_apply add: fun_upd_other)
qed

end
