(* ===== verification/Fm_Core.thy ===== *)
theory Fm_Core
  imports Fm_Prelude
begin

text \<open>
  The data of the concurrency core (\<open>src/fm_core.h\<close>): return codes, spin locks, slots, hash keys,
  chunks and the share, and the arrays every operation goes through (slots and key chains inside
  the chunks, bucket heads and bucket locks inside the keys) with their read-over-write laws.

  Operations are modelled as one thread runs them, lock calls included: taking a spin lock that is
  already held never returns (\<open>None\<close>). What other threads may do between two atomic accesses is
  the subject of the interleaving theories of the development.

  The memory allocator of the share (\<open>ops.alloc\<close>) is code outside the engine: \<open>alloc n size\<close>
  says whether the \<open>n\<close>-th request succeeds. \<open>live_blocks\<close> counts the blocks the share owns.
\<close>

section \<open>Constants and enumerations\<close>

definition FM_CHUNK_SHIFT :: nat where
  "FM_CHUNK_SHIFT = 12"

definition FM_CHUNK_SIZE :: nat where
  "FM_CHUNK_SIZE = 2 ^ FM_CHUNK_SHIFT"

definition FM_MAX_CHANGED_KEYS :: nat where
  "FM_MAX_CHANGED_KEYS = 64"

lemma FM_CHUNK_SIZE_eq [simp]: "FM_CHUNK_SIZE = 4096"
  by (simp add: FM_CHUNK_SIZE_def FM_CHUNK_SHIFT_def)

datatype fm_rc =
    FM_ERR_OK
  | FM_ERR_NOT_FOUND
  | FM_ERR_EOF
  | FM_ERR_DELETED
  | FM_ERR_DUP_KEY
  | FM_ERR_FULL
  | FM_ERR_NOMEM
  | FM_ERR_WRONG_KEY

datatype slot_state =
    FM_SLOT_FREE
  | FM_SLOT_ACTIVE
  | FM_SLOT_DELETED
  | FM_SLOT_DELETING

text \<open>The column types of the server that the engine tells apart, \<open>enum ha_base_keytype\<close>.\<close>

datatype ha_keytype =
    HA_KEYTYPE_TEXT | HA_KEYTYPE_BINARY | HA_KEYTYPE_SHORT_INT | HA_KEYTYPE_LONG_INT | HA_KEYTYPE_FLOAT
  | HA_KEYTYPE_DOUBLE | HA_KEYTYPE_USHORT_INT | HA_KEYTYPE_ULONG_INT | HA_KEYTYPE_LONGLONG | HA_KEYTYPE_ULONGLONG
  | HA_KEYTYPE_INT24 | HA_KEYTYPE_UINT24 | HA_KEYTYPE_INT8 | HA_KEYTYPE_VARTEXT1 | HA_KEYTYPE_VARBINARY1
  | HA_KEYTYPE_VARTEXT2 | HA_KEYTYPE_VARBINARY2 | HA_KEYTYPE_BIT | HA_KEYTYPE_other nat

section \<open>Spin lock\<close>

text \<open>
  The byte \<open>f\<close> of \<open>FM_SPIN\<close> is 0 or 1, a \<open>bool\<close> here. \<open>lock\<close> exchanges it with 1 until the old
  value was 0: on a lock that is held it does not return unless another thread releases it.
\<close>

type_synonym FM_SPIN = bool

definition spin_lock :: "FM_SPIN \<Rightarrow> FM_SPIN option" where
  "spin_lock f = (if f then None else Some True)"

definition spin_unlock :: "FM_SPIN \<Rightarrow> FM_SPIN" where
  "spin_unlock f = False"

definition spin_try_lock :: "FM_SPIN \<Rightarrow> bool \<times> FM_SPIN" where
  "spin_try_lock f = (\<not> f, True)"

section \<open>Slots, keys, chunks, share\<close>

record FM_SLOT =
  sl_state :: slot_state
  sl_wlock :: FM_SPIN
  sl_seq :: u32
  sl_gen :: u32
  sl_free_next :: slot_id
  sl_data :: image

text \<open>The constructor of \<open>FM_SLOT\<close>; no image has been written yet.\<close>

definition FM_SLOT_init :: FM_SLOT where
  "FM_SLOT_init = \<lparr>sl_state = FM_SLOT_FREE, sl_wlock = False, sl_seq = 0, sl_gen = 0,
     sl_free_next = FM_NULL_SLOT, sl_data = []\<rparr>"

text \<open>
  \<open>sizeof(FM_SLOT)\<close> is 16 (the layout in the source's comment), so the record image starts at
  offset 16.
\<close>

definition fm_align8 :: "u32 \<Rightarrow> u32" where
  "fm_align8 x = (x + 7) AND NOT 7"

definition FM_SLOT_DATA_OFFSET :: u32 where
  "FM_SLOT_DATA_OFFSET = (16 + 7) AND NOT 7"

text \<open>
  The key callbacks are function pointers: \<open>None\<close> is the null pointer, and a call through it
  is undefined. The user data pointer \<open>ud\<close> is part of the closure.
\<close>

record FM_KEY_OPS =
  hash_rec :: "(image \<Rightarrow> u32) option"
  hash_key :: "(image \<Rightarrow> u32) option"
  cmp_rec_rec :: "(image \<Rightarrow> image \<Rightarrow> int) option"
  cmp_rec_key :: "(image \<Rightarrow> image \<Rightarrow> int) option"
  has_null_part :: "(image \<Rightarrow> int) option"

record FM_KEY_CORE =
  kc_ops :: FM_KEY_OPS
  kc_unique :: bool
  kc_nbuckets :: u32
  kc_head :: "(u32 \<Rightarrow> slot_id) option"
  kc_locks :: "(u32 \<Rightarrow> FM_SPIN) option"

record FM_CHUNK =
  ch_slots :: "nat \<Rightarrow> FM_SLOT"
  ch_key_next :: "nat \<Rightarrow> nat \<Rightarrow> slot_id"

record FM_SHARE_CORE_OPS =
  alloc :: "nat \<Rightarrow> nat \<Rightarrow> bool"

text \<open>
  \<open>chunks\<close> is the pointer array of \<open>chunk_cap\<close> entries (an entry is \<open>None\<close> until its chunk is
  allocated), \<open>has_chunks\<close> says that the pointer to it is not null: the number of entries can wrap to 0, and an
  array of no entries is not a null pointer. \<open>keydef\<close> is empty exactly when its pointer is null.
\<close>

record FM_SHARE_CORE =
  ops :: FM_SHARE_CORE_OPS
  reclength :: nat
  slot_size :: nat
  keys :: nat
  max_records :: nat
  chunk_cap :: nat
  chunks :: "FM_CHUNK option list"
  has_chunks :: bool
  chunk_cnt :: nat
  free_head :: slot_id
  records :: int
  struct_mutex :: FM_SPIN
  keydef :: "FM_KEY_CORE list"
  auto_inc :: u64
  auto_key :: nat
  auto_key_type :: ha_keytype
  allocs :: nat
  live_blocks :: int

section \<open>Chunk arrays\<close>

text \<open>
  \<open>idx >> FM_CHUNK_SHIFT\<close> and \<open>idx & (FM_CHUNK_SIZE - 1)\<close> of a signed index are \<open>div\<close> and
  \<open>mod\<close>. An index into a chunk that is not there is an access through a null pointer.
\<close>

definition get_chunk :: "FM_CHUNK option list \<Rightarrow> slot_id \<Rightarrow> FM_CHUNK option" where
  "get_chunk C idx =
     (if idx < 0 \<or> length C \<le> nat (idx div int FM_CHUNK_SIZE) then None
      else C ! nat (idx div int FM_CHUNK_SIZE))"

definition put_chunk :: "FM_CHUNK option list \<Rightarrow> slot_id \<Rightarrow> FM_CHUNK \<Rightarrow> FM_CHUNK option list" where
  "put_chunk C idx c = C[nat (idx div int FM_CHUNK_SIZE) := Some c]"

definition chunk_off :: "slot_id \<Rightarrow> nat" where
  "chunk_off idx = nat (idx mod int FM_CHUNK_SIZE)"

definition get_slot :: "FM_CHUNK option list \<Rightarrow> slot_id \<Rightarrow> FM_SLOT option" where
  "get_slot C idx = map_option (\<lambda>c. ch_slots c (chunk_off idx)) (get_chunk C idx)"

definition upd_slot :: "FM_CHUNK option list \<Rightarrow> slot_id \<Rightarrow> FM_SLOT \<Rightarrow> FM_CHUNK option list" where
  "upd_slot C idx v =
     (case get_chunk C idx of
        None \<Rightarrow> C
      | Some c \<Rightarrow> put_chunk C idx (c\<lparr>ch_slots := (ch_slots c)(chunk_off idx := v)\<rparr>))"

definition get_next :: "FM_CHUNK option list \<Rightarrow> nat \<Rightarrow> slot_id \<Rightarrow> slot_id option" where
  "get_next C k idx = map_option (\<lambda>c. ch_key_next c k (chunk_off idx)) (get_chunk C idx)"

definition upd_next :: "FM_CHUNK option list \<Rightarrow> nat \<Rightarrow> slot_id \<Rightarrow> slot_id \<Rightarrow> FM_CHUNK option list" where
  "upd_next C k idx v =
     (case get_chunk C idx of
        None \<Rightarrow> C
      | Some c \<Rightarrow> put_chunk C idx
          (c\<lparr>ch_key_next := (ch_key_next c)(k := (ch_key_next c k)(chunk_off idx := v))\<rparr>))"

text \<open>Total views of the arrays, for allocated indices.\<close>

definition has_slot :: "FM_CHUNK option list \<Rightarrow> slot_id \<Rightarrow> bool" where
  "has_slot C idx \<longleftrightarrow> get_chunk C idx \<noteq> None"

definition slot_of :: "FM_CHUNK option list \<Rightarrow> slot_id \<Rightarrow> FM_SLOT" where
  "slot_of C idx = the (get_slot C idx)"

definition next_of :: "FM_CHUNK option list \<Rightarrow> nat \<Rightarrow> slot_id \<Rightarrow> slot_id" where
  "next_of C k idx = the (get_next C k idx)"

lemma get_slot_Some [simp]: "has_slot C i \<Longrightarrow> get_slot C i = Some (slot_of C i)"
  by (auto simp: has_slot_def get_slot_def slot_of_def)

lemma get_next_Some [simp]: "has_slot C i \<Longrightarrow> get_next C k i = Some (next_of C k i)"
  by (auto simp: has_slot_def get_next_def next_of_def)

lemma has_slot_nonneg: "has_slot C i \<Longrightarrow> 0 \<le> i"
  by (auto simp: has_slot_def get_chunk_def split: if_splits)

lemma not_has_slot_null [simp]: "\<not> has_slot C FM_NULL_SLOT"
  by (simp add: has_slot_def get_chunk_def FM_NULL_SLOT_def)

lemma get_chunk_put_chunk:
  assumes "has_slot C i"
  shows "get_chunk (put_chunk C i c) j =
    (if 0 \<le> j \<and> j div int FM_CHUNK_SIZE = i div int FM_CHUNK_SIZE then Some c else get_chunk C j)"
proof -
  let ?n = "\<lambda>x. nat (x div int FM_CHUNK_SIZE)"
  have i: "0 \<le> i" "?n i < length C"
    using assms by (auto simp: has_slot_def get_chunk_def split: if_splits)
  show ?thesis
  proof (cases "0 \<le> j")
    case True
    have "?n j = ?n i \<longleftrightarrow> j div int FM_CHUNK_SIZE = i div int FM_CHUNK_SIZE"
      using True i by (auto simp: eq_nat_nat_iff pos_imp_zdiv_nonneg_iff)
    then show ?thesis
      using True i by (auto simp: get_chunk_def put_chunk_def nth_list_update)
  next
    case False
    then show ?thesis by (simp add: get_chunk_def)
  qed
qed

lemma chunk_off_eq_iff:
  assumes "0 \<le> i" "0 \<le> j" "i div int FM_CHUNK_SIZE = j div int FM_CHUNK_SIZE"
  shows "chunk_off i = chunk_off j \<longleftrightarrow> i = j"
proof -
  have "chunk_off i = chunk_off j \<longleftrightarrow> i mod 4096 = j mod 4096"
    by (simp add: chunk_off_def eq_nat_nat_iff)
  also have "\<dots> \<longleftrightarrow> i = j"
    using assms by (metis FM_CHUNK_SIZE_eq div_mult_mod_eq of_nat_numeral)
  finally show ?thesis .
qed

lemma get_slot_upd_slot:
  assumes "has_slot C i"
  shows "get_slot (upd_slot C i v) j = (if j = i then Some v else get_slot C j)"
proof -
  obtain c where c: "get_chunk C i = Some c" using assms by (auto simp: has_slot_def)
  let ?c = "c\<lparr>ch_slots := (ch_slots c)(chunk_off i := v)\<rparr>"
  have u: "upd_slot C i v = put_chunk C i ?c" by (simp add: upd_slot_def c)
  have i: "0 \<le> i" by (rule has_slot_nonneg [OF assms])
  consider (same) "0 \<le> j" "j div int FM_CHUNK_SIZE = i div int FM_CHUNK_SIZE" | (neg) "j < 0"
    | (other) "0 \<le> j" "j div int FM_CHUNK_SIZE \<noteq> i div int FM_CHUNK_SIZE" by linarith
  then show ?thesis
  proof cases
    case same
    then have "get_chunk C j = Some c" using c i by (auto simp: get_chunk_def)
    with same show ?thesis
      using chunk_off_eq_iff [of j i] i
      by (simp add: u get_slot_def get_chunk_put_chunk [OF assms])
  next
    case neg
    then show ?thesis using i by (simp add: u get_slot_def get_chunk_def)
  next
    case other
    then show ?thesis by (auto simp: u get_slot_def get_chunk_put_chunk [OF assms])
  qed
qed

lemma get_next_upd_next:
  assumes "has_slot C i"
  shows "get_next (upd_next C k i v) k' j = (if j = i \<and> k' = k then Some v else get_next C k' j)"
proof -
  obtain c where c: "get_chunk C i = Some c" using assms by (auto simp: has_slot_def)
  let ?c = "c\<lparr>ch_key_next := (ch_key_next c)(k := (ch_key_next c k)(chunk_off i := v))\<rparr>"
  have u: "upd_next C k i v = put_chunk C i ?c" by (simp add: upd_next_def c)
  have i: "0 \<le> i" by (rule has_slot_nonneg [OF assms])
  consider (same) "0 \<le> j" "j div int FM_CHUNK_SIZE = i div int FM_CHUNK_SIZE" | (neg) "j < 0"
    | (other) "0 \<le> j" "j div int FM_CHUNK_SIZE \<noteq> i div int FM_CHUNK_SIZE" by linarith
  then show ?thesis
  proof cases
    case same
    then have "get_chunk C j = Some c" using c i by (auto simp: get_chunk_def)
    with same show ?thesis
      using chunk_off_eq_iff [of j i] i
      by (simp add: u get_next_def get_chunk_put_chunk [OF assms])
  next
    case neg
    then show ?thesis using i by (simp add: u get_next_def get_chunk_def)
  next
    case other
    then show ?thesis by (auto simp: u get_next_def get_chunk_put_chunk [OF assms])
  qed
qed

lemma get_next_upd_slot [simp]: "get_next (upd_slot C i v) k j = get_next C k j"
proof (cases "get_chunk C i")
  case None
  then show ?thesis by (simp add: upd_slot_def)
next
  case (Some c)
  then have h: "has_slot C i" by (simp add: has_slot_def)
  have "j div int FM_CHUNK_SIZE = i div int FM_CHUNK_SIZE \<Longrightarrow> 0 \<le> j \<Longrightarrow> get_chunk C j = Some c"
    using Some by (auto simp: get_chunk_def split: if_splits)
  then show ?thesis
    by (auto simp: upd_slot_def Some get_next_def get_chunk_put_chunk [OF h])
qed

lemma get_slot_upd_next [simp]: "get_slot (upd_next C k i v) j = get_slot C j"
proof (cases "get_chunk C i")
  case None
  then show ?thesis by (simp add: upd_next_def)
next
  case (Some c)
  then have h: "has_slot C i" by (simp add: has_slot_def)
  have "j div int FM_CHUNK_SIZE = i div int FM_CHUNK_SIZE \<Longrightarrow> 0 \<le> j \<Longrightarrow> get_chunk C j = Some c"
    using Some by (auto simp: get_chunk_def split: if_splits)
  then show ?thesis
    by (auto simp: upd_next_def Some get_slot_def get_chunk_put_chunk [OF h])
qed

lemma has_slot_get_slot: "has_slot C i \<longleftrightarrow> get_slot C i \<noteq> None"
  by (simp add: has_slot_def get_slot_def)

lemma has_slot_upd_slot [simp]: "has_slot (upd_slot C i v) j \<longleftrightarrow> has_slot C j"
proof (cases "has_slot C i")
  case True
  then show ?thesis by (auto simp: has_slot_get_slot get_slot_upd_slot)
next
  case False
  then show ?thesis by (simp add: upd_slot_def has_slot_def)
qed

lemma has_slot_upd_next [simp]: "has_slot (upd_next C k i v) j \<longleftrightarrow> has_slot C j"
  by (simp add: has_slot_get_slot)

lemma slot_of_upd_slot [simp]: "has_slot C i \<Longrightarrow> slot_of (upd_slot C i v) = (slot_of C)(i := v)"
  by (auto simp: slot_of_def get_slot_upd_slot)

lemma slot_of_upd_next [simp]: "slot_of (upd_next C k i v) = slot_of C"
  by (auto simp: slot_of_def)

lemma next_of_upd_slot [simp]: "next_of (upd_slot C i v) = next_of C"
  by (auto simp: next_of_def fun_eq_iff)

lemma next_of_upd_next [simp]:
  "has_slot C i \<Longrightarrow> next_of (upd_next C k i v) = (next_of C)(k := (next_of C k)(i := v))"
  by (auto simp: next_of_def get_next_upd_next fun_eq_iff)

lemma length_upd_slot [simp]: "length (upd_slot C i v) = length C"
  by (simp add: upd_slot_def put_chunk_def split: option.split)

lemma length_upd_next [simp]: "length (upd_next C k i v) = length C"
  by (simp add: upd_next_def put_chunk_def split: option.split)

lemma nth_upd_slot_None [simp]: "c < length C \<Longrightarrow> upd_slot C i v ! c = None \<longleftrightarrow> C ! c = None"
  by (auto simp: upd_slot_def put_chunk_def get_chunk_def nth_list_update split: option.split if_splits)

lemma nth_upd_next_None [simp]: "c < length C \<Longrightarrow> upd_next C k i v ! c = None \<longleftrightarrow> C ! c = None"
  by (auto simp: upd_next_def put_chunk_def get_chunk_def nth_list_update split: option.split if_splits)

lemma upd_slot_upd_slot [simp]: "upd_slot (upd_slot C i v) i w = upd_slot C i w"
  by (auto simp: upd_slot_def put_chunk_def get_chunk_def split: option.split)

lemma upd_slot_same:
  assumes "has_slot C i" "slot_of C i = v"
  shows "upd_slot C i v = C"
proof -
  obtain c where c: "get_chunk C i = Some c" using assms by (auto simp: has_slot_def)
  have "v = ch_slots c (chunk_off i)" using assms(2) by (auto simp: slot_of_def get_slot_def c)
  moreover have "C ! nat (i div int FM_CHUNK_SIZE) = Some c"
    using c by (auto simp: get_chunk_def split: if_splits)
  then have "put_chunk C i c = C" by (metis list_update_id put_chunk_def)
  ultimately show ?thesis by (simp add: upd_slot_def c)
qed

text \<open>Slot updates are moved outwards, over chain updates.\<close>

lemma ch_slots_ch_key_next_swap:
  "(r :: FM_CHUNK)\<lparr>ch_slots := x, ch_key_next := y\<rparr> = r\<lparr>ch_key_next := y, ch_slots := x\<rparr>"
  by (cases r) simp

lemma upd_next_upd_slot [simp]:
  assumes "has_slot C i" "has_slot C j"
  shows "upd_next (upd_slot C i v) k j w = upd_slot (upd_next C k j w) i v"
proof -
  obtain c d where c: "get_chunk C i = Some c" and d: "get_chunk C j = Some d"
    using assms by (auto simp: has_slot_def)
  have nn: "0 \<le> i" "0 \<le> j" using assms by (auto dest: has_slot_nonneg)
  have put_put: "put_chunk (put_chunk C i x) i y = put_chunk C i y" for x y
    by (simp add: put_chunk_def)
  show ?thesis
  proof (cases "i div int FM_CHUNK_SIZE = j div int FM_CHUNK_SIZE")
    case True
    with c d nn have "c = d" by (auto simp: get_chunk_def split: if_splits)
    with True have "put_chunk (put_chunk C i x) j y = put_chunk C i y" for x y
      by (simp add: put_chunk_def)
    moreover from True have "put_chunk C j y = put_chunk C i y" for y
      by (simp add: put_chunk_def)
    ultimately show ?thesis
      using nn True \<open>c = d\<close>
      by (simp add: upd_slot_def upd_next_def c d get_chunk_put_chunk assms put_put
          ch_slots_ch_key_next_swap)
  next
    case False
    then have "nat (i div int FM_CHUNK_SIZE) \<noteq> nat (j div int FM_CHUNK_SIZE)"
      using nn by (simp add: eq_nat_nat_iff pos_imp_zdiv_nonneg_iff)
    then have "put_chunk (put_chunk C i x) j y = put_chunk (put_chunk C j y) i x" for x y
      by (simp add: put_chunk_def list_update_swap)
    with False show ?thesis
      using nn by (simp add: upd_slot_def upd_next_def c d get_chunk_put_chunk assms)
  qed
qed

section \<open>Bucket arrays\<close>

definition get_head :: "FM_KEY_CORE list \<Rightarrow> nat \<Rightarrow> u32 \<Rightarrow> slot_id option" where
  "get_head K k b =
     (if k < length K \<and> b < kc_nbuckets (K ! k) then map_option (\<lambda>h. h b) (kc_head (K ! k)) else None)"

definition upd_head :: "FM_KEY_CORE list \<Rightarrow> nat \<Rightarrow> u32 \<Rightarrow> slot_id \<Rightarrow> FM_KEY_CORE list" where
  "upd_head K k b v = K[k := (K ! k)\<lparr>kc_head := map_option (\<lambda>h. h(b := v)) (kc_head (K ! k))\<rparr>]"

definition get_lock :: "FM_KEY_CORE list \<Rightarrow> nat \<Rightarrow> u32 \<Rightarrow> FM_SPIN option" where
  "get_lock K k b =
     (if k < length K \<and> b < kc_nbuckets (K ! k) then map_option (\<lambda>l. l b) (kc_locks (K ! k)) else None)"

definition upd_lock :: "FM_KEY_CORE list \<Rightarrow> nat \<Rightarrow> u32 \<Rightarrow> FM_SPIN \<Rightarrow> FM_KEY_CORE list" where
  "upd_lock K k b v = K[k := (K ! k)\<lparr>kc_locks := map_option (\<lambda>l. l(b := v)) (kc_locks (K ! k))\<rparr>]"

definition has_bucket :: "FM_KEY_CORE list \<Rightarrow> nat \<Rightarrow> u32 \<Rightarrow> bool" where
  "has_bucket K k b \<longleftrightarrow> k < length K \<and> b < kc_nbuckets (K ! k)
     \<and> kc_head (K ! k) \<noteq> None \<and> kc_locks (K ! k) \<noteq> None"

definition head_of :: "FM_KEY_CORE list \<Rightarrow> nat \<Rightarrow> u32 \<Rightarrow> slot_id" where
  "head_of K k b = the (kc_head (K ! k)) b"

definition lock_of :: "FM_KEY_CORE list \<Rightarrow> nat \<Rightarrow> u32 \<Rightarrow> FM_SPIN" where
  "lock_of K k b = the (kc_locks (K ! k)) b"

lemma get_head_Some [simp]: "has_bucket K k b \<Longrightarrow> get_head K k b = Some (head_of K k b)"
  by (auto simp: has_bucket_def get_head_def head_of_def)

lemma get_lock_Some [simp]: "has_bucket K k b \<Longrightarrow> get_lock K k b = Some (lock_of K k b)"
  by (auto simp: has_bucket_def get_lock_def lock_of_def)

lemma length_upd_head [simp]: "length (upd_head K k b v) = length K"
  and length_upd_lock [simp]: "length (upd_lock K k b l) = length K"
  by (simp_all add: upd_head_def upd_lock_def)

lemma nth_upd_head_frame [simp]:
  "kc_ops (upd_head K k b v ! k') = kc_ops (K ! k')"
  "kc_unique (upd_head K k b v ! k') = kc_unique (K ! k')"
  "kc_nbuckets (upd_head K k b v ! k') = kc_nbuckets (K ! k')"
  by (cases "k < length K"; cases "k = k'"; simp add: upd_head_def list_update_beyond)+

lemma nth_upd_lock_frame [simp]:
  "kc_ops (upd_lock K k b l ! k') = kc_ops (K ! k')"
  "kc_unique (upd_lock K k b l ! k') = kc_unique (K ! k')"
  "kc_nbuckets (upd_lock K k b l ! k') = kc_nbuckets (K ! k')"
  by (cases "k < length K"; cases "k = k'"; simp add: upd_lock_def list_update_beyond)+

lemma has_bucket_upd_head [simp]: "has_bucket (upd_head K k b v) k' b' = has_bucket K k' b'"
  by (cases "k < length K"; cases "k = k'")
    (auto simp: has_bucket_def upd_head_def list_update_beyond)

lemma has_bucket_upd_lock [simp]: "has_bucket (upd_lock K k b l) k' b' = has_bucket K k' b'"
  by (cases "k < length K"; cases "k = k'")
    (auto simp: has_bucket_def upd_lock_def list_update_beyond)

lemma head_of_upd_head [simp]:
  "has_bucket K k b \<Longrightarrow> head_of (upd_head K k b v) = (head_of K)(k := (head_of K k)(b := v))"
  by (auto simp: has_bucket_def head_of_def upd_head_def fun_eq_iff nth_list_update)

lemma lock_of_upd_lock [simp]:
  "has_bucket K k b \<Longrightarrow> lock_of (upd_lock K k b l) = (lock_of K)(k := (lock_of K k)(b := l))"
  by (auto simp: has_bucket_def lock_of_def upd_lock_def fun_eq_iff nth_list_update)

lemma head_of_upd_lock [simp]: "head_of (upd_lock K k b l) = head_of K"
  by (intro ext, cases "k < length K")
    (auto simp: head_of_def upd_lock_def nth_list_update list_update_beyond)

lemma lock_of_upd_head [simp]: "lock_of (upd_head K k b v) = lock_of K"
  by (intro ext, cases "k < length K")
    (auto simp: lock_of_def upd_head_def nth_list_update list_update_beyond)

text \<open>Lock updates are moved outwards, where taking and releasing a lock cancel.\<close>

lemma upd_lock_upd_lock [simp]: "upd_lock (upd_lock K k b l) k b l' = upd_lock K k b l'"
  by (cases "k < length K")
    (auto simp: upd_lock_def list_update_beyond option.map_comp comp_def option.map_ident_strong
      intro!: arg_cong [where f = "\<lambda>x. K[k := (K ! k)\<lparr>kc_locks := x\<rparr>]"])

lemma upd_lock_same:
  assumes "has_bucket K k b" "lock_of K k b = l"
  shows "upd_lock K k b l = K"
proof -
  obtain f where f: "kc_locks (K ! k) = Some f" and k: "k < length K"
    using assms(1) by (auto simp: has_bucket_def)
  have "f(b := l) = f" using assms(2) f by (auto simp: lock_of_def)
  then have "(K ! k)\<lparr>kc_locks := map_option (\<lambda>l'. l'(b := l)) (kc_locks (K ! k))\<rparr> = K ! k"
    using f by (cases "K ! k") simp
  then show ?thesis by (simp add: upd_lock_def)
qed

lemma kc_head_kc_locks_swap: "(r :: FM_KEY_CORE)\<lparr>kc_locks := x, kc_head := y\<rparr> = r\<lparr>kc_head := y, kc_locks := x\<rparr>"
  by (cases r) simp

lemma upd_head_upd_lock [simp]:
  "upd_head (upd_lock K k b l) k' b' v = upd_lock (upd_head K k' b' v) k b l"
  by (cases "k < length K"; cases "k' < length K"; cases "k = k'")
    (auto simp: upd_head_def upd_lock_def list_update_beyond list_update_swap kc_head_kc_locks_swap)

end
