(* ===== verification/Fm_Slots.thy ===== *)
theory Fm_Slots
  imports Fm_Core
begin

text \<open>
  Helpers, lifecycle, seqlock-protected read and slot allocator of the concurrency core
  (\<open>src/fm_core.h\<close>, lines 230 to 477): \<open>fm_slot\<close>, \<open>fm_key_next\<close>, \<open>fm_bucket\<close>,
  \<open>fm_core_slot_count\<close>, \<open>fm_core_key_bucket\<close>, \<open>fm_core_init_share\<close>, \<open>fm_core_free_share\<close>,
  \<open>fm_core_read_row\<close>, \<open>fm_core_grow_chunk\<close>, \<open>fm_core_alloc_slot\<close>, \<open>fm_core_free_slot\<close>.

  The lemmas show that a chunk is published complete or not at all, that a failed growth gives its
  blocks back, that the free list is a duplicate-free chain of slots below the limit, and that an
  allocation returns a slot of that list or of a fresh chunk.
\<close>

section \<open>Helpers\<close>

definition fm_slot :: "FM_SHARE_CORE \<Rightarrow> slot_id \<Rightarrow> FM_SLOT option" where
  [fm_defs]: "fm_slot s idx = get_slot (chunks s) idx"

definition put_slot :: "FM_SHARE_CORE \<Rightarrow> slot_id \<Rightarrow> FM_SLOT \<Rightarrow> FM_SHARE_CORE" where
  [fm_defs]: "put_slot s idx sl = s\<lparr>chunks := upd_slot (chunks s) idx sl\<rparr>"

definition fm_key_next :: "FM_SHARE_CORE \<Rightarrow> nat \<Rightarrow> slot_id \<Rightarrow> slot_id option" where
  [fm_defs]: "fm_key_next s key idx = (if key < keys s then get_next (chunks s) key idx else None)"

definition put_key_next :: "FM_SHARE_CORE \<Rightarrow> nat \<Rightarrow> slot_id \<Rightarrow> slot_id \<Rightarrow> FM_SHARE_CORE" where
  [fm_defs]: "put_key_next s key idx v = s\<lparr>chunks := upd_next (chunks s) key idx v\<rparr>"

definition fm_key :: "FM_SHARE_CORE \<Rightarrow> nat \<Rightarrow> FM_KEY_CORE option" where
  [fm_defs]: "fm_key s k = (if k < length (keydef s) then Some (keydef s ! k) else None)"

definition fm_bucket :: "FM_KEY_CORE \<Rightarrow> u32 \<Rightarrow> u32" where
  "fm_bucket k hash = hash AND (kc_nbuckets k - 1)"

definition fm_core_slot_count :: "FM_SHARE_CORE \<Rightarrow> nat" where
  "fm_core_slot_count s = u32_of (chunk_cnt s * FM_CHUNK_SIZE)"

definition fm_core_key_bucket :: "FM_KEY_CORE \<Rightarrow> image \<Rightarrow> u32 option" where
  "fm_core_key_bucket kc rec = do { h \<leftarrow> hash_rec (kc_ops kc); Some (fm_bucket kc (h rec)) }"

text \<open>Locks of the share: one per bucket, one per slot, one for the structure.\<close>

definition lock_bucket :: "FM_SHARE_CORE \<Rightarrow> nat \<Rightarrow> u32 \<Rightarrow> FM_SHARE_CORE option" where
  "lock_bucket s k b = do {
     l \<leftarrow> get_lock (keydef s) k b;
     l' \<leftarrow> spin_lock l;
     Some (s\<lparr>keydef := upd_lock (keydef s) k b l'\<rparr>) }"

definition unlock_bucket :: "FM_SHARE_CORE \<Rightarrow> nat \<Rightarrow> u32 \<Rightarrow> FM_SHARE_CORE option" where
  "unlock_bucket s k b = do {
     l \<leftarrow> get_lock (keydef s) k b;
     Some (s\<lparr>keydef := upd_lock (keydef s) k b (spin_unlock l)\<rparr>) }"

definition lock_slot :: "FM_SHARE_CORE \<Rightarrow> slot_id \<Rightarrow> FM_SHARE_CORE option" where
  "lock_slot s idx = do {
     sl \<leftarrow> fm_slot s idx;
     l \<leftarrow> spin_lock (sl_wlock sl);
     Some (put_slot s idx (sl\<lparr>sl_wlock := l\<rparr>)) }"

definition unlock_slot :: "FM_SHARE_CORE \<Rightarrow> slot_id \<Rightarrow> FM_SHARE_CORE option" where
  "unlock_slot s idx = do {
     sl \<leftarrow> fm_slot s idx;
     Some (put_slot s idx (sl\<lparr>sl_wlock := spin_unlock (sl_wlock sl)\<rparr>)) }"

definition lock_struct :: "FM_SHARE_CORE \<Rightarrow> FM_SHARE_CORE option" where
  "lock_struct s = do { l \<leftarrow> spin_lock (struct_mutex s); Some (s\<lparr>struct_mutex := l\<rparr>) }"

definition unlock_struct :: "FM_SHARE_CORE \<Rightarrow> FM_SHARE_CORE" where
  "unlock_struct s = s\<lparr>struct_mutex := spin_unlock (struct_mutex s)\<rparr>"

section \<open>Share lifecycle\<close>

definition core_alloc :: "FM_SHARE_CORE \<Rightarrow> nat \<Rightarrow> bool \<times> FM_SHARE_CORE" where
  "core_alloc s sz =
     (if alloc (ops s) (allocs s) sz
      then (True, s\<lparr>allocs := allocs s + 1, live_blocks := live_blocks s + 1\<rparr>)
      else (False, s\<lparr>allocs := allocs s + 1\<rparr>))"

definition core_dealloc :: "FM_SHARE_CORE \<Rightarrow> nat \<Rightarrow> FM_SHARE_CORE" where
  "core_dealloc s n = s\<lparr>live_blocks := live_blocks s - int n\<rparr>"

text \<open>The share after \<open>memset(s, 0, sizeof *s)\<close>.\<close>

definition zero_share :: "FM_SHARE_CORE_OPS \<Rightarrow> nat \<Rightarrow> int \<Rightarrow> FM_SHARE_CORE" where
  "zero_share o' n live = \<lparr>ops = o', reclength = 0, slot_size = 0, keys = 0, max_records = 0,
     chunk_cap = 0, chunks = [], has_chunks = False, chunk_cnt = 0, free_head = 0, records = 0, struct_mutex = False,
     keydef = [], auto_inc = 0, auto_key = 0, auto_key_type = HA_KEYTYPE_other 0, allocs = n, live_blocks = live\<rparr>"

definition zero_key :: FM_KEY_CORE where
  "zero_key = \<lparr>kc_ops = \<lparr>hash_rec = None, hash_key = None, cmp_rec_rec = None, cmp_rec_key = None,
     has_null_part = None\<rparr>, kc_unique = False, kc_nbuckets = 0, kc_head = None, kc_locks = None\<rparr>"

primrec init_keys :: "nat \<Rightarrow> u32 \<Rightarrow> FM_SHARE_CORE \<Rightarrow> FM_SHARE_CORE" where
  "init_keys 0 nbuckets s = s"
| "init_keys (Suc n) nbuckets s =
     (let nb = (if nbuckets \<noteq> 0 then nbuckets else 1024);
          (h, s1) = core_alloc s (4 * unat nb);
          (l, s2) = core_alloc s1 (unat nb);
          kc = zero_key\<lparr>kc_nbuckets := nb,
                 kc_head := (if h then Some (\<lambda>_. FM_NULL_SLOT) else None),
                 kc_locks := (if l then Some (\<lambda>_. False) else None)\<rparr>
      in init_keys n nbuckets (s2\<lparr>keydef := keydef s2 @ [kc]\<rparr>))"

definition fm_core_init_share ::
  "FM_SHARE_CORE_OPS \<Rightarrow> nat \<Rightarrow> nat \<Rightarrow> nat \<Rightarrow> u32 \<Rightarrow> FM_SHARE_CORE" where
  "fm_core_init_share o' reclen nkeys maxrec nbuckets =
     (let mr = (if maxrec \<noteq> 0 then maxrec else 1);
          s = (zero_share o' 0 0)\<lparr>reclength := reclen, keys := nkeys, max_records := mr,
                slot_size := unat (fm_align8 (FM_SLOT_DATA_OFFSET + of_nat reclen)),
                chunk_cap := u32_of (mr + FM_CHUNK_SIZE - 1) div FM_CHUNK_SIZE,
                free_head := FM_NULL_SLOT\<rparr>;
          (ok, s1) = core_alloc s (16 * chunk_cap s)
      in if \<not> ok then s1
         else let s2 = s1\<lparr>chunks := replicate (chunk_cap s) None, has_chunks := True\<rparr>
              in if nkeys = 0 then s2
                 else let (ok2, s3) = core_alloc s2 (72 * nkeys)
                      in if \<not> ok2 then s3 else init_keys nkeys nbuckets s3)"

text \<open>Blocks of one chunk: its slots, and with keys the pointer array and one array per key.\<close>

definition chunk_blocks :: "FM_SHARE_CORE \<Rightarrow> nat" where
  "chunk_blocks s = (if keys s = 0 then 1 else 2 + keys s)"

primrec free_chunks :: "nat \<Rightarrow> FM_SHARE_CORE \<Rightarrow> FM_SHARE_CORE option" where
  "free_chunks 0 s = Some s"
| "free_chunks (Suc i) s = do {
     s1 \<leftarrow> free_chunks i s;
     assert_that (i < length (chunks s1));
     Some (if chunks s1 ! i = None then s1 else core_dealloc s1 (chunk_blocks s1)) }"

primrec free_keys :: "nat \<Rightarrow> FM_SHARE_CORE \<Rightarrow> FM_SHARE_CORE option" where
  "free_keys 0 s = Some s"
| "free_keys (Suc k) s = do {
     s1 \<leftarrow> free_keys k s;
     kc \<leftarrow> fm_key s1 k;
     let s2 = (if kc_head kc = None then s1 else core_dealloc s1 1);
     Some (if kc_locks kc = None then s2 else core_dealloc s2 1) }"

definition fm_core_free_share :: "FM_SHARE_CORE \<Rightarrow> FM_SHARE_CORE option" where
  "fm_core_free_share s = do {
     s1 \<leftarrow> free_chunks (chunk_cnt s) s;
     let s2 = (if has_chunks s1 then core_dealloc s1 1 else s1);
     s3 \<leftarrow> free_keys (keys s2) s2;
     let s4 = (if keydef s3 = [] then s3 else core_dealloc s3 1);
     Some (zero_share (ops s4) (allocs s4) (live_blocks s4)) }"

section \<open>Seqlock-protected record image copy\<close>

text \<open>
  \<open>buf\<close> is the caller's buffer. Without another thread the two \<open>continue\<close>s of the loop start it
  again in the same state.
\<close>

partial_function (option) fm_core_read_row ::
  "FM_SHARE_CORE \<Rightarrow> slot_id \<Rightarrow> bool \<Rightarrow> u32 \<Rightarrow> image \<Rightarrow> (fm_rc \<times> image) option" where
  "fm_core_read_row s idx check_gen expect_gen buf = do {
     sl \<leftarrow> fm_slot s idx;
     if sl_state sl \<noteq> FM_SLOT_ACTIVE then Some (FM_ERR_DELETED, buf)
     else if check_gen \<and> sl_gen sl \<noteq> expect_gen then Some (FM_ERR_DELETED, buf)
     else (let s1 = sl_seq sl in
       if s1 AND 1 \<noteq> 0 then fm_core_read_row s idx check_gen expect_gen buf
       else (let buf1 = take (reclength s) (sl_data sl) in
         if sl_seq sl \<noteq> s1 then fm_core_read_row s idx check_gen expect_gen buf1
         else Some (FM_ERR_OK, buf1))) }"

section \<open>Slot allocation\<close>

definition new_chunk :: FM_CHUNK where
  "new_chunk = \<lparr>ch_slots = (\<lambda>_. FM_SLOT_init), ch_key_next = (\<lambda>_ _. FM_NULL_SLOT)\<rparr>"

text \<open>One array per key, \<open>kk\<close> of them already there; on failure everything is given back.\<close>

primrec grow_keys :: "nat \<Rightarrow> nat \<Rightarrow> FM_SHARE_CORE \<Rightarrow> bool \<times> FM_SHARE_CORE" where
  "grow_keys 0 kk s = (True, s)"
| "grow_keys (Suc n) kk s =
     (let (ok, s1) = core_alloc s (4 * FM_CHUNK_SIZE)
      in if ok then grow_keys n (Suc kk) s1 else (False, core_dealloc s1 (kk + 2)))"

definition fm_core_grow_chunk :: "FM_SHARE_CORE \<Rightarrow> (fm_rc \<times> FM_SHARE_CORE) option" where
  "fm_core_grow_chunk s =
     (let k = chunk_cnt s in
      if k \<ge> chunk_cap s then Some (FM_ERR_FULL, s)
      else do {
        assert_that (k < length (chunks s));
        let (ok, s1) = core_alloc s (slot_size s * FM_CHUNK_SIZE);
        if \<not> ok then Some (FM_ERR_NOMEM, s1)
        else do {
          let (ok2, s2) = (if keys s = 0 then (True, s1) else core_alloc s1 (8 * keys s));
          if \<not> ok2 then Some (FM_ERR_NOMEM, core_dealloc s2 1)
          else do {
            let (ok3, s3) = grow_keys (keys s) 0 s2;
            if \<not> ok3 then Some (FM_ERR_NOMEM, s3)
            else Some (FM_ERR_OK, s3\<lparr>chunks := (chunks s3)[k := Some new_chunk],
                                     chunk_cnt := k + 1\<rparr>) } } })"

definition fm_core_free_slot :: "FM_SHARE_CORE \<Rightarrow> slot_id \<Rightarrow> FM_SHARE_CORE option" where
  "fm_core_free_slot s idx = do {
     sl \<leftarrow> fm_slot s idx;
     Some ((put_slot s idx (sl\<lparr>sl_free_next := free_head s\<rparr>))\<lparr>free_head := idx\<rparr>) }"

text \<open>The loop that puts the slots of a range on the free list; the list gives their order.\<close>

primrec push_slots :: "nat list \<Rightarrow> FM_SHARE_CORE \<Rightarrow> FM_SHARE_CORE option" where
  "push_slots [] s = Some s"
| "push_slots (i # is) s = do { s1 \<leftarrow> fm_core_free_slot s (i32_of i); push_slots is s1 }"

definition fm_core_alloc_slot :: "FM_SHARE_CORE \<Rightarrow> (slot_id \<times> FM_SHARE_CORE) option" where
  "fm_core_alloc_slot s =
     (if free_head s \<noteq> FM_NULL_SLOT
      then do { sl \<leftarrow> fm_slot s (free_head s);
                Some (free_head s, s\<lparr>free_head := sl_free_next sl\<rparr>) }
      else (let total = u32_of (chunk_cnt s * FM_CHUNK_SIZE) in
        if total \<ge> max_records s then Some (FM_NULL_SLOT, s)
        else if total mod FM_CHUNK_SIZE = 0 then do {
          (rc, s1) \<leftarrow> fm_core_grow_chunk s;
          if rc \<noteq> FM_ERR_OK then Some (FM_NULL_SLOT, s1)
          else do {
            let end' = u32_of (total + FM_CHUNK_SIZE);
            let end'' = (if end' > max_records s1 then max_records s1 else end');
            s2 \<leftarrow> push_slots (rev [total + 1 ..< end'']) s1;
            Some (i32_of total, s2) } }
        else Some (i32_of total, s)))"

section \<open>Closed forms\<close>

text \<open>The slot a lone reader would spin on forever: active, of the right generation, sequence odd.\<close>

definition read_spins :: "FM_SHARE_CORE \<Rightarrow> slot_id \<Rightarrow> bool \<Rightarrow> u32 \<Rightarrow> bool" where
  "read_spins s i cg eg \<longleftrightarrow> (case fm_slot s i of None \<Rightarrow> False
     | Some sl \<Rightarrow> sl_state sl = FM_SLOT_ACTIVE \<and> \<not> (cg \<and> sl_gen sl \<noteq> eg) \<and> odd (sl_seq sl))"

lemma read_row_not_spinning:
  assumes "fm_core_read_row s i cg eg buf = Some r"
  shows "\<not> read_spins s i cg eg"
proof (rule fm_core_read_row.raw_induct
    [where P = "\<lambda>s i cg eg buf r. \<not> read_spins s i cg eg", OF _ assms])
  fix f s i cg eg buf r
  assume IH: "\<And>s i cg eg buf r. f s i cg eg buf = Some r \<Longrightarrow> \<not> read_spins s i cg eg"
    and eq: "do {
       sl \<leftarrow> fm_slot s i;
       if sl_state sl \<noteq> FM_SLOT_ACTIVE then Some (FM_ERR_DELETED, buf)
       else if cg \<and> sl_gen sl \<noteq> eg then Some (FM_ERR_DELETED, buf)
       else (let s1 = sl_seq sl in
         if s1 AND 1 \<noteq> 0 then f s i cg eg buf
         else (let buf1 = take (reclength s) (sl_data sl) in
           if sl_seq sl \<noteq> s1 then f s i cg eg buf1
           else Some (FM_ERR_OK, buf1))) } = Some r"
  show "\<not> read_spins s i cg eg"
  proof
    assume sp: "read_spins s i cg eg"
    then obtain sl where "fm_slot s i = Some sl" by (auto simp: read_spins_def split: option.splits)
    with sp eq have "f s i cg eg buf = Some r" by (auto simp: read_spins_def Let_def split: if_splits)
    with IH sp show False by blast
  qed
qed

lemma fm_core_read_row_eq:
  "fm_core_read_row s i cg eg buf =
     (case fm_slot s i of None \<Rightarrow> None
      | Some sl \<Rightarrow>
          if sl_state sl \<noteq> FM_SLOT_ACTIVE \<or> (cg \<and> sl_gen sl \<noteq> eg) then Some (FM_ERR_DELETED, buf)
          else if odd (sl_seq sl) then None
          else Some (FM_ERR_OK, take (reclength s) (sl_data sl)))"
proof (cases "read_spins s i cg eg")
  case True
  then have "fm_core_read_row s i cg eg buf = None"
    using read_row_not_spinning by (cases "fm_core_read_row s i cg eg buf") blast+
  with True show ?thesis by (auto simp: read_spins_def split: option.splits)
next
  case False
  then show ?thesis
    by (cases "fm_slot s i"; subst fm_core_read_row.simps) (auto simp: read_spins_def Let_def)
qed

section \<open>Chunk layout\<close>

definition layout :: "FM_SHARE_CORE \<Rightarrow> bool" where
  "layout s \<longleftrightarrow> 0 < max_records s \<and> max_records s \<le> 2 ^ 31 - FM_CHUNK_SIZE
     \<and> chunk_cap s = (max_records s + FM_CHUNK_SIZE - 1) div FM_CHUNK_SIZE
     \<and> length (chunks s) = chunk_cap s \<and> chunk_cnt s \<le> chunk_cap s
     \<and> (\<forall>c < chunk_cap s. chunks s ! c = None \<longleftrightarrow> chunk_cnt s \<le> c)"

definition total_slots :: "FM_SHARE_CORE \<Rightarrow> nat" where
  "total_slots s = chunk_cnt s * FM_CHUNK_SIZE"

lemma layout_cap_bound: "layout s \<Longrightarrow> chunk_cap s * FM_CHUNK_SIZE < 2 ^ 31"
  by (simp add: layout_def) linarith

lemma layout_total_bound: "layout s \<Longrightarrow> total_slots s < 2 ^ 31"
  using layout_cap_bound [of s] by (simp add: layout_def total_slots_def)

lemma layout_has_slot:
  assumes "layout s"
  shows "has_slot (chunks s) i \<longleftrightarrow> 0 \<le> i \<and> i < int (total_slots s)"
proof (cases "0 \<le> i")
  case True
  let ?n = "nat (i div int FM_CHUNK_SIZE)"
  have "has_slot (chunks s) i \<longleftrightarrow> ?n < chunk_cap s \<and> chunks s ! ?n \<noteq> None"
    using True assms by (auto simp: has_slot_def get_chunk_def layout_def)
  also have "\<dots> \<longleftrightarrow> ?n < chunk_cnt s"
    using assms unfolding layout_def by (metis not_le order_less_le_trans)
  also have "\<dots> \<longleftrightarrow> i < int (total_slots s)"
    using True by (simp add: total_slots_def) linarith
  finally show ?thesis using True by simp
next
  case False
  then show ?thesis by (simp add: has_slot_def get_chunk_def)
qed

lemma layout_slot_count: "layout s \<Longrightarrow> fm_core_slot_count s = total_slots s"
  using layout_total_bound [of s] by (simp add: fm_core_slot_count_def total_slots_def cast_simps)

lemma layout_not_full: "layout s \<Longrightarrow> total_slots s < max_records s \<Longrightarrow> chunk_cnt s < chunk_cap s"
  by (simp add: layout_def total_slots_def)

lemma layout_full: "layout s \<Longrightarrow> max_records s \<le> total_slots s \<longleftrightarrow> chunk_cnt s = chunk_cap s"
  by (auto simp: layout_def total_slots_def)


lemma layout_upd_slot [simp]: "layout (s\<lparr>chunks := upd_slot (chunks s) i v\<rparr>) = layout s"
  by (cases "length (chunks s) = chunk_cap s") (simp_all add: layout_def)

lemma layout_upd_next [simp]: "layout (s\<lparr>chunks := upd_next (chunks s) k i v\<rparr>) = layout s"
  by (cases "length (chunks s) = chunk_cap s") (simp_all add: layout_def)

section \<open>Growing by a chunk\<close>

lemma get_chunk_grow:
  assumes "n < length C"
  shows "get_chunk (C[n := Some c]) i =
    (if int (n * FM_CHUNK_SIZE) \<le> i \<and> i < int ((n + 1) * FM_CHUNK_SIZE) then Some c else get_chunk C i)"
proof (cases "0 \<le> i")
  case True
  have "nat (i div 4096) = n \<longleftrightarrow> int (n * 4096) \<le> i \<and> i < int ((n + 1) * 4096)"
    using True by auto
  then show ?thesis using assms by (auto simp: get_chunk_def nth_list_update)
next
  case False
  then show ?thesis by (auto simp: get_chunk_def)
qed

lemma core_alloc_frame:
  "core_alloc s n = (ok, s') \<Longrightarrow>
     s' = s\<lparr>allocs := allocs s + 1, live_blocks := live_blocks s + of_bool ok\<rparr>"
  by (auto simp: core_alloc_def split: if_splits)

lemma grow_keys_frame:
  "grow_keys n kk s = (ok, s') \<Longrightarrow>
     \<exists>m. s' = s\<lparr>allocs := m, live_blocks := (if ok then live_blocks s + int n else live_blocks s - int kk - 2)\<rparr>"
proof (induction n arbitrary: kk s)
  case 0
  then show ?case by (intro exI [of _ "allocs s"]) simp
next
  case (Suc n)
  obtain ok1 s1 where a: "core_alloc s (4 * FM_CHUNK_SIZE) = (ok1, s1)" by (cases "core_alloc s (4 * FM_CHUNK_SIZE)")
  note f = core_alloc_frame [OF a]
  show ?case
  proof (cases ok1)
    case True
    with Suc.prems a have "grow_keys n (Suc kk) s1 = (ok, s')" by simp
    from Suc.IH [OF this] obtain m where "s' = s1\<lparr>allocs := m,
      live_blocks := (if ok then live_blocks s1 + int n else live_blocks s1 - int (Suc kk) - 2)\<rparr>" ..
    then show ?thesis using f True by (intro exI [of _ m]) (simp add: algebra_simps)
  next
    case False
    with Suc.prems a f have "s' = core_dealloc s1 (kk + 2)" "\<not> ok" by auto
    then show ?thesis
      using f False by (intro exI [of _ "allocs s + 1"]) (simp add: core_dealloc_def algebra_simps)
  qed
qed

text \<open>
  A growth either publishes one complete chunk of fresh slots and owns its blocks, or reports why
  not and leaves the share as it was, with no block leaked.
\<close>

lemma fm_core_grow_chunk_cases:
  assumes "chunk_cap s = length (chunks s)"
  obtains (full) "chunk_cap s \<le> chunk_cnt s" "fm_core_grow_chunk s = Some (FM_ERR_FULL, s)"
  | (nomem) m where "chunk_cnt s < chunk_cap s"
      "fm_core_grow_chunk s = Some (FM_ERR_NOMEM, s\<lparr>allocs := m\<rparr>)"
  | (ok) m where "chunk_cnt s < chunk_cap s"
      "fm_core_grow_chunk s = Some (FM_ERR_OK, s\<lparr>chunks := (chunks s)[chunk_cnt s := Some new_chunk],
         chunk_cnt := chunk_cnt s + 1, allocs := m, live_blocks := live_blocks s + int (chunk_blocks s)\<rparr>)"
proof (cases "chunk_cap s \<le> chunk_cnt s")
  case True
  then show ?thesis by (intro full) (auto simp: fm_core_grow_chunk_def)
next
  case False
  then have lt: "chunk_cnt s < chunk_cap s" "chunk_cnt s < length (chunks s)" using assms by auto
  obtain ok1 s1 where a1: "core_alloc s (slot_size s * 4096) = (ok1, s1)"
    by (cases "core_alloc s (slot_size s * 4096)")
  note f1 = core_alloc_frame [OF a1]
  obtain ok2 s2 where a2: "(if keys s = 0 then (True, s1) else core_alloc s1 (8 * keys s)) = (ok2, s2)"
    by (cases "if keys s = 0 then (True, s1) else core_alloc s1 (8 * keys s)")
  have f2: "\<exists>m. s2 = s1\<lparr>allocs := m, live_blocks := live_blocks s1 + of_bool (ok2 \<and> keys s \<noteq> 0)\<rparr>"
  proof (cases "keys s = 0")
    case True
    with a2 show ?thesis by (intro exI [of _ "allocs s1"]) simp
  next
    case False
    then have "s2 = s1\<lparr>allocs := allocs s1 + 1, live_blocks := live_blocks s1 + of_bool ok2\<rparr>"
      using a2 by (auto dest: core_alloc_frame)
    with False show ?thesis by (intro exI [of _ "allocs s1 + 1"]) simp
  qed
  obtain ok3 s3 where a3: "grow_keys (keys s) 0 s2 = (ok3, s3)" by (cases "grow_keys (keys s) 0 s2")
  from grow_keys_frame [OF a3] obtain m3 where f3: "s3 = s2\<lparr>allocs := m3,
      live_blocks := (if ok3 then live_blocks s2 + int (keys s) else live_blocks s2 - int 0 - 2)\<rparr>" ..
  have k0: "keys s = 0 \<Longrightarrow> ok2 \<and> ok3" using a2 a3 by auto
  from f2 obtain m2 where
    f2': "s2 = s1\<lparr>allocs := m2, live_blocks := live_blocks s1 + of_bool (ok2 \<and> keys s \<noteq> 0)\<rparr>" by blast
  show ?thesis
  proof (cases "ok1 \<and> ok2 \<and> ok3")
    case True
    then have "fm_core_grow_chunk s = Some (FM_ERR_OK, s\<lparr>chunks := (chunks s)[chunk_cnt s := Some new_chunk],
         chunk_cnt := chunk_cnt s + 1, allocs := m3, live_blocks := live_blocks s + int (chunk_blocks s)\<rparr>)"
      using lt a1 a2 a3 f1 f2' f3
      by (auto simp: fm_core_grow_chunk_def Let_def chunk_blocks_def)
    then show ?thesis using lt by (intro ok)
  next
    case False
    then consider "\<not> ok1" | "ok1" "\<not> ok2" | "ok1" "ok2" "\<not> ok3" by blast
    then have "\<exists>m. fm_core_grow_chunk s = Some (FM_ERR_NOMEM, s\<lparr>allocs := m\<rparr>)"
    proof cases
      case 1
      then show ?thesis
        using lt a1 f1 by (intro exI [of _ "Suc (allocs s)"]) (simp add: fm_core_grow_chunk_def)
    next
      case 2
      then have "s2 = s1\<lparr>allocs := m2\<rparr>" using f2' by simp
      moreover have nz: "keys s \<noteq> 0" using k0 2 by blast
      moreover have "core_alloc s1 (8 * keys s) = (False, s2)" using a2 nz 2 by simp
      ultimately have "fm_core_grow_chunk s = Some (FM_ERR_NOMEM, s\<lparr>allocs := m2\<rparr>)"
        using 2 lt a1 f1 by (simp add: fm_core_grow_chunk_def core_dealloc_def)
      then show ?thesis by blast
    next
      case 3
      then have "keys s \<noteq> 0" using k0 by blast
      with 3 have "s3 = s\<lparr>allocs := m3\<rparr>" using f1 f2' f3 by simp
      with 3 show ?thesis
        using lt a1 a2 a3 by (intro exI [of _ m3]) (simp add: fm_core_grow_chunk_def)
    qed
    then show ?thesis using lt by (blast intro: nomem)
  qed
qed


section \<open>The free list\<close>

definition free_list :: "FM_SHARE_CORE \<Rightarrow> slot_id list \<Rightarrow> bool" where
  "free_list s F \<longleftrightarrow> linked (\<lambda>i. sl_free_next (slot_of (chunks s) i)) (free_head s) F
     \<and> (\<forall>i \<in> set F. has_slot (chunks s) i)"

lemma free_list_distinct: "free_list s F \<Longrightarrow> distinct F"
  by (auto simp: free_list_def dest: linked_distinct)

text \<open>Equality of two chunk arrays up to the free-list links of the slots.\<close>

definition same_but_free :: "FM_CHUNK option list \<Rightarrow> FM_CHUNK option list \<Rightarrow> bool" where
  "same_but_free C D \<longleftrightarrow> length C = length D \<and> (\<forall>c < length C. C ! c = None \<longleftrightarrow> D ! c = None)
     \<and> (\<forall>i. has_slot C i \<longleftrightarrow> has_slot D i) \<and> next_of C = next_of D
     \<and> (\<forall>i. has_slot C i \<longrightarrow> (slot_of C i)\<lparr>sl_free_next := 0\<rparr> = (slot_of D i)\<lparr>sl_free_next := 0\<rparr>)"

lemma same_but_free_refl [simp]: "same_but_free C C"
  by (simp add: same_but_free_def)

lemma same_but_free_trans: "same_but_free C D \<Longrightarrow> same_but_free D E \<Longrightarrow> same_but_free C E"
  by (auto simp: same_but_free_def)

lemma same_but_freeD:
  assumes "same_but_free C D" "has_slot C i"
  shows "sl_state (slot_of C i) = sl_state (slot_of D i)" "sl_wlock (slot_of C i) = sl_wlock (slot_of D i)"
    "sl_seq (slot_of C i) = sl_seq (slot_of D i)" "sl_gen (slot_of C i) = sl_gen (slot_of D i)"
    "sl_data (slot_of C i) = sl_data (slot_of D i)"
proof -
  have e: "(slot_of C i)\<lparr>sl_free_next := 0\<rparr> = (slot_of D i)\<lparr>sl_free_next := 0\<rparr>"
    using assms by (auto simp: same_but_free_def)
  show "sl_state (slot_of C i) = sl_state (slot_of D i)" using arg_cong [OF e, of sl_state] by simp
  show "sl_wlock (slot_of C i) = sl_wlock (slot_of D i)" using arg_cong [OF e, of sl_wlock] by simp
  show "sl_seq (slot_of C i) = sl_seq (slot_of D i)" using arg_cong [OF e, of sl_seq] by simp
  show "sl_gen (slot_of C i) = sl_gen (slot_of D i)" using arg_cong [OF e, of sl_gen] by simp
  show "sl_data (slot_of C i) = sl_data (slot_of D i)" using arg_cong [OF e, of sl_data] by simp
qed

lemma same_but_free_upd:
  "has_slot C i \<Longrightarrow> same_but_free (upd_slot C i ((slot_of C i)\<lparr>sl_free_next := n\<rparr>)) C"
  by (auto simp: same_but_free_def)

lemma layout_same_but_free:
  assumes "same_but_free C (chunks s)"
  shows "layout (s\<lparr>chunks := C, free_head := h\<rparr>) = layout s"
proof -
  have "length C = length (chunks s)" "\<And>c. c < length C \<Longrightarrow> C ! c = None \<longleftrightarrow> chunks s ! c = None"
    using assms by (auto simp: same_but_free_def)
  then show ?thesis by (cases "length C = chunk_cap s") (simp_all add: layout_def)
qed

lemma fm_core_free_slot_eq:
  assumes "has_slot (chunks s) i" "free_list s F" "i \<notin> set F"
  defines "C \<equiv> upd_slot (chunks s) i ((slot_of (chunks s) i)\<lparr>sl_free_next := free_head s\<rparr>)"
  shows "fm_core_free_slot s i = Some (s\<lparr>chunks := C, free_head := i\<rparr>)"
    and "same_but_free C (chunks s)"
    and "free_list (s\<lparr>chunks := C, free_head := i\<rparr>) (i # F)"
proof -
  show "fm_core_free_slot s i = Some (s\<lparr>chunks := C, free_head := i\<rparr>)"
    using assms by (simp add: fm_core_free_slot_def fm_defs)
  show "same_but_free C (chunks s)" using assms by (simp add: same_but_free_upd)
  have i: "i \<noteq> FM_NULL_SLOT" using assms(1) by auto
  have "linked (\<lambda>j. sl_free_next (slot_of C j)) (free_head s) F
      = linked (\<lambda>j. sl_free_next (slot_of (chunks s) j)) (free_head s) F"
    using assms by (intro linked_cong) auto
  then show "free_list (s\<lparr>chunks := C, free_head := i\<rparr>) (i # F)"
    using assms i by (simp add: free_list_def)
qed

lemma push_slots_eq:
  assumes "free_list s F" "distinct is"
    and "\<forall>i \<in> set is. i < 2 ^ 31 \<and> has_slot (chunks s) (int i) \<and> int i \<notin> set F"
  shows "\<exists>C h. push_slots is s = Some (s\<lparr>chunks := C, free_head := h\<rparr>) \<and> same_but_free C (chunks s)
    \<and> free_list (s\<lparr>chunks := C, free_head := h\<rparr>) (rev (map int is) @ F)"
  using assms
proof (induction "is" arbitrary: s F)
  case Nil
  then show ?case by (intro exI [of _ "chunks s"] exI [of _ "free_head s"]) simp
next
  case (Cons i "is")
  let ?C = "upd_slot (chunks s) (int i) ((slot_of (chunks s) (int i))\<lparr>sl_free_next := free_head s\<rparr>)"
  let ?s = "s\<lparr>chunks := ?C, free_head := int i\<rparr>"
  have i: "has_slot (chunks s) (int i)" "int i \<notin> set F" "i32_of i = int i"
    using Cons.prems(3) by (auto simp: cast_simps)
  note fs = fm_core_free_slot_eq [OF i(1) Cons.prems(1) i(2)]
  have "\<exists>C h. push_slots is ?s = Some (?s\<lparr>chunks := C, free_head := h\<rparr>) \<and> same_but_free C (chunks ?s)
    \<and> free_list (?s\<lparr>chunks := C, free_head := h\<rparr>) (rev (map int is) @ int i # F)"
    using Cons.prems fs(3) by (intro Cons.IH) auto
  then obtain C h where "push_slots is ?s = Some (?s\<lparr>chunks := C, free_head := h\<rparr>)"
    "same_but_free C ?C" "free_list (?s\<lparr>chunks := C, free_head := h\<rparr>) (rev (map int is) @ int i # F)"
    by auto
  then show ?case
    using fs(1,2) i(3)
    by (intro exI [of _ C] exI [of _ h]) (auto intro: same_but_free_trans)
qed


section \<open>Allocating a slot\<close>

text \<open>The arrays after a fresh chunk of slots has been appended.\<close>

definition grown :: "FM_CHUNK option list \<Rightarrow> FM_CHUNK option list \<Rightarrow> nat \<Rightarrow> bool" where
  "grown C D n \<longleftrightarrow> length C = length D \<and> (\<forall>c < length C. C ! c = None \<longleftrightarrow> D ! c = None \<and> c \<noteq> n)
     \<and> (\<forall>i. \<not> (int (n * FM_CHUNK_SIZE) \<le> i \<and> i < int ((n + 1) * FM_CHUNK_SIZE)) \<longrightarrow>
          (has_slot C i \<longleftrightarrow> has_slot D i) \<and> (\<forall>k. next_of C k i = next_of D k i)
          \<and> (has_slot C i \<longrightarrow> (slot_of C i)\<lparr>sl_free_next := 0\<rparr> = (slot_of D i)\<lparr>sl_free_next := 0\<rparr>))
     \<and> (\<forall>i. int (n * FM_CHUNK_SIZE) \<le> i \<and> i < int ((n + 1) * FM_CHUNK_SIZE) \<longrightarrow>
          has_slot C i \<and> (slot_of C i)\<lparr>sl_free_next := 0\<rparr> = FM_SLOT_init\<lparr>sl_free_next := 0\<rparr>)"

lemma grown_new_chunk: "n < length D \<Longrightarrow> grown (D[n := Some new_chunk]) D n"
  unfolding grown_def
  by (auto simp: nth_list_update has_slot_def get_chunk_grow slot_of_def get_slot_def next_of_def
      get_next_def new_chunk_def)

lemma grown_same_but_free:
  assumes "grown D E n" "same_but_free C D"
  shows "grown C E n"
  using assms unfolding grown_def same_but_free_def by simp

lemma layout_grown:
  assumes "layout s" "grown C (chunks s) (chunk_cnt s)" "chunk_cnt s < chunk_cap s"
  shows "layout (s\<lparr>chunks := C, chunk_cnt := chunk_cnt s + 1\<rparr>)"
proof -
  have "length C = chunk_cap s" using assms by (simp add: grown_def layout_def)
  moreover have "C ! c = None \<longleftrightarrow> chunk_cnt s + 1 \<le> c" if "c < chunk_cap s" for c
  proof -
    have "C ! c = None \<longleftrightarrow> chunks s ! c = None \<and> c \<noteq> chunk_cnt s"
      using assms(2) that \<open>length C = chunk_cap s\<close> by (simp add: grown_def)
    also have "chunks s ! c = None \<longleftrightarrow> chunk_cnt s \<le> c"
      using assms(1) that by (simp add: layout_def)
    finally show ?thesis by linarith
  qed
  ultimately show ?thesis using assms(1,3) by (simp add: layout_def)
qed

text \<open>
  The three ways an allocation can end: the head of the free list; a fresh chunk whose first slot
  is handed out and whose other slots below the limit are on the free list; or no slot, because
  the table is full or memory is short.
\<close>

lemma fm_core_alloc_slot_cases:
  assumes l: "layout s" and F: "free_list s F"
  obtains (pop) i F' s' where "F = i # F'" "fm_core_alloc_slot s = Some (i, s')"
      "s' = s\<lparr>free_head := sl_free_next (slot_of (chunks s) i)\<rparr>" "free_list s' F'"
  | (limit) "F = []" "chunk_cnt s = chunk_cap s" "fm_core_alloc_slot s = Some (FM_NULL_SLOT, s)"
  | (oom) m where "F = []" "chunk_cnt s < chunk_cap s"
      "fm_core_alloc_slot s = Some (FM_NULL_SLOT, s\<lparr>allocs := m\<rparr>)"
  | (fresh) C h m s' where "F = []" "chunk_cnt s < chunk_cap s"
      "s' = s\<lparr>chunks := C, chunk_cnt := chunk_cnt s + 1, free_head := h, allocs := m,
         live_blocks := live_blocks s + int (chunk_blocks s)\<rparr>"
      "fm_core_alloc_slot s = Some (int (total_slots s), s')" "grown C (chunks s) (chunk_cnt s)"
      "free_list s' (map int [total_slots s + 1 ..< min (total_slots s + FM_CHUNK_SIZE) (max_records s)])"
      "total_slots s < max_records s"
proof (cases F)
  case (Cons i F')
  then have i: "free_head s = i" "i \<noteq> FM_NULL_SLOT" "has_slot (chunks s) i"
    using F by (auto simp: free_list_def)
  then show ?thesis
    using Cons F by (intro pop [OF Cons]) (auto simp: fm_core_alloc_slot_def fm_defs free_list_def)
next
  case Nil
  then have h: "free_head s = FM_NULL_SLOT" using F by (simp add: free_list_def)
  have tot: "u32_of (chunk_cnt s * FM_CHUNK_SIZE) = total_slots s" "total_slots s < 2 ^ 31"
    using layout_slot_count [OF l] layout_total_bound [OF l] by (auto simp: fm_core_slot_count_def)
  have cap: "chunk_cap s = length (chunks s)" using l by (simp add: layout_def)
  show ?thesis
  proof (cases "max_records s \<le> total_slots s")
    case True
    then have "fm_core_alloc_slot s = Some (FM_NULL_SLOT, s)"
      using h tot by (simp add: fm_core_alloc_slot_def)
    with True show ?thesis using layout_full [OF l] by (intro limit [OF Nil]) auto
  next
    case False
    then have lt: "total_slots s < max_records s" by simp
    have mod0: "total_slots s mod FM_CHUNK_SIZE = 0" by (simp add: total_slots_def)
    from cap show ?thesis
    proof (cases rule: fm_core_grow_chunk_cases)
      case full
      then show ?thesis using layout_not_full [OF l lt] by simp
    next
      case (nomem m)
      then have "fm_core_alloc_slot s = Some (FM_NULL_SLOT, s\<lparr>allocs := m\<rparr>)"
        using h tot lt mod0 by (simp add: fm_core_alloc_slot_def)
      with nomem show ?thesis by (intro oom [OF Nil]) auto
    next
      case (ok m)
      let ?D = "(chunks s)[chunk_cnt s := Some new_chunk]"
      let ?s1 = "s\<lparr>chunks := ?D, chunk_cnt := chunk_cnt s + 1, allocs := m,
        live_blocks := live_blocks s + int (chunk_blocks s)\<rparr>"
      let ?e = "min (total_slots s + FM_CHUNK_SIZE) (max_records s)"
      have g: "grown ?D (chunks s) (chunk_cnt s)" using ok cap by (intro grown_new_chunk) simp
      have mr: "max_records s < 2 ^ 31" using l by (simp add: layout_def)
      have "free_list ?s1 []" using h by (simp add: free_list_def)
      moreover have "\<forall>i \<in> set (rev [total_slots s + 1 ..< ?e]). i < 2 ^ 31 \<and> has_slot (chunks ?s1) (int i) \<and> int i \<notin> set []"
        using g mr by (auto simp: grown_def total_slots_def)
      ultimately obtain C h' where p: "push_slots (rev [total_slots s + 1 ..< ?e]) ?s1 = Some (?s1\<lparr>chunks := C, free_head := h'\<rparr>)"
        and sb: "same_but_free C (chunks ?s1)"
        and fl: "free_list (?s1\<lparr>chunks := C, free_head := h'\<rparr>) (map int [total_slots s + 1 ..< ?e])"
        using push_slots_eq [of ?s1 "[]" "rev [total_slots s + 1 ..< ?e]"] by (auto simp: rev_map)
      let ?s2 = "s\<lparr>chunks := C, chunk_cnt := chunk_cnt s + 1, free_head := h', allocs := m,
        live_blocks := live_blocks s + int (chunk_blocks s)\<rparr>"
      have s2: "?s1\<lparr>chunks := C, free_head := h'\<rparr> = ?s2" by simp
      have e: "u32_of (total_slots s + FM_CHUNK_SIZE) = total_slots s + FM_CHUNK_SIZE"
        "(if total_slots s + FM_CHUNK_SIZE > max_records s then max_records s else total_slots s + FM_CHUNK_SIZE) = ?e"
        using tot by (auto simp: cast_simps)
      have "fm_core_alloc_slot s = Some (int (total_slots s), ?s2)"
        using h tot lt mod0 ok(2) p e s2
        by (cases "max_records s < total_slots s + FM_CHUNK_SIZE")
          (simp_all add: fm_core_alloc_slot_def cast_simps Let_def min_def del: FM_CHUNK_SIZE_eq)
      moreover have "grown C (chunks s) (chunk_cnt s)" using g sb by (auto intro: grown_same_but_free)
      ultimately show ?thesis
        using ok(1) fl lt unfolding s2 by (intro fresh [OF Nil]) auto
    qed
  qed
qed

end
