(* ===== verification/Fm_Chain.thy ===== *)
theory Fm_Chain
  imports Fm_Slots
begin

text \<open>
  Hash chains, scans and point lookups of the concurrency core (\<open>src/fm_core.h\<close>, lines 479 to
  620): \<open>fm_core_chain_unlink\<close>, \<open>fm_core_chain_link\<close>, \<open>fm_core_scan_next\<close>, \<open>fm_core_find\<close>,
  \<open>fm_core_find_next\<close>, \<open>fm_core_dup_check\<close>.

  Each walk is a loop over the links of the chain; the lemmas turn it into the corresponding
  function on the list of nodes the chain visits, and so prove that it ends.
\<close>

section \<open>Operations\<close>

text \<open>The pointer \<open>link\<close> of the unlink loop: to a bucket head or to a chain cell of a slot.\<close>

datatype fm_link = LinkHead u32 | LinkNext slot_id

definition read_link :: "FM_SHARE_CORE \<Rightarrow> nat \<Rightarrow> fm_link \<Rightarrow> slot_id option" where
  "read_link s k l = (case l of LinkHead b \<Rightarrow> get_head (keydef s) k b | LinkNext i \<Rightarrow> fm_key_next s k i)"

definition write_link :: "FM_SHARE_CORE \<Rightarrow> nat \<Rightarrow> fm_link \<Rightarrow> slot_id \<Rightarrow> FM_SHARE_CORE" where
  "write_link s k l v =
     (case l of LinkHead b \<Rightarrow> s\<lparr>keydef := upd_head (keydef s) k b v\<rparr> | LinkNext i \<Rightarrow> put_key_next s k i v)"

partial_function (option) unlink_loop ::
  "FM_SHARE_CORE \<Rightarrow> nat \<Rightarrow> slot_id \<Rightarrow> fm_link \<Rightarrow> (fm_rc \<times> FM_SHARE_CORE) option" where
  "unlink_loop s k idx link = do {
     cur \<leftarrow> read_link s k link;
     if cur = FM_NULL_SLOT then Some (FM_ERR_NOT_FOUND, s)
     else if cur = idx then do {
       nx \<leftarrow> fm_key_next s k idx;
       Some (FM_ERR_OK, write_link s k link nx) }
     else unlink_loop s k idx (LinkNext cur) }"

definition fm_core_chain_unlink ::
  "FM_SHARE_CORE \<Rightarrow> nat \<Rightarrow> u32 \<Rightarrow> slot_id \<Rightarrow> (fm_rc \<times> FM_SHARE_CORE) option" where
  "fm_core_chain_unlink s k b idx = unlink_loop s k idx (LinkHead b)"

definition fm_core_chain_link ::
  "FM_SHARE_CORE \<Rightarrow> nat \<Rightarrow> u32 \<Rightarrow> slot_id \<Rightarrow> FM_SHARE_CORE option" where
  "fm_core_chain_link s k b idx = do {
     h \<leftarrow> get_head (keydef s) k b;
     _ \<leftarrow> fm_key_next s k idx;
     let s1 = put_key_next s k idx h;
     Some (s1\<lparr>keydef := upd_head (keydef s1) k b idx\<rparr>) }"

function (sequential) scan_loop ::
  "FM_SHARE_CORE \<Rightarrow> nat \<Rightarrow> nat \<Rightarrow> image \<Rightarrow> (fm_rc \<times> nat \<times> image) option" where
  "scan_loop s bound pos buf =
     (if pos < bound then do {
        (rc, buf1) \<leftarrow> fm_core_read_row s (i32_of pos) False 0 buf;
        if rc = FM_ERR_OK then Some (FM_ERR_OK, pos + 1, buf1)
        else scan_loop s bound (pos + 1) buf1 }
      else Some (FM_ERR_EOF, pos, buf))"
  by pat_completeness auto
termination
  by (relation "measure (\<lambda>(s, bound, pos, buf). bound - pos)") auto

declare scan_loop.simps [simp del]

definition fm_core_scan_next ::
  "FM_SHARE_CORE \<Rightarrow> nat \<Rightarrow> image \<Rightarrow> (fm_rc \<times> nat \<times> image) option" where
  "fm_core_scan_next s pos buf = scan_loop s (fm_core_slot_count s) pos buf"

partial_function (option) find_loop ::
  "FM_SHARE_CORE \<Rightarrow> FM_KEY_CORE \<Rightarrow> nat \<Rightarrow> image \<Rightarrow> slot_id \<Rightarrow> image \<Rightarrow> slot_id
    \<Rightarrow> (fm_rc \<times> slot_id \<times> image) option" where
  "find_loop s kc key packed_key out buf h =
     (if h = FM_NULL_SLOT then Some (FM_ERR_NOT_FOUND, out, buf)
      else do {
        (rc, buf1) \<leftarrow> fm_core_read_row s h False 0 buf;
        hit \<leftarrow> (if rc = FM_ERR_OK
                then do { cmp \<leftarrow> cmp_rec_key (kc_ops kc); Some (cmp buf1 packed_key = 0) }
                else Some False);
        if hit then Some (FM_ERR_OK, h, buf1)
        else do {
          h1 \<leftarrow> fm_key_next s key h;
          find_loop s kc key packed_key out buf1 h1 } })"

definition fm_core_find ::
  "FM_SHARE_CORE \<Rightarrow> nat \<Rightarrow> image \<Rightarrow> image \<Rightarrow> slot_id
    \<Rightarrow> ((fm_rc \<times> slot_id \<times> image) \<times> FM_SHARE_CORE) option" where
  "fm_core_find s key packed_key buf out = do {
     kc \<leftarrow> fm_key s key;
     hash \<leftarrow> hash_key (kc_ops kc);
     let b = fm_bucket kc (hash packed_key);
     s1 \<leftarrow> lock_bucket s key b;
     h \<leftarrow> get_head (keydef s1) key b;
     r \<leftarrow> find_loop s1 kc key packed_key out buf h;
     s2 \<leftarrow> unlock_bucket s1 key b;
     Some (r, s2) }"

partial_function (option) find_next_loop ::
  "FM_SHARE_CORE \<Rightarrow> FM_KEY_CORE \<Rightarrow> nat \<Rightarrow> image \<Rightarrow> slot_id \<Rightarrow> slot_id \<Rightarrow> image \<Rightarrow> bool \<Rightarrow> slot_id
    \<Rightarrow> (fm_rc \<times> slot_id \<times> image) option" where
  "find_next_loop s kc key packed_key cur out buf after_cur h =
     (if h = FM_NULL_SLOT then Some (FM_ERR_NOT_FOUND, out, buf)
      else if h = cur then do {
        h1 \<leftarrow> fm_key_next s key h;
        find_next_loop s kc key packed_key cur out buf True h1 }
      else if \<not> after_cur then do {
        h1 \<leftarrow> fm_key_next s key h;
        find_next_loop s kc key packed_key cur out buf after_cur h1 }
      else do {
        (rc, buf1) \<leftarrow> fm_core_read_row s h False 0 buf;
        hit \<leftarrow> (if rc = FM_ERR_OK
                then do { cmp \<leftarrow> cmp_rec_key (kc_ops kc); Some (cmp buf1 packed_key = 0) }
                else Some False);
        if hit then Some (FM_ERR_OK, h, buf1)
        else do {
          h1 \<leftarrow> fm_key_next s key h;
          find_next_loop s kc key packed_key cur out buf1 after_cur h1 } })"

definition fm_core_find_next ::
  "FM_SHARE_CORE \<Rightarrow> nat \<Rightarrow> image \<Rightarrow> slot_id \<Rightarrow> image \<Rightarrow> slot_id
    \<Rightarrow> ((fm_rc \<times> slot_id \<times> image) \<times> FM_SHARE_CORE) option" where
  "fm_core_find_next s key packed_key cur buf out = do {
     kc \<leftarrow> fm_key s key;
     hash \<leftarrow> hash_key (kc_ops kc);
     let b = fm_bucket kc (hash packed_key);
     s1 \<leftarrow> lock_bucket s key b;
     h \<leftarrow> get_head (keydef s1) key b;
     r \<leftarrow> find_next_loop s1 kc key packed_key cur out buf False h;
     s2 \<leftarrow> unlock_bucket s1 key b;
     Some (r, s2) }"

text \<open>
  The scratch buffer of the duplicate check is overwritten before it is read, so it is not a
  parameter.
\<close>

partial_function (option) dup_loop ::
  "FM_SHARE_CORE \<Rightarrow> FM_KEY_CORE \<Rightarrow> nat \<Rightarrow> image \<Rightarrow> slot_id \<Rightarrow> fm_rc option" where
  "dup_loop s kc k rec h =
     (if h = FM_NULL_SLOT then Some FM_ERR_OK
      else do {
        (rc, scratch) \<leftarrow> fm_core_read_row s h False 0 [];
        hit \<leftarrow> (if rc = FM_ERR_OK
                then do { cmp \<leftarrow> cmp_rec_rec (kc_ops kc); Some (cmp scratch rec = 0) }
                else Some False);
        if hit then Some FM_ERR_DUP_KEY
        else do {
          h1 \<leftarrow> fm_key_next s k h;
          dup_loop s kc k rec h1 } })"

definition fm_core_dup_check :: "FM_SHARE_CORE \<Rightarrow> nat \<Rightarrow> u32 \<Rightarrow> image \<Rightarrow> fm_rc option" where
  "fm_core_dup_check s k b rec = do {
     kc \<leftarrow> fm_key s k;
     if kc_unique kc \<and> \<not> (case has_null_part (kc_ops kc) of None \<Rightarrow> False | Some f \<Rightarrow> f rec \<noteq> 0)
     then do { h \<leftarrow> get_head (keydef s) k b; dup_loop s kc k rec h }
     else Some FM_ERR_OK }"

section \<open>The rows of a share\<close>

text \<open>
  The abstract table behind a share: the image of every active slot. This is what an operation
  promises about; chains, free list and locks are its implementation.
\<close>

definition active :: "FM_SHARE_CORE \<Rightarrow> slot_id \<Rightarrow> bool" where
  "active s i \<longleftrightarrow> has_slot (chunks s) i \<and> sl_state (slot_of (chunks s) i) = FM_SLOT_ACTIVE"

definition rows :: "FM_SHARE_CORE \<Rightarrow> slot_id \<rightharpoonup> image" where
  "rows s i = (if active s i then Some (take (reclength s) (sl_data (slot_of (chunks s) i))) else None)"

definition row_matches :: "FM_SHARE_CORE \<Rightarrow> (image \<Rightarrow> bool) \<Rightarrow> slot_id \<Rightarrow> bool" where
  "row_matches s P i \<longleftrightarrow> (case rows s i of None \<Rightarrow> False | Some r \<Rightarrow> P r)"

definition quiet :: "FM_SHARE_CORE \<Rightarrow> bool" where
  "quiet s \<longleftrightarrow> (\<forall>i. has_slot (chunks s) i \<longrightarrow> even (sl_seq (slot_of (chunks s) i)))"

lemma rows_eq_None_iff: "rows s i = None \<longleftrightarrow> \<not> active s i"
  by (simp add: rows_def)

lemma active_has_slot: "active s i \<Longrightarrow> has_slot (chunks s) i"
  by (simp add: active_def)

lemma read_row_quiet:
  assumes "quiet s" "has_slot (chunks s) i"
  shows "fm_core_read_row s i False g buf =
    Some (case rows s i of None \<Rightarrow> (FM_ERR_DELETED, buf) | Some r \<Rightarrow> (FM_ERR_OK, r))"
  using assms by (simp add: fm_core_read_row_eq fm_defs quiet_def rows_def active_def)

lemma read_row_gen:
  assumes "quiet s" "has_slot (chunks s) i"
  shows "fm_core_read_row s i True g buf =
    Some (case rows s i of None \<Rightarrow> (FM_ERR_DELETED, buf)
          | Some r \<Rightarrow> if sl_gen (slot_of (chunks s) i) = g then (FM_ERR_OK, r) else (FM_ERR_DELETED, buf))"
  using assms by (simp add: fm_core_read_row_eq fm_defs quiet_def rows_def active_def)

section \<open>Walks over a chain\<close>

lemma find_loop_eq:
  assumes "quiet s" "k < keys s" "cmp_rec_key (kc_ops kc) = Some cmp"
    and "linked (next_of (chunks s) k) h xs" "\<forall>i \<in> set xs. has_slot (chunks s) i"
  shows "\<exists>buf'. find_loop s kc k pk out buf h =
    Some (case find (row_matches s (\<lambda>r. cmp r pk = 0)) xs of
            None \<Rightarrow> (FM_ERR_NOT_FOUND, out, buf')
          | Some i \<Rightarrow> (FM_ERR_OK, i, the (rows s i)))"
  using assms(4,5)
proof (induction xs arbitrary: h buf)
  case Nil
  then show ?case by (simp add: find_loop.simps)
next
  case (Cons x xs)
  then have x: "h = x" "x \<noteq> FM_NULL_SLOT" "has_slot (chunks s) x" by auto
  show ?case
  proof (cases "row_matches s (\<lambda>r. cmp r pk = 0) x")
    case True
    then obtain r where "rows s x = Some r" "cmp r pk = 0"
      by (auto simp: row_matches_def split: option.splits)
    with True x show ?thesis
      by (subst find_loop.simps) (simp add: read_row_quiet assms)
  next
    case False
    let ?buf = "case rows s x of None \<Rightarrow> buf | Some r \<Rightarrow> r"
    have "find_loop s kc k pk out buf h = find_loop s kc k pk out ?buf (next_of (chunks s) k x)"
      using False x assms(1-3)
      by (subst find_loop.simps)
        (auto simp: read_row_quiet row_matches_def fm_key_next_def split: option.splits)
    with False Cons.IH [of "next_of (chunks s) k x" ?buf] Cons.prems show ?thesis by simp
  qed
qed

lemma dup_loop_eq:
  assumes "quiet s" "k < keys s" "cmp_rec_rec (kc_ops kc) = Some cmp"
    and "linked (next_of (chunks s) k) h xs" "\<forall>i \<in> set xs. has_slot (chunks s) i"
  shows "dup_loop s kc k rec h =
    Some (if \<exists>i \<in> set xs. row_matches s (\<lambda>r. cmp r rec = 0) i then FM_ERR_DUP_KEY else FM_ERR_OK)"
  using assms(4,5)
proof (induction xs arbitrary: h)
  case Nil
  then show ?case by (simp add: dup_loop.simps)
next
  case (Cons x xs)
  then have x: "h = x" "x \<noteq> FM_NULL_SLOT" "has_slot (chunks s) x" by auto
  show ?case
  proof (cases "row_matches s (\<lambda>r. cmp r rec = 0) x")
    case True
    then obtain r where "rows s x = Some r" "cmp r rec = 0"
      by (auto simp: row_matches_def split: option.splits)
    with True x show ?thesis
      by (subst dup_loop.simps) (simp add: read_row_quiet assms)
  next
    case False
    have "dup_loop s kc k rec h = dup_loop s kc k rec (next_of (chunks s) k x)"
      using False x assms(1-3)
      by (subst dup_loop.simps)
        (auto simp: read_row_quiet row_matches_def fm_key_next_def split: option.splits)
    with False Cons show ?thesis by simp
  qed
qed

text \<open>The nodes of a chain behind a given one; none when it is not in the chain.\<close>

definition nodes_after :: "slot_id \<Rightarrow> slot_id list \<Rightarrow> slot_id list" where
  "nodes_after cur xs = tl (dropWhile (\<lambda>x. x \<noteq> cur) xs)"

lemma nodes_after_Nil [simp]: "nodes_after cur [] = []"
  by (simp add: nodes_after_def)

lemma nodes_after_Cons [simp]:
  "nodes_after cur (x # xs) = (if x = cur then xs else nodes_after cur xs)"
  by (simp add: nodes_after_def)

lemma nodes_after_notin: "cur \<notin> set xs \<Longrightarrow> nodes_after cur xs = []"
  by (induction xs) auto

lemma find_next_loop_after:
  assumes "quiet s" "k < keys s" "cmp_rec_key (kc_ops kc) = Some cmp"
    and "linked (next_of (chunks s) k) h xs" "\<forall>i \<in> set xs. has_slot (chunks s) i" "cur \<notin> set xs"
  shows "\<exists>buf'. find_next_loop s kc k pk cur out buf True h =
    Some (case find (row_matches s (\<lambda>r. cmp r pk = 0)) xs of
            None \<Rightarrow> (FM_ERR_NOT_FOUND, out, buf')
          | Some i \<Rightarrow> (FM_ERR_OK, i, the (rows s i)))"
  using assms(4-6)
proof (induction xs arbitrary: h buf)
  case Nil
  then show ?case by (simp add: find_next_loop.simps)
next
  case (Cons x xs)
  then have x: "h = x" "x \<noteq> FM_NULL_SLOT" "has_slot (chunks s) x" "x \<noteq> cur" by auto
  show ?case
  proof (cases "row_matches s (\<lambda>r. cmp r pk = 0) x")
    case True
    then obtain r where "rows s x = Some r" "cmp r pk = 0"
      by (auto simp: row_matches_def split: option.splits)
    with True x show ?thesis
      by (subst find_next_loop.simps) (simp add: read_row_quiet assms)
  next
    case False
    let ?buf = "case rows s x of None \<Rightarrow> buf | Some r \<Rightarrow> r"
    have "find_next_loop s kc k pk cur out buf True h
        = find_next_loop s kc k pk cur out ?buf True (next_of (chunks s) k x)"
      using False x assms(1-3)
      by (subst find_next_loop.simps)
        (auto simp: read_row_quiet row_matches_def fm_key_next_def split: option.splits)
    with False Cons.IH [of "next_of (chunks s) k x" ?buf] Cons.prems show ?thesis by simp
  qed
qed

lemma find_next_loop_eq:
  assumes "quiet s" "k < keys s" "cmp_rec_key (kc_ops kc) = Some cmp"
    and "linked (next_of (chunks s) k) h xs" "\<forall>i \<in> set xs. has_slot (chunks s) i"
  shows "\<exists>buf'. find_next_loop s kc k pk cur out buf False h =
    Some (case find (row_matches s (\<lambda>r. cmp r pk = 0)) (nodes_after cur xs) of
            None \<Rightarrow> (FM_ERR_NOT_FOUND, out, buf')
          | Some i \<Rightarrow> (FM_ERR_OK, i, the (rows s i)))"
  using assms(4,5)
proof (induction xs arbitrary: h)
  case Nil
  then show ?case by (simp add: find_next_loop.simps)
next
  case (Cons x xs)
  then have x: "h = x" "x \<noteq> FM_NULL_SLOT" "has_slot (chunks s) x" by auto
  have d: "x \<notin> set xs" using linked_distinct [OF Cons.prems(1)] by simp
  have "find_next_loop s kc k pk cur out buf False h
      = find_next_loop s kc k pk cur out buf (x = cur) (next_of (chunks s) k x)"
    using x assms(1-3) by (subst find_next_loop.simps) (auto simp: fm_key_next_def)
  then show ?case
    using Cons d find_next_loop_after [OF assms(1-3), of "next_of (chunks s) k x" xs cur pk out buf]
    by (cases "x = cur") auto
qed

lemma scan_loop_eq:
  assumes "quiet s" "bound \<le> 2 ^ 31" "\<forall>i < bound. has_slot (chunks s) (int i)"
  shows "\<exists>pos' buf'. scan_loop s bound pos buf =
    Some (case find (\<lambda>i. active s (int i)) [pos ..< bound] of
            None \<Rightarrow> (FM_ERR_EOF, pos', buf')
          | Some i \<Rightarrow> (FM_ERR_OK, i + 1, the (rows s (int i))))
    \<and> pos' = max pos bound"
proof (induction "bound - pos" arbitrary: pos buf)
  case 0
  then show ?case by (subst scan_loop.simps) simp
next
  case (Suc n)
  then have lt: "pos < bound" by simp
  then have p: "has_slot (chunks s) (int pos)" "i32_of pos = int pos"
    using assms by (auto simp: cast_simps)
  have upt: "[pos ..< bound] = pos # [pos + 1 ..< bound]" using lt by (simp add: upt_rec)
  show ?case
  proof (cases "active s (int pos)")
    case True
    then obtain r where "rows s (int pos) = Some r" using rows_eq_None_iff by fastforce
    with True lt p show ?thesis
      by (subst scan_loop.simps) (simp add: read_row_quiet assms upt)
  next
    case False
    have "scan_loop s bound pos buf = scan_loop s bound (pos + 1) buf"
      using False lt p assms by (subst scan_loop.simps) (simp add: read_row_quiet rows_def)
    moreover have "n = bound - (pos + 1)" using Suc by simp
    ultimately show ?thesis using Suc.hyps(1) [of "pos + 1" buf] False lt upt by (simp add: max_def)
  qed
qed

section \<open>Changing the links of a chain\<close>

text \<open>
  Linking and unlinking change bucket heads and chain cells only: slots, locks and the definitions
  of the keys stay as they are.
\<close>

definition slots_same :: "FM_CHUNK option list \<Rightarrow> FM_CHUNK option list \<Rightarrow> bool" where
  "slots_same C D \<longleftrightarrow> length C = length D \<and> (\<forall>c < length C. C ! c = None \<longleftrightarrow> D ! c = None)
     \<and> has_slot C = has_slot D \<and> slot_of C = slot_of D"

definition keys_same :: "FM_KEY_CORE list \<Rightarrow> FM_KEY_CORE list \<Rightarrow> bool" where
  "keys_same K L \<longleftrightarrow> length K = length L \<and> has_bucket K = has_bucket L \<and> lock_of K = lock_of L
     \<and> (\<forall>k. kc_ops (K ! k) = kc_ops (L ! k) \<and> kc_unique (K ! k) = kc_unique (L ! k)
           \<and> kc_nbuckets (K ! k) = kc_nbuckets (L ! k))"

definition links_changed :: "FM_SHARE_CORE \<Rightarrow> FM_SHARE_CORE \<Rightarrow> bool" where
  "links_changed s s' \<longleftrightarrow>
     (\<exists>C K. s' = s\<lparr>chunks := C, keydef := K\<rparr> \<and> slots_same C (chunks s) \<and> keys_same K (keydef s))"

lemma links_changed_refl [simp]: "links_changed s s"
  unfolding links_changed_def
  by (intro exI [of _ "chunks s"] exI [of _ "keydef s"]) (simp add: slots_same_def keys_same_def)

lemma links_changed_trans:
  assumes "links_changed s t" "links_changed t u"
  shows "links_changed s u"
proof -
  obtain C K where t: "t = s\<lparr>chunks := C, keydef := K\<rparr>" "slots_same C (chunks s)" "keys_same K (keydef s)"
    using assms(1) by (auto simp: links_changed_def)
  obtain D L where u: "u = t\<lparr>chunks := D, keydef := L\<rparr>" "slots_same D (chunks t)" "keys_same L (keydef t)"
    using assms(2) by (auto simp: links_changed_def)
  have "u = s\<lparr>chunks := D, keydef := L\<rparr>" using t(1) u(1) by simp
  moreover have "slots_same D (chunks s)" using t(1,2) u(2) by (simp add: slots_same_def)
  moreover have "keys_same L (keydef s)" using t(1,3) u(3) by (simp add: keys_same_def)
  ultimately show ?thesis unfolding links_changed_def by blast
qed

lemma links_changedD:
  assumes "links_changed s s'"
  shows "slot_of (chunks s') = slot_of (chunks s)" "has_slot (chunks s') = has_slot (chunks s)"
    "keys s' = keys s" "length (keydef s') = length (keydef s)"
    "has_bucket (keydef s') = has_bucket (keydef s)" "lock_of (keydef s') = lock_of (keydef s)"
    "kc_ops (keydef s' ! k) = kc_ops (keydef s ! k)" "kc_unique (keydef s' ! k) = kc_unique (keydef s ! k)"
    "kc_nbuckets (keydef s' ! k) = kc_nbuckets (keydef s ! k)"
    "free_head s' = free_head s" "records s' = records s" "reclength s' = reclength s"
    "struct_mutex s' = struct_mutex s" "max_records s' = max_records s" "chunk_cnt s' = chunk_cnt s"
    "chunk_cap s' = chunk_cap s" "auto_inc s' = auto_inc s" "auto_key s' = auto_key s"
  using assms by (auto simp: links_changed_def slots_same_def keys_same_def)

lemma links_changed_rows: "links_changed s s' \<Longrightarrow> rows s' = rows s"
  by (auto simp: rows_def active_def links_changedD)

lemma links_changed_quiet: "links_changed s s' \<Longrightarrow> quiet s' = quiet s"
  by (simp add: quiet_def links_changedD)

lemma links_changed_layout: "links_changed s s' \<Longrightarrow> layout s' = layout s"
proof -
  assume "links_changed s s'"
  then obtain C K where s': "s' = s\<lparr>chunks := C, keydef := K\<rparr>" and "slots_same C (chunks s)"
    by (auto simp: links_changed_def)
  then have "length C = length (chunks s)" "\<And>c. c < length C \<Longrightarrow> C ! c = None \<longleftrightarrow> chunks s ! c = None"
    by (auto simp: slots_same_def)
  then show ?thesis unfolding s' by (cases "length C = chunk_cap s") (simp_all add: layout_def)
qed

lemma links_changed_free_list: "links_changed s s' \<Longrightarrow> free_list s' F = free_list s F"
  by (simp add: free_list_def links_changedD)

text \<open>\<open>chains s CH\<close>: bucket \<open>b\<close> of key \<open>k\<close> is the chain of nodes \<open>CH k b\<close>.\<close>

type_synonym chain_map = "nat \<Rightarrow> u32 \<Rightarrow> slot_id list"

definition chains :: "FM_SHARE_CORE \<Rightarrow> chain_map \<Rightarrow> bool" where
  "chains s CH \<longleftrightarrow> (\<forall>k < keys s.
     (\<forall>b. has_bucket (keydef s) k b \<longrightarrow>
        linked (next_of (chunks s) k) (head_of (keydef s) k b) (CH k b)
        \<and> (\<forall>i \<in> set (CH k b). has_slot (chunks s) i))
     \<and> (\<forall>b b'. has_bucket (keydef s) k b \<longrightarrow> has_bucket (keydef s) k b' \<longrightarrow> b \<noteq> b' \<longrightarrow>
          set (CH k b) \<inter> set (CH k b') = {}))"

definition set_chain :: "chain_map \<Rightarrow> nat \<Rightarrow> u32 \<Rightarrow> slot_id list \<Rightarrow> chain_map" where
  "set_chain CH k b xs = CH(k := (CH k)(b := xs))"

lemma set_chain_same [simp]: "set_chain CH k b xs k b = xs"
  by (simp add: set_chain_def)

lemma set_chain_apply: "set_chain CH k b xs k' b' = (if k' = k \<and> b' = b then xs else CH k' b')"
  by (simp add: set_chain_def)

lemma set_chain_id [simp]: "set_chain CH k b (CH k b) = CH"
  by (simp add: set_chain_def)

lemma chainsD:
  assumes "chains s CH" "k < keys s" "has_bucket (keydef s) k b"
  shows "linked (next_of (chunks s) k) (head_of (keydef s) k b) (CH k b)"
    "i \<in> set (CH k b) \<Longrightarrow> has_slot (chunks s) i"
    "has_bucket (keydef s) k b' \<Longrightarrow> b \<noteq> b' \<Longrightarrow> set (CH k b) \<inter> set (CH k b') = {}"
  using assms by (auto simp: chains_def)

lemma chains_distinct:
  "chains s CH \<Longrightarrow> k < keys s \<Longrightarrow> has_bucket (keydef s) k b \<Longrightarrow> distinct (CH k b)"
  by (auto dest: chainsD(1) linked_distinct)

text \<open>Writing one chain cell and one head of a key keeps every chain that does not visit the cell.\<close>

lemma chains_write:
  assumes c: "chains s CH" and k: "k < keys s" and b: "has_bucket (keydef s) k b"
    and i: "has_slot (chunks s) i"
    and lk: "linked ((next_of (chunks s) k)(i := v)) h xs"
    and xs: "\<And>j. j \<in> set xs \<Longrightarrow> has_slot (chunks s) j"
    and other: "\<And>b'. has_bucket (keydef s) k b' \<Longrightarrow> b' \<noteq> b \<Longrightarrow> i \<notin> set (CH k b') \<and> set xs \<inter> set (CH k b') = {}"
  shows "chains (s\<lparr>chunks := upd_next (chunks s) k i v, keydef := upd_head (keydef s) k b h\<rparr>) (set_chain CH k b xs)"
proof -
  let ?s = "s\<lparr>chunks := upd_next (chunks s) k i v, keydef := upd_head (keydef s) k b h\<rparr>"
  have 1: "linked (next_of (chunks ?s) k') (head_of (keydef ?s) k' b') (set_chain CH k b xs k' b')
       \<and> (\<forall>j \<in> set (set_chain CH k b xs k' b'). has_slot (chunks ?s) j)"
    if k': "k' < keys s" and b': "has_bucket (keydef s) k' b'" for k' b'
  proof (cases "k' = k \<and> b' = b")
    case True
    then show ?thesis using lk xs i b by simp
  next
    case False
    have "linked (next_of (chunks s) k') (head_of (keydef s) k' b') (CH k' b')"
      using c k' b' by (rule chainsD(1))
    moreover have "k' = k \<Longrightarrow> i \<notin> set (CH k' b')" using other b' False by auto
    ultimately show ?thesis
      using False chainsD(2) [OF c k' b'] i b by (cases "k' = k") (auto simp: set_chain_apply)
  qed
  have 2: "set (set_chain CH k b xs k' b1) \<inter> set (set_chain CH k b xs k' b2) = {}"
    if "k' < keys s" "has_bucket (keydef s) k' b1" "has_bucket (keydef s) k' b2" "b1 \<noteq> b2" for k' b1 b2
    using chainsD(3) [OF c that(1,2,3,4)] other that by (auto simp: set_chain_apply)
  show ?thesis using 1 2 by (simp add: chains_def)
qed

lemma links_changed_write:
  "links_changed s (s\<lparr>chunks := upd_next (chunks s) k i v, keydef := upd_head (keydef s) k b h\<rparr>)"
  unfolding links_changed_def slots_same_def keys_same_def
  by (intro exI [of _ "upd_next (chunks s) k i v"] exI [of _ "upd_head (keydef s) k b h"])
    (auto simp: fun_eq_iff)

lemma chain_link_eq:
  assumes c: "chains s CH" and k: "k < keys s" and b: "has_bucket (keydef s) k b"
    and i: "has_slot (chunks s) i" and new: "\<And>b'. has_bucket (keydef s) k b' \<Longrightarrow> i \<notin> set (CH k b')"
  shows "\<exists>s'. fm_core_chain_link s k b i = Some s' \<and> links_changed s s'
    \<and> chains s' (set_chain CH k b (i # CH k b))"
proof -
  let ?h = "head_of (keydef s) k b"
  let ?s = "s\<lparr>chunks := upd_next (chunks s) k i ?h, keydef := upd_head (keydef s) k b i\<rparr>"
  have "fm_core_chain_link s k b i = Some ?s"
    using k b i by (simp add: fm_core_chain_link_def fm_defs)
  moreover have "links_changed s ?s" by (rule links_changed_write)
  moreover have "chains ?s (set_chain CH k b (i # CH k b))"
  proof (rule chains_write [OF c k b i])
    have "i \<noteq> FM_NULL_SLOT" using i by auto
    then show "linked ((next_of (chunks s) k)(i := ?h)) i (i # CH k b)"
      using chainsD(1) [OF c k b] new [OF b] by simp
    show "\<And>j. j \<in> set (i # CH k b) \<Longrightarrow> has_slot (chunks s) j"
      using i chainsD(2) [OF c k b] by auto
    show "i \<notin> set (CH k b') \<and> set (i # CH k b) \<inter> set (CH k b') = {}"
      if "has_bucket (keydef s) k b'" "b' \<noteq> b" for b'
      using new [OF that(1)] chainsD(3) [OF c k b that(1)] that(2) by auto
  qed
  ultimately show ?thesis by blast
qed


text \<open>
  The unlink loop, started on the cell in front of the nodes \<open>ys @ idx # zs\<close>, makes the cell in
  front of \<open>idx\<close> point past it.
\<close>

lemma unlink_loop_found:
  assumes k: "k < keys s"
    and lk: "read_link s k l = Some h" "linked (next_of (chunks s) k) h (ys @ idx # zs)"
    and nodes: "\<forall>i \<in> set (ys @ idx # zs). has_slot (chunks s) i" and ys: "idx \<notin> set ys"
  shows "unlink_loop s k idx l = Some (FM_ERR_OK,
    write_link s k (if ys = [] then l else LinkNext (last ys)) (next_of (chunks s) k idx))"
  using lk nodes ys
proof (induction ys arbitrary: l h)
  case Nil
  then show ?case using k by (subst unlink_loop.simps) (auto simp: fm_key_next_def)
next
  case (Cons y ys)
  then have y: "h = y" "y \<noteq> FM_NULL_SLOT" "y \<noteq> idx" "has_slot (chunks s) y" by auto
  then have "unlink_loop s k idx l = unlink_loop s k idx (LinkNext y)"
    using Cons.prems(1) by (subst unlink_loop.simps) simp
  also have "\<dots> = Some (FM_ERR_OK,
    write_link s k (if ys = [] then LinkNext y else LinkNext (last ys)) (next_of (chunks s) k idx))"
    using Cons y k by (intro Cons.IH [of _ "next_of (chunks s) k y"]) (auto simp: read_link_def fm_key_next_def)
  finally show ?case by simp
qed

lemma unlink_loop_missing:
  assumes k: "k < keys s"
    and lk: "read_link s k l = Some h" "linked (next_of (chunks s) k) h xs"
    and nodes: "\<forall>i \<in> set xs. has_slot (chunks s) i" and xs: "idx \<notin> set xs"
  shows "unlink_loop s k idx l = Some (FM_ERR_NOT_FOUND, s)"
  using lk nodes xs
proof (induction xs arbitrary: l h)
  case Nil
  then show ?case by (subst unlink_loop.simps) simp
next
  case (Cons y ys)
  then have y: "h = y" "y \<noteq> FM_NULL_SLOT" "y \<noteq> idx" "has_slot (chunks s) y" by auto
  then have "unlink_loop s k idx l = unlink_loop s k idx (LinkNext y)"
    using Cons.prems(1) by (subst unlink_loop.simps) simp
  also have "\<dots> = Some (FM_ERR_NOT_FOUND, s)"
    using Cons y k by (intro Cons.IH [of _ "next_of (chunks s) k y"]) (auto simp: read_link_def fm_key_next_def)
  finally show ?case .
qed

lemma upd_head_same: "has_bucket K k b \<Longrightarrow> head_of K k b = h \<Longrightarrow> upd_head K k b h = K"
proof -
  assume b: "has_bucket K k b" and h: "head_of K k b = h"
  obtain f where f: "kc_head (K ! k) = Some f" and k: "k < length K"
    using b by (auto simp: has_bucket_def)
  have "f(b := h) = f" using h f by (auto simp: head_of_def)
  then have "(K ! k)\<lparr>kc_head := map_option (\<lambda>f. f(b := h)) (kc_head (K ! k))\<rparr> = K ! k"
    using f by (cases "K ! k") simp
  then show ?thesis by (simp add: upd_head_def)
qed

lemma upd_next_same: "has_slot C i \<Longrightarrow> next_of C k i = v \<Longrightarrow> upd_next C k i v = C"
proof -
  assume i: "has_slot C i" and v: "next_of C k i = v"
  obtain c where c: "get_chunk C i = Some c" using i by (auto simp: has_slot_def)
  have "v = ch_key_next c k (chunk_off i)" using v by (auto simp: next_of_def get_next_def c)
  then have "(ch_key_next c)(k := (ch_key_next c k)(chunk_off i := v)) = ch_key_next c" by auto
  moreover have "C ! nat (i div int FM_CHUNK_SIZE) = Some c"
    using c by (auto simp: get_chunk_def split: if_splits)
  then have "put_chunk C i c = C" by (metis list_update_id put_chunk_def)
  ultimately show ?thesis by (simp add: upd_next_def c)
qed

lemma chain_unlink_eq:
  assumes c: "chains s CH" and k: "k < keys s" and b: "has_bucket (keydef s) k b"
  shows "\<exists>s'. fm_core_chain_unlink s k b i =
      Some (if i \<in> set (CH k b) then FM_ERR_OK else FM_ERR_NOT_FOUND, s') \<and> links_changed s s'
    \<and> chains s' (set_chain CH k b (remove1 i (CH k b)))"
proof (cases "i \<in> set (CH k b)")
  case False
  have "fm_core_chain_unlink s k b i = Some (FM_ERR_NOT_FOUND, s)"
    unfolding fm_core_chain_unlink_def
    using False chainsD(2) [OF c k b] b
    by (intro unlink_loop_missing [OF k _ chainsD(1) [OF c k b]]) (auto simp: read_link_def)
  with False c show ?thesis by (simp add: remove1_idem)
next
  case True
  then obtain ys zs where xs: "CH k b = ys @ i # zs" and ys: "i \<notin> set ys"
    by (meson split_list_first)
  note lk = chainsD(1) [OF c k b, unfolded xs]
  let ?n = "next_of (chunks s) k i"
  let ?p = "if ys = [] then i else last ys"
  let ?s = "s\<lparr>chunks := upd_next (chunks s) k ?p ?n,
      keydef := upd_head (keydef s) k b (if ys = [] then ?n else head_of (keydef s) k b)\<rparr>"
  have nodes: "\<forall>j \<in> set (ys @ i # zs). has_slot (chunks s) j" using chainsD(2) [OF c k b] xs by auto
  then have p: "has_slot (chunks s) ?p" by auto
  have "fm_core_chain_unlink s k b i =
    Some (FM_ERR_OK, write_link s k (if ys = [] then LinkHead b else LinkNext (last ys)) ?n)"
    unfolding fm_core_chain_unlink_def using b ys nodes
    by (intro unlink_loop_found [OF k _ lk]) (auto simp: read_link_def)
  also have "write_link s k (if ys = [] then LinkHead b else LinkNext (last ys)) ?n = ?s"
    using p b by (auto simp: write_link_def fm_defs upd_next_same upd_head_same)
  finally have "fm_core_chain_unlink s k b i = Some (FM_ERR_OK, ?s)" .
  moreover have "links_changed s ?s" by (rule links_changed_write)
  moreover have "chains ?s (set_chain CH k b (remove1 i (CH k b)))"
  proof (rule chains_write [OF c k b p])
    have r: "remove1 i (CH k b) = ys @ zs" using ys by (simp add: xs remove1_append)
    show "linked ((next_of (chunks s) k)(?p := ?n))
        (if ys = [] then ?n else head_of (keydef s) k b) (remove1 i (CH k b))"
    proof (cases ys rule: rev_cases)
      case Nil
      then show ?thesis using lk linked_distinct [OF lk] unfolding r by simp
    next
      case (snoc us u)
      then show ?thesis using lk linked_remove [of "next_of (chunks s) k" _ us u i zs] unfolding r by simp
    qed
    show "\<And>j. j \<in> set (remove1 i (CH k b)) \<Longrightarrow> has_slot (chunks s) j"
      using nodes unfolding r by auto
    show "?p \<notin> set (CH k b') \<and> set (remove1 i (CH k b)) \<inter> set (CH k b') = {}"
      if "has_bucket (keydef s) k b'" "b' \<noteq> b" for b'
    proof -
      have "set (CH k b) \<inter> set (CH k b') = {}" using chainsD(3) [OF c k b that(1)] that(2) by auto
      moreover have "?p \<in> set (CH k b)" by (simp add: xs)
      moreover have "set (remove1 i (CH k b)) \<subseteq> set (CH k b)" by (rule set_remove1_subset)
      ultimately show ?thesis by blast
    qed
  qed
  ultimately show ?thesis using True by auto
qed

end
