(* ===== verification/Fm_Lockset.thy ===== *)
theory Fm_Lockset
  imports Fm_Chain "HOL-Library.Multiset"
begin

text \<open>
  The lock set of a key-changing update (\<open>src/fm_core.h\<close>, lines 710 to 775 and, the same code,
  856 to 910): which keys changed, the old and the new bucket of each, sorted by an insertion sort
  on the packed pair, locked in that order with duplicates skipped, and unlocked in reverse.

  The lemmas show that the sort is one, that the buckets locked are exactly the old and new buckets
  of the changed keys, each once, in strictly ascending order (which is what rules out a deadlock
  among bucket locks), and that the unlock loop releases exactly those.
\<close>

section \<open>Operations\<close>

type_synonym FMB = "u16 \<times> u32"

primrec changed_loop ::
  "nat list \<Rightarrow> FM_SHARE_CORE \<Rightarrow> image \<Rightarrow> image \<Rightarrow> u16 list \<Rightarrow> u16 list option" where
  "changed_loop [] s old_rec new_rec changed = Some changed"
| "changed_loop (k # ks) s old_rec new_rec changed =
     (if length changed < FM_MAX_CHANGED_KEYS then do {
        kc \<leftarrow> fm_key s k;
        if hash_rec (kc_ops kc) \<noteq> None then do {
          cmp \<leftarrow> cmp_rec_rec (kc_ops kc);
          if cmp old_rec new_rec \<noteq> 0
          then changed_loop ks s old_rec new_rec (changed @ [of_nat k])
          else changed_loop ks s old_rec new_rec changed }
        else changed_loop ks s old_rec new_rec changed }
      else Some changed)"

definition changed_keys :: "FM_SHARE_CORE \<Rightarrow> image \<Rightarrow> image \<Rightarrow> u16 list option" where
  "changed_keys s old_rec new_rec = changed_loop [0 ..< keys s] s old_rec new_rec []"

primrec collect_locks ::
  "u16 list \<Rightarrow> FM_SHARE_CORE \<Rightarrow> image \<Rightarrow> image \<Rightarrow> FMB list \<Rightarrow> FMB list option" where
  "collect_locks [] s old_rec new_rec lockset = Some lockset"
| "collect_locks (k # ks) s old_rec new_rec lockset = do {
     kc \<leftarrow> fm_key s (unat k);
     bnew \<leftarrow> fm_core_key_bucket kc new_rec;
     bold \<leftarrow> fm_core_key_bucket kc old_rec;
     let have_new = ((k, bnew) \<in> set lockset);
     let have_old = ((k, bold) \<in> set lockset);
     let lockset1 = (if have_new then lockset else lockset @ [(k, bnew)]);
     let lockset2 = (if have_old then lockset1 else lockset1 @ [(k, bold)]);
     collect_locks ks s old_rec new_rec lockset2 }"

definition pack_fmb :: "FMB \<Rightarrow> u64" where
  "pack_fmb v = push_bit 32 (ucast (fst v)) OR ucast (snd v)"

text \<open>The inner loop of the insertion sort moves larger entries up and returns where it stopped.\<close>

fun shift_loop :: "FMB list \<Rightarrow> FMB \<Rightarrow> nat \<Rightarrow> FMB list \<times> nat" where
  "shift_loop lockset v 0 = (lockset, 0)"
| "shift_loop lockset v (Suc j) =
     (let p = lockset ! j in
      if pack_fmb p \<le> pack_fmb v then (lockset, Suc j)
      else shift_loop (lockset[Suc j := p]) v j)"

definition sort_step :: "FMB list \<Rightarrow> nat \<Rightarrow> FMB list" where
  "sort_step lockset i =
     (let v = lockset ! i; (lockset1, j) = shift_loop lockset v i in lockset1[j := v])"

definition sort_locks :: "FMB list \<Rightarrow> FMB list" where
  "sort_locks lockset = foldl sort_step lockset [1 ..< length lockset]"

definition first_entry :: "FMB list \<Rightarrow> nat \<Rightarrow> bool" where
  "first_entry lockset i \<longleftrightarrow> i = 0 \<or> fst (lockset ! i) \<noteq> fst (lockset ! (i - 1))
     \<or> snd (lockset ! i) \<noteq> snd (lockset ! (i - 1))"

primrec lock_entries :: "nat list \<Rightarrow> FMB list \<Rightarrow> FM_SHARE_CORE \<Rightarrow> FM_SHARE_CORE option" where
  "lock_entries [] lockset s = Some s"
| "lock_entries (i # is) lockset s = do {
     s1 \<leftarrow> (if first_entry lockset i
           then lock_bucket s (unat (fst (lockset ! i))) (snd (lockset ! i)) else Some s);
     lock_entries is lockset s1 }"

primrec unlock_entries :: "nat list \<Rightarrow> FMB list \<Rightarrow> FM_SHARE_CORE \<Rightarrow> FM_SHARE_CORE option" where
  "unlock_entries [] lockset s = Some s"
| "unlock_entries (i # is) lockset s = do {
     s1 \<leftarrow> (if first_entry lockset i
           then unlock_bucket s (unat (fst (lockset ! i))) (snd (lockset ! i)) else Some s);
     unlock_entries is lockset s1 }"

definition lock_all :: "FMB list \<Rightarrow> FM_SHARE_CORE \<Rightarrow> FM_SHARE_CORE option" where
  "lock_all lockset s = lock_entries [0 ..< length lockset] lockset s"

definition unlock_all :: "FMB list \<Rightarrow> FM_SHARE_CORE \<Rightarrow> FM_SHARE_CORE option" where
  "unlock_all lockset s = unlock_entries (rev [0 ..< length lockset]) lockset s"

section \<open>The insertion sort\<close>

lemma unat_pack_fmb: "unat (pack_fmb (k, b)) = unat k * 2 ^ 32 + unat b"
proof -
  have kb: "unat k < 2 ^ 16" "unat b < 2 ^ 32"
    using unsigned_less [of k] unsigned_less [of b] by simp_all
  have p: "unat (push_bit 32 (ucast k :: u64)) = unat k * 2 ^ 32"
    using kb by (simp add: push_bit_eq_mult unat_word_ariths unsigned_ucast_eq take_bit_nat_eq_self)
  have "bit (push_bit 32 (ucast k :: u64)) n \<Longrightarrow> bit (ucast b :: u64) n \<Longrightarrow> False" for n
    by (simp add: bit_push_bit_iff bit_ucast_iff) (use bit_imp_le_length [of b n] in simp)
  then have "pack_fmb (k, b) = push_bit 32 (ucast k) + ucast b"
    unfolding pack_fmb_def fst_conv snd_conv by (subst disjunctive_add) auto
  then have "unat (pack_fmb (k, b)) = (unat k * 2 ^ 32 + unat b) mod 2 ^ 64"
    using kb by (simp add: unat_word_ariths p unsigned_ucast_eq take_bit_nat_eq_self)
  also have "\<dots> = unat k * 2 ^ 32 + unat b" using kb by simp
  finally show ?thesis .
qed

lemma pack_fmb_inject [simp]: "pack_fmb v = pack_fmb w \<longleftrightarrow> v = w"
proof
  assume eq: "pack_fmb v = pack_fmb w"
  obtain k b l c where vw: "v = (k, b)" "w = (l, c)" by (cases v, cases w)
  have "unat b < 2 ^ 32" "unat c < 2 ^ 32" using unsigned_less [of b] unsigned_less [of c] by simp_all
  moreover have sum: "unat k * 2 ^ 32 + unat b = unat l * 2 ^ 32 + unat c"
    using arg_cong [OF eq, of unat] unfolding vw unat_pack_fmb .
  ultimately have k: "unat k = unat l"
    using arg_cong [of "unat k * 2 ^ 32 + unat b" "unat l * 2 ^ 32 + unat c" "\<lambda>n. n div 2 ^ 32"] by simp
  with sum have "unat b = unat c" by simp
  with k show "v = w" using vw by (simp add: word_unat_eq_iff)
qed simp

definition put_after :: "FMB \<Rightarrow> FMB list \<Rightarrow> FMB list" where
  "put_after v P = takeWhile (\<lambda>p. pack_fmb p \<le> pack_fmb v) P @ v # dropWhile (\<lambda>p. pack_fmb p \<le> pack_fmb v) P"

lemma shift_loop_put_after:
  "sorted (map pack_fmb P) \<Longrightarrow> shift_loop (P @ x # S) v (length P) = (l, j) \<Longrightarrow> l[j := v] = put_after v P @ S"
proof (induction P arbitrary: x S rule: rev_induct)
  case Nil
  then show ?case by (auto simp: put_after_def)
next
  case (snoc p P)
  have nth: "(P @ p # x # S) ! length P = p" by simp
  show ?case
  proof (cases "pack_fmb p \<le> pack_fmb v")
    case True
    then have "\<forall>q \<in> set (P @ [p]). pack_fmb q \<le> pack_fmb v"
      using snoc.prems(1) by (auto simp: sorted_append)
    then have "put_after v (P @ [p]) = (P @ [p]) @ [v]"
      unfolding put_after_def using takeWhile_eq_all_conv dropWhile_eq_Nil_conv by simp
    moreover have "l = P @ p # x # S" "j = Suc (length P)"
      using snoc.prems(2) True nth by (auto simp: Let_def)
    moreover have "(P @ p # x # S)[Suc (length P) := v] = P @ p # v # S"
      by (simp add: list_update_append)
    ultimately show ?thesis by simp
  next
    case False
    have "(P @ p # x # S)[Suc (length P) := p] = P @ p # p # S"
      by (simp add: list_update_append)
    with False snoc.prems(2) have "shift_loop (P @ p # p # S) v (length P) = (l, j)" by (simp add: Let_def)
    with snoc have "l[j := v] = put_after v P @ p # S" by (simp add: sorted_append)
    moreover have "put_after v (P @ [p]) = put_after v P @ [p]"
      using False by (auto simp: put_after_def takeWhile_append dropWhile_append takeWhile_eq_all_conv [THEN iffD2])
    ultimately show ?thesis by simp
  qed
qed

lemma mset_put_after: "mset (put_after v P) = add_mset v (mset P)"
  using arg_cong [OF takeWhile_dropWhile_id [of "\<lambda>p. pack_fmb p \<le> pack_fmb v" P], of mset]
  unfolding put_after_def by (simp only: mset_append mset.simps union_mset_add_mset_right)

lemma length_put_after [simp]: "length (put_after v P) = Suc (length P)"
  using arg_cong [OF mset_put_after [of v P], of size] by simp

lemma sorted_put_after: "sorted (map pack_fmb P) \<Longrightarrow> sorted (map pack_fmb (put_after v P))"
  by (induction P) (auto simp: put_after_def dest: set_takeWhileD set_dropWhileD)

lemma sort_step_eq:
  "sorted (map pack_fmb P) \<Longrightarrow> sort_step (P @ v # S) (length P) = put_after v P @ S"
  by (auto simp: sort_step_def split: prod.split dest: shift_loop_put_after)

lemma foldl_sort_step:
  assumes "i \<le> length ls" "0 < i"
  shows "\<exists>P. foldl sort_step ls [1 ..< i] = P @ drop i ls \<and> length P = i \<and> sorted (map pack_fmb P)
    \<and> mset P = mset (take i ls)"
  using assms
proof (induction i)
  case 0
  then show ?case by simp
next
  case (Suc i)
  show ?case
  proof (cases "i = 0")
    case True
    then show ?thesis using Suc.prems by (cases ls) auto
  next
    case False
    then obtain P where P: "foldl sort_step ls [1 ..< i] = P @ drop i ls" "length P = i"
      "sorted (map pack_fmb P)" "mset P = mset (take i ls)" using Suc by auto
    have d: "drop i ls = ls ! i # drop (Suc i) ls" using Suc.prems by (simp add: Cons_nth_drop_Suc)
    have "foldl sort_step ls [1 ..< Suc i] = sort_step (P @ ls ! i # drop (Suc i) ls) (length P)"
      using P(1,2) False d by simp
    also have "\<dots> = put_after (ls ! i) P @ drop (Suc i) ls" by (rule sort_step_eq [OF P(3)])
    finally have "foldl sort_step ls [1 ..< Suc i] = put_after (ls ! i) P @ drop (Suc i) ls" .
    moreover have "mset (put_after (ls ! i) P) = mset (take (Suc i) ls)"
      using Suc.prems P(4) by (simp add: mset_put_after take_Suc_conv_app_nth)
    ultimately show ?thesis using P(2,3) sorted_put_after by (intro exI [of _ "put_after (ls ! i) P"]) auto
  qed
qed

lemma sort_locks_correct: "sorted (map pack_fmb (sort_locks ls)) \<and> mset (sort_locks ls) = mset ls"
proof (cases "ls = []")
  case True
  then show ?thesis by (simp add: sort_locks_def)
next
  case False
  then show ?thesis using foldl_sort_step [of "length ls" ls] by (auto simp: sort_locks_def)
qed

lemma set_sort_locks [simp]: "set (sort_locks ls) = set ls"
  using sort_locks_correct [of ls] by (metis set_mset_mset)

section \<open>The buckets that are locked\<close>

text \<open>The entries the lock loop does not skip, in the order of the loop.\<close>

definition lock_order :: "FMB list \<Rightarrow> FMB list" where
  "lock_order ls = map (nth ls) (filter (first_entry ls) [0 ..< length ls])"

lemma remdups_adj_snoc:
  "remdups_adj (xs @ [x]) = (if xs \<noteq> [] \<and> last xs = x then remdups_adj xs else remdups_adj xs @ [x])"
  by (induction xs rule: remdups_adj.induct) auto

lemma lock_order_eq: "lock_order ls = remdups_adj ls"
proof (induction ls rule: rev_induct)
  case Nil
  then show ?case by (simp add: lock_order_def)
next
  case (snoc x xs)
  let ?ys = "xs @ [x]"
  have "filter (first_entry ?ys) [0 ..< length xs] = filter (first_entry xs) [0 ..< length xs]"
    by (rule filter_cong) (auto simp: first_entry_def nth_append)
  moreover have "map (nth ?ys) (filter (first_entry xs) [0 ..< length xs])
      = map (nth xs) (filter (first_entry xs) [0 ..< length xs])"
    by (rule map_cong) (auto simp: nth_append)
  ultimately have "lock_order ?ys = lock_order xs @ (if first_entry ?ys (length xs) then [x] else [])"
    by (simp add: lock_order_def del: map_eq_conv)
  moreover have "first_entry ?ys (length xs) \<longleftrightarrow> xs = [] \<or> last xs \<noteq> x"
    by (cases xs rule: rev_cases) (auto simp: first_entry_def nth_append prod_eq_iff)
  ultimately show ?case using snoc by (auto simp: remdups_adj_snoc)
qed

lemma sorted_remdups_adj_strict:
  "sorted (map pack_fmb ls) \<Longrightarrow> sorted_wrt (\<lambda>v w. pack_fmb v < pack_fmb w) (remdups_adj ls)"
proof (induction ls rule: remdups_adj.induct)
  case (3 x y xs)
  then show ?case by (auto simp: order_less_le)
qed auto

lemma lock_order_ascending:
  "sorted_wrt (\<lambda>v w. pack_fmb v < pack_fmb w) (lock_order (sort_locks ls))"
  using sort_locks_correct [of ls] by (simp add: lock_order_eq sorted_remdups_adj_strict)

lemma lock_order_distinct: "distinct (lock_order (sort_locks ls))"
proof -
  have "sorted_wrt (<) (map pack_fmb (lock_order (sort_locks ls)))"
    using lock_order_ascending by (simp add: sorted_wrt_map)
  then have "distinct (map pack_fmb (lock_order (sort_locks ls)))" by (simp add: strict_sorted_iff)
  then show ?thesis by (simp add: distinct_map)
qed

lemma set_lock_order: "set (lock_order (sort_locks ls)) = set ls"
  by (simp add: lock_order_eq)

section \<open>Changing links and locks\<close>

text \<open>
  \<open>relocked s L s'\<close>: the share differs from \<open>s\<close> in its bucket heads, its chain cells and its
  bucket locks only, and the locks are now \<open>L\<close>.
\<close>

definition keys_shape :: "FM_KEY_CORE list \<Rightarrow> FM_KEY_CORE list \<Rightarrow> bool" where
  "keys_shape K L \<longleftrightarrow> length K = length L \<and> has_bucket K = has_bucket L
     \<and> (\<forall>k. kc_ops (K ! k) = kc_ops (L ! k) \<and> kc_unique (K ! k) = kc_unique (L ! k)
           \<and> kc_nbuckets (K ! k) = kc_nbuckets (L ! k))"

definition relocked :: "FM_SHARE_CORE \<Rightarrow> (nat \<Rightarrow> u32 \<Rightarrow> bool) \<Rightarrow> FM_SHARE_CORE \<Rightarrow> bool" where
  "relocked s L s' \<longleftrightarrow>
     (\<exists>C K. s' = s\<lparr>chunks := C, keydef := K\<rparr> \<and> slots_same C (chunks s) \<and> keys_shape K (keydef s)
        \<and> lock_of K = L)"

lemma keys_same_shape: "keys_same K L \<longleftrightarrow> keys_shape K L \<and> lock_of K = lock_of L"
  by (auto simp: keys_same_def keys_shape_def)

lemma links_changed_relocked: "links_changed s s' \<longleftrightarrow> relocked s (lock_of (keydef s)) s'"
  by (simp add: links_changed_def relocked_def keys_same_shape)

lemma relocked_trans:
  assumes "relocked s L t" "relocked t M u"
  shows "relocked s M u"
proof -
  obtain C K where t: "t = s\<lparr>chunks := C, keydef := K\<rparr>" "slots_same C (chunks s)" "keys_shape K (keydef s)"
    using assms(1) by (auto simp: relocked_def)
  obtain D J where u: "u = t\<lparr>chunks := D, keydef := J\<rparr>" "slots_same D (chunks t)" "keys_shape J (keydef t)"
    "lock_of J = M"
    using assms(2) by (auto simp: relocked_def)
  have "u = s\<lparr>chunks := D, keydef := J\<rparr>" using t(1) u(1) by simp
  moreover have "slots_same D (chunks s)" using t(1,2) u(2) by (simp add: slots_same_def)
  moreover have "keys_shape J (keydef s)" using t(1,3) u(3) by (simp add: keys_shape_def)
  ultimately show ?thesis using u(4) unfolding relocked_def by blast
qed

lemma relockedD:
  assumes "relocked s L s'"
  shows "slot_of (chunks s') = slot_of (chunks s)" "has_slot (chunks s') = has_slot (chunks s)"
    "keys s' = keys s" "length (keydef s') = length (keydef s)"
    "has_bucket (keydef s') = has_bucket (keydef s)" "lock_of (keydef s') = L"
    "kc_ops (keydef s' ! k) = kc_ops (keydef s ! k)" "kc_unique (keydef s' ! k) = kc_unique (keydef s ! k)"
    "kc_nbuckets (keydef s' ! k) = kc_nbuckets (keydef s ! k)"
    "free_head s' = free_head s" "records s' = records s" "reclength s' = reclength s"
    "struct_mutex s' = struct_mutex s" "max_records s' = max_records s" "chunk_cnt s' = chunk_cnt s"
    "chunk_cap s' = chunk_cap s" "auto_inc s' = auto_inc s" "auto_key s' = auto_key s"
  using assms by (auto simp: relocked_def slots_same_def keys_shape_def)

lemma relocked_rows: "relocked s L s' \<Longrightarrow> rows s' = rows s"
  by (auto simp: rows_def active_def relockedD)

lemma relocked_active: "relocked s L s' \<Longrightarrow> active s' = active s"
  by (auto simp: active_def relockedD)

lemma relocked_quiet: "relocked s L s' \<Longrightarrow> quiet s' = quiet s"
  by (simp add: quiet_def relockedD)

lemma relocked_free_list: "relocked s L s' \<Longrightarrow> free_list s' F = free_list s F"
  by (simp add: free_list_def relockedD)

lemma relocked_layout: "relocked s L s' \<Longrightarrow> layout s' = layout s"
proof -
  assume "relocked s L s'"
  then obtain C K where s': "s' = s\<lparr>chunks := C, keydef := K\<rparr>" and "slots_same C (chunks s)"
    by (auto simp: relocked_def)
  then have "length C = length (chunks s)" "\<And>c. c < length C \<Longrightarrow> C ! c = None \<longleftrightarrow> chunks s ! c = None"
    by (auto simp: slots_same_def)
  then show ?thesis unfolding s' by (cases "length C = chunk_cap s") (simp_all add: layout_def)
qed

lemma chains_cong:
  assumes "keys s = keys t" "chunks s = chunks t" "has_bucket (keydef s) = has_bucket (keydef t)"
    "head_of (keydef s) = head_of (keydef t)"
  shows "chains s CH \<longleftrightarrow> chains t CH"
  using assms by (simp add: chains_def)

definition set_lock :: "(nat \<Rightarrow> u32 \<Rightarrow> bool) \<Rightarrow> nat \<Rightarrow> u32 \<Rightarrow> bool \<Rightarrow> nat \<Rightarrow> u32 \<Rightarrow> bool" where
  "set_lock L k b v = L(k := (L k)(b := v))"

lemma set_lock_apply: "set_lock L k b v k' b' = (if k' = k \<and> b' = b then v else L k' b')"
  by (simp add: set_lock_def)

lemma set_lock_twice [simp]: "set_lock (set_lock L k b v) k b w = set_lock L k b w"
  by (simp add: set_lock_def)

lemma set_lock_id: "L k b = v \<Longrightarrow> set_lock L k b v = L"
  by (intro ext) (simp add: set_lock_apply)

lemma relocked_upd_lock:
  "has_bucket (keydef s) k b \<Longrightarrow>
     relocked s (set_lock (lock_of (keydef s)) k b v) (s\<lparr>keydef := upd_lock (keydef s) k b v\<rparr>)"
  unfolding relocked_def
  by (intro exI [of _ "chunks s"] exI [of _ "upd_lock (keydef s) k b v"])
    (auto simp: slots_same_def keys_shape_def set_lock_def fun_eq_iff)

lemma lock_bucket_eq:
  assumes "has_bucket (keydef s) k b" "\<not> lock_of (keydef s) k b"
  shows "\<exists>s'. lock_bucket s k b = Some s' \<and> relocked s (set_lock (lock_of (keydef s)) k b True) s'
    \<and> (\<forall>CH. chains s' CH = chains s CH)"
proof -
  let ?s = "s\<lparr>keydef := upd_lock (keydef s) k b True\<rparr>"
  have "chains ?s CH = chains s CH" for CH
    using assms(1) by (intro chains_cong) (auto simp: fun_eq_iff)
  with relocked_upd_lock [OF assms(1), of True] assms show ?thesis
    by (auto simp: lock_bucket_def spin_lock_def)
qed

lemma unlock_bucket_eq:
  assumes "has_bucket (keydef s) k b"
  shows "\<exists>s'. unlock_bucket s k b = Some s' \<and> relocked s (set_lock (lock_of (keydef s)) k b False) s'
    \<and> (\<forall>CH. chains s' CH = chains s CH)"
proof -
  let ?s = "s\<lparr>keydef := upd_lock (keydef s) k b False\<rparr>"
  have "chains ?s CH = chains s CH" for CH
    using assms(1) by (intro chains_cong) (auto simp: fun_eq_iff)
  with relocked_upd_lock [OF assms(1), of False] assms show ?thesis
    by (auto simp: unlock_bucket_def spin_unlock_def)
qed

text \<open>A section under one bucket lock, which gives it back.\<close>

lemma unlock_after_lock:
  assumes b: "has_bucket (keydef s) k b" "\<not> lock_of (keydef s) k b"
    and s1: "relocked s (set_lock (lock_of (keydef s)) k b True) s1" and s2: "links_changed s1 s2"
  shows "\<exists>s'. unlock_bucket s2 k b = Some s' \<and> links_changed s s' \<and> (\<forall>CH. chains s' CH = chains s2 CH)"
proof -
  have L1: "lock_of (keydef s1) = set_lock (lock_of (keydef s)) k b True" by (rule relockedD(6) [OF s1])
  have hb: "has_bucket (keydef s2) = has_bucket (keydef s)"
    using relockedD(5) [OF s1] links_changedD(5) [OF s2] by simp
  have L2: "lock_of (keydef s2) = lock_of (keydef s1)" by (rule links_changedD(6) [OF s2])
  have "lock_of (keydef s) = set_lock (lock_of (keydef s2)) k b False"
    using b(2) by (simp add: L1 L2 set_lock_id)
  moreover obtain s' where "unlock_bucket s2 k b = Some s'"
    "relocked s2 (set_lock (lock_of (keydef s2)) k b False) s'" "\<forall>CH. chains s' CH = chains s2 CH"
    using unlock_bucket_eq [of s2 k b] hb b(1) by auto
  moreover have "relocked s (lock_of (keydef s2)) s2"
    using relocked_trans [OF s1] s2 by (simp add: links_changed_relocked L2)
  ultimately show ?thesis using relocked_trans unfolding links_changed_relocked by metis
qed

section \<open>Taking and releasing the lock set\<close>

definition fmb_in :: "FMB list \<Rightarrow> nat \<Rightarrow> u32 \<Rightarrow> bool" where
  "fmb_in ls k b \<longleftrightarrow> (\<exists>w. unat w = k \<and> (w, b) \<in> set ls)"

lemma fmb_in_Nil [simp]: "\<not> fmb_in [] k b"
  by (simp add: fmb_in_def)

lemma fmb_in_Cons: "fmb_in ((w, b) # ls) k c \<longleftrightarrow> unat w = k \<and> b = c \<or> fmb_in ls k c"
  by (auto simp: fmb_in_def)

lemma fmb_in_cong: "set ls = set ls' \<Longrightarrow> fmb_in ls = fmb_in ls'"
  by (simp add: fmb_in_def fun_eq_iff)

text \<open>The loops, over the list of the entries they act on.\<close>

primrec lock_list :: "FMB list \<Rightarrow> FM_SHARE_CORE \<Rightarrow> FM_SHARE_CORE option" where
  "lock_list [] s = Some s"
| "lock_list (v # vs) s = do { s1 \<leftarrow> lock_bucket s (unat (fst v)) (snd v); lock_list vs s1 }"

primrec unlock_list :: "FMB list \<Rightarrow> FM_SHARE_CORE \<Rightarrow> FM_SHARE_CORE option" where
  "unlock_list [] s = Some s"
| "unlock_list (v # vs) s = do { s1 \<leftarrow> unlock_bucket s (unat (fst v)) (snd v); unlock_list vs s1 }"

lemma lock_entries_list:
  "lock_entries is ls s = lock_list (map (nth ls) (filter (first_entry ls) is)) s"
  by (induction "is" arbitrary: s) auto

lemma unlock_entries_list:
  "unlock_entries is ls s = unlock_list (map (nth ls) (filter (first_entry ls) is)) s"
  by (induction "is" arbitrary: s) auto

lemma lock_all_list: "lock_all ls s = lock_list (lock_order ls) s"
  by (simp add: lock_all_def lock_entries_list lock_order_def)

lemma unlock_all_list: "unlock_all ls s = unlock_list (rev (lock_order ls)) s"
  by (simp add: unlock_all_def unlock_entries_list lock_order_def rev_filter rev_map)

lemma lock_list_eq:
  assumes "distinct ls" "\<And>k b. fmb_in ls k b \<Longrightarrow> has_bucket (keydef s) k b \<and> \<not> lock_of (keydef s) k b"
  shows "\<exists>s'. lock_list ls s = Some s' \<and> relocked s (\<lambda>k b. lock_of (keydef s) k b \<or> fmb_in ls k b) s'
    \<and> (\<forall>CH. chains s' CH = chains s CH)"
  using assms
proof (induction ls arbitrary: s)
  case Nil
  have "relocked s (lock_of (keydef s)) s" by (simp flip: links_changed_relocked)
  then show ?case by simp
next
  case (Cons v ls)
  obtain w b where v: "v = (w, b)" by (cases v)
  obtain s1 where s1: "lock_bucket s (unat w) b = Some s1"
    "relocked s (set_lock (lock_of (keydef s)) (unat w) b True) s1" "\<And>CH. chains s1 CH = chains s CH"
    using lock_bucket_eq [of s "unat w" b] Cons.prems(2) [of "unat w" b] by (auto simp: v fmb_in_Cons)
  have new: "\<not> fmb_in ls (unat w) b" using Cons.prems(1) by (auto simp: v fmb_in_def simp flip: word_unat_eq_iff)
  have L: "(\<lambda>k c. lock_of (keydef s1) k c \<or> fmb_in ls k c)
      = (\<lambda>k c. lock_of (keydef s) k c \<or> fmb_in (v # ls) k c)"
    using relockedD(6) [OF s1(2)] by (auto simp: v fmb_in_Cons set_lock_apply fun_eq_iff)
  have "has_bucket (keydef s1) k c \<and> \<not> lock_of (keydef s1) k c" if "fmb_in ls k c" for k c
    using Cons.prems(2) [of k c] that new relockedD(5,6) [OF s1(2)] by (auto simp: v fmb_in_Cons set_lock_apply)
  with Cons.IH [of s1] Cons.prems(1) obtain s' where "lock_list ls s1 = Some s'"
    "relocked s1 (\<lambda>k c. lock_of (keydef s) k c \<or> fmb_in (v # ls) k c) s'" "\<And>CH. chains s' CH = chains s1 CH"
    unfolding L by auto
  with s1 show ?case by (auto simp: v intro: relocked_trans)
qed

lemma unlock_list_eq:
  assumes "\<And>k b. fmb_in ls k b \<Longrightarrow> has_bucket (keydef s) k b"
  shows "\<exists>s'. unlock_list ls s = Some s' \<and> relocked s (\<lambda>k b. lock_of (keydef s) k b \<and> \<not> fmb_in ls k b) s'
    \<and> (\<forall>CH. chains s' CH = chains s CH)"
  using assms
proof (induction ls arbitrary: s)
  case Nil
  have "relocked s (lock_of (keydef s)) s" by (simp flip: links_changed_relocked)
  then show ?case by simp
next
  case (Cons v ls)
  obtain w b where v: "v = (w, b)" by (cases v)
  obtain s1 where s1: "unlock_bucket s (unat w) b = Some s1"
    "relocked s (set_lock (lock_of (keydef s)) (unat w) b False) s1" "\<And>CH. chains s1 CH = chains s CH"
    using unlock_bucket_eq [of s "unat w" b] Cons.prems [of "unat w" b] by (auto simp: v fmb_in_Cons)
  have L: "(\<lambda>k c. lock_of (keydef s1) k c \<and> \<not> fmb_in ls k c)
      = (\<lambda>k c. lock_of (keydef s) k c \<and> \<not> fmb_in (v # ls) k c)"
    using relockedD(6) [OF s1(2)] by (auto simp: v fmb_in_Cons set_lock_apply fun_eq_iff)
  have "has_bucket (keydef s1) k c" if "fmb_in ls k c" for k c
    using Cons.prems [of k c] that relockedD(5) [OF s1(2)] by (auto simp: v fmb_in_Cons)
  with Cons.IH [of s1] obtain s' where "unlock_list ls s1 = Some s'"
    "relocked s1 (\<lambda>k c. lock_of (keydef s) k c \<and> \<not> fmb_in (v # ls) k c) s'" "\<And>CH. chains s' CH = chains s1 CH"
    unfolding L by auto
  with s1 show ?case by (auto simp: v intro: relocked_trans)
qed

lemma fmb_in_lock_order: "fmb_in (lock_order (sort_locks ls)) = fmb_in ls"
  by (rule fmb_in_cong) (rule set_lock_order)

lemma lock_all_eq:
  assumes "\<And>k b. fmb_in ls k b \<Longrightarrow> has_bucket (keydef s) k b \<and> \<not> lock_of (keydef s) k b"
  shows "\<exists>s'. lock_all (sort_locks ls) s = Some s'
    \<and> relocked s (\<lambda>k b. lock_of (keydef s) k b \<or> fmb_in ls k b) s' \<and> (\<forall>CH. chains s' CH = chains s CH)"
  using lock_list_eq [OF lock_order_distinct, of ls s] assms
  by (simp add: lock_all_list fmb_in_lock_order)

lemma unlock_all_eq:
  assumes "\<And>k b. fmb_in ls k b \<Longrightarrow> has_bucket (keydef s) k b"
  shows "\<exists>s'. unlock_all (sort_locks ls) s = Some s'
    \<and> relocked s (\<lambda>k b. lock_of (keydef s) k b \<and> \<not> fmb_in ls k b) s' \<and> (\<forall>CH. chains s' CH = chains s CH)"
proof -
  have "fmb_in (rev (lock_order (sort_locks ls))) = fmb_in ls"
    by (rule fmb_in_cong) (simp add: set_lock_order)
  with unlock_list_eq [of "rev (lock_order (sort_locks ls))" s] assms show ?thesis
    by (simp add: unlock_all_list)
qed

end
