(* ===== verification/Fm_Rows.thy ===== *)
theory Fm_Rows
  imports Fm_Lockset
begin

text \<open>
  The write operations of the concurrency core (\<open>src/fm_core.h\<close>, lines 622 to 1079):
  \<open>fm_core_insert_row\<close>, \<open>fm_core_write_image\<close>, \<open>fm_core_update_row\<close>,
  \<open>fm_core_update_row_locked\<close>, \<open>fm_core_delete_row\<close>, \<open>fm_core_delete_row_locked\<close>,
  \<open>fm_core_clear\<close>, with every lock call, every early return and every loop.

  An output parameter that a return path does not write is \<open>None\<close> in the result.
\<close>

section \<open>Insert\<close>

text \<open>
  The loop over the keys: the key whose duplicate check failed, if any; the keys before it are
  linked.
\<close>

primrec insert_keys ::
  "nat list \<Rightarrow> FM_SHARE_CORE \<Rightarrow> image \<Rightarrow> slot_id \<Rightarrow> (nat option \<times> FM_SHARE_CORE) option" where
  "insert_keys [] s rec idx = Some (None, s)"
| "insert_keys (k # ks) s rec idx = do {
     kc \<leftarrow> fm_key s k;
     b \<leftarrow> fm_core_key_bucket kc rec;
     s1 \<leftarrow> lock_bucket s k b;
     dup \<leftarrow> (if hash_rec (kc_ops kc) \<noteq> None then fm_core_dup_check s1 k b rec else Some FM_ERR_OK);
     if dup \<noteq> FM_ERR_OK then do { s2 \<leftarrow> unlock_bucket s1 k b; Some (Some k, s2) }
     else do {
       s2 \<leftarrow> fm_core_chain_link s1 k b idx;
       s3 \<leftarrow> unlock_bucket s2 k b;
       insert_keys ks s3 rec idx } }"

text \<open>
  The loop \<open>while (k-- > 0)\<close> that takes the row out of the keys before the failing one. Its
  counter is a \<open>fm_u32\<close> and is decremented once more when the test fails: the second result
  is the value it has after the loop.
\<close>

primrec rollback_keys ::
  "nat \<Rightarrow> FM_SHARE_CORE \<Rightarrow> image \<Rightarrow> slot_id \<Rightarrow> (FM_SHARE_CORE \<times> u32) option" where
  "rollback_keys 0 s rec idx = Some (s, 0 - 1)"
| "rollback_keys (Suc k) s rec idx = do {
     kc2 \<leftarrow> fm_key s k;
     b2 \<leftarrow> fm_core_key_bucket kc2 rec;
     s1 \<leftarrow> lock_bucket s k b2;
     (_, s2) \<leftarrow> fm_core_chain_unlink s1 k b2 idx;
     s3 \<leftarrow> unlock_bucket s2 k b2;
     rollback_keys k s3 rec idx }"

definition copy_image :: "FM_SHARE_CORE \<Rightarrow> slot_id \<Rightarrow> image \<Rightarrow> FM_SHARE_CORE option" where
  "copy_image s idx rec = do {
     sl \<leftarrow> fm_slot s idx;
     assert_that (reclength s \<le> length rec);
     Some (put_slot s idx (sl\<lparr>sl_data := take (reclength s) rec\<rparr>)) }"

definition fm_core_insert_row ::
  "FM_SHARE_CORE \<Rightarrow> image \<Rightarrow> (fm_rc \<times> slot_id option \<times> int option \<times> FM_SHARE_CORE) option" where
  "fm_core_insert_row s rec = do {
     s0 \<leftarrow> lock_struct s;
     (idx, s1) \<leftarrow> fm_core_alloc_slot s0;
     if idx = FM_NULL_SLOT
     then (let s2 = unlock_struct s1 in
       Some (if chunk_cnt s2 \<ge> chunk_cap s2 then FM_ERR_FULL else FM_ERR_NOMEM, None, None, s2))
     else do {
       s2 \<leftarrow> copy_image s1 idx rec;
       (dup, s3) \<leftarrow> insert_keys [0 ..< keys s2] s2 rec idx;
       case dup of
         Some k \<Rightarrow> do {
           (s4, k_end) \<leftarrow> rollback_keys k s3 rec idx;
           s5 \<leftarrow> fm_core_free_slot s4 idx;
           Some (FM_ERR_DUP_KEY, None, Some (sint k_end + 1), unlock_struct s5) }
       | None \<Rightarrow> do {
           sl \<leftarrow> fm_slot s3 idx;
           let s4 = put_slot s3 idx (sl\<lparr>sl_state := FM_SLOT_ACTIVE\<rparr>);
           let s5 = s4\<lparr>records := records s4 + 1\<rparr>;
           Some (FM_ERR_OK, Some idx, None, unlock_struct s5) } } }"

section \<open>Update\<close>

definition bump_seq :: "FM_SHARE_CORE \<Rightarrow> slot_id \<Rightarrow> FM_SHARE_CORE option" where
  "bump_seq s idx = do {
     sl \<leftarrow> fm_slot s idx;
     Some (put_slot s idx (sl\<lparr>sl_seq := sl_seq sl + 1\<rparr>)) }"

definition fm_core_write_image :: "FM_SHARE_CORE \<Rightarrow> slot_id \<Rightarrow> image \<Rightarrow> FM_SHARE_CORE option" where
  "fm_core_write_image s idx rec = do {
     s1 \<leftarrow> bump_seq s idx;
     s2 \<leftarrow> copy_image s1 idx rec;
     bump_seq s2 idx }"

text \<open>The slot check every row operation makes: active, and of the expected generation.\<close>

definition slot_gone :: "FM_SLOT \<Rightarrow> u32 \<Rightarrow> bool" where
  "slot_gone sl expect_gen \<longleftrightarrow> sl_state sl \<noteq> FM_SLOT_ACTIVE \<or> sl_gen sl \<noteq> expect_gen"

text \<open>Duplicate checks of the changed keys: the first key that fails.\<close>

primrec dup_checks :: "u16 list \<Rightarrow> FM_SHARE_CORE \<Rightarrow> image \<Rightarrow> u16 option option" where
  "dup_checks [] s new_rec = Some None"
| "dup_checks (k # ks) s new_rec = do {
     kc \<leftarrow> fm_key s (unat k);
     bnew \<leftarrow> fm_core_key_bucket kc new_rec;
     dup \<leftarrow> fm_core_dup_check s (unat k) bnew new_rec;
     if dup \<noteq> FM_ERR_OK then Some (Some k) else dup_checks ks s new_rec }"

primrec rechain :: "u16 list \<Rightarrow> FM_SHARE_CORE \<Rightarrow> slot_id \<Rightarrow> image \<Rightarrow> image \<Rightarrow> FM_SHARE_CORE option" where
  "rechain [] s idx old_rec new_rec = Some s"
| "rechain (k # ks) s idx old_rec new_rec = do {
     kc \<leftarrow> fm_key s (unat k);
     bnew \<leftarrow> fm_core_key_bucket kc new_rec;
     bold \<leftarrow> fm_core_key_bucket kc old_rec;
     (_, s1) \<leftarrow> fm_core_chain_unlink s (unat k) bold idx;
     s2 \<leftarrow> fm_core_chain_link s1 (unat k) bnew idx;
     rechain ks s2 idx old_rec new_rec }"

definition fm_core_update_row ::
  "FM_SHARE_CORE \<Rightarrow> slot_id \<Rightarrow> u32 \<Rightarrow> image \<Rightarrow> image \<Rightarrow> (fm_rc \<times> int option \<times> FM_SHARE_CORE) option" where
  "fm_core_update_row s idx expect_gen old_rec new_rec = do {
     changed \<leftarrow> changed_keys s old_rec new_rec;
     if changed = [] then do {
       s1 \<leftarrow> lock_slot s idx;
       sl \<leftarrow> fm_slot s1 idx;
       if slot_gone sl expect_gen
       then do { s2 \<leftarrow> unlock_slot s1 idx; Some (FM_ERR_DELETED, None, s2) }
       else do {
         s2 \<leftarrow> fm_core_write_image s1 idx new_rec;
         s3 \<leftarrow> unlock_slot s2 idx;
         Some (FM_ERR_OK, None, s3) } }
     else do {
       lockset \<leftarrow> collect_locks changed s old_rec new_rec [];
       let lockset' = sort_locks lockset;
       s1 \<leftarrow> lock_all lockset' s;
       dup \<leftarrow> dup_checks changed s1 new_rec;
       case dup of
         Some k \<Rightarrow> do {
           s2 \<leftarrow> unlock_all lockset' s1;
           Some (FM_ERR_DUP_KEY, Some (int (unat k) + 1), s2) }
       | None \<Rightarrow> do {
           s2 \<leftarrow> lock_slot s1 idx;
           sl \<leftarrow> fm_slot s2 idx;
           if slot_gone sl expect_gen
           then do {
             s3 \<leftarrow> unlock_slot s2 idx;
             s4 \<leftarrow> unlock_all lockset' s3;
             Some (FM_ERR_DELETED, None, s4) }
           else do {
             s3 \<leftarrow> fm_core_write_image s2 idx new_rec;
             s4 \<leftarrow> rechain changed s3 idx old_rec new_rec;
             s5 \<leftarrow> unlock_slot s4 idx;
             s6 \<leftarrow> unlock_all lockset' s5;
             Some (FM_ERR_OK, None, s6) } } } }"

definition fm_core_update_row_locked ::
  "FM_SHARE_CORE \<Rightarrow> slot_id \<Rightarrow> u32 \<Rightarrow> image \<Rightarrow> image \<Rightarrow> (fm_rc \<times> int option \<times> FM_SHARE_CORE) option" where
  "fm_core_update_row_locked s idx expect_gen old_rec new_rec = do {
     sl \<leftarrow> fm_slot s idx;
     if slot_gone sl expect_gen then Some (FM_ERR_DELETED, None, s)
     else do {
       changed \<leftarrow> changed_keys s old_rec new_rec;
       if changed = [] then do {
         s1 \<leftarrow> fm_core_write_image s idx new_rec;
         Some (FM_ERR_OK, None, s1) }
       else do {
         lockset \<leftarrow> collect_locks changed s old_rec new_rec [];
         let lockset' = sort_locks lockset;
         s1 \<leftarrow> lock_all lockset' s;
         dup \<leftarrow> dup_checks changed s1 new_rec;
         case dup of
           Some k \<Rightarrow> do {
             s2 \<leftarrow> unlock_all lockset' s1;
             Some (FM_ERR_DUP_KEY, Some (int (unat k) + 1), s2) }
         | None \<Rightarrow> do {
             s2 \<leftarrow> fm_core_write_image s1 idx new_rec;
             s3 \<leftarrow> rechain changed s2 idx old_rec new_rec;
             s4 \<leftarrow> unlock_all lockset' s3;
             Some (FM_ERR_OK, None, s4) } } } }"

section \<open>Delete\<close>

primrec unlink_keys :: "nat list \<Rightarrow> FM_SHARE_CORE \<Rightarrow> image \<Rightarrow> slot_id \<Rightarrow> FM_SHARE_CORE option" where
  "unlink_keys [] s scratch idx = Some s"
| "unlink_keys (k # ks) s scratch idx = do {
     kc \<leftarrow> fm_key s k;
     b \<leftarrow> fm_core_key_bucket kc scratch;
     s1 \<leftarrow> lock_bucket s k b;
     (_, s2) \<leftarrow> fm_core_chain_unlink s1 k b idx;
     s3 \<leftarrow> unlock_bucket s2 k b;
     unlink_keys ks s3 scratch idx }"

text \<open>From the frozen image to the recycled slot: the part both delete operations share.\<close>

definition delete_tail :: "FM_SHARE_CORE \<Rightarrow> slot_id \<Rightarrow> FM_SHARE_CORE option" where
  "delete_tail s idx = do {
     sl \<leftarrow> fm_slot s idx;
     let scratch = take (reclength s) (sl_data sl);
     s1 \<leftarrow> unlink_keys [0 ..< keys s] s scratch idx;
     sl1 \<leftarrow> fm_slot s1 idx;
     let s2 = put_slot s1 idx (sl1\<lparr>sl_state := FM_SLOT_DELETED, sl_gen := sl_gen sl1 + 1\<rparr>);
     let s3 = s2\<lparr>records := records s2 - 1\<rparr>;
     s4 \<leftarrow> lock_struct s3;
     s5 \<leftarrow> fm_core_free_slot s4 idx;
     Some (unlock_struct s5) }"

definition fm_core_delete_row ::
  "FM_SHARE_CORE \<Rightarrow> slot_id \<Rightarrow> u32 \<Rightarrow> (fm_rc \<times> FM_SHARE_CORE) option" where
  "fm_core_delete_row s idx expect_gen = do {
     s1 \<leftarrow> lock_slot s idx;
     sl \<leftarrow> fm_slot s1 idx;
     if slot_gone sl expect_gen
     then do { s2 \<leftarrow> unlock_slot s1 idx; Some (FM_ERR_DELETED, s2) }
     else do {
       let s2 = put_slot s1 idx (sl\<lparr>sl_state := FM_SLOT_DELETING\<rparr>);
       s3 \<leftarrow> unlock_slot s2 idx;
       s4 \<leftarrow> delete_tail s3 idx;
       Some (FM_ERR_OK, s4) } }"

definition fm_core_delete_row_locked ::
  "FM_SHARE_CORE \<Rightarrow> slot_id \<Rightarrow> u32 \<Rightarrow> (fm_rc \<times> FM_SHARE_CORE) option" where
  "fm_core_delete_row_locked s idx expect_gen = do {
     sl \<leftarrow> fm_slot s idx;
     if slot_gone sl expect_gen then Some (FM_ERR_DELETED, s)
     else do {
       let s1 = put_slot s idx (sl\<lparr>sl_state := FM_SLOT_DELETING\<rparr>);
       s2 \<leftarrow> delete_tail s1 idx;
       Some (FM_ERR_OK, s2) } }"

section \<open>Clear\<close>

primrec clear_buckets :: "nat list \<Rightarrow> nat \<Rightarrow> FM_SHARE_CORE \<Rightarrow> FM_SHARE_CORE option" where
  "clear_buckets [] k s = Some s"
| "clear_buckets (b # bs) k s = do {
     s1 \<leftarrow> lock_bucket s k (of_nat b);
     _ \<leftarrow> get_head (keydef s1) k (of_nat b);
     let s2 = s1\<lparr>keydef := upd_head (keydef s1) k (of_nat b) FM_NULL_SLOT\<rparr>;
     s3 \<leftarrow> unlock_bucket s2 k (of_nat b);
     clear_buckets bs k s3 }"

primrec clear_keys :: "nat list \<Rightarrow> FM_SHARE_CORE \<Rightarrow> FM_SHARE_CORE option" where
  "clear_keys [] s = Some s"
| "clear_keys (k # ks) s = do {
     kc \<leftarrow> fm_key s k;
     s1 \<leftarrow> clear_buckets [0 ..< unat (kc_nbuckets kc)] k s;
     clear_keys ks s1 }"

primrec clear_slots :: "nat list \<Rightarrow> FM_SHARE_CORE \<Rightarrow> FM_SHARE_CORE option" where
  "clear_slots [] s = Some s"
| "clear_slots (i # is) s = do {
     s1 \<leftarrow> lock_slot s (i32_of i);
     sl \<leftarrow> fm_slot s1 (i32_of i);
     let s2 = put_slot s1 (i32_of i) (sl\<lparr>sl_state := FM_SLOT_FREE, sl_gen := sl_gen sl + 1\<rparr>);
     s3 \<leftarrow> unlock_slot s2 (i32_of i);
     clear_slots is s3 }"

definition fm_core_clear :: "FM_SHARE_CORE \<Rightarrow> FM_SHARE_CORE option" where
  "fm_core_clear s = do {
     s1 \<leftarrow> lock_struct s;
     s2 \<leftarrow> clear_keys [0 ..< keys s1] s1;
     let total = u32_of (chunk_cnt s2 * FM_CHUNK_SIZE);
     s3 \<leftarrow> clear_slots [0 ..< total] s2;
     s4 \<leftarrow> push_slots [0 ..< total] (s3\<lparr>free_head := FM_NULL_SLOT\<rparr>);
     Some (unlock_struct (s4\<lparr>records := 0\<rparr>)) }"

end
