(* ===== verification/Fm_Index.thy ===== *)
theory Fm_Index
  imports Fm_Rows
begin

text \<open>
  The contract between the concurrency core and the callbacks of a key (\<open>FM_KEY_OPS\<close>,
  \<open>src/fm_core.h\<close>, lines 154 to 172), and the hash index the chains of a key implement.

  \<open>key_contract\<close> is the interface: comparing equal is an equivalence that the hash, the null test
  and the comparison with a packed key respect. The core is proved correct for every set of
  callbacks that keeps it.

  \<open>indexed s M\<close> hides bucket heads, chain cells and the order of a chain behind the map \<open>M\<close> from
  key and slot to bucket; linking and unlinking become updates of \<open>M\<close>, and the loops over the keys
  of insert, rollback, delete and update become updates at several keys.
\<close>

section \<open>The contract of a key\<close>

locale key_contract =
  fixes ko :: FM_KEY_OPS and hr hk :: "image \<Rightarrow> u32" and cr ck :: "image \<Rightarrow> image \<Rightarrow> int" and nul :: "image \<Rightarrow> bool"
  assumes hash_rec: "hash_rec ko = Some hr" and hash_key: "hash_key ko = Some hk"
    and cmp_rec_rec: "cmp_rec_rec ko = Some cr" and cmp_rec_key: "cmp_rec_key ko = Some ck"
    and null_part: "nul r \<longleftrightarrow> (\<exists>f. has_null_part ko = Some f \<and> f r \<noteq> 0)"
    and cr_refl: "cr r r = 0"
    and cr_sym: "cr r r' = 0 \<Longrightarrow> cr r' r = 0"
    and cr_trans: "cr r r' = 0 \<Longrightarrow> cr r' r'' = 0 \<Longrightarrow> cr r r'' = 0"
    and cr_hash: "cr r r' = 0 \<Longrightarrow> hr r = hr r'"
    and cr_null: "cr r r' = 0 \<Longrightarrow> nul r = nul r'"
    and ck_hash: "ck r p = 0 \<Longrightarrow> hr r = hk p"
begin

lemma cr_cong: "cr r r' = 0 \<Longrightarrow> cr r x = 0 \<longleftrightarrow> cr r' x = 0"
  using cr_sym cr_trans by blast

lemma key_bucket_eq: "kc_ops kc = ko \<Longrightarrow> fm_core_key_bucket kc r = Some (fm_bucket kc (hr r))"
  by (simp add: fm_core_key_bucket_def hash_rec)

lemma same_bucket: "cr r r' = 0 \<Longrightarrow> fm_bucket kc (hr r) = fm_bucket kc (hr r')"
  using cr_hash by simp

lemma probe_bucket: "ck r p = 0 \<Longrightarrow> fm_bucket kc (hr r) = fm_bucket kc (hk p)"
  using ck_hash by simp

end

text \<open>The callbacks of a key, as functions.\<close>

definition rec_hash :: "FM_KEY_CORE \<Rightarrow> image \<Rightarrow> u32" where
  "rec_hash kc = the (hash_rec (kc_ops kc))"

definition probe_hash :: "FM_KEY_CORE \<Rightarrow> image \<Rightarrow> u32" where
  "probe_hash kc = the (hash_key (kc_ops kc))"

definition rec_cmp :: "FM_KEY_CORE \<Rightarrow> image \<Rightarrow> image \<Rightarrow> int" where
  "rec_cmp kc = the (cmp_rec_rec (kc_ops kc))"

definition probe_cmp :: "FM_KEY_CORE \<Rightarrow> image \<Rightarrow> image \<Rightarrow> int" where
  "probe_cmp kc = the (cmp_rec_key (kc_ops kc))"

definition null_key :: "FM_KEY_CORE \<Rightarrow> image \<Rightarrow> bool" where
  "null_key kc r \<longleftrightarrow> (\<exists>f. has_null_part (kc_ops kc) = Some f \<and> f r \<noteq> 0)"

definition bucket_of :: "FM_KEY_CORE \<Rightarrow> image \<Rightarrow> u32" where
  "bucket_of kc r = fm_bucket kc (rec_hash kc r)"

definition key_ready :: "FM_KEY_CORE \<Rightarrow> bool" where
  "key_ready kc \<longleftrightarrow>
     key_contract (kc_ops kc) (rec_hash kc) (probe_hash kc) (rec_cmp kc) (probe_cmp kc) (null_key kc)
     \<and> kc_nbuckets kc \<noteq> 0 \<and> kc_head kc \<noteq> None \<and> kc_locks kc \<noteq> None"

definition keys_ready :: "FM_SHARE_CORE \<Rightarrow> bool" where
  "keys_ready s \<longleftrightarrow> keys s = length (keydef s) \<and> keys s \<le> FM_MAX_CHANGED_KEYS
     \<and> (\<forall>k < keys s. key_ready (keydef s ! k))"

lemma key_readyD:
  assumes "key_ready kc"
  shows "hash_rec (kc_ops kc) = Some (rec_hash kc)" "hash_key (kc_ops kc) = Some (probe_hash kc)"
    "cmp_rec_rec (kc_ops kc) = Some (rec_cmp kc)" "cmp_rec_key (kc_ops kc) = Some (probe_cmp kc)"
    "fm_core_key_bucket kc r = Some (bucket_of kc r)" "bucket_of kc r < kc_nbuckets kc"
    "fm_bucket kc h < kc_nbuckets kc" "rec_cmp kc r r = 0"
    "rec_cmp kc r r' = 0 \<Longrightarrow> rec_cmp kc r' r = 0"
    "rec_cmp kc r r' = 0 \<Longrightarrow> bucket_of kc r = bucket_of kc r'"
    "rec_cmp kc r r' = 0 \<Longrightarrow> null_key kc r = null_key kc r'"
    "rec_cmp kc r r' = 0 \<Longrightarrow> rec_cmp kc r x = 0 \<longleftrightarrow> rec_cmp kc r' x = 0"
    "probe_cmp kc r p = 0 \<Longrightarrow> bucket_of kc r = fm_bucket kc (probe_hash kc p)"
proof -
  have c: "key_contract (kc_ops kc) (rec_hash kc) (probe_hash kc) (rec_cmp kc) (probe_cmp kc) (null_key kc)"
    and nb: "kc_nbuckets kc \<noteq> 0" using assms by (auto simp: key_ready_def)
  show "hash_rec (kc_ops kc) = Some (rec_hash kc)" "hash_key (kc_ops kc) = Some (probe_hash kc)"
    "cmp_rec_rec (kc_ops kc) = Some (rec_cmp kc)" "cmp_rec_key (kc_ops kc) = Some (probe_cmp kc)"
    by (rule key_contract.hash_rec [OF c] key_contract.hash_key [OF c] key_contract.cmp_rec_rec [OF c]
        key_contract.cmp_rec_key [OF c])+
  show "fm_core_key_bucket kc r = Some (bucket_of kc r)"
    unfolding bucket_of_def by (rule key_contract.key_bucket_eq [OF c refl])
  show "fm_bucket kc h < kc_nbuckets kc" for h using nb by (simp add: fm_bucket_def word_and_mask_less)
  then show "bucket_of kc r < kc_nbuckets kc" by (simp add: bucket_of_def)
  show "rec_cmp kc r r = 0" "rec_cmp kc r r' = 0 \<Longrightarrow> rec_cmp kc r' r = 0"
    by (rule key_contract.cr_refl [OF c], rule key_contract.cr_sym [OF c])
  show "rec_cmp kc r r' = 0 \<Longrightarrow> bucket_of kc r = bucket_of kc r'"
    unfolding bucket_of_def by (rule key_contract.same_bucket [OF c])
  show "rec_cmp kc r r' = 0 \<Longrightarrow> null_key kc r = null_key kc r'" by (rule key_contract.cr_null [OF c])
  show "rec_cmp kc r r' = 0 \<Longrightarrow> rec_cmp kc r x = 0 \<longleftrightarrow> rec_cmp kc r' x = 0"
    by (rule key_contract.cr_cong [OF c])
  show "probe_cmp kc r p = 0 \<Longrightarrow> bucket_of kc r = fm_bucket kc (probe_hash kc p)"
    unfolding bucket_of_def by (rule key_contract.probe_bucket [OF c])
qed

lemma keys_readyD:
  assumes "keys_ready s" "k < keys s"
  shows "key_ready (keydef s ! k)" "fm_key s k = Some (keydef s ! k)"
    "has_bucket (keydef s) k b \<longleftrightarrow> b < kc_nbuckets (keydef s ! k)"
  using assms by (auto simp: keys_ready_def key_ready_def fm_key_def has_bucket_def)

lemma keys_ready_bucket: "keys_ready s \<Longrightarrow> k < keys s \<Longrightarrow> has_bucket (keydef s) k (bucket_of (keydef s ! k) r)"
  by (simp add: keys_readyD(3) key_readyD(6) keys_readyD(1))

definition locks_free :: "FM_SHARE_CORE \<Rightarrow> bool" where
  "locks_free s \<longleftrightarrow> (\<forall>k b. has_bucket (keydef s) k b \<longrightarrow> \<not> lock_of (keydef s) k b)"

lemma relocked_key_parts:
  assumes "relocked s L s'"
  shows "rec_hash (keydef s' ! k) = rec_hash (keydef s ! k)" "probe_hash (keydef s' ! k) = probe_hash (keydef s ! k)"
    "rec_cmp (keydef s' ! k) = rec_cmp (keydef s ! k)" "probe_cmp (keydef s' ! k) = probe_cmp (keydef s ! k)"
    "null_key (keydef s' ! k) = null_key (keydef s ! k)" "bucket_of (keydef s' ! k) = bucket_of (keydef s ! k)"
  using relockedD(7,9) [OF assms]
  by (simp_all add: rec_hash_def probe_hash_def rec_cmp_def probe_cmp_def null_key_def bucket_of_def fm_bucket_def fun_eq_iff)

lemma relocked_keys_ready:
  assumes "relocked s L s'"
  shows "keys_ready s' \<longleftrightarrow> keys_ready s"
proof -
  have "k < length (keydef s) \<Longrightarrow> kc_nbuckets (keydef s ! k) \<noteq> 0 \<Longrightarrow> has_bucket (keydef s) k 0
      \<longleftrightarrow> kc_head (keydef s ! k) \<noteq> None \<and> kc_locks (keydef s ! k) \<noteq> None" for s :: FM_SHARE_CORE and k
    by (auto simp: has_bucket_def word_gt_0)
  then have "key_ready (keydef s ! k) \<longleftrightarrow> key_contract (kc_ops (keydef s ! k)) (rec_hash (keydef s ! k))
      (probe_hash (keydef s ! k)) (rec_cmp (keydef s ! k)) (probe_cmp (keydef s ! k)) (null_key (keydef s ! k))
     \<and> kc_nbuckets (keydef s ! k) \<noteq> 0 \<and> has_bucket (keydef s) k 0"
    if "k < length (keydef s)" for s :: FM_SHARE_CORE and k
    using that by (auto simp: key_ready_def)
  then show ?thesis
    using relockedD [OF assms] by (auto simp: keys_ready_def relocked_key_parts [OF assms])
qed

section \<open>The hash index behind the chains\<close>

text \<open>
  \<open>indexed s M\<close>: the chains of key \<open>k\<close> hold slot \<open>i\<close> in bucket \<open>b\<close> exactly when \<open>M k i = Some b\<close>.
\<close>

type_synonym index_map = "nat \<Rightarrow> slot_id \<Rightarrow> u32 option"

definition indexed :: "FM_SHARE_CORE \<Rightarrow> index_map \<Rightarrow> bool" where
  "indexed s M \<longleftrightarrow> (\<exists>CH. chains s CH \<and>
     (\<forall>k < keys s. \<forall>b. has_bucket (keydef s) k b \<longrightarrow> set (CH k b) = {i. M k i = Some b}))"

lemma indexed_cong:
  "\<forall>CH. chains s' CH = chains s CH \<Longrightarrow> keys s' = keys s \<Longrightarrow> has_bucket (keydef s') = has_bucket (keydef s)
    \<Longrightarrow> indexed s' M = indexed s M"
  by (simp add: indexed_def)

lemma indexed_link:
  assumes M: "indexed s M" and k: "k < keys s" and b: "has_bucket (keydef s) k b"
    and i: "has_slot (chunks s) i" and new: "M k i = None"
  shows "\<exists>s'. fm_core_chain_link s k b i = Some s' \<and> links_changed s s' \<and> indexed s' (M(k := (M k)(i \<mapsto> b)))"
proof -
  obtain CH where c: "chains s CH"
    and CH: "\<And>k b. k < keys s \<Longrightarrow> has_bucket (keydef s) k b \<Longrightarrow> set (CH k b) = {i. M k i = Some b}"
    using M by (auto simp: indexed_def)
  have "\<And>b'. has_bucket (keydef s) k b' \<Longrightarrow> i \<notin> set (CH k b')" using CH [OF k] new by auto
  from chain_link_eq [OF c k b i this] obtain s' where s': "fm_core_chain_link s k b i = Some s'"
    "links_changed s s'" "chains s' (set_chain CH k b (i # CH k b))" by blast
  have "indexed s' (M(k := (M k)(i \<mapsto> b)))"
    unfolding indexed_def using s'(3) CH new
    by (intro exI [of _ "set_chain CH k b (i # CH k b)"]) (auto simp: links_changedD [OF s'(2)] set_chain_apply)
  with s' show ?thesis by blast
qed

lemma indexed_unlink:
  assumes M: "indexed s M" and k: "k < keys s" and b: "has_bucket (keydef s) k b"
  shows "\<exists>s'. fm_core_chain_unlink s k b i = Some (if M k i = Some b then FM_ERR_OK else FM_ERR_NOT_FOUND, s')
    \<and> links_changed s s' \<and> indexed s' (if M k i = Some b then M(k := (M k)(i := None)) else M)"
proof -
  obtain CH where c: "chains s CH"
    and CH: "\<And>k b. k < keys s \<Longrightarrow> has_bucket (keydef s) k b \<Longrightarrow> set (CH k b) = {i. M k i = Some b}"
    using M by (auto simp: indexed_def)
  have i: "i \<in> set (CH k b) \<longleftrightarrow> M k i = Some b" using CH [OF k b] by auto
  obtain s' where s': "fm_core_chain_unlink s k b i = Some (if M k i = Some b then FM_ERR_OK else FM_ERR_NOT_FOUND, s')"
    "links_changed s s'" "chains s' (set_chain CH k b (remove1 i (CH k b)))"
    using chain_unlink_eq [OF c k b, of i] unfolding i by blast
  have "set (remove1 i (CH k b)) = {j. M k j = Some b \<and> j \<noteq> i}"
    using chains_distinct [OF c k b] CH [OF k b] by auto
  then have "indexed s' (if M k i = Some b then M(k := (M k)(i := None)) else M)"
    unfolding indexed_def using s'(3) CH
    by (intro exI [of _ "set_chain CH k b (remove1 i (CH k b))"]) (auto simp: links_changedD [OF s'(2)] set_chain_apply)
  with s' show ?thesis by blast
qed

text \<open>The duplicate check of one key, over the rows of the table.\<close>

definition dup_row :: "FM_SHARE_CORE \<Rightarrow> image \<Rightarrow> nat \<Rightarrow> bool" where
  "dup_row s rec k \<longleftrightarrow> kc_unique (keydef s ! k) \<and> \<not> null_key (keydef s ! k) rec
     \<and> (\<exists>i r. rows s i = Some r \<and> rec_cmp (keydef s ! k) r rec = 0)"

definition covers :: "FM_SHARE_CORE \<Rightarrow> index_map \<Rightarrow> nat \<Rightarrow> bool" where
  "covers s M k \<longleftrightarrow> (\<forall>i r. rows s i = Some r \<longrightarrow> M k i = Some (bucket_of (keydef s ! k) r))"

lemma dup_check_eq:
  assumes M: "indexed s M" and q: "quiet s" and kr: "keys_ready s" and k: "k < keys s" and cov: "covers s M k"
  shows "fm_core_dup_check s k (bucket_of (keydef s ! k) rec) rec
    = Some (if dup_row s rec k then FM_ERR_DUP_KEY else FM_ERR_OK)"
proof -
  let ?kc = "keydef s ! k" and ?b = "bucket_of (keydef s ! k) rec"
  note ready = key_readyD [OF keys_readyD(1) [OF kr k]]
  have b: "has_bucket (keydef s) k ?b" by (rule keys_ready_bucket [OF kr k])
  obtain CH where c: "chains s CH" and CH: "set (CH k ?b) = {i. M k i = Some ?b}"
    using M k b by (auto simp: indexed_def)
  have "(\<exists>i \<in> set (CH k ?b). row_matches s (\<lambda>r. rec_cmp ?kc r rec = 0) i)
      \<longleftrightarrow> (\<exists>i r. rows s i = Some r \<and> rec_cmp ?kc r rec = 0)" (is "?L = ?R")
  proof
    assume ?L
    then show ?R by (auto simp: row_matches_def split: option.splits)
  next
    assume ?R
    then obtain i r where r: "rows s i = Some r" "rec_cmp ?kc r rec = 0" by blast
    then have "M k i = Some ?b" using cov ready(10) by (auto simp: covers_def)
    with r show ?L by (auto simp: CH row_matches_def)
  qed
  moreover have "dup_loop s ?kc k rec (head_of (keydef s) k ?b) =
    Some (if \<exists>i \<in> set (CH k ?b). row_matches s (\<lambda>r. rec_cmp ?kc r rec = 0) i then FM_ERR_DUP_KEY else FM_ERR_OK)"
    using chainsD(2) [OF c k b] by (intro dup_loop_eq [OF q k ready(3) chainsD(1) [OF c k b]]) auto
  moreover have "(case has_null_part (kc_ops ?kc) of None \<Rightarrow> False | Some f \<Rightarrow> f rec \<noteq> 0) = null_key ?kc rec"
    by (auto simp: null_key_def split: option.split)
  ultimately show ?thesis
    using b keys_readyD(2) [OF kr k] by (auto simp: fm_core_dup_check_def dup_row_def)
qed

section \<open>The loops over the keys\<close>

definition link_at :: "index_map \<Rightarrow> nat set \<Rightarrow> (nat \<Rightarrow> u32) \<Rightarrow> slot_id \<Rightarrow> index_map" where
  "link_at M ks f i = (\<lambda>k. if k \<in> ks then (M k)(i \<mapsto> f k) else M k)"

definition unlink_at :: "index_map \<Rightarrow> nat set \<Rightarrow> slot_id \<Rightarrow> index_map" where
  "unlink_at M ks i = (\<lambda>k. if k \<in> ks then (M k)(i := None) else M k)"

text \<open>What the loops need of the share: it stays true while links change.\<close>

definition steady :: "FM_SHARE_CORE \<Rightarrow> bool" where
  "steady s \<longleftrightarrow> quiet s \<and> keys_ready s \<and> locks_free s"

lemma steady_links: "links_changed s s' \<Longrightarrow> steady s' = steady s"
  using links_changedD(5,6) links_changed_quiet relocked_keys_ready
  by (auto simp: steady_def locks_free_def links_changed_relocked)

lemma links_changed_dup_row: "links_changed s s' \<Longrightarrow> dup_row s' = dup_row s"
  by (auto simp: dup_row_def fun_eq_iff links_changed_rows links_changedD(8)
      relocked_key_parts links_changed_relocked)

lemma links_changed_covers: "links_changed s s' \<Longrightarrow> covers s' = covers s"
  by (auto simp: covers_def fun_eq_iff links_changed_rows relocked_key_parts links_changed_relocked)

lemma links_changed_bucket_of: "links_changed s s' \<Longrightarrow> bucket_of (keydef s' ! k) = bucket_of (keydef s ! k)"
  by (simp add: relocked_key_parts links_changed_relocked)

lemma indexed_lock:
  assumes "steady s" "indexed s M" "k < keys s" "has_bucket (keydef s) k b"
  shows "\<exists>s'. lock_bucket s k b = Some s' \<and> relocked s (set_lock (lock_of (keydef s)) k b True) s' \<and> indexed s' M"
proof -
  obtain s' where s': "lock_bucket s k b = Some s'" "relocked s (set_lock (lock_of (keydef s)) k b True) s'"
    "\<forall>CH. chains s' CH = chains s CH"
    using lock_bucket_eq [of s k b] assms by (auto simp: steady_def locks_free_def)
  then show ?thesis
    using indexed_cong [OF s'(3)] relockedD(3,5) [OF s'(2)] assms(2) by auto
qed

lemma indexed_unlock:
  assumes "steady s" "has_bucket (keydef s) k b" "relocked s (set_lock (lock_of (keydef s)) k b True) s1"
    "links_changed s1 s2" "indexed s2 M"
  shows "\<exists>s'. unlock_bucket s2 k b = Some s' \<and> links_changed s s' \<and> indexed s' M"
proof -
  obtain s' where s': "unlock_bucket s2 k b = Some s'" "links_changed s s'" "\<forall>CH. chains s' CH = chains s2 CH"
    using unlock_after_lock [OF _ _ assms(3,4)] assms(1,2) by (auto simp: steady_def locks_free_def)
  then show ?thesis
    using indexed_cong [OF s'(3)] links_changedD(3,5) [OF s'(2)] links_changedD(3,5) [OF assms(4)]
      relockedD(3,5) [OF assms(3)] assms(5) by auto
qed

lemma insert_keys_eq:
  assumes "steady s" "indexed s M" "distinct ks" "\<forall>k \<in> set ks. k < keys s \<and> M k i = None \<and> covers s M k"
    "has_slot (chunks s) i"
  shows "\<exists>s'. insert_keys ks s rec i = Some (find (dup_row s rec) ks, s') \<and> links_changed s s'
    \<and> indexed s' (link_at M (set (takeWhile (\<lambda>k. \<not> dup_row s rec k) ks)) (\<lambda>k. bucket_of (keydef s ! k) rec) i)"
  using assms
proof (induction ks arbitrary: s M)
  case Nil
  then show ?case by (simp add: link_at_def)
next
  case (Cons k ks)
  let ?b = "bucket_of (keydef s ! k) rec"
  have k: "k < keys s" "M k i = None" "covers s M k" using Cons.prems by auto
  have kr: "keys_ready s" and q: "quiet s" using Cons.prems(1) by (auto simp: steady_def)
  have b: "has_bucket (keydef s) k ?b" by (rule keys_ready_bucket [OF kr k(1)])
  note ready = key_readyD [OF keys_readyD(1) [OF kr k(1)]]
  obtain s1 where s1: "lock_bucket s k ?b = Some s1"
    "relocked s (set_lock (lock_of (keydef s)) k ?b True) s1" "indexed s1 M"
    using indexed_lock [OF Cons.prems(1,2) k(1) b] by blast
  have bo: "bucket_of (keydef s1 ! j) = bucket_of (keydef s ! j)" for j
    by (rule relocked_key_parts(6) [OF s1(2)])
  have dr: "dup_row s1 = dup_row s"
    using relocked_rows [OF s1(2)] relockedD(8) [OF s1(2)] relocked_key_parts [OF s1(2)]
    by (auto simp: dup_row_def fun_eq_iff)
  have "fm_core_dup_check s1 k (bucket_of (keydef s1 ! k) rec) rec
      = Some (if dup_row s1 rec k then FM_ERR_DUP_KEY else FM_ERR_OK)"
    using relocked_quiet [OF s1(2)] relocked_keys_ready [OF s1(2)] relockedD(3) [OF s1(2)] q kr k
      relocked_rows [OF s1(2)] bo by (intro dup_check_eq [OF s1(3)]) (auto simp: covers_def)
  then have dup: "fm_core_dup_check s1 k ?b rec = Some (if dup_row s rec k then FM_ERR_DUP_KEY else FM_ERR_OK)"
    by (simp add: bo dr)
  show ?case
  proof (cases "dup_row s rec k")
    case True
    obtain s2 where "unlock_bucket s1 k ?b = Some s2" "links_changed s s2" "indexed s2 M"
      using indexed_unlock [OF Cons.prems(1) b s1(2) links_changed_refl s1(3)] by blast
    then show ?thesis
      using True dup s1(1) ready(1,5) keys_readyD(2) [OF kr k(1)] by (simp add: link_at_def)
  next
    case False
    obtain s2 where s2: "fm_core_chain_link s1 k ?b i = Some s2" "links_changed s1 s2"
      "indexed s2 (M(k := (M k)(i \<mapsto> ?b)))"
      using indexed_link [OF s1(3), of k ?b i] relockedD(2,3,5) [OF s1(2)] k b Cons.prems(5) by auto
    obtain s3 where s3: "unlock_bucket s2 k ?b = Some s3" "links_changed s s3"
      "indexed s3 (M(k := (M k)(i \<mapsto> ?b)))"
      using indexed_unlock [OF Cons.prems(1) b s1(2) s2(2,3)] by blast
    note lk = links_changedD [OF s3(2)] links_changed_dup_row [OF s3(2)] links_changed_bucket_of [OF s3(2)]
    have "\<forall>j \<in> set ks. j < keys s3 \<and> (M(k := (M k)(i \<mapsto> ?b))) j i = None \<and> covers s3 (M(k := (M k)(i \<mapsto> ?b))) j"
      using Cons.prems(3,4) by (auto simp: lk links_changed_covers [OF s3(2)] covers_def)
    from Cons.IH [OF _ s3(3) _ this] obtain s' where s': "insert_keys ks s3 rec i = Some (find (dup_row s rec) ks, s')"
      "links_changed s3 s'" "indexed s' (link_at (M(k := (M k)(i \<mapsto> ?b)))
        (set (takeWhile (\<lambda>k. \<not> dup_row s rec k) ks)) (\<lambda>k. bucket_of (keydef s ! k) rec) i)"
      using Cons.prems steady_links [OF s3(2)] by (auto simp: lk simp del: fun_upd_apply)
    have "link_at (M(k := (M k)(i \<mapsto> ?b))) (set (takeWhile (\<lambda>k. \<not> dup_row s rec k) ks)) (\<lambda>k. bucket_of (keydef s ! k) rec) i
      = link_at M (set (takeWhile (\<lambda>k. \<not> dup_row s rec k) (k # ks))) (\<lambda>k. bucket_of (keydef s ! k) rec) i"
      using False by (auto simp: link_at_def fun_eq_iff)
    with s' show ?thesis
      using False dup s1(1) s2(1) s3 ready(1,5) keys_readyD(2) [OF kr k(1)] links_changed_trans [OF s3(2) s'(2)] by simp
  qed
qed

lemma unlink_keys_eq:
  assumes "steady s" "indexed s M" "distinct ks"
    "\<forall>k \<in> set ks. k < keys s \<and> M k i = Some (bucket_of (keydef s ! k) rec)"
  shows "\<exists>s'. unlink_keys ks s rec i = Some s' \<and> links_changed s s' \<and> indexed s' (unlink_at M (set ks) i)"
  using assms
proof (induction ks arbitrary: s M)
  case Nil
  then show ?case by (simp add: unlink_at_def)
next
  case (Cons k ks)
  let ?b = "bucket_of (keydef s ! k) rec"
  have k: "k < keys s" "M k i = Some ?b" using Cons.prems by auto
  have kr: "keys_ready s" using Cons.prems(1) by (auto simp: steady_def)
  have b: "has_bucket (keydef s) k ?b" by (rule keys_ready_bucket [OF kr k(1)])
  note ready = key_readyD [OF keys_readyD(1) [OF kr k(1)]]
  obtain s1 where s1: "lock_bucket s k ?b = Some s1"
    "relocked s (set_lock (lock_of (keydef s)) k ?b True) s1" "indexed s1 M"
    using indexed_lock [OF Cons.prems(1,2) k(1) b] by blast
  obtain s2 where s2: "fm_core_chain_unlink s1 k ?b i = Some (FM_ERR_OK, s2)" "links_changed s1 s2"
    "indexed s2 (M(k := (M k)(i := None)))"
    using indexed_unlink [OF s1(3), of k ?b i] relockedD(3,5) [OF s1(2)] k b by auto
  obtain s3 where s3: "unlock_bucket s2 k ?b = Some s3" "links_changed s s3" "indexed s3 (M(k := (M k)(i := None)))"
    using indexed_unlock [OF Cons.prems(1) b s1(2) s2(2,3)] by blast
  have "\<forall>j \<in> set ks. j < keys s3 \<and> (M(k := (M k)(i := None))) j i = Some (bucket_of (keydef s3 ! j) rec)"
    using Cons.prems(3,4) by (auto simp: links_changedD [OF s3(2)] links_changed_bucket_of [OF s3(2)])
  from Cons.IH [OF _ s3(3) _ this] obtain s' where s': "unlink_keys ks s3 rec i = Some s'"
    "links_changed s3 s'" "indexed s' (unlink_at (M(k := (M k)(i := None))) (set ks) i)"
    using Cons.prems steady_links [OF s3(2)] by (auto simp del: fun_upd_apply)
  have "unlink_at (M(k := (M k)(i := None))) (set ks) i = unlink_at M (set (k # ks)) i"
    by (auto simp: unlink_at_def fun_eq_iff)
  with s' show ?case
    using s1(1) s2(1) s3 ready(5) keys_readyD(2) [OF kr k(1)] links_changed_trans [OF s3(2) s'(2)] by simp
qed

lemma rollback_keys_unlink:
  "rollback_keys d s rec i = map_option (\<lambda>s'. (s', 0 - 1)) (unlink_keys (rev [0 ..< d]) s rec i)"
proof (induction d arbitrary: s)
  case (Suc d)
  show ?case by (simp add: Suc.IH map_conv_bind_option case_prod_unfold)
qed simp

section \<open>The loops over the changed keys\<close>

definition changed_of :: "FM_SHARE_CORE \<Rightarrow> image \<Rightarrow> image \<Rightarrow> nat list" where
  "changed_of s old_rec new_rec = filter (\<lambda>k. rec_cmp (keydef s ! k) old_rec new_rec \<noteq> 0) [0 ..< keys s]"

lemma changed_loop_eq:
  assumes "keys_ready s" "\<forall>k \<in> set ks. k < keys s" "length acc + length ks \<le> FM_MAX_CHANGED_KEYS"
  shows "changed_loop ks s old_rec new_rec acc =
    Some (acc @ map of_nat (filter (\<lambda>k. rec_cmp (keydef s ! k) old_rec new_rec \<noteq> 0) ks))"
  using assms(2,3)
proof (induction ks arbitrary: acc)
  case (Cons k ks)
  then have k: "k < keys s" by simp
  note ready = key_readyD [OF keys_readyD(1) [OF assms(1) k]]
  show ?case using Cons ready(1,3) keys_readyD(2) [OF assms(1) k] by simp
qed simp

lemma changed_keys_eq:
  assumes "keys_ready s"
  shows "changed_keys s old_rec new_rec = Some (map of_nat (changed_of s old_rec new_rec))"
  using assms changed_loop_eq [OF assms, of "[0 ..< keys s]" "[]"]
  by (auto simp: changed_keys_def changed_of_def keys_ready_def)

lemma unat_key_number:
  assumes "keys_ready s" "k < keys s"
  shows "unat (of_nat k :: u16) = k"
proof -
  have "k < 2 ^ 16" using assms by (simp add: keys_ready_def FM_MAX_CHANGED_KEYS_def)
  then show ?thesis by (simp add: unat_of_nat)
qed

lemma collect_locks_eq:
  assumes "keys_ready s" "\<forall>k \<in> set ks. k < keys s"
  shows "\<exists>ls'. collect_locks (map of_nat ks) s old_rec new_rec ls = Some ls'
    \<and> (\<forall>k b. fmb_in ls' k b \<longleftrightarrow> fmb_in ls k b
        \<or> k \<in> set ks \<and> (b = bucket_of (keydef s ! k) new_rec \<or> b = bucket_of (keydef s ! k) old_rec))"
  using assms(2)
proof (induction ks arbitrary: ls)
  case (Cons k ks)
  then have k: "k < keys s" by simp
  note ready = key_readyD [OF keys_readyD(1) [OF assms(1) k]] keys_readyD(2) [OF assms(1) k] unat_key_number [OF assms(1) k]
  let ?n = "(of_nat k :: u16, bucket_of (keydef s ! k) new_rec)"
  let ?o = "(of_nat k :: u16, bucket_of (keydef s ! k) old_rec)"
  let ?l1 = "if ?n \<in> set ls then ls else ls @ [?n]"
  let ?l2 = "if ?o \<in> set ls then ?l1 else ?l1 @ [?o]"
  have step: "collect_locks (map of_nat (k # ks)) s old_rec new_rec ls = collect_locks (map of_nat ks) s old_rec new_rec ?l2"
    using ready(5,14,15) by (simp add: Let_def)
  have set2: "set ?l2 = insert ?n (insert ?o (set ls))" by auto
  have in2: "fmb_in ?l2 j b \<longleftrightarrow> fmb_in ls j b
      \<or> j = k \<and> (b = bucket_of (keydef s ! k) new_rec \<or> b = bucket_of (keydef s ! k) old_rec)" for j b
    unfolding fmb_in_def set2 using ready(15) by auto
  obtain ls' where "collect_locks (map of_nat ks) s old_rec new_rec ?l2 = Some ls'"
    "\<forall>j b. fmb_in ls' j b \<longleftrightarrow> fmb_in ?l2 j b
        \<or> j \<in> set ks \<and> (b = bucket_of (keydef s ! j) new_rec \<or> b = bucket_of (keydef s ! j) old_rec)"
    using Cons.IH [of ?l2] Cons.prems by auto
  then show ?case unfolding step in2 by auto
qed simp

lemma dup_checks_eq:
  assumes "indexed s M" "quiet s" "keys_ready s" "\<forall>k \<in> set ks. k < keys s \<and> covers s M k"
  shows "dup_checks (map of_nat ks) s new_rec = Some (map_option of_nat (find (dup_row s new_rec) ks))"
  using assms(4)
proof (induction ks)
  case (Cons k ks)
  then have k: "k < keys s" "covers s M k" by auto
  show ?case
    using Cons dup_check_eq [OF assms(1-3) k] key_readyD(5) [OF keys_readyD(1) [OF assms(3) k(1)]]
      keys_readyD(2) [OF assms(3) k(1)] unat_key_number [OF assms(3) k(1)] by simp
qed simp

lemma rechain_eq:
  assumes "indexed s M" "keys_ready s" "has_slot (chunks s) i" "distinct ks"
    "\<forall>k \<in> set ks. k < keys s \<and> M k i = Some (bucket_of (keydef s ! k) old_rec)"
  shows "\<exists>s'. rechain (map of_nat ks) s i old_rec new_rec = Some s' \<and> links_changed s s'
    \<and> indexed s' (link_at M (set ks) (\<lambda>k. bucket_of (keydef s ! k) new_rec) i)"
  using assms
proof (induction ks arbitrary: s M)
  case Nil
  then show ?case by (simp add: link_at_def)
next
  case (Cons k ks)
  let ?o = "bucket_of (keydef s ! k) old_rec" and ?n = "bucket_of (keydef s ! k) new_rec"
  have k: "k < keys s" "M k i = Some ?o" using Cons.prems by auto
  note kr = Cons.prems(2)
  note b = keys_ready_bucket [OF kr k(1)]
  obtain s1 where s1: "fm_core_chain_unlink s k ?o i = Some (FM_ERR_OK, s1)" "links_changed s s1"
    "indexed s1 (M(k := (M k)(i := None)))"
    using indexed_unlink [OF Cons.prems(1) k(1) b, of old_rec i] k(2) by auto
  obtain s2 where s2: "fm_core_chain_link s1 k ?n i = Some s2" "links_changed s1 s2"
    "indexed s2 ((M(k := (M k)(i := None)))(k := ((M(k := (M k)(i := None))) k)(i \<mapsto> ?n)))"
    using indexed_link [OF s1(3), of k ?n i] links_changedD(2,3,5) [OF s1(2)] k(1) b Cons.prems(3) by auto
  have M2: "(M(k := (M k)(i := None)))(k := ((M(k := (M k)(i := None))) k)(i \<mapsto> ?n)) = M(k := (M k)(i \<mapsto> ?n))"
    by (auto simp: fun_eq_iff)
  have s02: "links_changed s s2" by (rule links_changed_trans [OF s1(2) s2(2)])
  note bo = links_changed_bucket_of [OF s02]
  have "\<forall>j \<in> set ks. j < keys s2 \<and> (M(k := (M k)(i \<mapsto> ?n))) j i = Some (bucket_of (keydef s2 ! j) old_rec)"
    using Cons.prems(4,5) by (auto simp: bo links_changedD [OF s02])
  from Cons.IH [of s2, OF s2(3) [unfolded M2] _ _ _ this] obtain s' where s': "rechain (map of_nat ks) s2 i old_rec new_rec = Some s'"
    "links_changed s2 s'" "indexed s' (link_at (M(k := (M k)(i \<mapsto> ?n))) (set ks) (\<lambda>k. bucket_of (keydef s ! k) new_rec) i)"
    using kr Cons.prems(3,4) relocked_keys_ready [OF s02 [unfolded links_changed_relocked]]
    by (auto simp: bo links_changedD [OF s02] simp del: fun_upd_apply)
  have "link_at (M(k := (M k)(i \<mapsto> ?n))) (set ks) (\<lambda>k. bucket_of (keydef s ! k) new_rec) i
      = link_at M (set (k # ks)) (\<lambda>k. bucket_of (keydef s ! k) new_rec) i"
    by (auto simp: link_at_def fun_eq_iff)
  moreover have "rechain (map of_nat (k # ks)) s i old_rec new_rec = Some s'"
    using s1(1) s2(1) s'(1) key_readyD(5) [OF keys_readyD(1) [OF kr k(1)]] keys_readyD(2) [OF kr k(1)]
      unat_key_number [OF kr k(1)] by simp
  ultimately show ?case using s' links_changed_trans [OF s02 s'(2)] by auto
qed

end
