(* ===== verification/Fm_Table.thy ===== *)
theory Fm_Table
  imports Fm_Index
begin

text \<open>
  Correctness of the write operations of the concurrency core as one thread runs them.

  \<open>table\<close> is the invariant of a share between operations: chunk layout, even sequence counters,
  free locks, chains that index exactly the active rows, a free list of exactly the unused slots
  below the limit, a row counter that counts, images of the right length, unique keys unique.
  Every operation preserves it, always returns, releases every lock it took, and changes the
  abstract table \<open>rows\<close> as its specification says.
\<close>

section \<open>What a write to a slot changes\<close>

lemma share_frame [simp]:
  "layout (s\<lparr>records := n\<rparr>) = layout s" "layout (s\<lparr>struct_mutex := l\<rparr>) = layout s"
  "layout (s\<lparr>free_head := h\<rparr>) = layout s" "layout (s\<lparr>allocs := m\<rparr>) = layout s"
  "active (s\<lparr>records := n\<rparr>) = active s" "active (s\<lparr>struct_mutex := l\<rparr>) = active s"
  "active (s\<lparr>free_head := h\<rparr>) = active s" "active (s\<lparr>allocs := m\<rparr>) = active s"
  "rows (s\<lparr>records := n\<rparr>) = rows s" "rows (s\<lparr>struct_mutex := l\<rparr>) = rows s"
  "rows (s\<lparr>free_head := h\<rparr>) = rows s" "rows (s\<lparr>allocs := m\<rparr>) = rows s"
  "steady (s\<lparr>records := n\<rparr>) = steady s" "steady (s\<lparr>struct_mutex := l\<rparr>) = steady s"
  "steady (s\<lparr>free_head := h\<rparr>) = steady s" "steady (s\<lparr>allocs := m\<rparr>) = steady s"
  "indexed (s\<lparr>records := n\<rparr>) = indexed s" "indexed (s\<lparr>struct_mutex := l\<rparr>) = indexed s"
  "indexed (s\<lparr>free_head := h\<rparr>) = indexed s" "indexed (s\<lparr>allocs := m\<rparr>) = indexed s"
  "free_list (s\<lparr>records := n\<rparr>) = free_list s" "free_list (s\<lparr>struct_mutex := l\<rparr>) = free_list s"
  "free_list (s\<lparr>allocs := m\<rparr>) = free_list s"
  by (simp_all add: layout_def fun_eq_iff active_def rows_def steady_def quiet_def keys_ready_def
      locks_free_def indexed_def chains_def free_list_def)

definition held :: "FM_SHARE_CORE \<Rightarrow> slot_id \<Rightarrow> bool" where
  "held s i \<longleftrightarrow> has_slot (chunks s) i \<and> sl_wlock (slot_of (chunks s) i)"

definition gen_of :: "FM_SHARE_CORE \<Rightarrow> slot_id \<Rightarrow> u32" where
  "gen_of s i = (if has_slot (chunks s) i then sl_gen (slot_of (chunks s) i) else 0)"

lemma held_frame [simp]:
  "held (s\<lparr>records := n\<rparr>) = held s" "held (s\<lparr>struct_mutex := l\<rparr>) = held s"
  "held (s\<lparr>free_head := h\<rparr>) = held s" "held (s\<lparr>allocs := m\<rparr>) = held s"
  "gen_of (s\<lparr>records := n\<rparr>) = gen_of s" "gen_of (s\<lparr>struct_mutex := l\<rparr>) = gen_of s"
  "gen_of (s\<lparr>free_head := h\<rparr>) = gen_of s" "gen_of (s\<lparr>allocs := m\<rparr>) = gen_of s"
  by (simp_all add: held_def gen_of_def fun_eq_iff)

text \<open>What never changes in the life of a share: its allocator, sizes, auto-increment key and key definitions.\<close>

type_synonym share_static = "FM_SHARE_CORE_OPS \<times> nat \<times> nat \<times> nat \<times> nat \<times> (FM_KEY_OPS \<times> bool \<times> u32) list"

definition static :: "FM_SHARE_CORE \<Rightarrow> share_static" where
  "static s = (ops s, reclength s, keys s, max_records s, auto_key s, map (\<lambda>kc. (kc_ops kc, kc_unique kc, kc_nbuckets kc)) (keydef s))"

lemma static_frame [simp]:
  "static (s\<lparr>records := n\<rparr>) = static s" "static (s\<lparr>struct_mutex := l\<rparr>) = static s"
  "static (s\<lparr>free_head := h\<rparr>) = static s" "static (s\<lparr>allocs := m\<rparr>) = static s"
  "static (put_slot s i v) = static s"
  by (simp_all add: static_def put_slot_def)

lemma relocked_static: "relocked s L s' \<Longrightarrow> static s' = static s"
  by (auto simp: static_def relocked_def keys_shape_def list_eq_iff_nth_eq)

lemma relocked_held: "relocked s L s' \<Longrightarrow> held s' = held s" "relocked s L s' \<Longrightarrow> gen_of s' = gen_of s"
  by (simp_all add: held_def gen_of_def fun_eq_iff relockedD)

lemma put_slot_fields [simp]:
  "keys (put_slot s i v) = keys s" "keydef (put_slot s i v) = keydef s" "reclength (put_slot s i v) = reclength s"
  "records (put_slot s i v) = records s" "struct_mutex (put_slot s i v) = struct_mutex s"
  "max_records (put_slot s i v) = max_records s" "chunk_cap (put_slot s i v) = chunk_cap s" "chunk_cnt (put_slot s i v) = chunk_cnt s"
  "free_head (put_slot s i v) = free_head s" "has_slot (chunks (put_slot s i v)) = has_slot (chunks s)"
  "layout (put_slot s i v) = layout s" "keys_ready (put_slot s i v) = keys_ready s"
  "locks_free (put_slot s i v) = locks_free s" "indexed (put_slot s i v) = indexed s"
  by (simp_all add: put_slot_def keys_ready_def locks_free_def indexed_def chains_def fun_eq_iff)

lemma put_slot_views:
  assumes "has_slot (chunks s) i"
  shows "slot_of (chunks (put_slot s i v)) = (slot_of (chunks s))(i := v)"
    "active (put_slot s i v) = (active s)(i := sl_state v = FM_SLOT_ACTIVE)"
    "rows (put_slot s i v) =
      (rows s)(i := if sl_state v = FM_SLOT_ACTIVE then Some (take (reclength s) (sl_data v)) else None)"
    "held (put_slot s i v) = (held s)(i := sl_wlock v)"
    "gen_of (put_slot s i v) = (gen_of s)(i := sl_gen v)"
    "fm_slot (put_slot s i v) i = Some v"
    "put_slot (put_slot s i v) i w = put_slot s i w"
  using assms by (auto simp: put_slot_def active_def rows_def held_def gen_of_def fm_slot_def fun_eq_iff)

lemma fm_slot_eq: "has_slot (chunks s) i \<Longrightarrow> fm_slot s i = Some (slot_of (chunks s) i)"
  by (simp add: fm_slot_def)

lemma free_list_put_slot:
  assumes "has_slot (chunks s) i" "sl_free_next v = sl_free_next (slot_of (chunks s) i)"
  shows "free_list (put_slot s i v) F = free_list s F"
proof -
  have "(\<lambda>j. sl_free_next (slot_of (chunks (put_slot s i v)) j)) = (\<lambda>j. sl_free_next (slot_of (chunks s) j))"
    using assms by (auto simp: put_slot_views)
  then show ?thesis by (simp add: free_list_def)
qed

lemma steady_put_slot:
  "has_slot (chunks s) i \<Longrightarrow> even (sl_seq v) \<Longrightarrow> steady s \<Longrightarrow> steady (put_slot s i v)"
  by (simp add: steady_def quiet_def put_slot_views)

section \<open>The invariant of a share\<close>

definition uniq :: "FM_SHARE_CORE \<Rightarrow> bool" where
  "uniq s \<longleftrightarrow> (\<forall>k < keys s. kc_unique (keydef s ! k) \<longrightarrow> (\<forall>i j r r'. i \<noteq> j \<longrightarrow> rows s i = Some r \<longrightarrow> rows s j = Some r'
     \<longrightarrow> rec_cmp (keydef s ! k) r r' = 0 \<longrightarrow> null_key (keydef s ! k) r))"

text \<open>
  \<open>body s M X F\<close>: the share is well formed, its chains implement the index \<open>M\<close>, \<open>F\<close> is its free
  list, and the slots \<open>X\<close> are neither active nor free: they belong to the running operation.
\<close>

definition body :: "FM_SHARE_CORE \<Rightarrow> index_map \<Rightarrow> slot_id set \<Rightarrow> slot_id list \<Rightarrow> bool" where
  "body s M X F \<longleftrightarrow> layout s \<and> steady s \<and> indexed s M \<and> free_list s F
     \<and> (\<forall>i \<in> X \<union> set F. has_slot (chunks s) i \<and> \<not> active s i) \<and> X \<inter> set F = {}
     \<and> (\<forall>i. has_slot (chunks s) i \<longrightarrow> i < int (max_records s) \<longrightarrow> active s i \<or> i \<in> X \<union> set F)
     \<and> (\<forall>i r. rows s i = Some r \<longrightarrow> length r = reclength s) \<and> uniq s"

lemma bodyD:
  assumes "body s M X F"
  shows "layout s" "steady s" "indexed s M" "free_list s F" "quiet s" "keys_ready s" "locks_free s"
    "i \<in> X \<Longrightarrow> has_slot (chunks s) i" "i \<in> set F \<Longrightarrow> has_slot (chunks s) i"
    "i \<in> X \<Longrightarrow> \<not> active s i" "i \<in> set F \<Longrightarrow> \<not> active s i" "X \<inter> set F = {}"
    "has_slot (chunks s) i \<Longrightarrow> i < int (max_records s) \<Longrightarrow> active s i \<or> i \<in> X \<union> set F"
    "rows s i = Some r \<Longrightarrow> length r = reclength s" "uniq s"
  using assms by (auto simp: body_def steady_def)

definition index_of :: "FM_SHARE_CORE \<Rightarrow> index_map" where
  "index_of s k i = map_option (bucket_of (keydef s ! k)) (rows s i)"

definition counted :: "FM_SHARE_CORE \<Rightarrow> bool" where
  "counted s \<longleftrightarrow> records s = int (card {i. active s i})"

definition table :: "FM_SHARE_CORE \<Rightarrow> bool" where
  "table s \<longleftrightarrow> (\<exists>F. body s (index_of s) {} F) \<and> counted s \<and> \<not> struct_mutex s"

lemma covers_index_of [simp]: "covers s (index_of s) k"
  by (simp add: covers_def index_of_def)

lemma covers_all: "\<forall>k < n. covers s (index_of s) k"
  by simp

lemma index_of_frame [simp]:
  "index_of (s\<lparr>records := n\<rparr>) = index_of s" "index_of (s\<lparr>struct_mutex := l\<rparr>) = index_of s"
  by (simp_all add: index_of_def fun_eq_iff)

lemma body_frame [simp]:
  "body (s\<lparr>records := n\<rparr>) = body s" "body (s\<lparr>struct_mutex := l\<rparr>) = body s" "body (s\<lparr>allocs := m\<rparr>) = body s"
  by (simp_all add: body_def uniq_def fun_eq_iff)

lemma body_links:
  assumes "body s M X F" "links_changed s s'" "indexed s' M'"
  shows "body s' M' X F"
proof -
  note l = links_changedD [OF assms(2)] links_changed_rows [OF assms(2)] links_changed_layout [OF assms(2)]
    links_changed_free_list [OF assms(2)] steady_links [OF assms(2)]
    relocked_active [OF assms(2) [unfolded links_changed_relocked]]
    relocked_key_parts [OF assms(2) [unfolded links_changed_relocked]]
  show ?thesis using assms(1,3) unfolding body_def uniq_def l by blast
qed

text \<open>The image \<open>d\<close> may be put in slot \<open>i\<close>: no other row has its key.\<close>

definition may_put :: "FM_SHARE_CORE \<Rightarrow> slot_id \<Rightarrow> image \<Rightarrow> bool" where
  "may_put s i d \<longleftrightarrow> (\<forall>k < keys s. kc_unique (keydef s ! k) \<longrightarrow> \<not> null_key (keydef s ! k) d \<longrightarrow>
     (\<forall>j r. j \<noteq> i \<longrightarrow> rows s j = Some r \<longrightarrow> rec_cmp (keydef s ! k) r d \<noteq> 0))"

lemma uniq_put:
  assumes "uniq s" "keys_ready s" "may_put s i d" "keys t = keys s" "keydef t = keydef s" "rows t = (rows s)(i \<mapsto> d)"
  shows "uniq t"
  unfolding uniq_def assms(4,5,6)
proof (intro allI impI)
  fix k i1 i2 r r'
  assume k: "k < keys s" and u: "kc_unique (keydef s ! k)" and ne: "i1 \<noteq> i2"
    and r: "((rows s)(i \<mapsto> d)) i1 = Some r" and r': "((rows s)(i \<mapsto> d)) i2 = Some r'"
    and c: "rec_cmp (keydef s ! k) r r' = 0"
  note ready = key_readyD [OF keys_readyD(1) [OF assms(2) k]]
  have m: "\<not> null_key (keydef s ! k) d \<Longrightarrow> j \<noteq> i \<Longrightarrow> rows s j = Some x \<Longrightarrow> rec_cmp (keydef s ! k) x d \<noteq> 0" for j x
    using assms(3) k u by (auto simp: may_put_def)
  consider "i1 = i" | "i2 = i" "i1 \<noteq> i" | "i1 \<noteq> i" "i2 \<noteq> i" by blast
  then show "null_key (keydef s ! k) r"
  proof cases
    case 1
    then show ?thesis using m [of i2 r'] r r' ne ready(9) [OF c] by auto
  next
    case 2
    then show ?thesis using m [of i1 r] r r' ready(11) [OF c] c by auto
  next
    case 3
    then show ?thesis using assms(1) k u ne r r' c unfolding uniq_def by (metis fun_upd_other)
  qed
qed

lemma uniq_drop:
  assumes "uniq s" "keys t = keys s" "keydef t = keydef s" "rows t = (rows s)(i := None)"
  shows "uniq t"
  using assms(1) unfolding uniq_def assms(2-4) by (metis fun_upd_apply option.distinct(1))

lemma body_put_slot:
  assumes b: "body s M X F" and i: "has_slot (chunks s) i" "i \<notin> set F"
    and v: "even (sl_seq v)" "sl_free_next v = sl_free_next (slot_of (chunks s) i)"
    and act: "sl_state v = FM_SLOT_ACTIVE \<Longrightarrow> reclength s \<le> length (sl_data v) \<and> may_put s i (take (reclength s) (sl_data v))"
  shows "body (put_slot s i v) M (if sl_state v = FM_SLOT_ACTIVE then X - {i} else insert i X) F"
proof -
  note d = bodyD [OF b] and p = put_slot_views [OF i(1), of v]
  have "uniq (put_slot s i v)"
  proof (cases "sl_state v = FM_SLOT_ACTIVE")
    case True
    then show ?thesis using act p(3) by (intro uniq_put [OF d(15,6)]) auto
  next
    case False
    then show ?thesis using p(3) by (intro uniq_drop [OF d(15)]) auto
  qed
  moreover have "length r = reclength s" if "rows (put_slot s i v) j = Some r" for j r
    using that act d(14) p(3) by (auto split: if_splits)
  ultimately show ?thesis
    using d(1-4,8-13) i v steady_put_slot [OF i(1) v(1) d(2)] free_list_put_slot [OF i(1) v(2)] p(2)
    unfolding body_def by (auto split: if_splits)
qed

text \<open>Two shares that differ in their implementation only.\<close>

definition same_table :: "FM_SHARE_CORE \<Rightarrow> FM_SHARE_CORE \<Rightarrow> bool" where
  "same_table s s' \<longleftrightarrow> rows s' = rows s \<and> active s' = active s \<and> held s' = held s \<and> gen_of s' = gen_of s
     \<and> records s' = records s \<and> keydef s' = keydef s \<and> keys s' = keys s \<and> reclength s' = reclength s
     \<and> struct_mutex s' = struct_mutex s \<and> max_records s' = max_records s \<and> chunk_cap s' = chunk_cap s
     \<and> static s' = static s \<and> (\<forall>i. has_slot (chunks s) i \<longrightarrow> has_slot (chunks s') i)"

lemma body_free_slot:
  assumes b: "body s M X F" and i: "i \<in> X"
  shows "\<exists>s'. fm_core_free_slot s i = Some s' \<and> body s' M (X - {i}) (i # F) \<and> same_table s s'"
proof -
  note d = bodyD [OF b]
  have hs: "has_slot (chunks s) i" "i \<notin> set F" using d(8,12) i by auto
  let ?v = "(slot_of (chunks s) i)\<lparr>sl_free_next := free_head s\<rparr>"
  let ?s = "(put_slot s i ?v)\<lparr>free_head := i\<rparr>"
  have e: "fm_core_free_slot s i = Some ?s" by (simp add: fm_core_free_slot_def fm_slot_eq hs)
  have p: "active ?s = active s" "rows ?s = rows s" "held ?s = held s" "gen_of ?s = gen_of s"
    using put_slot_views [OF hs(1), of ?v] hs(1)
    by (auto simp: fun_eq_iff active_def rows_def held_def gen_of_def)
  have "free_list ?s (i # F)"
    using fm_core_free_slot_eq [OF hs(1) d(4) hs(2)] by (simp add: put_slot_def)
  moreover have "steady ?s"
    using d(2,5) hs(1) by (auto intro!: steady_put_slot simp: quiet_def)
  ultimately have "body ?s M (X - {i}) (i # F)"
    using b hs i unfolding body_def p uniq_def by auto
  with e p show ?thesis by (auto simp: same_table_def)
qed

section \<open>Allocation\<close>

lemma grown_views:
  assumes g: "grown C (chunks s) (chunk_cnt s)" and l: "layout s"
  shows "has_slot C i \<longleftrightarrow> has_slot (chunks s) i \<or> (int (total_slots s) \<le> i \<and> i < int (total_slots s + FM_CHUNK_SIZE))"
    "has_slot (chunks s) i \<Longrightarrow> (slot_of C i)\<lparr>sl_free_next := 0\<rparr> = (slot_of (chunks s) i)\<lparr>sl_free_next := 0\<rparr>"
    "has_slot (chunks s) i \<Longrightarrow> next_of C k i = next_of (chunks s) k i"
    "has_slot C i \<Longrightarrow> \<not> has_slot (chunks s) i \<Longrightarrow> (slot_of C i)\<lparr>sl_free_next := 0\<rparr> = FM_SLOT_init\<lparr>sl_free_next := 0\<rparr>"
proof -
  have iff: "int (chunk_cnt s * FM_CHUNK_SIZE) \<le> i \<and> i < int ((chunk_cnt s + 1) * FM_CHUNK_SIZE)
      \<longleftrightarrow> int (total_slots s) \<le> i \<and> i < int (total_slots s + FM_CHUNK_SIZE)" for i
    by (auto simp: total_slots_def)
  note g' = g [unfolded grown_def iff]
  have old: "has_slot (chunks s) i \<Longrightarrow> \<not> (int (total_slots s) \<le> i \<and> i < int (total_slots s + FM_CHUNK_SIZE))" for i
    by (simp add: layout_has_slot [OF l])
  show "has_slot C i \<longleftrightarrow> has_slot (chunks s) i \<or> (int (total_slots s) \<le> i \<and> i < int (total_slots s + FM_CHUNK_SIZE))"
    using g' by blast
  show "has_slot (chunks s) i \<Longrightarrow> (slot_of C i)\<lparr>sl_free_next := 0\<rparr> = (slot_of (chunks s) i)\<lparr>sl_free_next := 0\<rparr>"
    using g' old by blast
  show "has_slot (chunks s) i \<Longrightarrow> next_of C k i = next_of (chunks s) k i"
    using g' old by blast
  show "has_slot C i \<Longrightarrow> \<not> has_slot (chunks s) i \<Longrightarrow> (slot_of C i)\<lparr>sl_free_next := 0\<rparr> = FM_SLOT_init\<lparr>sl_free_next := 0\<rparr>"
    using g' by blast
qed

lemma slot_eq_but_free:
  assumes "(a :: FM_SLOT)\<lparr>sl_free_next := 0\<rparr> = b\<lparr>sl_free_next := 0\<rparr>"
  shows "sl_state a = sl_state b" "sl_wlock a = sl_wlock b" "sl_seq a = sl_seq b" "sl_gen a = sl_gen b" "sl_data a = sl_data b"
  using assms by (cases a, cases b, simp)+

lemma grown_slot_parts:
  assumes "grown C (chunks s) (chunk_cnt s)" "layout s"
  shows "has_slot (chunks s) i \<Longrightarrow> has_slot C i"
    "has_slot (chunks s) i \<Longrightarrow> sl_state (slot_of C i) = sl_state (slot_of (chunks s) i)"
    "has_slot (chunks s) i \<Longrightarrow> sl_wlock (slot_of C i) = sl_wlock (slot_of (chunks s) i)"
    "has_slot (chunks s) i \<Longrightarrow> sl_seq (slot_of C i) = sl_seq (slot_of (chunks s) i)"
    "has_slot (chunks s) i \<Longrightarrow> sl_gen (slot_of C i) = sl_gen (slot_of (chunks s) i)"
    "has_slot (chunks s) i \<Longrightarrow> sl_data (slot_of C i) = sl_data (slot_of (chunks s) i)"
    "has_slot C i \<Longrightarrow> \<not> has_slot (chunks s) i \<Longrightarrow> sl_state (slot_of C i) = FM_SLOT_FREE \<and> \<not> sl_wlock (slot_of C i)
       \<and> sl_seq (slot_of C i) = 0 \<and> sl_gen (slot_of C i) = 0"
  using grown_views(1) [OF assms, of i] slot_eq_but_free [OF grown_views(2) [OF assms, of i]]
    slot_eq_but_free [OF grown_views(4) [OF assms, of i]] by (simp_all add: FM_SLOT_init_def)

text \<open>A fresh chunk adds slots and no rows, and the body holds with its first slot set aside and the
  others, up to the row limit, on the free list.\<close>

lemma grown_same_table:
  assumes l: "layout s" and g: "grown C (chunks s) (chunk_cnt s)"
    and s': "s' = s\<lparr>chunks := C, chunk_cnt := chunk_cnt s + 1, free_head := h, allocs := m, live_blocks := n\<rparr>"
  shows "same_table s s'"
proof -
  note gp = grown_slot_parts [OF g l]
  have act: "active s' i = active s i" for i
    using gp(1,2,7) [of i] by (cases "has_slot (chunks s) i") (auto simp: active_def s')
  have "rows s' i = rows s i \<and> held s' i = held s i \<and> gen_of s' i = gen_of s i" for i
    using act gp [of i] by (cases "has_slot (chunks s) i") (auto simp: s' rows_def held_def gen_of_def active_def fun_eq_iff)
  then show ?thesis using act gp(1) by (auto simp: same_table_def s' static_def)
qed

lemma grown_indexed:
  assumes l: "layout s" and g: "grown C (chunks s) (chunk_cnt s)" and M: "indexed s M"
    and s': "s' = s\<lparr>chunks := C, chunk_cnt := chunk_cnt s + 1, free_head := h, allocs := m, live_blocks := n\<rparr>"
  shows "indexed s' M"
proof -
  obtain CH where c: "chains s CH"
    and CH: "\<forall>k < keys s. \<forall>b. has_bucket (keydef s) k b \<longrightarrow> set (CH k b) = {i. M k i = Some b}"
    using M by (auto simp: indexed_def)
  have "linked (next_of C k) h' (CH k b) \<longleftrightarrow> linked (next_of (chunks s) k) h' (CH k b)"
    if "k < keys s" "has_bucket (keydef s) k b" for k b h'
    using grown_views(3) [OF g l] chainsD(2) [OF c that] by (intro linked_cong) auto
  then have "chains s' CH" using c grown_slot_parts(1) [OF g l] unfolding chains_def by (auto simp: s')
  then show ?thesis using CH unfolding indexed_def by (intro exI [of _ CH]) (simp add: s')
qed

lemma grown_body:
  assumes b: "body s M X []" and g: "grown C (chunks s) (chunk_cnt s)" "chunk_cnt s < chunk_cap s"
    and s': "s' = s\<lparr>chunks := C, chunk_cnt := chunk_cnt s + 1, free_head := h, allocs := m, live_blocks := n\<rparr>"
    and fl: "free_list s' (map int [total_slots s + 1 ..< min (total_slots s + FM_CHUNK_SIZE) (max_records s)])"
  shows "body s' M (insert (int (total_slots s)) X) (map int [total_slots s + 1 ..< min (total_slots s + FM_CHUNK_SIZE) (max_records s)])"
proof -
  let ?i = "int (total_slots s)"
  let ?F = "map int [total_slots s + 1 ..< min (total_slots s + FM_CHUNK_SIZE) (max_records s)]"
  note d = bodyD [OF b] and gp = grown_slot_parts [OF g(1) bodyD(1) [OF b]] and gv = grown_views(1) [OF g(1) bodyD(1) [OF b]]
  have st: "same_table s s'" by (rule grown_same_table [OF d(1) g(1) s'])
  then have act: "active s' = active s" by (simp add: same_table_def)
  have lay: "layout s'" using layout_grown [OF d(1) g] by (simp add: s' layout_def)
  have "quiet s'" using d(5) gp(1,4,7) unfolding quiet_def by (auto simp: s') (metis even_zero)
  then have sd: "steady s'" using d(6,7) by (simp add: steady_def s' keys_ready_def locks_free_def)
  have new: "has_slot (chunks s') j \<and> \<not> active s' j" if "?i \<le> j" "j < int (total_slots s + FM_CHUNK_SIZE)" for j
    unfolding act using that gv layout_has_slot [OF d(1)] by (auto simp: s' active_def)
  have old: "has_slot (chunks s') j \<and> \<not> active s' j \<and> j \<notin> set ?F" if "j \<in> X" for j
    using d(8,10) [OF that] gp(1) layout_has_slot [OF d(1), of j] unfolding act by (auto simp: s')
  have cov: "active s' j \<or> j \<in> insert ?i X \<union> set ?F" if j: "has_slot (chunks s') j" "j < int (max_records s)" for j
  proof (cases "has_slot (chunks s) j")
    case True
    then show ?thesis using d(13) [of j] j(2) by (auto simp: act)
  next
    case False
    then have i: "?i \<le> j" "j < int (total_slots s + FM_CHUNK_SIZE)" using gv [of j] j(1) by (auto simp: s')
    then have "j = ?i \<or> nat j \<in> {total_slots s + 1 ..< min (total_slots s + FM_CHUNK_SIZE) (max_records s)}" using j(2) by auto
    moreover have "j = int (nat j)" using i(1) by simp
    ultimately show ?thesis by (metis Un_iff atLeastLessThan_upt image_eqI insertI1 set_map)
  qed
  show ?thesis
    unfolding body_def
  proof (intro conjI)
    show "\<forall>i \<in> insert ?i X \<union> set ?F. has_slot (chunks s') i \<and> \<not> active s' i" using new old by auto
    show "insert ?i X \<inter> set ?F = {}" using old by auto
    show "\<forall>i. has_slot (chunks s') i \<longrightarrow> i < int (max_records s') \<longrightarrow> active s' i \<or> i \<in> insert ?i X \<union> set ?F"
      using cov by (simp add: s')
    show "\<forall>i r. rows s' i = Some r \<longrightarrow> length r = reclength s'" "uniq s'"
      using st d(14,15) by (simp_all add: same_table_def uniq_def)
  qed (use lay sd grown_indexed [OF d(1) g(1) d(3) s'] fl in auto)
qed

lemma body_alloc:
  assumes b: "body s M X F"
  obtains (none) m where "fm_core_alloc_slot s = Some (FM_NULL_SLOT, s\<lparr>allocs := m\<rparr>)" "F = []"
  | (slot) i s1 F1 where "fm_core_alloc_slot s = Some (i, s1)" "i \<noteq> FM_NULL_SLOT" "body s1 M (insert i X) F1" "same_table s s1"
      "i \<notin> X" "\<forall>j. has_slot (chunks s) j \<longrightarrow> sl_data (slot_of (chunks s1) j) = sl_data (slot_of (chunks s) j)"
proof -
  note d = bodyD [OF b]
  from d(1,4) show thesis
  proof (cases rule: fm_core_alloc_slot_cases)
    case (pop i F' s')
    have st: "same_table s s'" by (simp add: pop(3) same_table_def)
    have "i \<notin> set F'" using free_list_distinct [OF d(4)] pop(1) by simp
    then have "body s' M (insert i X) F'"
      using b pop(1,4) unfolding pop(3) body_def uniq_def by auto
    moreover have "i \<noteq> FM_NULL_SLOT" using d(9) [of i] pop(1) by auto
    ultimately show thesis using pop(1-3) st d(12) by (intro slot) auto
  next
    case limit
    then show thesis using none [of "allocs s"] by simp
  next
    case (oom m)
    then show thesis by (intro none) auto
  next
    case (fresh C h m s')
    note b' = grown_body [OF b [unfolded fresh(1)] fresh(5,2,3,6)]
    show thesis
      by (rule slot [OF fresh(4) _ b' grown_same_table [OF d(1) fresh(5,3)]])
        (use d(8) layout_has_slot [OF d(1)] grown_slot_parts(6) [OF fresh(5) d(1)] in \<open>auto simp: FM_NULL_SLOT_def fresh(3)\<close>)
  qed
qed

section \<open>Insert\<close>

lemma put_slot_keeps:
  assumes "has_slot (chunks s) i"
  shows "sl_wlock v = sl_wlock (slot_of (chunks s) i) \<Longrightarrow> held (put_slot s i v) = held s"
    "sl_gen v = sl_gen (slot_of (chunks s) i) \<Longrightarrow> gen_of (put_slot s i v) = gen_of s"
  using assms by (auto simp: put_slot_views held_def gen_of_def fun_eq_iff)

lemma indexed_cong_map: "(\<And>k. k < keys s \<Longrightarrow> M k = M' k) \<Longrightarrow> indexed s M = indexed s M'"
  by (simp add: indexed_def)

lemma body_cong_map: "(\<And>k. k < keys s \<Longrightarrow> M k = M' k) \<Longrightarrow> body s M X F = body s M' X F"
  unfolding body_def using indexed_cong_map [of s M M'] by blast

lemma same_table_trans: "same_table s t \<Longrightarrow> same_table t u \<Longrightarrow> same_table s u"
  by (simp add: same_table_def)

lemma same_table_index_of: "same_table s s' \<Longrightarrow> index_of s' = index_of s"
  by (simp add: same_table_def index_of_def fun_eq_iff)

lemma same_table_counted: "same_table s s' \<Longrightarrow> counted s' = counted s"
  by (simp add: same_table_def counted_def)

text \<open>Two shares with the same rows whose links may differ.\<close>

definition same_rows :: "FM_SHARE_CORE \<Rightarrow> FM_SHARE_CORE \<Rightarrow> bool" where
  "same_rows s s' \<longleftrightarrow> rows s' = rows s \<and> active s' = active s \<and> held s' = held s \<and> gen_of s' = gen_of s
     \<and> records s' = records s \<and> keys s' = keys s \<and> reclength s' = reclength s \<and> struct_mutex s' = struct_mutex s
     \<and> max_records s' = max_records s \<and> index_of s' = index_of s \<and> dup_row s' = dup_row s
     \<and> may_put s' = may_put s \<and> (\<forall>k. bucket_of (keydef s' ! k) = bucket_of (keydef s ! k))
     \<and> (\<forall>k. rec_cmp (keydef s' ! k) = rec_cmp (keydef s ! k))
     \<and> static s' = static s \<and> (\<forall>i. has_slot (chunks s) i \<longrightarrow> has_slot (chunks s') i)"

lemma same_table_rows: "same_table s s' \<Longrightarrow> same_rows s s'"
  by (simp add: same_table_def same_rows_def index_of_def dup_row_def may_put_def fun_eq_iff)

lemma relocked_same_rows: "relocked s L s' \<Longrightarrow> same_rows s s'"
  by (simp add: same_rows_def relocked_rows relocked_active relocked_held relockedD index_of_def
      dup_row_def may_put_def fun_eq_iff relocked_key_parts relocked_static)

lemma links_changed_same_rows: "links_changed s s' \<Longrightarrow> same_rows s s'"
  unfolding links_changed_relocked by (rule relocked_same_rows)

lemma same_rows_refl [simp]: "same_rows s s"
  by (simp add: same_rows_def)

lemma same_rows_trans: "same_rows s t \<Longrightarrow> same_rows t u \<Longrightarrow> same_rows s u"
  by (simp add: same_rows_def)

lemma same_rows_counted: "same_rows s s' \<Longrightarrow> counted s' = counted s"
  by (simp add: same_rows_def counted_def)

lemma dup_row_frame [simp]:
  "dup_row (s\<lparr>struct_mutex := l\<rparr>) = dup_row s" "may_put (s\<lparr>struct_mutex := l\<rparr>) = may_put s"
  "dup_row (s\<lparr>records := n\<rparr>) = dup_row s" "may_put (s\<lparr>records := n\<rparr>) = may_put s"
  by (simp_all add: dup_row_def may_put_def fun_eq_iff)

lemma same_rows_struct [simp]: "same_rows s (s\<lparr>struct_mutex := l\<rparr>) \<longleftrightarrow> struct_mutex s = l"
  by (auto simp: same_rows_def)

text \<open>Writing to a slot the operation owns does not show.\<close>

lemma put_owned:
  assumes b: "body s M X F" and i: "i \<in> X" and v: "sl_state v \<noteq> FM_SLOT_ACTIVE" "even (sl_seq v)"
    "sl_free_next v = sl_free_next (slot_of (chunks s) i)"
  shows "body (put_slot s i v) M X F"
    "sl_wlock v = sl_wlock (slot_of (chunks s) i) \<Longrightarrow> sl_gen v = sl_gen (slot_of (chunks s) i) \<Longrightarrow> same_table s (put_slot s i v)"
proof -
  note d = bodyD [OF b]
  have hs: "has_slot (chunks s) i" "i \<notin> set F" "\<not> active s i" using d(8,10,12) i by auto
  show "body (put_slot s i v) M X F"
    using body_put_slot [OF b hs(1,2) v(2,3)] v(1) i by (simp add: insert_absorb)
  assume "sl_wlock v = sl_wlock (slot_of (chunks s) i)" "sl_gen v = sl_gen (slot_of (chunks s) i)"
  moreover have "rows s i = None" using hs(3) by (simp add: rows_def)
  ultimately show "same_table s (put_slot s i v)"
    using put_slot_views(2,3) [OF hs(1), of v] put_slot_keeps [OF hs(1), of v] v(1) hs(3)
    by (auto simp: same_table_def fun_eq_iff)
qed

lemma find_upt_Some:
  assumes "find P [0 ..< n] = Some k"
  shows "takeWhile (\<lambda>k. \<not> P k) [0 ..< n] = [0 ..< k]" "k < n" "P k"
proof -
  obtain k': "k < n" "P k" "\<forall>j < k. \<not> P j"
    using assms by (auto simp: find_Some_iff)
  have "[0 ..< n] = [0 ..< k] @ k # [Suc k ..< n]"
    using k' by (metis le_add1 less_imp_le_nat plus_nat.add_0 upt_add_eq_append upt_conv_Cons le_iff_add)
  then show "takeWhile (\<lambda>k. \<not> P k) [0 ..< n] = [0 ..< k]" using k' by (simp add: takeWhile_append)
  show "k < n" "P k" using k' by auto
qed

lemma unlink_link_at: "(\<And>k. k \<in> A \<Longrightarrow> M k i = None) \<Longrightarrow> unlink_at (link_at M A f i) A i = M"
  by (auto simp: unlink_at_def link_at_def fun_eq_iff)

lemma finite_active: "layout s \<Longrightarrow> finite {i. active s i}"
  by (rule finite_subset [of _ "{0 ..< int (total_slots s)}"]) (auto simp: active_def layout_has_slot)

lemma counted_add:
  assumes "counted s" "layout s" "\<not> active s i" "active t = (active s)(i := True)" "records t = records s + 1"
  shows "counted t"
proof -
  have "{j. active t j} = insert i {j. active s j}" using assms(4) by auto
  then show ?thesis using assms(1,3,5) finite_active [OF assms(2)] by (simp add: counted_def)
qed

lemma counted_remove:
  assumes "counted s" "layout s" "active s i" "active t = (active s)(i := False)" "records t = records s - 1"
  shows "counted t"
proof -
  have "{j. active t j} = {j. active s j} - {i}" using assms(4) by auto
  moreover have "0 < card {j. active s j}" using assms(3) finite_active [OF assms(2)] by (auto simp: card_gt_0_iff)
  ultimately show ?thesis using assms(1,3,5) finite_active [OF assms(2)] by (simp add: counted_def of_nat_diff)
qed

text \<open>
  An insert in stages: the slot is filled and linked into the chains of the keys before the first
  duplicate, and then either unlinked and returned, or published.
\<close>

lemma insert_row_linked:
  assumes t: "table s" and len: "length rec = reclength s"
    and al: "fm_core_alloc_slot (s\<lparr>struct_mutex := True\<rparr>) = Some (i, s1)" "i \<noteq> FM_NULL_SLOT"
    and b1: "body s1 (index_of s) {i} F1" and st: "same_table (s\<lparr>struct_mutex := True\<rparr>) s1"
  obtains s2 s3 where "copy_image s1 i rec = Some s2" "keys s2 = keys s"
    "insert_keys [0 ..< keys s] s2 rec i = Some (find (dup_row s rec) [0 ..< keys s], s3)"
    "rows s i = None" "same_rows (s\<lparr>struct_mutex := True\<rparr>) s3"
    "body s3 (link_at (index_of s) (set (takeWhile (\<lambda>k. \<not> dup_row s rec k) [0 ..< keys s])) (\<lambda>k. bucket_of (keydef s ! k) rec) i) {i} F1"
    "even (sl_seq (slot_of (chunks s3) i))" "sl_data (slot_of (chunks s3) i) = rec"
    "fm_core_insert_row s rec = (case find (dup_row s rec) [0 ..< keys s] of
         Some k \<Rightarrow> do {
           (s4, k_end) \<leftarrow> rollback_keys k s3 rec i;
           s5 \<leftarrow> fm_core_free_slot s4 i;
           Some (FM_ERR_DUP_KEY, None, Some (sint k_end + 1), unlock_struct s5) }
       | None \<Rightarrow> do {
           sl \<leftarrow> fm_slot s3 i;
           let s4 = put_slot s3 i (sl\<lparr>sl_state := FM_SLOT_ACTIVE\<rparr>);
           let s5 = s4\<lparr>records := records s4 + 1\<rparr>;
           Some (FM_ERR_OK, Some i, None, unlock_struct s5) })"
proof -
  let ?s0 = "s\<lparr>struct_mutex := True\<rparr>" and ?M = "index_of s" and ?sl = "slot_of (chunks s1) i"
  let ?s2 = "put_slot s1 i (?sl\<lparr>sl_data := take (reclength s1) rec\<rparr>)" and ?f = "\<lambda>k. bucket_of (keydef s ! k) rec"
  have l: "lock_struct s = Some ?s0" using t by (simp add: table_def lock_struct_def spin_lock_def)
  note st1 = st [unfolded same_table_def, simplified] and d1 = bodyD [OF b1]
  have hs: "has_slot (chunks s1) i" "\<not> active s1 i" using d1(8,10) by auto
  have c2: "copy_image s1 i rec = Some ?s2" using hs(1) len st1 by (simp add: copy_image_def fm_slot_eq)
  have na: "sl_state ?sl \<noteq> FM_SLOT_ACTIVE" using hs by (simp add: active_def)
  have ev: "even (sl_seq ?sl)" using d1(5) hs(1) by (simp add: quiet_def)
  have b2: "body ?s2 ?M {i} F1" and st12: "same_table s1 ?s2"
    using put_owned [OF b1, of i "?sl\<lparr>sl_data := take (reclength s1) rec\<rparr>"] na ev by auto
  have st2: "same_table ?s0 ?s2" by (rule same_table_trans [OF st st12])
  note sr2 = same_table_rows [OF st2] and e2 = st2 [unfolded same_table_def, simplified]
  have ri: "rows s i = None" using hs(2) st1 by (simp add: rows_eq_None_iff)
  have "\<forall>k \<in> set [0 ..< keys s]. k < keys ?s2 \<and> ?M k i = None \<and> covers ?s2 ?M k"
    using ri e2 by (auto simp: covers_def index_of_def)
  then obtain s3 where s3: "insert_keys [0 ..< keys s] ?s2 rec i = Some (find (dup_row s rec) [0 ..< keys s], s3)" "links_changed ?s2 s3"
    "indexed s3 (link_at ?M (set (takeWhile (\<lambda>k. \<not> dup_row s rec k) [0 ..< keys s])) ?f i)"
    using insert_keys_eq [OF bodyD(2,3) [OF b2], of "[0 ..< keys s]" i rec] hs(1) e2 sr2 by (auto simp: same_rows_def)
  have sl3: "slot_of (chunks s3) i = ?sl\<lparr>sl_data := take (reclength s1) rec\<rparr>"
    using links_changedD(1) [OF s3(2)] put_slot_views(1) [OF hs(1)] by simp
  show thesis
  proof (rule that [OF c2 _ s3(1) ri same_rows_trans [OF sr2 links_changed_same_rows [OF s3(2)]] body_links [OF b2 s3(2,3)]], goal_cases)
    case 4
    show ?case using al l c2 s3(1) e2 by (simp add: fm_core_insert_row_def)
  qed (use sl3 ev len st1 e2 in auto)
qed

lemma rollback_restores:
  assumes b3: "body s3 (link_at (index_of s) {0 ..< k} f i) {i} F1" and f: "f = (\<lambda>k. bucket_of (keydef s3 ! k) rec)"
    and k: "k \<le> keys s3" and ri: "rows s i = None"
  obtains s5 where "rollback_keys k s3 rec i \<bind> (\<lambda>(s4, k_end). fm_core_free_slot s4 i \<bind> (\<lambda>s5. Some (s5, k_end))) = Some (s5, - 1)"
    "body s5 (index_of s) {} (i # F1)" "same_rows s3 s5"
proof -
  let ?M = "index_of s"
  have Mi: "?M k i = None" for k by (simp add: index_of_def ri)
  obtain s4 where s4: "unlink_keys (rev [0 ..< k]) s3 rec i = Some s4" "links_changed s3 s4"
    "indexed s4 (unlink_at (link_at ?M {0 ..< k} f i) {0 ..< k} i)"
    using unlink_keys_eq [OF bodyD(2,3) [OF b3], of "rev [0 ..< k]" i rec] k by (auto simp: link_at_def f)
  have "indexed s4 ?M" using s4(3) Mi by (simp add: unlink_link_at)
  then have b4: "body s4 ?M {i} F1" by (rule body_links [OF b3 s4(2)])
  obtain s5 where s5: "fm_core_free_slot s4 i = Some s5" "body s5 ?M {} (i # F1)" "same_table s4 s5"
    using body_free_slot [OF b4, of i] by auto
  show thesis
    by (rule that [of s5]) (use s4 s5 in \<open>auto simp: rollback_keys_unlink intro: same_rows_trans [OF links_changed_same_rows same_table_rows]\<close>)
qed

lemma publish_row:
  assumes t: "table s" and sr: "same_rows (s\<lparr>struct_mutex := True\<rparr>) s3" and ri: "rows s i = None"
    and b3: "body s3 (link_at (index_of s) {0 ..< keys s} (\<lambda>k. bucket_of (keydef s ! k) rec) i) {i} F1"
    and sl: "even (sl_seq (slot_of (chunks s3) i))" "sl_data (slot_of (chunks s3) i) = rec" and len: "length rec = reclength s"
    and nd: "\<forall>k < keys s. \<not> dup_row s rec k"
    and s'_def: "s' = (put_slot s3 i ((slot_of (chunks s3) i)\<lparr>sl_state := FM_SLOT_ACTIVE\<rparr>))\<lparr>records := records s3 + 1, struct_mutex := False\<rparr>"
  shows "table s'" "rows s' = (rows s)(i \<mapsto> rec)" "held s' = held s" "gen_of s' = gen_of s" "records s' = records s + 1"
    "has_slot (chunks s) j \<Longrightarrow> has_slot (chunks s') j" "static s' = static s" "has_slot (chunks s3) i"
proof -
  obtain F where b: "body s (index_of s) {} F" and cnt: "counted s" using t by (auto simp: table_def)
  note e3 = sr [unfolded same_rows_def, simplified]
  let ?M' = "link_at (index_of s) {0 ..< keys s} (\<lambda>k. bucket_of (keydef s ! k) rec) i"
  let ?v = "(slot_of (chunks s3) i)\<lparr>sl_state := FM_SLOT_ACTIVE\<rparr>"
  let ?s4 = "put_slot s3 i ?v"
  show hs: "has_slot (chunks s3) i" using bodyD(8) [OF b3] by auto
  have F1: "i \<notin> set F1" using bodyD(12) [OF b3] by auto
  have img: "take (reclength s3) (sl_data ?v) = rec" "reclength s3 = length (sl_data ?v)" using e3 len sl(2) by auto
  have "may_put s3 i rec" using nd e3 by (auto simp: may_put_def dup_row_def)
  then have b4: "body ?s4 ?M' {} F1" using body_put_slot [OF b3 hs F1, of ?v] sl img by simp
  have v4: "rows ?s4 = (rows s)(i \<mapsto> rec)" "active ?s4 = (active s)(i := True)" "held ?s4 = held s" "gen_of ?s4 = gen_of s"
    using put_slot_views(2,3) [OF hs, of ?v] put_slot_keeps [OF hs, of ?v] e3 img by auto
  have "index_of ?s4 k = ?M' k" if "k < keys ?s4" for k
    using that e3 by (auto simp: index_of_def v4 link_at_def fun_eq_iff)
  then have "body ?s4 (index_of ?s4) {} F1" using b4 body_cong_map [of ?s4 "index_of ?s4" ?M'] by blast
  then have "body s' (index_of s') {} F1" by (simp add: s'_def index_of_def fun_eq_iff body_def)
  moreover have "counted s'" using counted_add [OF cnt bodyD(1) [OF b], of i s'] v4(2) ri e3 by (simp add: s'_def rows_eq_None_iff)
  ultimately show "table s'" by (auto simp: table_def s'_def)
  show "rows s' = (rows s)(i \<mapsto> rec)" "held s' = held s" "gen_of s' = gen_of s" "records s' = records s + 1"
    "has_slot (chunks s) j \<Longrightarrow> has_slot (chunks s') j" "static s' = static s" using v4 e3 by (simp_all add: s'_def)
qed

lemma insert_row_cases:
  assumes t: "table s" and len: "length rec = reclength s"
  obtains (full) s' rc where "fm_core_insert_row s rec = Some (rc, None, None, s')" "table s'" "same_rows s s'"
      "rc = (if chunk_cnt s \<ge> chunk_cap s then FM_ERR_FULL else FM_ERR_NOMEM)"
      "\<And>i. has_slot (chunks s) i \<Longrightarrow> i < int (max_records s) \<Longrightarrow> active s i"
  | (dup) s' where "fm_core_insert_row s rec = Some (FM_ERR_DUP_KEY, None, Some 0, s')" "table s'" "same_rows s s'"
      "\<exists>k < keys s. dup_row s rec k"
  | (ok) i s' where "fm_core_insert_row s rec = Some (FM_ERR_OK, Some i, None, s')" "table s'"
      "\<forall>k < keys s. \<not> dup_row s rec k" "rows s i = None" "rows s' = (rows s)(i \<mapsto> rec)" "held s' = held s"
      "gen_of s' = gen_of s" "records s' = records s + 1" "\<forall>j. has_slot (chunks s) j \<longrightarrow> has_slot (chunks s') j"
      "static s' = static s"
proof -
  obtain F where b: "body s (index_of s) {} F" and cnt: "counted s" and mx: "\<not> struct_mutex s"
    using t by (auto simp: table_def)
  let ?s0 = "s\<lparr>struct_mutex := True\<rparr>"
  have l: "lock_struct s = Some ?s0" using mx by (simp add: lock_struct_def spin_lock_def)
  have b0: "body ?s0 (index_of s) {} F" using b by simp
  from b0 show thesis
  proof (cases rule: body_alloc)
    case (none m)
    let ?s' = "s\<lparr>struct_mutex := False, allocs := m\<rparr>"
    have "fm_core_insert_row s rec = Some (if chunk_cnt s \<ge> chunk_cap s then FM_ERR_FULL else FM_ERR_NOMEM, None, None, ?s')"
      using none(1) l by (simp add: fm_core_insert_row_def unlock_struct_def spin_unlock_def Let_def)
    moreover have st: "same_table s ?s'" using mx by (simp add: same_table_def)
    have "body ?s' (index_of s) {} F" using b by simp
    then have "table ?s'" unfolding table_def using cnt same_table_index_of [OF st] same_table_counted [OF st] by auto
    ultimately show thesis
      using full [of _ ?s'] same_table_rows [OF st] bodyD(13) [OF b] none(2) by auto
  next
    case (slot i s1 F1)
    obtain s2 s3 where "copy_image s1 i rec = Some s2" "keys s2 = keys s"
        "insert_keys [0 ..< keys s] s2 rec i = Some (find (dup_row s rec) [0 ..< keys s], s3)"
      and ri: "rows s i = None" and sr: "same_rows ?s0 s3"
      and b3: "body s3 (link_at (index_of s) (set (takeWhile (\<lambda>k. \<not> dup_row s rec k) [0 ..< keys s])) (\<lambda>k. bucket_of (keydef s ! k) rec) i) {i} F1"
      and sl: "even (sl_seq (slot_of (chunks s3) i))" "sl_data (slot_of (chunks s3) i) = rec"
      and step: "fm_core_insert_row s rec = (case find (dup_row s rec) [0 ..< keys s] of
         Some k \<Rightarrow> do {
           (s4, k_end) \<leftarrow> rollback_keys k s3 rec i;
           s5 \<leftarrow> fm_core_free_slot s4 i;
           Some (FM_ERR_DUP_KEY, None, Some (sint k_end + 1), unlock_struct s5) }
       | None \<Rightarrow> do {
           sl \<leftarrow> fm_slot s3 i;
           let s4 = put_slot s3 i (sl\<lparr>sl_state := FM_SLOT_ACTIVE\<rparr>);
           let s5 = s4\<lparr>records := records s4 + 1\<rparr>;
           Some (FM_ERR_OK, Some i, None, unlock_struct s5) })"
      by (rule insert_row_linked [OF t len slot(1-4)]) (rule that)
    note e3 = sr [unfolded same_rows_def, simplified]
    show thesis
    proof (cases "find (dup_row s rec) [0 ..< keys s]")
      case (Some k)
      note tw = find_upt_Some [OF Some]
      have f: "(\<lambda>k. bucket_of (keydef s ! k) rec) = (\<lambda>k. bucket_of (keydef s3 ! k) rec)" "k \<le> keys s3" using e3 tw(2) by auto
      obtain s5 where s5: "rollback_keys k s3 rec i \<bind> (\<lambda>(s4, k_end). fm_core_free_slot s4 i \<bind> (\<lambda>s5. Some (s5, k_end))) = Some (s5, - 1)"
        "body s5 (index_of s) {} (i # F1)" "same_rows s3 s5"
        by (rule rollback_restores [OF _ f ri]) (use b3 tw(1) in auto)
      have sr5: "same_rows s (s5\<lparr>struct_mutex := False\<rparr>)" using same_rows_trans [OF sr s5(3)] mx by (auto simp: same_rows_def)
      have "fm_core_insert_row s rec = Some (FM_ERR_DUP_KEY, None, Some 0, s5\<lparr>struct_mutex := False\<rparr>)"
        using s5(1) by (auto simp: step Some unlock_struct_def spin_unlock_def bind_eq_Some_conv)
      moreover have "table (s5\<lparr>struct_mutex := False\<rparr>)"
        using s5(2) sr5 same_rows_counted [OF sr5] cnt by (auto simp: table_def same_rows_def)
      ultimately show thesis using dup sr5 tw by blast
    next
      case None
      then have nd: "\<forall>k < keys s. \<not> dup_row s rec k" by (auto simp: find_None_iff)
      then have "takeWhile (\<lambda>k. \<not> dup_row s rec k) [0 ..< keys s] = [0 ..< keys s]"
        by (intro takeWhile_eq_all_conv [THEN iffD2]) auto
      with b3 have b3': "body s3 (link_at (index_of s) {0 ..< keys s} (\<lambda>k. bucket_of (keydef s ! k) rec) i) {i} F1" by simp
      note p = publish_row [OF t sr ri b3' sl len nd refl]
      show thesis
        by (rule ok [OF _ p(1) nd ri p(2-5) _ p(7)]) (use p(6,8) in \<open>simp_all add: step None fm_slot_eq Let_def unlock_struct_def spin_unlock_def\<close>)
    qed
  qed
qed

section \<open>Update\<close>

lemma put_slot_same: "has_slot (chunks s) i \<Longrightarrow> slot_of (chunks s) i = v \<Longrightarrow> put_slot s i v = s"
  by (simp add: put_slot_def upd_slot_same)

lemma relocked_put_slot:
  assumes "relocked s L s'" "has_slot (chunks s) i"
  shows "relocked (put_slot s i v) L (put_slot s' i v)"
proof -
  obtain C K where s': "s' = s\<lparr>chunks := C, keydef := K\<rparr>" and sl: "slots_same C (chunks s)"
    and K: "keys_shape K (keydef s)" "lock_of K = L"
    using assms(1) by (auto simp: relocked_def)
  have "slots_same (upd_slot C i v) (upd_slot (chunks s) i v)"
    using sl assms(2) by (auto simp: slots_same_def fun_eq_iff)
  then show ?thesis
    unfolding relocked_def
    by (intro exI [of _ "upd_slot C i v"] exI [of _ K]) (simp add: s' put_slot_def K)
qed

lemma write_image_eq:
  assumes "has_slot (chunks s) i" "length rec = reclength s"
  shows "fm_core_write_image s i rec =
    Some (put_slot s i ((slot_of (chunks s) i)\<lparr>sl_data := rec, sl_seq := sl_seq (slot_of (chunks s) i) + 1 + 1\<rparr>))"
  using assms by (simp add: fm_core_write_image_def bump_seq_def copy_image_def fm_slot_eq put_slot_views)

text \<open>
  The section under the lock set: whatever is written to the slot before the chains change and
  after, the share ends with the links of the new image, the locks of before, and the last write.
\<close>

lemma rechain_section:
  assumes M: "indexed s M" and kr: "keys_ready s" and lf: "locks_free s" and i: "has_slot (chunks s) i"
    and ks: "distinct ks" "\<forall>k \<in> set ks. k < keys s \<and> M k i = Some (bucket_of (keydef s ! k) old_rec)"
    and ls: "\<And>k b. fmb_in ls k b \<Longrightarrow> has_bucket (keydef s) k b"
    and s1: "relocked s (\<lambda>k b. lock_of (keydef s) k b \<or> fmb_in ls k b) s1" "indexed s1 M"
  shows "\<exists>s4. rechain (map of_nat ks) (put_slot s1 i w) i old_rec new_rec = Some s4
    \<and> slot_of (chunks s4) i = w \<and> has_slot (chunks s4) i
    \<and> (\<exists>s6. unlock_all (sort_locks ls) (put_slot s4 i w') = Some s6 \<and> links_changed (put_slot s i w') s6
        \<and> indexed s6 (link_at M (set ks) (\<lambda>k. bucket_of (keydef s ! k) new_rec) i))"
proof -
  let ?M = "link_at M (set ks) (\<lambda>k. bucket_of (keydef s ! k) new_rec) i"
  note r1 = relockedD [OF s1(1)] and kp1 = relocked_key_parts [OF s1(1)]
  obtain s4 where s4: "rechain (map of_nat ks) (put_slot s1 i w) i old_rec new_rec = Some s4"
    "links_changed (put_slot s1 i w) s4" "indexed s4 ?M"
    using rechain_eq [of "put_slot s1 i w" M i ks old_rec new_rec] s1(2) kr i ks relocked_keys_ready [OF s1(1)]
    by (auto simp: r1 kp1)
  note l4 = links_changedD [OF s4(2)]
  have i1: "has_slot (chunks s1) i" and i4: "has_slot (chunks s4) i" using i by (simp_all add: l4 r1)
  have "relocked (put_slot s1 i w) (lock_of (keydef s1)) s4"
    using s4(2) by (simp add: links_changed_relocked)
  from relocked_put_slot [OF this, of i w'] i1
  have "relocked (put_slot s1 i w') (lock_of (keydef s1)) (put_slot s4 i w')"
    by (simp add: put_slot_views)
  from relocked_trans [OF relocked_put_slot [OF s1(1) i, of w'] this]
  have r4: "relocked (put_slot s i w') (lock_of (keydef s1)) (put_slot s4 i w')" .
  obtain s6 where s6: "unlock_all (sort_locks ls) (put_slot s4 i w') = Some s6"
    "relocked (put_slot s4 i w') (\<lambda>k b. lock_of (keydef s4) k b \<and> \<not> fmb_in ls k b) s6"
    "\<forall>CH. chains s6 CH = chains (put_slot s4 i w') CH"
    using unlock_all_eq [of ls "put_slot s4 i w'"] ls by (auto simp: l4 r1)
  have "(\<lambda>k b. lock_of (keydef s4) k b \<and> \<not> fmb_in ls k b) = lock_of (keydef s)"
    using ls lf by (auto simp: l4 r1 locks_free_def fun_eq_iff)
  with relocked_trans [OF r4 s6(2)] have "links_changed (put_slot s i w') s6"
    by (simp add: links_changed_relocked)
  moreover have "indexed s6 ?M"
    using indexed_cong [OF s6(3)] relockedD(3,5) [OF s6(2)] s4(3) by simp
  moreover have "slot_of (chunks s4) i = w" using l4(1) put_slot_views(1) [OF i1] by simp
  ultimately show ?thesis using s4(1) i4 s6(1) by blast
qed

text \<open>\<open>old_rec\<close> has, for every key, the key value of the row.\<close>

definition same_keys :: "FM_SHARE_CORE \<Rightarrow> image \<Rightarrow> image \<Rightarrow> bool" where
  "same_keys s cur old_rec \<longleftrightarrow> (\<forall>k < keys s. rec_cmp (keydef s ! k) cur old_rec = 0)"

lemma update_may_put:
  assumes b: "body s M X F" and r: "rows s i = Some cur" "same_keys s cur old_rec"
    and nd: "\<forall>k \<in> set (changed_of s old_rec new_rec). \<not> dup_row s new_rec k"
  shows "may_put s i new_rec"
  unfolding may_put_def
proof (intro allI impI notI)
  fix k j x
  assume k: "k < keys s" and u: "kc_unique (keydef s ! k)" and nn: "\<not> null_key (keydef s ! k) new_rec"
    and j: "j \<noteq> i" "rows s j = Some x" and c: "rec_cmp (keydef s ! k) x new_rec = 0"
  note ready = key_readyD [OF keys_readyD(1) [OF bodyD(6) [OF b] k]]
  show False
  proof (cases "rec_cmp (keydef s ! k) old_rec new_rec = 0")
    case True
    have "rec_cmp (keydef s ! k) cur old_rec = 0" using r(2) k by (simp add: same_keys_def)
    then have "rec_cmp (keydef s ! k) cur x = 0" using True c ready(9,12) by metis
    then have "null_key (keydef s ! k) x"
      using bodyD(15) [OF b] k u j r(1) ready(9) unfolding uniq_def by metis
    with nn ready(11) [OF c] show False by simp
  next
    case False
    then have "\<not> dup_row s new_rec k" using nd k by (simp add: changed_of_def)
    with u nn j(2) c show False by (auto simp: dup_row_def)
  qed
qed

lemma update_body:
  assumes b: "body s (index_of s) {} F" and r: "rows s i = Some cur" "same_keys s cur old_rec"
    and nd: "\<forall>k \<in> set (changed_of s old_rec new_rec). \<not> dup_row s new_rec k" and len: "length new_rec = reclength s"
    and v: "v = (slot_of (chunks s) i)\<lparr>sl_data := new_rec, sl_seq := sl_seq (slot_of (chunks s) i) + 1 + 1\<rparr>"
    and s': "links_changed (put_slot s i v) s'"
      "indexed s' (link_at (index_of s) (set (changed_of s old_rec new_rec)) (\<lambda>k. bucket_of (keydef s ! k) new_rec) i)"
  shows "body s' (index_of s') {} F" "rows s' = (rows s)(i \<mapsto> new_rec)" "held s' = held s" "gen_of s' = gen_of s"
    "counted s' = counted s" "records s' = records s" "struct_mutex s' = struct_mutex s" "static s' = static s"
    "\<forall>j. has_slot (chunks s) j \<longrightarrow> has_slot (chunks s') j"
proof -
  let ?M = "link_at (index_of s) (set (changed_of s old_rec new_rec)) (\<lambda>k. bucket_of (keydef s ! k) new_rec) i"
  let ?t = "put_slot s i v"
  note d = bodyD [OF b]
  have a: "active s i" using r(1) by (auto simp: rows_def split: if_splits)
  then have hs: "has_slot (chunks s) i" "i \<notin> set F" "sl_state (slot_of (chunks s) i) = FM_SLOT_ACTIVE"
    using d(11) by (auto simp: active_def)
  have "body ?t (index_of s) {} F"
    using body_put_slot [OF b hs(1,2), of v] hs(3) len d(5) update_may_put [OF b r nd]
    by (auto simp: v quiet_def hs(1) intro!: even_add_two_steps)
  then have bt: "body s' ?M {} F" by (rule body_links [OF _ s'])
  note e = links_changed_same_rows [OF s'(1), unfolded same_rows_def, simplified]
  have bo: "bucket_of (keydef s' ! k) = bucket_of (keydef s ! k)" for k using e by auto
  have act: "active s' = active s" using put_slot_views(2) [OF hs(1), of v] hs(3) a e by (auto simp: v fun_eq_iff)
  show rows': "rows s' = (rows s)(i \<mapsto> new_rec)"
    using put_slot_views(3) [OF hs(1), of v] hs(3) len e by (simp add: v)
  show "held s' = held s" "gen_of s' = gen_of s"
    using put_slot_keeps [OF hs(1), of v] e by (simp_all add: v)
  show "counted s' = counted s" "records s' = records s" "struct_mutex s' = struct_mutex s" "static s' = static s"
    "\<forall>j. has_slot (chunks s) j \<longrightarrow> has_slot (chunks s') j"
    using act e by (simp_all add: counted_def)
  have "index_of s' k = ?M k" if k: "k < keys s'" for k
  proof -
    have ks: "k < keys s" using k e by simp
    note ready = key_readyD [OF keys_readyD(1) [OF d(6) ks]]
    have "rec_cmp (keydef s ! k) old_rec new_rec = 0 \<Longrightarrow> bucket_of (keydef s ! k) new_rec = bucket_of (keydef s ! k) cur"
      using ready(10) r(2) ks unfolding same_keys_def by metis
    then show ?thesis
      using ks r(1) by (auto simp: index_of_def rows' link_at_def changed_of_def bo)
  qed
  then show "body s' (index_of s') {} F" using bt body_cong_map [of s' "index_of s'" ?M] by blast
qed

lemma slot_gone_iff:
  "has_slot (chunks s) i \<Longrightarrow> slot_gone (slot_of (chunks s) i) g \<longleftrightarrow> rows s i = None \<or> gen_of s i \<noteq> g"
  by (simp add: slot_gone_def rows_def active_def gen_of_def)

lemma table_links:
  assumes "table s" "links_changed s s'" "indexed s' (index_of s)"
  shows "table s'" "same_rows s s'"
proof -
  show sr: "same_rows s s'" by (rule links_changed_same_rows [OF assms(2)])
  obtain F where "body s (index_of s) {} F" using assms(1) by (auto simp: table_def)
  from body_links [OF this assms(2,3)] show "table s'"
    using assms(1) sr same_rows_counted [OF sr] by (auto simp: table_def same_rows_def)
qed

text \<open>Taking the lock set of an update, checking for duplicates, and giving it back.\<close>

lemma lock_section:
  assumes b: "body s M X F" and cov: "\<forall>k < keys s. covers s M k"
  obtains ls s1 s2 where
    "collect_locks (map of_nat (changed_of s old_rec new_rec)) s old_rec new_rec [] = Some ls"
    "\<And>k b. fmb_in ls k b \<Longrightarrow> has_bucket (keydef s) k b"
    "lock_all (sort_locks ls) s = Some s1"
    "relocked s (\<lambda>k b. lock_of (keydef s) k b \<or> fmb_in ls k b) s1" "indexed s1 M"
    "dup_checks (map of_nat (changed_of s old_rec new_rec)) s1 new_rec
      = Some (map_option of_nat (find (dup_row s new_rec) (changed_of s old_rec new_rec)))"
    "unlock_all (sort_locks ls) s1 = Some s2" "links_changed s s2" "indexed s2 M"
proof -
  let ?ks = "changed_of s old_rec new_rec"
  note d = bodyD [OF b]
  have ks: "\<forall>k \<in> set ?ks. k < keys s" by (auto simp: changed_of_def)
  obtain ls where ls: "collect_locks (map of_nat ?ks) s old_rec new_rec [] = Some ls"
    "\<And>k b. fmb_in ls k b \<longleftrightarrow> k \<in> set ?ks \<and> (b = bucket_of (keydef s ! k) new_rec \<or> b = bucket_of (keydef s ! k) old_rec)"
    using collect_locks_eq [OF d(6) ks, of old_rec new_rec "[]"] by auto
  have hb: "fmb_in ls k b \<Longrightarrow> has_bucket (keydef s) k b" for k b
    using ls(2) ks keys_ready_bucket [OF d(6)] by auto
  have "fmb_in ls k b \<Longrightarrow> has_bucket (keydef s) k b \<and> \<not> lock_of (keydef s) k b" for k b
    using hb d(7) by (auto simp: locks_free_def)
  from lock_all_eq [of ls s, OF this] obtain s1 where s1: "lock_all (sort_locks ls) s = Some s1"
    "relocked s (\<lambda>k b. lock_of (keydef s) k b \<or> fmb_in ls k b) s1" "\<forall>CH. chains s1 CH = chains s CH" by auto
  note r1 = relockedD [OF s1(2)] and sr1 = relocked_same_rows [OF s1(2), unfolded same_rows_def]
  have i1: "indexed s1 M" using indexed_cong [OF s1(3)] r1(3,5) d(3) by simp
  have "dup_checks (map of_nat ?ks) s1 new_rec = Some (map_option of_nat (find (dup_row s1 new_rec) ?ks))"
    using relocked_quiet [OF s1(2)] relocked_keys_ready [OF s1(2)] d(5,6) ks r1(3) sr1 cov
    by (intro dup_checks_eq [OF i1]) (auto simp: covers_def)
  then have dc: "dup_checks (map of_nat ?ks) s1 new_rec = Some (map_option of_nat (find (dup_row s new_rec) ?ks))"
    using sr1 by simp
  obtain s2 where s2: "unlock_all (sort_locks ls) s1 = Some s2"
    "relocked s1 (\<lambda>k b. lock_of (keydef s1) k b \<and> \<not> fmb_in ls k b) s2" "\<forall>CH. chains s2 CH = chains s1 CH"
    using unlock_all_eq [of ls s1] hb r1(5) by auto
  have "(\<lambda>k b. lock_of (keydef s1) k b \<and> \<not> fmb_in ls k b) = lock_of (keydef s)"
    using hb d(7) by (auto simp: r1 locks_free_def fun_eq_iff)
  then have "links_changed s s2" using relocked_trans [OF s1(2) s2(2)] by (simp add: links_changed_relocked)
  moreover have "indexed s2 M" using indexed_cong [OF s2(3)] relockedD(3,5) [OF s2(2)] i1 by simp
  ultimately show thesis using that [OF ls(1) hb s1(1,2) i1 dc s2(1)] by blast
qed

lemma distinct_changed_of: "distinct (changed_of s old_rec new_rec)"
  by (simp add: changed_of_def)

lemma uint_key_number: "keys_ready s \<Longrightarrow> k < keys s \<Longrightarrow> uint (of_nat k :: u16) = int k"
  using unat_key_number [of s k] by (metis of_nat_unat)

lemma find_changed:
  assumes "find P (changed_of s old_rec new_rec) = Some k"
  shows "k < keys s" "rec_cmp (keydef s ! k) old_rec new_rec \<noteq> 0" "P k"
proof -
  obtain j where "j < length (changed_of s old_rec new_rec)" "P k" "k = changed_of s old_rec new_rec ! j"
    using assms by (auto simp: find_Some_iff)
  then have "k \<in> set (changed_of s old_rec new_rec)" "P k" by auto
  then show "k < keys s" "rec_cmp (keydef s ! k) old_rec new_rec \<noteq> 0" "P k" by (auto simp: changed_of_def)
qed

lemma lock_slot_eq:
  assumes "has_slot (chunks s) i" "\<not> held s i"
  shows "lock_slot s i = Some (put_slot s i ((slot_of (chunks s) i)\<lparr>sl_wlock := True\<rparr>))"
  using assms by (simp add: lock_slot_def fm_slot_eq spin_lock_def held_def)

lemma unlock_slot_eq:
  assumes "has_slot (chunks s) i"
  shows "unlock_slot s i = Some (put_slot s i ((slot_of (chunks s) i)\<lparr>sl_wlock := False\<rparr>))"
  using assms by (simp add: unlock_slot_def fm_slot_eq spin_unlock_def)

lemma unlock_put_slot:
  assumes "has_slot (chunks s) i" "\<not> sl_wlock v"
  shows "unlock_slot (put_slot s i (v\<lparr>sl_wlock := True\<rparr>)) i = Some (put_slot s i v)"
  using assms by (cases v) (simp add: unlock_slot_eq put_slot_views)

lemma slot_lock_last: "(v :: FM_SLOT)\<lparr>sl_wlock := w, sl_data := d, sl_seq := q\<rparr> = v\<lparr>sl_data := d, sl_seq := q, sl_wlock := w\<rparr>"
  by (cases v) simp

text \<open>What both forms of update share: the image of the rewritten slot, and the table an update that
  rewrites it and moves its changed index entries leaves behind.\<close>

abbreviation rewritten :: "FM_SLOT \<Rightarrow> image \<Rightarrow> FM_SLOT" where
  "rewritten sl r \<equiv> sl\<lparr>sl_data := r, sl_seq := sl_seq sl + 1 + 1\<rparr>"

abbreviation moved_index :: "FM_SHARE_CORE \<Rightarrow> index_map \<Rightarrow> slot_id \<Rightarrow> image \<Rightarrow> image \<Rightarrow> index_map" where
  "moved_index s M i old_rec new_rec \<equiv>
    link_at M (set (changed_of s old_rec new_rec)) (\<lambda>k. bucket_of (keydef s ! k) new_rec) i"

definition row_updated :: "FM_SHARE_CORE \<Rightarrow> slot_id \<Rightarrow> image \<Rightarrow> FM_SHARE_CORE \<Rightarrow> bool" where
  "row_updated s i new_rec s' \<longleftrightarrow> table s' \<and> rows s' = (rows s)(i \<mapsto> new_rec) \<and> held s' = held s \<and> gen_of s' = gen_of s
    \<and> records s' = records s \<and> static s' = static s \<and> (\<forall>j. has_slot (chunks s) j \<longrightarrow> has_slot (chunks s') j)"

lemma row_updatedI:
  assumes t: "table s" and cur: "rows s i = Some cur" "same_keys s cur old_rec" and len: "length new_rec = reclength s"
    and nd: "find (dup_row s new_rec) (changed_of s old_rec new_rec) = None"
    and s': "links_changed (put_slot s i (rewritten (slot_of (chunks s) i) new_rec)) s'" "indexed s' (moved_index s (index_of s) i old_rec new_rec)"
  shows "row_updated s i new_rec s'"
proof -
  obtain F where b: "body s (index_of s) {} F" "counted s" "\<not> struct_mutex s" using t by (auto simp: table_def)
  have "\<forall>k \<in> set (changed_of s old_rec new_rec). \<not> dup_row s new_rec k" using nd by (auto simp: find_None_iff)
  note u = update_body [OF b(1) cur this len refl s']
  show ?thesis using u b(2,3) by (auto simp: row_updated_def table_def)
qed

lemma row_updated_in_place:
  assumes t: "table s" and cur: "rows s i = Some cur" "same_keys s cur old_rec" and len: "length new_rec = reclength s"
    and nil: "changed_of s old_rec new_rec = []"
  shows "row_updated s i new_rec (put_slot s i (rewritten (slot_of (chunks s) i) new_rec))"
proof -
  obtain F where "body s (index_of s) {} F" using t by (auto simp: table_def)
  from bodyD(3) [OF this] show ?thesis by (intro row_updatedI [OF t cur len]) (simp_all add: nil link_at_def)
qed

text \<open>The rechaining of the changed keys under the lock set, for a slot \<open>w\<close> that the caller still
  holds or not.\<close>

lemma move_section:
  assumes b: "body s M X F" and cov: "\<forall>k < keys s. covers s M k"
    and i: "has_slot (chunks s) i" and cur: "rows s i = Some cur" "same_keys s cur old_rec"
    and L: "\<And>k b. fmb_in ls k b \<Longrightarrow> has_bucket (keydef s) k b"
      "relocked s (\<lambda>k b. lock_of (keydef s) k b \<or> fmb_in ls k b) s1" "indexed s1 M"
  obtains s4 s6 where "rechain (map of_nat (changed_of s old_rec new_rec)) (put_slot s1 i w) i old_rec new_rec = Some s4"
    "slot_of (chunks s4) i = w" "has_slot (chunks s4) i" "unlock_all (sort_locks ls) (put_slot s4 i w') = Some s6"
    "links_changed (put_slot s i w') s6" "indexed s6 (moved_index s M i old_rec new_rec)"
proof -
  note d = bodyD [OF b]
  have "\<forall>k \<in> set (changed_of s old_rec new_rec). k < keys s \<and> M k i = Some (bucket_of (keydef s ! k) old_rec)"
    using cur cov key_readyD(10) [OF keys_readyD(1) [OF d(6)]] by (auto simp: changed_of_def covers_def same_keys_def)
  from rechain_section [OF d(3,6,7) i distinct_changed_of this L, where w = w and new_rec = new_rec and w' = w']
  show thesis using that by blast
qed

text \<open>The form whose caller holds the row's write lock.\<close>

lemma update_row_locked_cases:
  assumes t: "table s" and i: "has_slot (chunks s) i" and len: "length new_rec = reclength s"
    and old: "\<And>cur. rows s i = Some cur \<Longrightarrow> same_keys s cur old_rec"
  obtains (gone) "rows s i = None \<or> gen_of s i \<noteq> g"
      "fm_core_update_row_locked s i g old_rec new_rec = Some (FM_ERR_DELETED, None, s)"
  | (dup) k s' where "find (dup_row s new_rec) (changed_of s old_rec new_rec) = Some k"
      "fm_core_update_row_locked s i g old_rec new_rec = Some (FM_ERR_DUP_KEY, Some (int k + 1), s')"
      "table s'" "same_rows s s'"
  | (ok) s' where "rows s i \<noteq> None" "gen_of s i = g" "find (dup_row s new_rec) (changed_of s old_rec new_rec) = None"
      "fm_core_update_row_locked s i g old_rec new_rec = Some (FM_ERR_OK, None, s')" "table s'"
      "rows s' = (rows s)(i \<mapsto> new_rec)" "held s' = held s" "gen_of s' = gen_of s" "records s' = records s"
      "static s' = static s" "\<forall>j. has_slot (chunks s) j \<longrightarrow> has_slot (chunks s') j"
proof (cases "slot_gone (slot_of (chunks s) i) g")
  case True
  then show thesis using gone i slot_gone_iff [OF i] by (simp add: fm_core_update_row_locked_def fm_slot_eq)
next
  case False
  let ?ks = "changed_of s old_rec new_rec"
  obtain F where b: "body s (index_of s) {} F" using t by (auto simp: table_def)
  note d = bodyD [OF b] and ck = changed_keys_eq [OF bodyD(6) [OF b], of old_rec new_rec]
  obtain cur where c: "rows s i = Some cur" and g: "gen_of s i = g" using False slot_gone_iff [OF i] by auto
  note cur = c old [OF c]
  have fin: thesis if "row_updated s i new_rec s'" "find (dup_row s new_rec) ?ks = None"
    "fm_core_update_row_locked s i g old_rec new_rec = Some (FM_ERR_OK, None, s')" for s'
    using that c g by (intro ok [of s']) (simp_all add: row_updated_def)
  show thesis
  proof (cases "?ks = []")
    case True
    with False ck show thesis by (intro fin [OF row_updated_in_place [OF t cur len True]])
      (simp_all add: fm_core_update_row_locked_def fm_slot_eq [OF i] write_image_eq [OF i len])
  next
    case ne: False
    obtain ls s1 s2 where L: "collect_locks (map of_nat ?ks) s old_rec new_rec [] = Some ls"
      "\<And>k b. fmb_in ls k b \<Longrightarrow> has_bucket (keydef s) k b" "lock_all (sort_locks ls) s = Some s1"
      "relocked s (\<lambda>k b. lock_of (keydef s) k b \<or> fmb_in ls k b) s1" "indexed s1 (index_of s)"
      "dup_checks (map of_nat ?ks) s1 new_rec = Some (map_option of_nat (find (dup_row s new_rec) ?ks))"
      "unlock_all (sort_locks ls) s1 = Some s2" "links_changed s s2" "indexed s2 (index_of s)"
      by (rule lock_section [OF b covers_all, of old_rec new_rec]) (rule that)
    note enter = False ne ck L(1,3,6) fm_slot_eq [OF i]
    show thesis
    proof (cases "find (dup_row s new_rec) ?ks")
      case (Some k)
      have "fm_core_update_row_locked s i g old_rec new_rec = Some (FM_ERR_DUP_KEY, Some (int k + 1), s2)"
        using enter L(7) Some uint_key_number [OF d(6) find_changed(1) [OF Some]] by (simp add: fm_core_update_row_locked_def Let_def)
      then show thesis using dup [OF Some] table_links [OF t L(8,9)] by blast
    next
      case None
      define v where "v = rewritten (slot_of (chunks s) i) new_rec"
      obtain s4 s6 where s4: "rechain (map of_nat ?ks) (put_slot s1 i v) i old_rec new_rec = Some s4"
        "slot_of (chunks s4) i = v" "has_slot (chunks s4) i" "unlock_all (sort_locks ls) (put_slot s4 i v) = Some s6"
        "links_changed (put_slot s i v) s6" "indexed s6 (moved_index s (index_of s) i old_rec new_rec)"
        by (rule move_section [OF b covers_all i cur L(2,4,5)])
      have up: "row_updated s i new_rec s6" by (rule row_updatedI [OF t cur len None s4(5,6) [unfolded v_def]])
      have "fm_core_write_image s1 i new_rec = Some (put_slot s1 i v)"
        using write_image_eq [of s1 i new_rec] relockedD [OF L(4)] i len by (simp add: v_def)
      with s4 enter None put_slot_same [OF s4(3,2)] show thesis
        by (intro fin [OF up]) (simp_all add: fm_core_update_row_locked_def Let_def)
    qed
  qed
qed

text \<open>The form that takes the row's write lock itself, first when no key changes, then when the
  bucket locks are needed.\<close>

lemma update_row_in_place:
  assumes kr: "keys_ready s" and i: "has_slot (chunks s) i" and nh: "\<not> held s i" and len: "length new_rec = reclength s"
    and nil: "changed_of s old_rec new_rec = []"
  shows "fm_core_update_row s i g old_rec new_rec =
    (if slot_gone (slot_of (chunks s) i) g then Some (FM_ERR_DELETED, None, s)
     else Some (FM_ERR_OK, None, put_slot s i (rewritten (slot_of (chunks s) i) new_rec)))"
proof -
  let ?sl = "slot_of (chunks s) i" and ?v = "rewritten (slot_of (chunks s) i) new_rec"
  let ?l = "put_slot s i (?sl\<lparr>sl_wlock := True\<rparr>)"
  note ck = changed_keys_eq [OF kr, of old_rec new_rec]
  have w: "\<not> sl_wlock ?sl" using nh i by (simp add: held_def)
  have "unlock_slot ?l i = Some s" using unlock_put_slot [OF i w] put_slot_same [OF i refl] by simp
  moreover have "fm_core_write_image ?l i new_rec = Some (put_slot s i (?v\<lparr>sl_wlock := True\<rparr>))"
    using write_image_eq [of ?l i new_rec] i len by (simp add: put_slot_views slot_lock_last)
  moreover have "unlock_slot (put_slot s i (?v\<lparr>sl_wlock := True\<rparr>)) i = Some (put_slot s i ?v)"
    using w by (intro unlock_put_slot [OF i]) simp
  ultimately show ?thesis
    using nil ck lock_slot_eq [OF i nh] by (simp add: fm_core_update_row_def put_slot_views [OF i] slot_gone_def)
qed

lemma update_row_key_change:
  assumes b: "body s M X F" and cov: "\<forall>k < keys s. covers s M k" and i: "has_slot (chunks s) i" and nh: "\<not> held s i" and len: "length new_rec = reclength s"
    and old: "\<And>cur. rows s i = Some cur \<Longrightarrow> gen_of s i = g \<Longrightarrow> same_keys s cur old_rec" and ne: "changed_of s old_rec new_rec \<noteq> []"
  obtains (dup) k s' where "find (dup_row s new_rec) (changed_of s old_rec new_rec) = Some k"
      "fm_core_update_row s i g old_rec new_rec = Some (FM_ERR_DUP_KEY, Some (int k + 1), s')" "links_changed s s'" "indexed s' M"
  | (gone) s' where "find (dup_row s new_rec) (changed_of s old_rec new_rec) = None" "slot_gone (slot_of (chunks s) i) g"
      "fm_core_update_row s i g old_rec new_rec = Some (FM_ERR_DELETED, None, s')" "links_changed s s'" "indexed s' M"
  | (ok) s' where "find (dup_row s new_rec) (changed_of s old_rec new_rec) = None" "\<not> slot_gone (slot_of (chunks s) i) g"
      "fm_core_update_row s i g old_rec new_rec = Some (FM_ERR_OK, None, s')"
      "links_changed (put_slot s i (rewritten (slot_of (chunks s) i) new_rec)) s'" "indexed s' (moved_index s M i old_rec new_rec)"
proof -
  let ?ks = "changed_of s old_rec new_rec" and ?sl = "slot_of (chunks s) i" and ?v = "rewritten (slot_of (chunks s) i) new_rec"
  note d = bodyD [OF b] and ck = changed_keys_eq [OF bodyD(6) [OF b], of old_rec new_rec]
  have w: "\<not> sl_wlock ?sl" using nh i by (simp add: held_def)
  obtain ls s1 s2 where L: "collect_locks (map of_nat ?ks) s old_rec new_rec [] = Some ls"
    "\<And>k b. fmb_in ls k b \<Longrightarrow> has_bucket (keydef s) k b" "lock_all (sort_locks ls) s = Some s1"
    "relocked s (\<lambda>k b. lock_of (keydef s) k b \<or> fmb_in ls k b) s1" "indexed s1 M"
    "dup_checks (map of_nat ?ks) s1 new_rec = Some (map_option of_nat (find (dup_row s new_rec) ?ks))"
    "unlock_all (sort_locks ls) s1 = Some s2" "links_changed s s2" "indexed s2 M"
    by (rule lock_section [OF b cov, of old_rec new_rec]) (rule that)
  note enter = ne ck L(1,3,6)
  have i1: "has_slot (chunks s1) i" "slot_of (chunks s1) i = ?sl" "reclength s1 = reclength s" "\<not> held s1 i"
    using relockedD [OF L(4)] relocked_held [OF L(4)] i nh by auto
  define l where "l = put_slot s1 i (?sl\<lparr>sl_wlock := True\<rparr>)"
  have lk: "lock_slot s1 i = Some l" "fm_slot l i = Some (?sl\<lparr>sl_wlock := True\<rparr>)"
    using lock_slot_eq [OF i1(1,4)] i1(2) put_slot_views(6) [OF i1(1)] by (simp_all add: l_def)
  show thesis
  proof (cases "find (dup_row s new_rec) ?ks")
    case (Some k)
    then have "fm_core_update_row s i g old_rec new_rec = Some (FM_ERR_DUP_KEY, Some (int k + 1), s2)"
      using enter L(7) uint_key_number [OF d(6) find_changed(1) [OF Some]] by (simp add: fm_core_update_row_def Let_def)
    then show thesis using dup [OF Some _ L(8,9)] by blast
  next
    case None
    show thesis
    proof (cases "slot_gone ?sl g")
      case gn: True
      have "unlock_slot l i = Some s1" using unlock_put_slot [OF i1(1) w] put_slot_same [OF i1(1,2)] by (simp add: l_def)
      then have "fm_core_update_row s i g old_rec new_rec = Some (FM_ERR_DELETED, None, s2)"
        using enter None gn lk L(7) by (simp add: fm_core_update_row_def Let_def slot_gone_def)
      then show thesis using gone [OF None gn _ L(8,9)] by blast
    next
      case gn: False
      obtain cur where c: "rows s i = Some cur" "gen_of s i = g" using gn slot_gone_iff [OF i] by auto
      define v where "v = ?v\<lparr>sl_wlock := True\<rparr>"
      obtain s4 s6 where s4: "rechain (map of_nat ?ks) (put_slot s1 i v) i old_rec new_rec = Some s4"
        "slot_of (chunks s4) i = v" "has_slot (chunks s4) i" "unlock_all (sort_locks ls) (put_slot s4 i ?v) = Some s6"
        "links_changed (put_slot s i ?v) s6" "indexed s6 (moved_index s M i old_rec new_rec)"
        by (rule move_section [OF b cov i c(1) old [OF c] L(2,4,5)])
      have "fm_core_write_image l i new_rec = Some (put_slot s1 i v)"
        using write_image_eq [of l i new_rec] i1 len by (simp add: put_slot_views slot_lock_last v_def l_def)
      moreover have "unlock_slot s4 i = Some (put_slot s4 i ?v)"
        using unlock_put_slot [OF s4(3), of ?v] put_slot_same [OF s4(3,2)] w by (simp add: v_def)
      ultimately have "fm_core_update_row s i g old_rec new_rec = Some (FM_ERR_OK, None, s6)"
        using s4(1,4) lk enter None gn by (simp add: fm_core_update_row_def Let_def slot_gone_def)
      then show thesis by (rule ok [OF None gn _ s4(5,6)])
    qed
  qed
qed

text \<open>The old image matters only where the row is still the one the caller means.\<close>

lemma update_row_gen_cases:
  assumes t: "table s" and i: "has_slot (chunks s) i" and nh: "\<not> held s i" and len: "length new_rec = reclength s"
    and old: "\<And>cur. rows s i = Some cur \<Longrightarrow> gen_of s i = g \<Longrightarrow> same_keys s cur old_rec"
  obtains (gone) s' where "rows s i = None \<or> gen_of s i \<noteq> g"
      "find (dup_row s new_rec) (changed_of s old_rec new_rec) = None"
      "fm_core_update_row s i g old_rec new_rec = Some (FM_ERR_DELETED, None, s')" "table s'" "same_rows s s'"
  | (dup) k s' where "find (dup_row s new_rec) (changed_of s old_rec new_rec) = Some k"
      "fm_core_update_row s i g old_rec new_rec = Some (FM_ERR_DUP_KEY, Some (int k + 1), s')"
      "table s'" "same_rows s s'"
  | (ok) s' where "rows s i \<noteq> None" "gen_of s i = g" "find (dup_row s new_rec) (changed_of s old_rec new_rec) = None"
      "fm_core_update_row s i g old_rec new_rec = Some (FM_ERR_OK, None, s')" "table s'"
      "rows s' = (rows s)(i \<mapsto> new_rec)" "held s' = held s" "gen_of s' = gen_of s" "records s' = records s"
      "static s' = static s" "\<forall>j. has_slot (chunks s) j \<longrightarrow> has_slot (chunks s') j"
proof -
  note gi = slot_gone_iff [OF i, of g]
  have fin: thesis if "row_updated s i new_rec s'" "find (dup_row s new_rec) (changed_of s old_rec new_rec) = None"
    "\<not> slot_gone (slot_of (chunks s) i) g" "fm_core_update_row s i g old_rec new_rec = Some (FM_ERR_OK, None, s')" for s'
    using that gi by (intro ok [of s']) (simp_all add: row_updated_def)
  show thesis
  proof (cases "changed_of s old_rec new_rec = []")
    case nil: True
    have "keys_ready s" using t bodyD(6) by (auto simp: table_def)
    note run = update_row_in_place [OF this i nh len nil, of g]
    show thesis
    proof (cases "slot_gone (slot_of (chunks s) i) g")
      case True
      with run gi nil t show thesis by (intro gone [of s]) simp_all
    next
      case False
      then obtain cur where c: "rows s i = Some cur" "gen_of s i = g" using gi by auto
      show thesis by (rule fin [OF row_updated_in_place [OF t c(1) old [OF c] len nil]]) (use run False nil in simp_all)
    qed
  next
    case ne: False
    obtain F where b: "body s (index_of s) {} F" using t by (auto simp: table_def)
    show thesis
    proof (rule update_row_key_change [OF b covers_all i nh len old ne, where g = g], assumption, assumption, goal_cases)
      case (1 k s')
      then show thesis using dup table_links [OF t] by blast
    next
      case (2 s')
      then show thesis using gone gi table_links [OF t] by blast
    next
      case (3 s')
      from 3(2) gi obtain cur where c: "rows s i = Some cur" "gen_of s i = g" by auto
      show thesis by (rule fin [OF row_updatedI [OF t c(1) old [OF c] len 3(1,4,5)] 3(1-3)])
    qed
  qed
qed

lemma update_row_cases:
  assumes t: "table s" and i: "has_slot (chunks s) i" and nh: "\<not> held s i" and len: "length new_rec = reclength s"
    and old: "\<And>cur. rows s i = Some cur \<Longrightarrow> same_keys s cur old_rec"
  obtains (gone) s' where "rows s i = None \<or> gen_of s i \<noteq> g"
      "find (dup_row s new_rec) (changed_of s old_rec new_rec) = None"
      "fm_core_update_row s i g old_rec new_rec = Some (FM_ERR_DELETED, None, s')" "table s'" "same_rows s s'"
  | (dup) k s' where "find (dup_row s new_rec) (changed_of s old_rec new_rec) = Some k"
      "fm_core_update_row s i g old_rec new_rec = Some (FM_ERR_DUP_KEY, Some (int k + 1), s')"
      "table s'" "same_rows s s'"
  | (ok) s' where "rows s i \<noteq> None" "gen_of s i = g" "find (dup_row s new_rec) (changed_of s old_rec new_rec) = None"
      "fm_core_update_row s i g old_rec new_rec = Some (FM_ERR_OK, None, s')" "table s'"
      "rows s' = (rows s)(i \<mapsto> new_rec)" "held s' = held s" "gen_of s' = gen_of s" "records s' = records s"
      "static s' = static s" "\<forall>j. has_slot (chunks s) j \<longrightarrow> has_slot (chunks s') j"
  by (rule update_row_gen_cases [OF t i nh len, where old_rec = old_rec and g = g]) (use old gone dup ok in blast)+

section \<open>Delete\<close>

lemma delete_tail_eq:
  assumes b: "body s (index_of s) {} F" and cnt: "counted s" and mx: "\<not> struct_mutex s"
    and r: "rows s i = Some r"
    and v: "v = (slot_of (chunks s) i)\<lparr>sl_state := FM_SLOT_DELETING\<rparr>"
  shows "\<exists>s'. delete_tail (put_slot s i v) i = Some s' \<and> table s' \<and> rows s' = (rows s)(i := None)
    \<and> held s' = held s \<and> gen_of s' = (gen_of s)(i := gen_of s i + 1) \<and> records s' = records s - 1
    \<and> (\<forall>j. has_slot (chunks s) j \<longrightarrow> has_slot (chunks s') j) \<and> static s' = static s"
proof -
  note d = bodyD [OF b]
  let ?t = "put_slot s i v" and ?M = "index_of s" and ?ks = "[0 ..< keys s]"
  have a: "active s i" using r by (auto simp: rows_def split: if_splits)
  then have hs: "has_slot (chunks s) i" "i \<notin> set F" using d(11) by (auto simp: active_def)
  note pv = put_slot_views [OF hs(1), of v]
  have img: "take (reclength s) (sl_data v) = r" using r a by (simp add: rows_def v)
  have bt: "body ?t ?M {i} F"
    using body_put_slot [OF b hs, of v] d(5) hs(1) by (simp add: v quiet_def)
  have "\<forall>k \<in> set ?ks. k < keys ?t \<and> ?M k i = Some (bucket_of (keydef ?t ! k) r)"
    by (auto simp: index_of_def r)
  from unlink_keys_eq [OF bodyD(2,3) [OF bt] _ this]
  obtain s1 where s1: "unlink_keys ?ks ?t r i = Some s1" "links_changed ?t s1" "indexed s1 (unlink_at ?M (set ?ks) i)"
    by auto
  let ?M' = "unlink_at ?M (set ?ks) i"
  have b1: "body s1 ?M' {i} F" by (rule body_links [OF bt s1(2,3)])
  have hs1: "has_slot (chunks s1) i" "slot_of (chunks s1) i = v"
    using links_changedD(1,2) [OF s1(2)] hs(1) pv(1) by auto
  note e1 = links_changed_same_rows [OF s1(2), unfolded same_rows_def, simplified]
  let ?w = "v\<lparr>sl_state := FM_SLOT_DELETED, sl_gen := sl_gen v + 1\<rparr>"
  let ?s2 = "put_slot s1 i ?w"
  note pw = put_slot_views [OF hs1(1), of ?w]
  have b2: "body ?s2 ?M' {i} F"
    using put_owned(1) [OF b1, of i ?w] d(5) hs hs1(2) by (simp add: v quiet_def)
  let ?s3 = "?s2\<lparr>records := records ?s2 - 1, struct_mutex := True\<rparr>"
  have "body ?s3 ?M' {i} F" using b2 by simp
  from body_free_slot [OF this, of i] obtain s5 where s5: "fm_core_free_slot ?s3 i = Some s5"
    "body s5 ?M' {} (i # F)" "same_table ?s3 s5" by auto
  let ?s' = "s5\<lparr>struct_mutex := False\<rparr>"
  note e5 = s5(3) [unfolded same_table_def, simplified]
  have rows': "rows ?s' = (rows s)(i := None)" using e5 pw(3) e1 pv(3) by (simp add: v)
  have act': "active ?s' = (active s)(i := False)" using e5 pw(2) e1 pv(2) by (simp add: v)
  have held': "held ?s' = held s"
    using e5 pw(4) e1 pv(4) hs(1) by (auto simp: v held_def fun_eq_iff)
  have gen': "gen_of ?s' = (gen_of s)(i := gen_of s i + 1)"
    using e5 pw(5) e1 pv(5) hs(1) by (auto simp: v gen_of_def fun_eq_iff)
  have rec': "records ?s' = records s - 1" using e5 e1 by simp
  have bo: "bucket_of (keydef s5 ! k) = bucket_of (keydef s ! k)" for k using e5 e1 by auto
  have "delete_tail ?t i = Some ?s'"
    using s1(1) hs1 s5(1) img e1 mx
    by (simp add: delete_tail_def fm_slot_eq pv(1) hs Let_def lock_struct_def spin_lock_def unlock_struct_def spin_unlock_def)
  moreover have "body s5 (index_of ?s') {} (i # F)"
  proof -
    have "keys s5 = keys s" "rows s5 = (rows s)(i := None)" using e5 e1 rows' by auto
    then have "index_of ?s' k = ?M' k" if "k < keys s5" for k
      using that by (auto simp: index_of_def unlink_at_def bo)
    then show ?thesis using s5(2) body_cong_map [of s5 "index_of ?s'" ?M'] by blast
  qed
  then have "table ?s'"
    using counted_remove [OF cnt d(1) a act' rec'] by (auto simp: table_def)
  moreover have "\<forall>j. has_slot (chunks s) j \<longrightarrow> has_slot (chunks ?s') j" "static ?s' = static s" using e5 e1 by auto
  ultimately show ?thesis using rows' held' gen' rec' by blast
qed

lemma delete_row_locked_cases:
  assumes t: "table s" and i: "has_slot (chunks s) i"
  obtains (gone) "rows s i = None \<or> gen_of s i \<noteq> g" "fm_core_delete_row_locked s i g = Some (FM_ERR_DELETED, s)"
  | (ok) s' where "rows s i \<noteq> None" "gen_of s i = g" "fm_core_delete_row_locked s i g = Some (FM_ERR_OK, s')" "table s'"
      "rows s' = (rows s)(i := None)" "held s' = held s" "gen_of s' = (gen_of s)(i := g + 1)" "records s' = records s - 1"
      "\<forall>j. has_slot (chunks s) j \<longrightarrow> has_slot (chunks s') j" "static s' = static s"
proof (cases "slot_gone (slot_of (chunks s) i) g")
  case True
  then show thesis using gone slot_gone_iff [OF i] by (simp add: fm_core_delete_row_locked_def fm_slot_eq i)
next
  case False
  then obtain r where r: "rows s i = Some r" and g: "gen_of s i = g" using slot_gone_iff [OF i] by auto
  obtain F where b: "body s (index_of s) {} F" "counted s" "\<not> struct_mutex s" using t by (auto simp: table_def)
  from delete_tail_eq [OF b r refl] g show thesis
    using False r by (auto intro!: ok simp: fm_core_delete_row_locked_def fm_slot_eq i Let_def)
qed

lemma delete_row_cases:
  assumes t: "table s" and i: "has_slot (chunks s) i" and nh: "\<not> held s i"
  obtains (gone) "rows s i = None \<or> gen_of s i \<noteq> g" "fm_core_delete_row s i g = Some (FM_ERR_DELETED, s)"
  | (ok) s' where "rows s i \<noteq> None" "gen_of s i = g" "fm_core_delete_row s i g = Some (FM_ERR_OK, s')" "table s'"
      "rows s' = (rows s)(i := None)" "held s' = held s" "gen_of s' = (gen_of s)(i := g + 1)" "records s' = records s - 1"
      "\<forall>j. has_slot (chunks s) j \<longrightarrow> has_slot (chunks s') j" "static s' = static s"
proof -
  let ?sl = "slot_of (chunks s) i"
  have w: "\<not> sl_wlock ?sl" using nh i by (simp add: held_def)
  let ?l = "put_slot s i (?sl\<lparr>sl_wlock := True\<rparr>)"
  note enter = lock_slot_eq [OF i nh] put_slot_views(6) [OF i, of "?sl\<lparr>sl_wlock := True\<rparr>"]
  show thesis
  proof (cases "slot_gone ?sl g")
    case True
    have "unlock_slot ?l i = Some s" using unlock_put_slot [OF i w] put_slot_same [OF i refl] by simp
    then show thesis
      using gone True enter slot_gone_iff [OF i] by (simp add: fm_core_delete_row_def slot_gone_def)
  next
    case False
    then obtain r where r: "rows s i = Some r" and g: "gen_of s i = g" using slot_gone_iff [OF i] by auto
    obtain F where b: "body s (index_of s) {} F" "counted s" "\<not> struct_mutex s" using t by (auto simp: table_def)
    define v where "v = ?sl\<lparr>sl_state := FM_SLOT_DELETING\<rparr>"
    have v': "?sl\<lparr>sl_wlock := True, sl_state := FM_SLOT_DELETING\<rparr> = v\<lparr>sl_wlock := True\<rparr>"
      by (cases ?sl) (simp add: v_def)
    have u: "unlock_slot (put_slot ?l i (?sl\<lparr>sl_wlock := True, sl_state := FM_SLOT_DELETING\<rparr>)) i = Some (put_slot s i v)"
      using unlock_put_slot [OF i, of v] w unfolding v' by (simp add: put_slot_views(7) [OF i] v_def)
    from delete_tail_eq [OF b r v_def] g show thesis
      using False r u enter by (auto intro!: ok simp: fm_core_delete_row_def Let_def slot_gone_def)
  qed
qed

section \<open>Clear\<close>

lemma links_changed_upd_head:
  "links_changed s (s\<lparr>keydef := upd_head (keydef s) k b v\<rparr>)"
  unfolding links_changed_def
  by (intro exI [of _ "chunks s"] exI [of _ "upd_head (keydef s) k b v"])
    (auto simp: slots_same_def keys_same_def fun_eq_iff)

lemma clear_buckets_eq:
  assumes "\<forall>b \<in> set bs. has_bucket (keydef s) k (of_nat b) \<and> \<not> lock_of (keydef s) k (of_nat b)"
  shows "\<exists>s'. clear_buckets bs k s = Some s' \<and> links_changed s s' \<and> chunks s' = chunks s
    \<and> (\<forall>k' b'. head_of (keydef s') k' b' =
         (if k' = k \<and> b' \<in> of_nat ` set bs then FM_NULL_SLOT else head_of (keydef s) k' b'))"
  using assms
proof (induction bs arbitrary: s)
  case Nil
  then show ?case by simp
next
  case (Cons b bs)
  let ?b = "of_nat b :: u32"
  let ?s = "s\<lparr>keydef := upd_head (keydef s) k ?b FM_NULL_SLOT\<rparr>"
  have b: "has_bucket (keydef s) k ?b" "\<not> lock_of (keydef s) k ?b" using Cons.prems by auto
  have "upd_lock (upd_head (keydef s) k ?b FM_NULL_SLOT) k ?b False = upd_head (keydef s) k ?b FM_NULL_SLOT"
    using b by (intro upd_lock_same) auto
  then have step: "clear_buckets (b # bs) k s = clear_buckets bs k ?s"
    using b by (simp add: lock_bucket_def unlock_bucket_def spin_lock_def spin_unlock_def Let_def)
  have "\<forall>c \<in> set bs. has_bucket (keydef ?s) k (of_nat c) \<and> \<not> lock_of (keydef ?s) k (of_nat c)"
    using Cons.prems by simp
  from Cons.IH [OF this] obtain s' where s': "clear_buckets bs k ?s = Some s'" "links_changed ?s s'" "chunks s' = chunks s"
    "\<forall>k' b'. head_of (keydef s') k' b' =
         (if k' = k \<and> b' \<in> of_nat ` set bs then FM_NULL_SLOT else head_of (keydef ?s) k' b')" by auto
  have "links_changed s s'" by (rule links_changed_trans [OF links_changed_upd_head s'(2)])
  moreover have "head_of (keydef s') k' b' =
      (if k' = k \<and> b' \<in> of_nat ` set (b # bs) then FM_NULL_SLOT else head_of (keydef s) k' b')" for k' b'
    using s'(4) b(1) by auto
  ultimately show ?case using step s'(1,3) by auto
qed

lemma clear_keys_eq:
  assumes "keys_ready s" "locks_free s" "\<forall>k \<in> set ks. k < keys s"
  shows "\<exists>s'. clear_keys ks s = Some s' \<and> links_changed s s' \<and> chunks s' = chunks s
    \<and> (\<forall>k' b'. has_bucket (keydef s) k' b' \<longrightarrow> head_of (keydef s') k' b' =
         (if k' \<in> set ks then FM_NULL_SLOT else head_of (keydef s) k' b'))"
  using assms
proof (induction ks arbitrary: s)
  case Nil
  then show ?case by simp
next
  case (Cons k ks)
  let ?n = "kc_nbuckets (keydef s ! k)"
  have k: "k < keys s" using Cons.prems by simp
  have hb: "has_bucket (keydef s) k b \<longleftrightarrow> b < ?n" for b by (rule keys_readyD(3) [OF Cons.prems(1) k])
  have bs: "\<forall>b \<in> set [0 ..< unat ?n]. has_bucket (keydef s) k (of_nat b) \<and> \<not> lock_of (keydef s) k (of_nat b)"
  proof
    fix b assume "b \<in> set [0 ..< unat ?n]"
    then have "b < unat ?n" by simp
    moreover have "unat ?n < 2 ^ 32" using unsigned_less [of ?n] by simp
    ultimately have "of_nat b < ?n" by (simp add: word_less_nat_alt unat_of_nat)
    then show "has_bucket (keydef s) k (of_nat b) \<and> \<not> lock_of (keydef s) k (of_nat b)"
      using hb Cons.prems(2) by (auto simp: locks_free_def)
  qed
  from clear_buckets_eq [OF this] obtain s1 where s1: "clear_buckets [0 ..< unat ?n] k s = Some s1" "links_changed s s1"
    "chunks s1 = chunks s" "\<And>k' b'. head_of (keydef s1) k' b' =
       (if k' = k \<and> b' \<in> of_nat ` set [0 ..< unat ?n] then FM_NULL_SLOT else head_of (keydef s) k' b')" by blast
  have all: "b \<in> of_nat ` set [0 ..< unat ?n]" if "has_bucket (keydef s) k b" for b
    using that hb by (intro image_eqI [of _ _ "unat b"]) (auto simp: word_less_nat_alt)
  have r1: "keys_ready s1" "locks_free s1" "\<forall>k \<in> set ks. k < keys s1"
    using Cons.prems relocked_keys_ready [OF s1(2) [unfolded links_changed_relocked]] links_changedD [OF s1(2)]
    by (auto simp: locks_free_def)
  from Cons.IH [OF r1] obtain s' where s': "clear_keys ks s1 = Some s'" "links_changed s1 s'" "chunks s' = chunks s1"
    "\<And>k' b'. has_bucket (keydef s1) k' b' \<Longrightarrow> head_of (keydef s') k' b' =
         (if k' \<in> set ks then FM_NULL_SLOT else head_of (keydef s1) k' b')" by blast
  have "head_of (keydef s') k' b' = (if k' \<in> set (k # ks) then FM_NULL_SLOT else head_of (keydef s) k' b')"
    if "has_bucket (keydef s) k' b'" for k' b'
    using that s'(4) [of k' b'] s1(4) all links_changedD(5) [OF s1(2)] by auto
  with s1(1,3) s'(1,3) keys_readyD(2) [OF Cons.prems(1) k] links_changed_trans [OF s1(2) s'(2)]
  show ?case by auto
qed

definition freed :: "FM_SLOT \<Rightarrow> FM_SLOT" where
  "freed sl = sl\<lparr>sl_state := FM_SLOT_FREE, sl_gen := sl_gen sl + 1\<rparr>"

text \<open>Equality of two chunk arrays up to the contents of the slots.\<close>

definition same_shape :: "FM_CHUNK option list \<Rightarrow> FM_CHUNK option list \<Rightarrow> bool" where
  "same_shape C D \<longleftrightarrow> length C = length D \<and> (\<forall>c < length C. C ! c = None \<longleftrightarrow> D ! c = None)
     \<and> has_slot C = has_slot D \<and> next_of C = next_of D"

lemma clear_slots_eq:
  assumes "distinct is" "\<forall>i \<in> set is. i < 2 ^ 31 \<and> has_slot (chunks s) (int i) \<and> \<not> held s (int i)"
  shows "\<exists>C. clear_slots is s = Some (s\<lparr>chunks := C\<rparr>) \<and> same_shape C (chunks s)
    \<and> (\<forall>i. slot_of C i = (if i \<in> int ` set is then freed (slot_of (chunks s) i) else slot_of (chunks s) i))"
  using assms
proof (induction "is" arbitrary: s)
  case Nil
  then show ?case by (intro exI [of _ "chunks s"]) (simp add: same_shape_def)
next
  case (Cons i "is")
  let ?sl = "slot_of (chunks s) (int i)" and ?C = "upd_slot (chunks s) (int i) (freed (slot_of (chunks s) (int i)))"
  have i: "i32_of i = int i" "has_slot (chunks s) (int i)" "\<not> held s (int i)" using Cons.prems by (auto simp: cast_simps)
  have w: "\<not> sl_wlock ?sl" using i by (simp add: held_def)
  have fr: "?sl\<lparr>sl_wlock := True, sl_state := FM_SLOT_FREE, sl_gen := sl_gen ?sl + 1\<rparr> = (freed ?sl)\<lparr>sl_wlock := True\<rparr>"
    by (cases ?sl) (simp add: freed_def)
  have "unlock_slot (put_slot s (int i) ((freed ?sl)\<lparr>sl_wlock := True\<rparr>)) (int i) = Some (put_slot s (int i) (freed ?sl))"
    using w by (intro unlock_put_slot [OF i(2)]) (simp add: freed_def)
  then have step: "clear_slots (i # is) s = clear_slots is (s\<lparr>chunks := ?C\<rparr>)"
    using i lock_slot_eq [OF i(2,3)] put_slot_views(6,7) [OF i(2)] fr by (simp add: Let_def put_slot_def)
  have h: "held (s\<lparr>chunks := ?C\<rparr>) = held s" using put_slot_keeps(1) [OF i(2), of "freed ?sl"] by (simp add: put_slot_def freed_def)
  have "\<forall>j \<in> set is. j < 2 ^ 31 \<and> has_slot (chunks (s\<lparr>chunks := ?C\<rparr>)) (int j) \<and> \<not> held (s\<lparr>chunks := ?C\<rparr>) (int j)"
    using Cons.prems by (simp add: h)
  from Cons.IH [OF _ this] Cons.prems(1) obtain D where D: "clear_slots is (s\<lparr>chunks := ?C\<rparr>) = Some (s\<lparr>chunks := D\<rparr>)"
    "same_shape D ?C" "\<forall>j. slot_of D j = (if j \<in> int ` set is then freed (slot_of ?C j) else slot_of ?C j)" by auto
  have "slot_of D j = (if j \<in> int ` set (i # is) then freed (slot_of (chunks s) j) else slot_of (chunks s) j)" for j
    using D(3) i(2) Cons.prems(1) by auto
  moreover have "same_shape D (chunks s)" using D(2) by (auto simp: same_shape_def)
  ultimately show ?case using step D(1) by (intro exI [of _ D]) auto
qed

text \<open>The state that clearing leaves: the chunks \<open>D\<close> have the slots of before, every one freed, and all of
  them are on the free list.\<close>

lemma cleared_table:
  assumes b: "body s M X F"
    and s2: "links_changed (s\<lparr>struct_mutex := True\<rparr>) s2" "\<And>k b. has_bucket (keydef s) k b \<Longrightarrow> k < keys s \<Longrightarrow> head_of (keydef s2) k b = FM_NULL_SLOT"
    and D: "same_shape C (chunks s)" "same_but_free D C" "\<And>i. has_slot (chunks s) i \<Longrightarrow> slot_of C i = freed (slot_of (chunks s) i)"
    and s': "s' = s2\<lparr>chunks := D, free_head := h, records := 0, struct_mutex := False\<rparr>"
    and fl: "free_list s' (rev (map int [0 ..< total_slots s]))"
  shows "table s'" "rows s' = Map.empty" "has_slot (chunks s') = has_slot (chunks s)"
    "\<And>i. held s' i = held s i" "\<And>i. gen_of s' i = (if has_slot (chunks s) i then gen_of s i + 1 else 0)"
proof -
  let ?F = "rev (map int [0 ..< total_slots s])"
  note d = bodyD [OF b] and l2 = links_changedD [OF s2(1), simplified] and sD = same_but_freeD [OF D(2)]
  have hD: "has_slot D = has_slot (chunks s)" using D(1,2) by (auto simp: same_but_free_def same_shape_def)
  then show "has_slot (chunks s') = has_slot (chunks s)" by (simp add: s')
  have act: "active s' = (\<lambda>_. False)" using sD(1) D(3) hD by (auto simp: active_def freed_def fun_eq_iff s')
  then show rows': "rows s' = Map.empty" by (simp add: rows_def fun_eq_iff)
  show "held s' i = held s i" "gen_of s' i = (if has_slot (chunks s) i then gen_of s i + 1 else 0)" for i
    using D(3) [of i] hD by (auto simp: held_def gen_of_def sD(2,4) freed_def s')
  have "body s' (\<lambda>_ _. None) {} ?F"
    unfolding body_def
  proof (intro conjI)
    have "length D = length (chunks s)" "\<And>c. c < length D \<Longrightarrow> D ! c = None \<longleftrightarrow> chunks s ! c = None"
      using D(1,2) by (auto simp: same_but_free_def same_shape_def)
    then show "layout s'" using d(1) l2 by (simp add: layout_def s')
    have "quiet s'" using d(5) D(3) hD by (auto simp: quiet_def sD(3) freed_def s')
    moreover have "steady s2" using steady_links [OF s2(1)] d(2) by simp
    ultimately show "steady s'" by (auto simp: steady_def keys_ready_def locks_free_def s')
    show "indexed s' (\<lambda>_ _. None)"
      unfolding indexed_def chains_def by (intro exI [of _ "\<lambda>_ _. []"]) (use s2(2) l2 in \<open>auto simp: s'\<close>)
    have "j \<in> int ` {0 ..< total_slots s}" if "has_slot (chunks s) j" for j
      using that layout_has_slot [OF d(1), of j] by (intro image_eqI [of _ _ "nat j"]) auto
    then show "\<forall>i. has_slot (chunks s') i \<longrightarrow> i < int (max_records s') \<longrightarrow> active s' i \<or> i \<in> {} \<union> set ?F" by (simp add: hD s')
    show "uniq s'" unfolding uniq_def rows' by simp
  qed (use fl act hD layout_has_slot [OF d(1)] rows' in \<open>auto simp: s'\<close>)
  moreover have "index_of s' = (\<lambda>_ _. None)" using rows' by (simp add: index_of_def fun_eq_iff)
  ultimately show "table s'" unfolding table_def counted_def act by (auto simp: s')
qed

lemma clear_body_eq:
  assumes b: "body s M X F" and mx: "\<not> struct_mutex s" and nh: "\<And>i. \<not> held s i"
  shows "\<exists>s'. fm_core_clear s = Some s' \<and> table s' \<and> rows s' = Map.empty \<and> records s' = 0
    \<and> (\<forall>i. \<not> held s' i) \<and> (\<forall>i. gen_of s' i = (if has_slot (chunks s) i then gen_of s i + 1 else 0))
    \<and> free_list s' (rev (map int [0 ..< total_slots s])) \<and> static s' = static s \<and> has_slot (chunks s') = has_slot (chunks s)"
proof -
  note d = bodyD [OF b]
  let ?s1 = "s\<lparr>struct_mutex := True\<rparr>" and ?n = "total_slots s"
  have "keys_ready ?s1" "locks_free ?s1" using d(6,7) by (auto simp: keys_ready_def locks_free_def)
  from clear_keys_eq [OF this, of "[0 ..< keys s]"] obtain s2 where s2: "clear_keys [0 ..< keys s] ?s1 = Some s2"
    "links_changed ?s1 s2" "chunks s2 = chunks s"
    "\<And>k b. has_bucket (keydef s) k b \<Longrightarrow> k < keys s \<Longrightarrow> head_of (keydef s2) k b = FM_NULL_SLOT" by auto
  have h2: "held s2 = held s" using relocked_held(1) [OF s2(2) [unfolded links_changed_relocked]] by simp
  have tot: "u32_of (chunk_cnt s2 * FM_CHUNK_SIZE) = ?n" "?n < 2 ^ 31"
    using layout_slot_count [OF d(1)] layout_total_bound [OF d(1)] links_changedD [OF s2(2)] by (simp_all add: fm_core_slot_count_def)
  have "\<forall>i \<in> set [0 ..< ?n]. i < 2 ^ 31 \<and> has_slot (chunks s2) (int i) \<and> \<not> held s2 (int i)"
    using tot(2) layout_has_slot [OF d(1)] nh by (auto simp: s2(3) h2)
  from clear_slots_eq [OF _ this] obtain C where C: "clear_slots [0 ..< ?n] s2 = Some (s2\<lparr>chunks := C\<rparr>)"
    "same_shape C (chunks s)" "\<And>i. slot_of C i = (if i \<in> int ` set [0 ..< ?n] then freed (slot_of (chunks s) i) else slot_of (chunks s) i)"
    by (auto simp: s2(3))
  have "i \<in> int ` set [0 ..< ?n]" if "has_slot (chunks s) i" for i
    using that layout_has_slot [OF d(1), of i] by (intro image_eqI [of _ _ "nat i"]) auto
  then have fr: "\<And>i. has_slot (chunks s) i \<Longrightarrow> slot_of C i = freed (slot_of (chunks s) i)" using C(3) by simp
  let ?s3 = "s2\<lparr>chunks := C, free_head := FM_NULL_SLOT\<rparr>"
  have "free_list ?s3 []" by (simp add: free_list_def)
  moreover have "\<forall>i \<in> set [0 ..< ?n]. i < 2 ^ 31 \<and> has_slot (chunks ?s3) (int i) \<and> int i \<notin> set []"
    using tot(2) layout_has_slot [OF d(1)] C(2) by (auto simp: same_shape_def)
  ultimately obtain D h where D: "push_slots [0 ..< ?n] ?s3 = Some (?s3\<lparr>chunks := D, free_head := h\<rparr>)"
    "same_but_free D C" "free_list (?s3\<lparr>chunks := D, free_head := h\<rparr>) (rev (map int [0 ..< ?n]))"
    using push_slots_eq [of ?s3 "[]" "[0 ..< ?n]"] by auto
  define s' where "s' = s2\<lparr>chunks := D, free_head := h, records := 0, struct_mutex := False\<rparr>"
  have e: "fm_core_clear s = Some s'" using mx s2(1) C(1) D(1) tot(1)
    by (simp add: fm_core_clear_def lock_struct_def spin_lock_def unlock_struct_def spin_unlock_def Let_def s'_def)
  have fl: "free_list s' (rev (map int [0 ..< ?n]))" using D(3) by (simp add: free_list_def s'_def)
  have "static s2 = static s" using relocked_static [OF s2(2) [unfolded links_changed_relocked]] by simp
  then have "static s' = static s" "records s' = 0" by (simp_all add: static_def s'_def)
  with e fl nh cleared_table [OF b s2(2,4) C(2) D(2) fr s'_def fl] show ?thesis by (intro exI [of _ s']) simp
qed

lemma clear_eq:
  assumes t: "table s" and nh: "\<And>i. \<not> held s i"
  shows "\<exists>s'. fm_core_clear s = Some s' \<and> table s' \<and> rows s' = Map.empty \<and> records s' = 0
    \<and> (\<forall>i. \<not> held s' i) \<and> (\<forall>i. gen_of s' i = (if has_slot (chunks s) i then gen_of s i + 1 else 0))
    \<and> free_list s' (rev (map int [0 ..< total_slots s])) \<and> static s' = static s \<and> has_slot (chunks s') = has_slot (chunks s)"
proof -
  obtain F where "body s (index_of s) {} F" "\<not> struct_mutex s" using t by (auto simp: table_def)
  from clear_body_eq [OF this nh] show ?thesis by blast
qed

section \<open>Reads\<close>

text \<open>
  A lookup walks one chain \<open>xs\<close> that holds all rows with the key, and leaves the share as it was:
  \<open>fm_core_find\<close> returns the first match of the chain, \<open>fm_core_find_next\<close> the first one behind \<open>cur\<close>.
\<close>

definition lookup_result :: "FM_SHARE_CORE \<Rightarrow> nat \<Rightarrow> image \<Rightarrow> slot_id list \<Rightarrow> slot_id \<Rightarrow> image \<Rightarrow> fm_rc \<times> slot_id \<times> image" where
  "lookup_result s key pk xs out buf =
     (case find (row_matches s (\<lambda>r. probe_cmp (keydef s ! key) r pk = 0)) xs of
        None \<Rightarrow> (FM_ERR_NOT_FOUND, out, buf)
      | Some i \<Rightarrow> (FM_ERR_OK, i, the (rows s i)))"

lemma chain_walk:
  assumes st: "steady s" and ix: "indexed s M" and k: "key < keys s"
  obtains xs where "distinct xs" "set xs = {i. M key i = Some (fm_bucket (keydef s ! key) (probe_hash (keydef s ! key) pk))}"
    "\<And>buf out. \<exists>buf'. fm_core_find s key pk buf out = Some (lookup_result s key pk xs out buf', s)"
    "\<And>buf out cur. \<exists>buf'. fm_core_find_next s key pk cur buf out = Some (lookup_result s key pk (nodes_after cur xs) out buf', s)"
proof -
  have d: "quiet s" "keys_ready s" "locks_free s" using st by (simp_all add: steady_def)
  let ?kc = "keydef s ! key"
  note ready = key_readyD [OF keys_readyD(1) [OF d(2) k]]
  let ?b = "fm_bucket ?kc (probe_hash ?kc pk)"
  have hb: "has_bucket (keydef s) key ?b" using keys_readyD(3) [OF d(2) k] ready(7) by simp
  have nl: "\<not> lock_of (keydef s) key ?b" using d(3) hb by (simp add: locks_free_def)
  define s1 where "s1 = s\<lparr>keydef := upd_lock (keydef s) key ?b True\<rparr>"
  have l: "lock_bucket s key ?b = Some s1" using hb nl by (simp add: lock_bucket_def spin_lock_def s1_def)
  have u: "unlock_bucket s1 key ?b = Some s"
    using hb nl by (simp add: unlock_bucket_def s1_def spin_unlock_def upd_lock_same)
  have rl: "relocked s (set_lock (lock_of (keydef s)) key ?b True) s1"
    unfolding s1_def by (rule relocked_upd_lock [OF hb])
  note r1 = relockedD [OF rl]
  have k1: "key < keys s1" and hb1: "has_bucket (keydef s1) key ?b" using k hb r1 by auto
  obtain s1' where "lock_bucket s key ?b = Some s1'" "indexed s1' M" using indexed_lock [OF st ix k hb] by blast
  then have "indexed s1 M" using l by simp
  then obtain CH where c: "chains s1 CH" and CH: "set (CH key ?b) = {i. M key i = Some ?b}"
    using k1 hb1 by (auto simp: indexed_def)
  have P: "row_matches s1 = row_matches s" "rows s1 = rows s"
    using relocked_rows [OF rl] by (simp_all add: row_matches_def fun_eq_iff)
  note ch = chainsD(1) [OF c k1 hb1] chainsD(2) [OF c k1 hb1] and q = relocked_quiet [OF rl]
  let ?R = "\<lambda>ys out buf. lookup_result s key pk ys out buf"
  have fl: "\<exists>buf'. find_loop s1 ?kc key pk out buf (head_of (keydef s1) key ?b) = Some (?R (CH key ?b) out buf')" for buf out
    using find_loop_eq [OF _ k1 ready(4) ch(1), of pk out buf] ch(2) q d(1) unfolding lookup_result_def P by blast
  have nl: "\<exists>buf'. find_next_loop s1 ?kc key pk cur out buf False (head_of (keydef s1) key ?b)
      = Some (?R (nodes_after cur (CH key ?b)) out buf')" for buf out cur
    using find_next_loop_eq [OF _ k1 ready(4) ch(1), of pk cur out buf] ch(2) q d(1) unfolding lookup_result_def P by blast
  show thesis
  proof
    show "distinct (CH key ?b)" by (rule linked_distinct [OF ch(1)])
    show "set (CH key ?b) = {i. M key i = Some ?b}" by (rule CH)
    show "\<exists>buf'. fm_core_find s key pk buf out = Some (?R (CH key ?b) out buf', s)" for buf out
      using fl [of out buf] keys_readyD(2) [OF d(2) k] ready(2) l hb1 u by (auto simp: fm_core_find_def Let_def)
    show "\<exists>buf'. fm_core_find_next s key pk cur buf out = Some (?R (nodes_after cur (CH key ?b)) out buf', s)" for buf out cur
      using nl [of cur out buf] keys_readyD(2) [OF d(2) k] ready(2) l hb1 u by (auto simp: fm_core_find_next_def Let_def)
  qed
qed

lemma lookup_chain:
  assumes t: "table s" and k: "key < keys s"
  obtains xs where "distinct xs" "\<And>i r. rows s i = Some r \<Longrightarrow> probe_cmp (keydef s ! key) r pk = 0 \<Longrightarrow> i \<in> set xs"
    "\<And>buf out. \<exists>buf'. fm_core_find s key pk buf out = Some (lookup_result s key pk xs out buf', s)"
    "\<And>buf out cur. \<exists>buf'. fm_core_find_next s key pk cur buf out = Some (lookup_result s key pk (nodes_after cur xs) out buf', s)"
    "\<And>i. i \<in> set xs \<Longrightarrow> rows s i \<noteq> None"
proof -
  obtain F where b: "body s (index_of s) {} F" using t by (auto simp: table_def)
  note ready = key_readyD [OF keys_readyD(1) [OF bodyD(6) [OF b] k]]
  show thesis
  proof (rule chain_walk [OF bodyD(2,3) [OF b] k, of pk], goal_cases)
    case (1 xs)
    show ?case by (rule that [OF 1(1) _ 1(3,4)]) (use ready(13) in \<open>auto simp: 1(2) index_of_def\<close>)
  qed
qed

lemma lookup_result_cases:
  obtains (none) "lookup_result s key pk xs out buf = (FM_ERR_NOT_FOUND, out, buf)"
      "\<And>i r. i \<in> set xs \<Longrightarrow> rows s i = Some r \<Longrightarrow> probe_cmp (keydef s ! key) r pk \<noteq> 0"
  | (hit) i r where "lookup_result s key pk xs out buf = (FM_ERR_OK, i, r)" "i \<in> set xs" "rows s i = Some r"
      "probe_cmp (keydef s ! key) r pk = 0" "i \<noteq> FM_NULL_SLOT"
proof (cases "find (row_matches s (\<lambda>r. probe_cmp (keydef s ! key) r pk = 0)) xs")
  case None
  then have "\<And>i r. i \<in> set xs \<Longrightarrow> rows s i = Some r \<Longrightarrow> probe_cmp (keydef s ! key) r pk \<noteq> 0"
    by (force simp: find_None_iff row_matches_def)
  with None show thesis by (intro none) (simp_all add: lookup_result_def)
next
  case (Some i)
  then obtain r where r: "rows s i = Some r" "probe_cmp (keydef s ! key) r pk = 0" "i \<in> set xs"
    by (auto simp: find_Some_iff row_matches_def split: option.splits)
  then have "i \<noteq> FM_NULL_SLOT" by (auto simp: rows_def active_def split: if_splits)
  with r Some show thesis using hit by (simp add: lookup_result_def)
qed

lemma find_eq:
  assumes t: "table s" and k: "key < keys s"
  shows "\<exists>s' h buf' . fm_core_find s key pk buf out = Some ((if h = FM_NULL_SLOT then (FM_ERR_NOT_FOUND, out, buf')
      else (FM_ERR_OK, h, buf')), s') \<and> table s' \<and> same_rows s s'
    \<and> (if h = FM_NULL_SLOT then \<forall>i r. rows s i = Some r \<longrightarrow> probe_cmp (keydef s ! key) r pk \<noteq> 0
       else rows s h = Some buf' \<and> probe_cmp (keydef s ! key) buf' pk = 0)"
proof (rule lookup_chain [OF assms, of pk])
  fix xs
  assume all: "\<And>i r. rows s i = Some r \<Longrightarrow> probe_cmp (keydef s ! key) r pk = 0 \<Longrightarrow> i \<in> set xs"
    and run: "\<And>buf out. \<exists>buf'. fm_core_find s key pk buf out = Some (lookup_result s key pk xs out buf', s)"
  obtain buf' where f: "fm_core_find s key pk buf out = Some (lookup_result s key pk xs out buf', s)" using run by blast
  show ?thesis
  proof (cases rule: lookup_result_cases [of s key pk xs out buf'])
    case none
    then show ?thesis using f t all by (intro exI [of _ s] exI [of _ FM_NULL_SLOT] exI [of _ buf']) auto
  next
    case (hit i r)
    then show ?thesis using f t by (intro exI [of _ s] exI [of _ i] exI [of _ r]) auto
  qed
qed

lemma scan_next_quiet:
  assumes l: "layout s" and q: "quiet s"
  shows "\<exists>buf'. fm_core_scan_next s pos buf =
    Some (case find (\<lambda>i. active s (int i)) [pos ..< total_slots s] of
            None \<Rightarrow> (FM_ERR_EOF, max pos (total_slots s), buf')
          | Some i \<Rightarrow> (FM_ERR_OK, i + 1, the (rows s (int i))))"
proof -
  have "total_slots s \<le> 2 ^ 31" using layout_total_bound [OF l] by simp
  moreover have "\<forall>i < total_slots s. has_slot (chunks s) (int i)" using layout_has_slot [OF l] by auto
  ultimately show ?thesis
    using scan_loop_eq [OF q, of "total_slots s" pos buf] layout_slot_count [OF l]
    by (auto simp: fm_core_scan_next_def)
qed

lemma scan_next_eq:
  assumes t: "table s"
  shows "\<exists>buf'. fm_core_scan_next s pos buf =
    Some (case find (\<lambda>i. active s (int i)) [pos ..< total_slots s] of
            None \<Rightarrow> (FM_ERR_EOF, max pos (total_slots s), buf')
          | Some i \<Rightarrow> (FM_ERR_OK, i + 1, the (rows s (int i))))"
proof -
  obtain F where b: "body s (index_of s) {} F" using t by (auto simp: table_def)
  show ?thesis by (rule scan_next_quiet [OF bodyD(1,5) [OF b]])
qed

end
