(* ===== verification/Fm_Store.thy ===== *)
theory Fm_Store
  imports Fm_Table
begin

text \<open>
  The concurrency core as a store of rows: a fresh share (\<open>fm_core_init_share\<close> with the keys wired
  by \<open>fm_key_ops_init\<close>) is an empty table, every operation of the core is a step of an abstract table
  of rows and generations, and what follows from that for every sequence of operations.

  The step relation \<open>core_step\<close> has one rule per operation the engine calls, with the arguments the
  engine can pass; \<open>refines\<close> is the interface of a forward simulation, interpreted on \<open>core_step\<close>.
\<close>

section \<open>A fresh share\<close>

text \<open>
  The loop of \<open>fm_key_ops_init\<close> (\<open>src/fm_hash.cc\<close>): callbacks and uniqueness flag of each key.
\<close>

definition wire_keys :: "FM_SHARE_CORE \<Rightarrow> (FM_KEY_OPS \<times> bool) list \<Rightarrow> FM_SHARE_CORE" where
  "wire_keys s kd = s\<lparr>keydef := map2 (\<lambda>kc (ko, u). kc\<lparr>kc_ops := ko, kc_unique := u\<rparr>) (keydef s) kd\<rparr>"

definition contract_ok :: "FM_KEY_OPS \<Rightarrow> bool" where
  "contract_ok ko \<longleftrightarrow> key_contract ko (the (hash_rec ko)) (the (hash_key ko)) (the (cmp_rec_rec ko))
     (the (cmp_rec_key ko)) (\<lambda>r. \<exists>f. has_null_part ko = Some f \<and> f r \<noteq> 0)"

definition fresh_key :: "u32 \<Rightarrow> FM_KEY_CORE" where
  "fresh_key nbuckets = zero_key\<lparr>kc_nbuckets := (if nbuckets \<noteq> 0 then nbuckets else 1024),
     kc_head := Some (\<lambda>_. FM_NULL_SLOT), kc_locks := Some (\<lambda>_. False)\<rparr>"

lemma init_keys_eq:
  assumes "\<And>n z. alloc (ops s) n z"
  shows "init_keys n nb s = s\<lparr>keydef := keydef s @ replicate n (fresh_key nb),
    allocs := allocs s + 2 * n, live_blocks := live_blocks s + 2 * int n\<rparr>"
  using assms
proof (induction n arbitrary: s)
  case 0
  then show ?case by simp
next
  case (Suc n)
  then show ?case by (simp add: core_alloc_def Let_def fresh_key_def replicate_append_same)
qed

text \<open>Without memory for its buckets a key is still entered, with null pointers.\<close>

lemma core_alloc_fields [simp]:
  "keydef (snd (core_alloc s z)) = keydef s" "keys (snd (core_alloc s z)) = keys s" "chunk_cnt (snd (core_alloc s z)) = chunk_cnt s"
  "has_chunks (snd (core_alloc s z)) = has_chunks s"
  by (simp_all add: core_alloc_def)

lemma init_keys_shape [simp]:
  "length (keydef (init_keys n nb s)) = length (keydef s) + n" "keys (init_keys n nb s) = keys s"
  "chunk_cnt (init_keys n nb s) = chunk_cnt s" "has_chunks (init_keys n nb s) = has_chunks s"
  by (induction n arbitrary: s) (simp_all add: Let_def case_prod_unfold)

lemma init_keys_buckets:
  "kc \<in> set (keydef (init_keys n nb s)) \<Longrightarrow> kc \<in> set (keydef s) \<or> kc_nbuckets kc = (if nb \<noteq> 0 then nb else 1024)"
proof (induction n arbitrary: s)
  case (Suc n)
  from Suc.IH [OF Suc.prems [simplified init_keys.simps Let_def case_prod_unfold]] show ?case
    by auto
qed simp

lemma init_share_shape:
  assumes s: "s = fm_core_init_share o' reclen nkeys maxrec nb"
  shows "keys s = nkeys" "chunk_cnt s = 0" "kc \<in> set (keydef s) \<Longrightarrow> kc_nbuckets kc = (if nb \<noteq> 0 then nb else 1024)"
    "(\<And>z. alloc o' 0 z) \<Longrightarrow> has_chunks s" "(\<And>z. \<not> alloc o' 0 z) \<Longrightarrow> \<not> has_chunks s \<and> keydef s = []"
    "(\<And>n z. n < 2 \<Longrightarrow> alloc o' n z) \<Longrightarrow> length (keydef s) = nkeys"
  by (auto simp: s fm_core_init_share_def zero_share_def core_alloc_def Let_def split: if_splits dest!: init_keys_buckets)

lemma init_share_eq:
  assumes a: "\<And>n z. alloc o' n z" and m: "0 < maxrec" "maxrec \<le> 2 ^ 31 - FM_CHUNK_SIZE"
    and s_def: "s = fm_core_init_share o' reclen nkeys maxrec nb"
  shows "keydef s = replicate nkeys (fresh_key nb)" "keys s = nkeys" "reclength s = reclen" "max_records s = maxrec"
    "chunks s = replicate (chunk_cap s) None" "chunk_cap s = (maxrec + FM_CHUNK_SIZE - 1) div FM_CHUNK_SIZE"
    "chunk_cnt s = 0" "free_head s = FM_NULL_SLOT" "records s = 0" "\<not> struct_mutex s"
    "live_blocks s = 1 + (if nkeys = 0 then 0 else 1 + 2 * int nkeys)"
  using a m by (simp_all add: s_def fm_core_init_share_def zero_share_def core_alloc_def Let_def init_keys_eq cast_simps)

lemma empty_table:
  assumes lay: "layout s" "chunk_cnt s = 0" and kr: "keys_ready s" "locks_free s"
    and heads: "\<And>k b. has_bucket (keydef s) k b \<Longrightarrow> head_of (keydef s) k b = FM_NULL_SLOT"
    and z: "free_head s = FM_NULL_SLOT" "records s = 0" "\<not> struct_mutex s"
  shows "table s" "rows s = Map.empty" "\<And>i. \<not> held s i"
proof -
  have ns: "\<not> has_slot (chunks s) i" for i using layout_has_slot [OF lay(1)] lay(2) by (simp add: total_slots_def)
  then have na: "\<not> active s i" for i by (simp add: active_def)
  show r: "rows s = Map.empty" using na by (simp add: rows_def fun_eq_iff)
  show "\<not> held s i" for i using ns by (simp add: held_def)
  have "indexed s (index_of s)"
    unfolding indexed_def chains_def using heads by (intro exI [of _ "\<lambda>_ _. []"]) (simp add: index_of_def r)
  then have "body s (index_of s) {} []"
    using lay(1) kr ns z(1) by (simp add: body_def steady_def quiet_def free_list_def uniq_def r)
  then show "table s" using z na by (auto simp: table_def counted_def)
qed

lemma init_table:
  assumes a: "\<And>n z. alloc o' n z" and m: "0 < maxrec" "maxrec \<le> 2 ^ 31 - FM_CHUNK_SIZE"
    and kd: "length kd \<le> FM_MAX_CHANGED_KEYS" "\<forall>x \<in> set kd. contract_ok (fst x)"
    and s_def: "s = wire_keys (fm_core_init_share o' reclen (length kd) maxrec nb) kd"
  shows "table s" "rows s = Map.empty" "\<And>i. \<not> held s i"
proof -
  note e = init_share_eq [OF a m refl, of reclen "length kd" nb]
  have lk: "length (keydef s) = length kd" by (simp add: s_def wire_keys_def e)
  have kc: "keydef s ! k = (fresh_key nb)\<lparr>kc_ops := fst (kd ! k), kc_unique := snd (kd ! k)\<rparr>" if "k < length kd" for k
    using that by (simp add: s_def wire_keys_def e case_prod_unfold)
  have f: "chunk_cnt s = 0" "free_head s = FM_NULL_SLOT" "records s = 0" "\<not> struct_mutex s"
    "keys s = length kd" "layout s"
    using m by (simp_all add: s_def wire_keys_def e layout_def)
  have nb: "kc_nbuckets (fresh_key nb) \<noteq> 0" "kc_head (fresh_key nb) = Some (\<lambda>_. FM_NULL_SLOT)" "kc_locks (fresh_key nb) = Some (\<lambda>_. False)"
    by (simp_all add: fresh_key_def)
  have "key_ready (keydef s ! k)" if k: "k < length kd" for k
  proof -
    have "contract_ok (fst (kd ! k))" using kd(2) k by simp
    then show ?thesis
      using nb k by (simp add: key_ready_def kc contract_ok_def rec_hash_def probe_hash_def rec_cmp_def probe_cmp_def null_key_def [abs_def])
  qed
  then have kr: "keys_ready s" using kd(1) by (simp add: keys_ready_def f lk)
  have "has_bucket (keydef s) k b \<Longrightarrow> head_of (keydef s) k b = FM_NULL_SLOT \<and> \<not> lock_of (keydef s) k b" for k b
    using nb by (auto simp: has_bucket_def lk kc head_of_def lock_of_def)
  then show "table s" "rows s = Map.empty" "\<And>i. \<not> held s i"
    using empty_table [of s] f kr by (auto simp: locks_free_def)
qed

text \<open>A key on the first byte of the image, to run the model on.\<close>

definition byte_key :: FM_KEY_OPS where
  "byte_key = \<lparr>hash_rec = Some (\<lambda>r. ucast (hd (r @ [0]))), hash_key = Some (\<lambda>p. ucast (hd (p @ [0]))),
     cmp_rec_rec = Some (\<lambda>a b. if hd (a @ [0]) = hd (b @ [0]) then 0 else 1),
     cmp_rec_key = Some (\<lambda>a b. if hd (a @ [0]) = hd (b @ [0]) then 0 else 1), has_null_part = None\<rparr>"

lemma byte_key_contract: "contract_ok byte_key"
  unfolding contract_ok_def byte_key_def
  by unfold_locales (auto split: if_splits)

definition demo_share :: FM_SHARE_CORE where
  "demo_share = wire_keys (fm_core_init_share \<lparr>alloc = \<lambda>_ _. True\<rparr> 2 1 2 16) [(byte_key, True)]"

lemma demo_share_table: "table demo_share" "rows demo_share = Map.empty" "\<not> held demo_share i"
  using init_table [of "\<lparr>alloc = \<lambda>_ _. True\<rparr>" 2 "[(byte_key, True)]" demo_share 2 16] byte_key_contract
  by (auto simp: demo_share_def FM_MAX_CHANGED_KEYS_def)

section \<open>Steps of the core\<close>

inductive core_step :: "FM_SHARE_CORE \<Rightarrow> FM_SHARE_CORE \<Rightarrow> bool" where
  insert: "length rec = reclength s \<Longrightarrow> fm_core_insert_row s rec = Some (rc, slot, ek, s') \<Longrightarrow> core_step s s'"
| update: "fm_core_read_row s i True g buf = Some (FM_ERR_OK, old_rec) \<Longrightarrow> length new_rec = reclength s \<Longrightarrow>
    fm_core_update_row s i g old_rec new_rec = Some (rc, ek, s') \<Longrightarrow> core_step s s'"
| update_locked: "fm_core_read_row s i True g buf = Some (FM_ERR_OK, old_rec) \<Longrightarrow> length new_rec = reclength s \<Longrightarrow>
    fm_core_update_row_locked s i g old_rec new_rec = Some (rc, ek, s') \<Longrightarrow> core_step s s'"
| delete: "fm_core_delete_row s i g = Some (rc, s') \<Longrightarrow> core_step s s'"
| delete_locked: "fm_core_delete_row_locked s i g = Some (rc, s') \<Longrightarrow> core_step s s'"
| lock: "lock_slot s i = Some s' \<Longrightarrow> core_step s s'"
| unlock: "unlock_slot s i = Some s' \<Longrightarrow> core_step s s'"
| clear: "fm_core_clear s = Some s' \<Longrightarrow> core_step s s'"
| find: "key < keys s \<Longrightarrow> fm_core_find s key pk buf out = Some (r, s') \<Longrightarrow> core_step s s'"

text \<open>The abstract table: the row of each slot and the generation that guards references to it.\<close>

type_synonym row_table = "(slot_id \<Rightarrow> image option) \<times> (slot_id \<Rightarrow> u32)"

inductive table_step :: "row_table \<Rightarrow> row_table \<Rightarrow> bool" where
  skip: "table_step (R, G) (R, G)"
| put: "R i = None \<Longrightarrow> table_step (R, G) (R(i \<mapsto> r), G)"
| change: "R i \<noteq> None \<Longrightarrow> table_step (R, G) (R(i \<mapsto> r), G)"
| remove: "R i \<noteq> None \<Longrightarrow> table_step (R, G) (R(i := None), G(i := G i + 1))"
| wipe: "\<forall>i. G' i = G i + 1 \<or> R i = None \<and> G' i = G i \<Longrightarrow> table_step (R, G) (Map.empty, G')"

inductive_cases table_stepE: "table_step (R, G) (R', G')"

definition view :: "FM_SHARE_CORE \<Rightarrow> row_table" where
  "view s = (rows s, gen_of s)"

locale refines =
  fixes cstep :: "'s \<Rightarrow> 's \<Rightarrow> bool" and astep :: "'a \<Rightarrow> 'a \<Rightarrow> bool" and inv :: "'s \<Rightarrow> bool" and abs :: "'s \<Rightarrow> 'a"
  assumes inv_step: "inv s \<Longrightarrow> cstep s s' \<Longrightarrow> inv s'"
    and simulates: "inv s \<Longrightarrow> cstep s s' \<Longrightarrow> astep (abs s) (abs s')"
begin

lemma inv_reach: "cstep\<^sup>*\<^sup>* s s' \<Longrightarrow> inv s \<Longrightarrow> inv s'"
  by (induction rule: rtranclp_induct) (auto intro: inv_step)

lemma run_simulates: "cstep\<^sup>*\<^sup>* s s' \<Longrightarrow> inv s \<Longrightarrow> astep\<^sup>*\<^sup>* (abs s) (abs s')"
proof (induction rule: rtranclp_induct)
  case (step t u)
  then have "astep (abs t) (abs u)" using simulates inv_reach by blast
  with step show ?case by auto
qed simp

lemma invariant_by_abs:
  assumes "\<And>a a'. P a \<Longrightarrow> astep a a' \<Longrightarrow> P a'" "P (abs s)" "inv s" "cstep\<^sup>*\<^sup>* s s'"
  shows "P (abs s')"
  using assms(4)
proof (induction rule: rtranclp_induct)
  case (step t u)
  then show ?case using assms(1) simulates inv_reach [OF step.hyps(1) assms(3)] by blast
qed (rule assms(2))

end

lemma read_row_OK:
  assumes t: "table s" and r: "fm_core_read_row s i True g buf = Some (FM_ERR_OK, r)"
  shows "has_slot (chunks s) i" "rows s i = Some r" "gen_of s i = g" "same_keys s r r"
proof -
  obtain F where b: "body s (index_of s) {} F" using t by (auto simp: table_def)
  note d = bodyD [OF b]
  have "fm_slot s i \<noteq> None" using r by (auto simp: fm_core_read_row_eq split: option.splits)
  then show hs: "has_slot (chunks s) i" by (simp add: fm_slot_def has_slot_get_slot)
  then show "rows s i = Some r" "gen_of s i = g"
    using r read_row_gen [OF d(5) hs, of g buf] by (auto simp: gen_of_def split: option.splits if_splits)
  show "same_keys s r r" using keys_readyD(1) [OF d(6)] by (simp add: same_keys_def key_readyD(8))
qed

lemma put_wlock_table:
  assumes t: "table s" and i: "has_slot (chunks s) i"
    and s'_def: "s' = put_slot s i ((slot_of (chunks s) i)\<lparr>sl_wlock := w\<rparr>)"
  shows "table s'" "view s' = view s"
proof -
  let ?v = "(slot_of (chunks s) i)\<lparr>sl_wlock := w\<rparr>"
  obtain F where b: "body s (index_of s) {} F" using t by (auto simp: table_def)
  have p: "rows s' = rows s" "active s' = active s" "gen_of s' = gen_of s"
    using put_slot_views(2,3) [OF i, of ?v] put_slot_keeps(2) [OF i, of ?v] i
    by (auto simp: s'_def rows_def active_def fun_eq_iff)
  have "steady s'" using bodyD(2,5) [OF b] i by (auto simp: s'_def quiet_def intro!: steady_put_slot)
  moreover have "free_list s' F" using bodyD(4) [OF b] free_list_put_slot [OF i, of ?v] by (simp add: s'_def)
  moreover have "index_of s' = index_of s" by (simp add: index_of_def p fun_eq_iff) (simp add: s'_def)
  ultimately have "body s' (index_of s') {} F"
    using b unfolding body_def uniq_def p by (simp add: s'_def)
  then show "table s'" using t p by (auto simp: table_def counted_def s'_def)
  show "view s' = view s" using p by (simp add: view_def)
qed

lemma update_row_held:
  assumes t: "table s" and i: "has_slot (chunks s) i" and h: "held s i" and len: "length new_rec = reclength s"
    and u: "fm_core_update_row s i g old_rec new_rec = Some (rc, ek, s')"
  shows "table s'" "same_rows s s'" "rc = FM_ERR_DUP_KEY"
proof -
  let ?ks = "changed_of s old_rec new_rec"
  obtain F where b: "body s (index_of s) {} F" using t by (auto simp: table_def)
  note ck = changed_keys_eq [OF bodyD(6) [OF b], of old_rec new_rec]
  have stuck: "lock_slot s1 i = None" if "relocked s L s1" for s1 L
    using relockedD(1,2) [OF that] i h by (simp add: lock_slot_def fm_slot_eq held_def spin_lock_def)
  have "relocked s (lock_of (keydef s)) s" by (simp flip: links_changed_relocked)
  from stuck [OF this] have ne: "?ks \<noteq> []" using u ck by (auto simp: fm_core_update_row_def)
  obtain ls s1 s2 where L: "collect_locks (map of_nat ?ks) s old_rec new_rec [] = Some ls"
    "\<And>k b. fmb_in ls k b \<Longrightarrow> has_bucket (keydef s) k b" "lock_all (sort_locks ls) s = Some s1"
    "relocked s (\<lambda>k b. lock_of (keydef s) k b \<or> fmb_in ls k b) s1" "indexed s1 (index_of s)"
    "dup_checks (map of_nat ?ks) s1 new_rec = Some (map_option of_nat (find (dup_row s new_rec) ?ks))"
    "unlock_all (sort_locks ls) s1 = Some s2" "links_changed s s2" "indexed s2 (index_of s)"
    by (rule lock_section [OF b covers_all, of old_rec new_rec]) (rule that)
  have "s' = s2 \<and> rc = FM_ERR_DUP_KEY"
    using u ne ck L(1,3,6,7) stuck [OF L(4)]
    by (auto simp: fm_core_update_row_def Let_def split: option.splits)
  then show "table s'" "same_rows s s'" "rc = FM_ERR_DUP_KEY" using table_links [OF t L(8,9)] by auto
qed

lemma clear_slots_unheld:
  assumes "clear_slots is s = Some s'" "distinct is" "\<forall>i \<in> set is. i < 2 ^ 31 \<and> has_slot (chunks s) (int i)"
  shows "\<forall>i \<in> set is. \<not> held s (int i)"
  using assms
proof (induction "is" arbitrary: s)
  case (Cons i "is")
  have i: "i32_of i = int i" "has_slot (chunks s) (int i)" using Cons.prems(3) by (auto simp: cast_simps)
  have nh: "\<not> held s (int i)"
    using Cons.prems(1) i by (auto simp: lock_slot_def fm_slot_eq held_def spin_lock_def split: if_splits)
  let ?s = "put_slot s (int i) (freed (slot_of (chunks s) (int i)))"
  let ?sl = "slot_of (chunks s) (int i)"
  have fr: "?sl\<lparr>sl_wlock := True, sl_state := FM_SLOT_FREE, sl_gen := sl_gen ?sl + 1\<rparr> = (freed ?sl)\<lparr>sl_wlock := True\<rparr>"
    by (cases ?sl) (simp add: freed_def)
  have "unlock_slot (put_slot s (int i) ((freed ?sl)\<lparr>sl_wlock := True\<rparr>)) (int i) = Some ?s"
    using nh i by (intro unlock_put_slot [OF i(2)]) (simp add: freed_def held_def)
  then have "clear_slots is ?s = Some s'"
    using Cons.prems(1) i lock_slot_eq [OF i(2) nh] put_slot_views(6,7) [OF i(2)] fr by (simp add: Let_def)
  from Cons.IH [OF this] Cons.prems have "\<forall>j \<in> set is. \<not> held ?s (int j)" by simp
  moreover have "held ?s = held s" using put_slot_keeps(1) [OF i(2), of "freed ?sl"] by (simp add: freed_def)
  ultimately show ?case using nh by simp
qed simp

lemma clear_unheld:
  assumes t: "table s" and c: "fm_core_clear s = Some s'"
  shows "\<not> held s i"
proof
  assume h: "held s i"
  obtain F where b: "body s (index_of s) {} F" and mx: "\<not> struct_mutex s" using t by (auto simp: table_def)
  note d = bodyD [OF b]
  let ?s1 = "s\<lparr>struct_mutex := True\<rparr>"
  have "keys_ready ?s1" "locks_free ?s1" using d(6,7) by (auto simp: keys_ready_def locks_free_def)
  from clear_keys_eq [OF this, of "[0 ..< keys s]"] obtain s2 where s2: "clear_keys [0 ..< keys s] ?s1 = Some s2"
    "links_changed ?s1 s2" "chunks s2 = chunks s" by auto
  have tot: "u32_of (chunk_cnt s2 * FM_CHUNK_SIZE) = total_slots s" "total_slots s < 2 ^ 31"
    using layout_slot_count [OF d(1)] layout_total_bound [OF d(1)] links_changedD(15) [OF s2(2)]
    by (simp_all add: fm_core_slot_count_def)
  obtain s3 where "clear_slots [0 ..< total_slots s] s2 = Some s3"
    using c mx s2(1) tot(1) by (auto simp: fm_core_clear_def lock_struct_def spin_lock_def Let_def bind_eq_Some_conv)
  from clear_slots_unheld [OF this] have "\<forall>j \<in> set [0 ..< total_slots s]. \<not> held s2 (int j)"
    using tot(2) layout_has_slot [OF d(1)] s2(3) by auto
  moreover have "held s2 = held s" using s2(3) by (simp add: held_def fun_eq_iff)
  moreover have "nat i \<in> set [0 ..< total_slots s]" "int (nat i) = i"
    using h layout_has_slot [OF d(1), of i] by (auto simp: held_def)
  ultimately show False using h by metis
qed

lemma fm_slot_None: "\<not> has_slot (chunks s) i \<Longrightarrow> fm_slot s i = None"
  by (simp add: fm_slot_def has_slot_get_slot)

lemma lock_slot_SomeD:
  assumes "lock_slot s i = Some s'"
  shows "has_slot (chunks s) i" "\<not> held s i" "s' = put_slot s i ((slot_of (chunks s) i)\<lparr>sl_wlock := True\<rparr>)"
proof -
  show i: "has_slot (chunks s) i" using assms by (cases "has_slot (chunks s) i") (auto simp: lock_slot_def fm_slot_None)
  show nh: "\<not> held s i" using assms i by (auto simp: lock_slot_def fm_slot_eq held_def spin_lock_def)
  show "s' = put_slot s i ((slot_of (chunks s) i)\<lparr>sl_wlock := True\<rparr>)" using assms lock_slot_eq [OF i nh] by simp
qed

lemma unlock_slot_SomeD:
  assumes "unlock_slot s i = Some s'"
  shows "has_slot (chunks s) i" "s' = put_slot s i ((slot_of (chunks s) i)\<lparr>sl_wlock := False\<rparr>)"
proof -
  show i: "has_slot (chunks s) i" using assms by (cases "has_slot (chunks s) i") (auto simp: unlock_slot_def fm_slot_None)
  show "s' = put_slot s i ((slot_of (chunks s) i)\<lparr>sl_wlock := False\<rparr>)" using assms unlock_slot_eq [OF i] by simp
qed

lemma same_rows_view: "same_rows s s' \<Longrightarrow> view s' = view s \<and> (\<forall>j. has_slot (chunks s) j \<longrightarrow> has_slot (chunks s') j)"
  by (simp add: same_rows_def view_def)

lemma table_step_same: "a' = a \<Longrightarrow> table_step a a'"
  by (cases a) (auto intro: skip)

lemma core_step_refines:
  assumes st: "core_step s s'" and t: "table s"
  shows "table s' \<and> table_step (view s) (view s') \<and> (\<forall>j. has_slot (chunks s) j \<longrightarrow> has_slot (chunks s') j)"
  using st
proof cases
  case (insert rec rc slot ek)
  from t insert(1) show ?thesis
  proof (cases rule: insert_row_cases)
    case (ok i s'')
    then show ?thesis using insert(2) by (auto simp: view_def intro: put)
  qed (use insert(2) in \<open>auto dest: same_rows_view intro: table_step_same\<close>)
next
  case (update i g buf old_rec new_rec rc ek)
  note r = read_row_OK [OF t update(1)]
  show ?thesis
  proof (cases "held s i")
    case False
    have old: "\<And>cur. rows s i = Some cur \<Longrightarrow> same_keys s cur old_rec" using r by simp
    show ?thesis
    proof (rule update_row_cases [OF t r(1) False update(2) old, where g = g], goal_cases)
      case (4 s'')
      then show ?thesis using update(3) by (auto simp: view_def intro!: change)
    qed (use update(3) in \<open>auto dest: same_rows_view intro: table_step_same\<close>)
  next
    case True
    from update_row_held [OF t r(1) True update(2,3)] show ?thesis
      by (auto dest: same_rows_view intro: table_step_same)
  qed
next
  case (update_locked i g buf old_rec new_rec rc ek)
  note r = read_row_OK [OF t update_locked(1)]
  have old: "\<And>cur. rows s i = Some cur \<Longrightarrow> same_keys s cur old_rec" using r by simp
  show ?thesis
  proof (rule update_row_locked_cases [OF t r(1) update_locked(2) old, where g = g], goal_cases)
    case (4 s'')
    then show ?thesis using update_locked(3) by (auto simp: view_def intro!: change)
  qed (use update_locked(3) t in \<open>auto dest: same_rows_view intro: table_step_same\<close>)
next
  case (delete i g rc)
  then obtain s1 where "lock_slot s i = Some s1" by (cases "lock_slot s i") (auto simp: fm_core_delete_row_def)
  note i = lock_slot_SomeD(1,2) [OF this]
  from t i show ?thesis
  proof (cases rule: delete_row_cases [where g = g])
    case (ok s'')
    then show ?thesis using delete remove [of "rows s" i "gen_of s"] by (auto simp: view_def)
  qed (use delete t in \<open>auto intro: table_step_same\<close>)
next
  case (delete_locked i g rc)
  then have i: "has_slot (chunks s) i"
    by (cases "has_slot (chunks s) i") (auto simp: fm_core_delete_row_locked_def fm_slot_None)
  from t i show ?thesis
  proof (cases rule: delete_row_locked_cases [where g = g])
    case (ok s'')
    then show ?thesis using delete_locked remove [of "rows s" i "gen_of s"] by (auto simp: view_def)
  qed (use delete_locked t in \<open>auto intro: table_step_same\<close>)
next
  case (lock i)
  note l = lock_slot_SomeD [OF lock]
  from put_wlock_table [OF t l(1,3)] show ?thesis by (simp add: table_step_same l(3))
next
  case (unlock i)
  note u = unlock_slot_SomeD [OF unlock]
  from put_wlock_table [OF t u] show ?thesis by (simp add: table_step_same u(2))
next
  case clear
  have "\<not> held s i" for i using clear_unheld [OF t clear] by simp
  from clear_eq [OF t this] clear show ?thesis
    using wipe [of "gen_of s'" "gen_of s" "rows s"] by (auto simp: view_def rows_def active_def gen_of_def)
next
  case (find key pk buf out r)
  then show ?thesis
    using find_eq [OF t find(1), of pk buf out] by (auto dest: same_rows_view intro: table_step_same)
qed

interpretation core: refines core_step table_step table view
  by unfold_locales (auto dest: core_step_refines)

section \<open>Room for a row\<close>

lemma grow_keys_ok: "(\<And>n z. alloc (ops s) n z) \<Longrightarrow> fst (grow_keys n kk s)"
  by (induction n arbitrary: kk s) (auto simp: core_alloc_def)

lemma grow_chunk_ok:
  assumes "\<And>n z. alloc (ops s) n z" "chunk_cnt s < chunk_cap s" "chunk_cap s = length (chunks s)"
  shows "\<exists>s'. fm_core_grow_chunk s = Some (FM_ERR_OK, s')"
proof -
  let ?s1 = "s\<lparr>allocs := allocs s + 1, live_blocks := live_blocks s + 1\<rparr>"
  let ?s2 = "if keys s = 0 then ?s1 else ?s1\<lparr>allocs := allocs s + 2, live_blocks := 2 + live_blocks s\<rparr>"
  obtain s3 where "grow_keys (keys s) 0 ?s2 = (True, s3)"
    using grow_keys_ok [of ?s2 "keys s" 0] assms(1) by (cases "grow_keys (keys s) 0 ?s2") auto
  then show ?thesis
    using assms by (auto simp: fm_core_grow_chunk_def core_alloc_def Let_def split: if_splits)
qed

lemma alloc_slot_ok:
  assumes l: "layout s" and F: "free_list s F" and a: "\<And>n z. alloc (ops s) n z" and c: "chunk_cnt s < chunk_cap s"
  shows "\<exists>i s'. fm_core_alloc_slot s = Some (i, s') \<and> i \<noteq> FM_NULL_SLOT"
  using l F
proof (cases rule: fm_core_alloc_slot_cases)
  case (pop i F' s')
  then show ?thesis using F by (auto simp: free_list_def)
next
  case (oom m)
  have h: "free_head s = FM_NULL_SLOT" using F oom(1) by (simp add: free_list_def)
  obtain s' where "fm_core_grow_chunk s = Some (FM_ERR_OK, s')"
    using grow_chunk_ok [OF a c] l by (auto simp: layout_def)
  moreover have tot: "u32_of (chunk_cnt s * FM_CHUNK_SIZE) = total_slots s" "total_slots s < 2 ^ 31"
    using layout_slot_count [OF l] layout_total_bound [OF l] by (auto simp: fm_core_slot_count_def)
  moreover have "total_slots s < max_records s" using layout_full [OF l] c by force
  ultimately have "i = i32_of (total_slots s)" if "fm_core_alloc_slot s = Some (i, s1)" for i s1
    using that h by (auto simp: fm_core_alloc_slot_def Let_def bind_eq_Some_conv total_slots_def)
  from this [OF oom(3)] tot(2) show ?thesis by (simp add: cast_simps FM_NULL_SLOT_def)
qed (use c in \<open>auto simp: FM_NULL_SLOT_def\<close>)

lemma insert_row_nomem:
  assumes "fm_core_insert_row s rec = Some (FM_ERR_NOMEM, x)"
  shows "\<exists>s1. fm_core_alloc_slot (s\<lparr>struct_mutex := True\<rparr>) = Some (FM_NULL_SLOT, s1)"
  using assms
  by (auto simp: fm_core_insert_row_def lock_struct_def spin_lock_def bind_eq_Some_conv Let_def
      split: if_splits option.splits)

lemma insert_row_room_cases:
  assumes t: "table s" and len: "length rec = reclength s" and a: "\<And>n z. alloc (ops s) n z"
    and room: "records s < int (max_records s)"
  obtains (dup) s' where "fm_core_insert_row s rec = Some (FM_ERR_DUP_KEY, None, Some 0, s')" "table s'" "same_rows s s'"
      "\<exists>k < keys s. dup_row s rec k"
  | (ok) i s' where "fm_core_insert_row s rec = Some (FM_ERR_OK, Some i, None, s')" "table s'"
      "\<forall>k < keys s. \<not> dup_row s rec k" "rows s i = None" "rows s' = (rows s)(i \<mapsto> rec)" "held s' = held s"
      "gen_of s' = gen_of s" "records s' = records s + 1" "\<forall>j. has_slot (chunks s) j \<longrightarrow> has_slot (chunks s') j"
      "static s' = static s"
proof (rule insert_row_cases [OF t len])
  fix s' rc
  assume r: "fm_core_insert_row s rec = Some (rc, None, None, s')"
    and rc: "rc = (if chunk_cap s \<le> chunk_cnt s then FM_ERR_FULL else FM_ERR_NOMEM)"
    and act: "\<And>i. has_slot (chunks s) i \<Longrightarrow> i < int (max_records s) \<Longrightarrow> active s i"
  obtain F where b: "body s (index_of s) {} F" and cnt: "counted s" using t by (auto simp: table_def)
  note d = bodyD [OF b]
  show thesis
  proof (cases "chunk_cap s \<le> chunk_cnt s")
    case True
    then have "max_records s \<le> total_slots s" using layout_full [OF d(1)] d(1) by (auto simp: layout_def)
    then have "int ` {0 ..< max_records s} \<subseteq> {i. active s i}"
      using act layout_has_slot [OF d(1)] by auto
    from card_mono [OF finite_active [OF d(1)] this] have "max_records s \<le> card {i. active s i}"
      by (simp add: card_image)
    then show thesis using cnt room by (simp add: counted_def)
  next
    case False
    let ?s0 = "s\<lparr>struct_mutex := True\<rparr>"
    have "layout ?s0" "free_list ?s0 F" using d(1,4) by auto
    from alloc_slot_ok [OF this] a False
    obtain i s1 where "fm_core_alloc_slot ?s0 = Some (i, s1)" "i \<noteq> FM_NULL_SLOT" by auto
    then show thesis using insert_row_nomem [of s rec] r rc False by auto
  qed
next
  fix s'
  assume "fm_core_insert_row s rec = Some (FM_ERR_DUP_KEY, None, Some 0, s')" "table s'" "same_rows s s'"
    "\<exists>k < keys s. dup_row s rec k"
  then show thesis by (rule dup)
qed (rule ok)

lemma insert_row_room:
  assumes "table s" "length rec = reclength s" "\<And>n z. alloc (ops s) n z" "records s < int (max_records s)"
    and nd: "\<forall>k < keys s. \<not> dup_row s rec k"
  obtains i s' where "fm_core_insert_row s rec = Some (FM_ERR_OK, Some i, None, s')" "table s'" "rows s i = None"
    "rows s' = (rows s)(i \<mapsto> rec)" "held s' = held s" "gen_of s' = gen_of s" "records s' = records s + 1"
    "\<forall>j. has_slot (chunks s) j \<longrightarrow> has_slot (chunks s') j" "static s' = static s"
  by (rule insert_row_room_cases [OF assms(1-4)]) (use nd that in auto)

section \<open>Concrete shares\<close>

text \<open>The empty share of one unique key, and the share after its first row, for the concrete instances below.\<close>

lemma demo_share_fields:
  "reclength demo_share = 2" "keys demo_share = 1" "max_records demo_share = 2" "records demo_share = 0"
  "alloc (ops demo_share) n z"
proof -
  note e = init_share_eq [of "\<lparr>alloc = \<lambda>_ _. True\<rparr>" 2 _ 2 1 16, OF _ _ _ refl]
  show "reclength demo_share = 2" "keys demo_share = 1" "max_records demo_share = 2" "records demo_share = 0"
    using e by (simp_all add: demo_share_def wire_keys_def)
  show "alloc (ops demo_share) n z"
    by (simp add: demo_share_def wire_keys_def fm_core_init_share_def zero_share_def core_alloc_def Let_def init_keys_eq)
qed

lemma demo_share_no_dup: "\<not> dup_row demo_share rec k"
  by (simp add: dup_row_def demo_share_table)

lemma demo_first_row:
  obtains i s where "fm_core_insert_row demo_share [7, 1] = Some (FM_ERR_OK, Some i, None, s)" "table s"
    "rows s = [i \<mapsto> [7, 1]]" "\<forall>j. \<not> held s j" "has_slot (chunks s) i" "records s = 1" "static s = static demo_share"
proof (rule insert_row_room [of demo_share "[7, 1]"])
  fix i s
  assume *: "fm_core_insert_row demo_share [7, 1] = Some (FM_ERR_OK, Some i, None, s)" "table s"
    "rows s = (rows demo_share)(i \<mapsto> [7, 1])" "held s = held demo_share" "records s = records demo_share + 1"
    "static s = static demo_share"
  have "rows s i \<noteq> None" using *(3) by simp
  then have "active s i" by (simp add: rows_eq_None_iff)
  then show thesis
    using * demo_share_table demo_share_fields(4) by (intro that [of i s]) (auto simp: active_def)
qed (simp_all add: demo_share_table demo_share_fields demo_share_no_dup)

section \<open>Properties of the core\<close>

text \<open>
  C1: Any sequence of core operations started on a well-formed share keeps the share well formed
  (layout, chains, free list, counters, locks, unique keys) and is a sequence of steps of the
  abstract table of rows and generations.
\<close>

theorem core_run_refines:
  assumes "table s" "core_step\<^sup>*\<^sup>* s s'"
  shows "table s' \<and> table_step\<^sup>*\<^sup>* (view s) (view s')"
  using core.inv_reach [OF assms(2,1)] core.run_simulates [OF assms(2,1)] by blast

theorem core_run_refines_witness:
  "\<exists>s'. core_step\<^sup>*\<^sup>* demo_share s' \<and> table s' \<and> rows s' \<noteq> Map.empty \<and> table_step\<^sup>*\<^sup>* (view demo_share) (view s')"
proof -
  obtain i s where i: "fm_core_insert_row demo_share [7, 1] = Some (FM_ERR_OK, Some i, None, s)" "rows s = [i \<mapsto> [7, 1]]"
    by (rule demo_first_row)
  have "core_step\<^sup>*\<^sup>* demo_share s"
    using core_step.insert [OF _ i(1)] by (simp add: demo_share_fields r_into_rtranclp)
  with core_run_refines [OF demo_share_table(1) this] i(2) show ?thesis by (intro exI [of _ s]) (simp add: fun_eq_iff)
qed

text \<open>
  C10: In every share reachable from a fresh one two different rows never agree on a unique key,
  unless that key has a null part.
\<close>

theorem unique_keys_hold:
  assumes "\<And>n z. alloc o' n z" "0 < maxrec" "maxrec \<le> 2 ^ 31 - FM_CHUNK_SIZE"
    and "length kd \<le> FM_MAX_CHANGED_KEYS" "\<forall>x \<in> set kd. contract_ok (fst x)"
    and "core_step\<^sup>*\<^sup>* (wire_keys (fm_core_init_share o' reclen (length kd) maxrec nb) kd) s"
  shows "\<forall>k < keys s. kc_unique (keydef s ! k) \<longrightarrow> (\<forall>i j r r'. i \<noteq> j \<longrightarrow> rows s i = Some r \<longrightarrow> rows s j = Some r'
    \<longrightarrow> rec_cmp (keydef s ! k) r r' \<noteq> 0 \<or> null_key (keydef s ! k) r)"
proof -
  have "table s" using core.inv_reach [OF assms(6)] init_table(1) [OF assms(1-5) refl] by blast
  then obtain F where "body s (index_of s) {} F" by (auto simp: table_def)
  from bodyD(15) [OF this] show ?thesis unfolding uniq_def by blast
qed

theorem unique_keys_hold_witness:
  "\<exists>s i. core_step\<^sup>*\<^sup>* demo_share s \<and> rows s i = Some [7, 1] \<and> (\<forall>j r. i \<noteq> j \<longrightarrow> rows s j = Some r \<longrightarrow>
     (0 < keys s \<longrightarrow> kc_unique (keydef s ! 0) \<longrightarrow> rec_cmp (keydef s ! 0) [7, 1] r \<noteq> 0 \<or> null_key (keydef s ! 0) [7, 1]))"
proof -
  obtain i s where i: "fm_core_insert_row demo_share [7, 1] = Some (FM_ERR_OK, Some i, None, s)" "rows s = [i \<mapsto> [7, 1]]"
    by (rule demo_first_row)
  have r: "core_step\<^sup>*\<^sup>* demo_share s"
    using core_step.insert [OF _ i(1)] by (simp add: demo_share_fields r_into_rtranclp)
  have "\<forall>k < keys s. kc_unique (keydef s ! k) \<longrightarrow> (\<forall>i j r r'. i \<noteq> j \<longrightarrow> rows s i = Some r \<longrightarrow> rows s j = Some r'
    \<longrightarrow> rec_cmp (keydef s ! k) r r' \<noteq> 0 \<or> null_key (keydef s ! k) r)"
    by (rule unique_keys_hold [of "\<lparr>alloc = \<lambda>_ _. True\<rparr>" 2 "[(byte_key, True)]" 2 16])
      (use r byte_key_contract in \<open>simp_all add: demo_share_def FM_MAX_CHANGED_KEYS_def\<close>)
  moreover have "rows s i = Some [7, 1]" using i(2) by simp
  ultimately show ?thesis using r by blast
qed

text \<open>
  C4: An insert always returns. It reports a full table or lack of memory only when every slot below
  the limit is in use, a duplicate exactly when a row with the same unique key is there, and
  otherwise stores the image in a slot that was empty. In every case the invariant holds again,
  every lock is as before and no generation changes.
\<close>

theorem insert_row_correct:
  assumes "table s" "length rec = reclength s"
  shows "\<exists>rc slot ek s'. fm_core_insert_row s rec = Some (rc, slot, ek, s') \<and> table s'
    \<and> held s' = held s \<and> gen_of s' = gen_of s
    \<and> (rc = FM_ERR_OK \<and> (\<exists>i. slot = Some i \<and> rows s i = None \<and> rows s' = (rows s)(i \<mapsto> rec))
         \<and> records s' = records s + 1 \<and> (\<forall>k < keys s. \<not> dup_row s rec k)
      \<or> rc = FM_ERR_DUP_KEY \<and> rows s' = rows s \<and> (\<exists>k < keys s. dup_row s rec k)
      \<or> rc \<in> {FM_ERR_FULL, FM_ERR_NOMEM} \<and> rows s' = rows s
         \<and> (\<forall>i. has_slot (chunks s) i \<longrightarrow> i < int (max_records s) \<longrightarrow> rows s i \<noteq> None))"
proof (rule insert_row_cases [OF assms])
  fix s' rc
  assume "fm_core_insert_row s rec = Some (rc, None, None, s')" "table s'" "same_rows s s'"
    "rc = (if chunk_cap s \<le> chunk_cnt s then FM_ERR_FULL else FM_ERR_NOMEM)"
    "\<And>i. has_slot (chunks s) i \<Longrightarrow> i < int (max_records s) \<Longrightarrow> active s i"
  then show ?thesis
    by (intro exI [of _ rc] exI [of _ "None :: slot_id option"] exI [of _ "None :: int option"] exI [of _ s'])
      (auto simp: same_rows_def rows_eq_None_iff)
qed (auto simp: same_rows_def)

theorem insert_row_correct_witness:
  "\<exists>rc slot ek s'. fm_core_insert_row demo_share [7, 1] = Some (rc, slot, ek, s') \<and> table s' \<and> rc \<noteq> FM_ERR_DUP_KEY"
  using insert_row_correct [of demo_share "[7, 1]"] demo_share_table demo_share_fields demo_share_no_dup by auto

text \<open>
  With memory available, fewer rows than the limit and no duplicate, an insert succeeds.
\<close>

theorem insert_row_succeeds:
  assumes "table s" "length rec = reclength s" "\<And>n z. alloc (ops s) n z"
    and "records s < int (max_records s)" "\<forall>k < keys s. \<not> dup_row s rec k"
  shows "\<exists>i s'. fm_core_insert_row s rec = Some (FM_ERR_OK, Some i, None, s') \<and> rows s' i = Some rec"
  by (rule insert_row_room [OF assms]) auto

theorem insert_row_succeeds_witness:
  "\<exists>i s'. fm_core_insert_row demo_share [9, 9] = Some (FM_ERR_OK, Some i, None, s') \<and> rows s' i = Some [9, 9]"
  using insert_row_succeeds [of demo_share "[9, 9]"] demo_share_table demo_share_fields demo_share_no_dup by simp

text \<open>
  C5: An update that holds the row's expected generation and the row's current key values replaces
  exactly that row, unless a changed unique key is taken (reported with its number plus one) or the
  row is gone. It always returns, and all locks are released.
\<close>

theorem update_row_correct:
  assumes "table s" "has_slot (chunks s) i" "\<not> held s i" "length new_rec = reclength s"
    and "\<And>cur. rows s i = Some cur \<Longrightarrow> same_keys s cur old_rec"
  shows "\<exists>rc ek s'. fm_core_update_row s i g old_rec new_rec = Some (rc, ek, s') \<and> table s'
    \<and> held s' = held s \<and> gen_of s' = gen_of s \<and> records s' = records s
    \<and> (case find (dup_row s new_rec) (changed_of s old_rec new_rec) of
         Some k \<Rightarrow> rc = FM_ERR_DUP_KEY \<and> ek = Some (int k + 1) \<and> rows s' = rows s
       | None \<Rightarrow> if rows s i = None \<or> gen_of s i \<noteq> g then rc = FM_ERR_DELETED \<and> rows s' = rows s
                else rc = FM_ERR_OK \<and> rows s' = (rows s)(i \<mapsto> new_rec))"
  by (rule update_row_cases [OF assms, where g = g]) (auto simp: same_rows_def)

theorem update_row_correct_witness:
  "\<exists>s i rc ek s'. rows s = [i \<mapsto> [7, 1]] \<and> fm_core_update_row s i (gen_of s i) [7, 1] [8, 2] = Some (rc, ek, s')
    \<and> (rc = FM_ERR_DUP_KEY \<or> rows s' = [i \<mapsto> [8, 2]])"
proof -
  obtain i s where s: "fm_core_insert_row demo_share [7, 1] = Some (FM_ERR_OK, Some i, None, s)" "table s"
    "rows s = [i \<mapsto> [7, 1]]" "\<forall>j. \<not> held s j" "has_slot (chunks s) i" by (rule demo_first_row)
  have nh: "\<not> held s i" using s(4) by simp
  obtain F where b: "body s (index_of s) {} F" using s(2) by (auto simp: table_def)
  have len: "reclength s = 2" using bodyD(14) [OF b, of i "[7, 1]"] s(3) by simp
  have old: "same_keys s cur [7, 1]" if "rows s i = Some cur" for cur
    using that s(3) keys_readyD(1) [OF bodyD(6) [OF b]] by (auto simp: same_keys_def key_readyD(8))
  from update_row_correct [OF s(2,5) nh _ old, of "[8, 2]" "gen_of s i"] len s(3) show ?thesis
    by (intro exI [of _ s] exI [of _ i]) (fastforce split: option.splits)
qed

lemma stored_row: "table s \<Longrightarrow> rows s i = Some r \<Longrightarrow> reclength s = length r \<and> same_keys s r r"
proof -
  assume t: "table s" and r: "rows s i = Some r"
  obtain F where b: "body s (index_of s) {} F" using t by (auto simp: table_def)
  show "reclength s = length r \<and> same_keys s r r"
    using bodyD(14) [OF b r] keys_readyD(1) [OF bodyD(6) [OF b]] by (simp add: same_keys_def key_readyD(8))
qed

lemma rollback_keys_end: "rollback_keys k s rec i = Some (s', k_end) \<Longrightarrow> k_end = - 1"
  by (auto simp: rollback_keys_unlink)

text \<open>A second row with the same key as the first is refused.\<close>

lemma demo_dup:
  obtains s slot ek s' where "fm_core_insert_row s [7, 2] = Some (FM_ERR_DUP_KEY, slot, ek, s')"
proof -
  obtain i s where s: "fm_core_insert_row demo_share [7, 1] = Some (FM_ERR_OK, Some i, None, s)" "table s"
    "rows s = [i \<mapsto> [7, 1]]" "records s = 1" "static s = static demo_share" by (rule demo_first_row)
  have f: "reclength s = 2" "keys s = 1" "max_records s = 2" "ops s = ops demo_share"
    using s(5) demo_share_fields by (simp_all add: static_def)
  have "keydef demo_share = [(fresh_key 16)\<lparr>kc_ops := byte_key, kc_unique := True\<rparr>]"
    using init_share_eq(1) [of "\<lparr>alloc = \<lambda>_ _. True\<rparr>" 2 _ 2 1 16, OF _ _ _ refl] by (simp add: demo_share_def wire_keys_def)
  then have "kc_ops (keydef s ! 0) = byte_key \<and> kc_unique (keydef s ! 0)"
    using s(5) by (auto simp: static_def)
  then have d: "dup_row s [7, 2] 0"
    using s(3) by (auto simp: dup_row_def null_key_def rec_cmp_def byte_key_def)
  have al: "alloc (ops s) n z" for n z using f(4) demo_share_fields(5) by simp
  have len: "length ([7, 2] :: image) = reclength s" and room: "records s < int (max_records s)"
    using f s(4) by simp_all
  show thesis
  proof (rule insert_row_room_cases [OF s(2) len al room])
    fix s' assume "fm_core_insert_row s [7, 2] = Some (FM_ERR_DUP_KEY, None, Some 0, s')"
    then show thesis by (rule that)
  qed (use d f(2) in auto)
qed

text \<open>
  C40: The update under an already held row lock behaves the same, except that it looks at the row
  before it checks for duplicates; the row lock stays with the caller.
\<close>

theorem update_row_locked_correct:
  assumes "table s" "has_slot (chunks s) i" "length new_rec = reclength s"
    and "\<And>cur. rows s i = Some cur \<Longrightarrow> same_keys s cur old_rec"
  shows "\<exists>rc ek s'. fm_core_update_row_locked s i g old_rec new_rec = Some (rc, ek, s') \<and> table s'
    \<and> held s' = held s \<and> gen_of s' = gen_of s \<and> records s' = records s
    \<and> (if rows s i = None \<or> gen_of s i \<noteq> g then rc = FM_ERR_DELETED \<and> s' = s
       else case find (dup_row s new_rec) (changed_of s old_rec new_rec) of
         Some k \<Rightarrow> rc = FM_ERR_DUP_KEY \<and> ek = Some (int k + 1) \<and> rows s' = rows s
       | None \<Rightarrow> rc = FM_ERR_OK \<and> rows s' = (rows s)(i \<mapsto> new_rec))"
proof (cases "rows s i = None \<or> gen_of s i \<noteq> g")
  case True
  then have "fm_core_update_row_locked s i g old_rec new_rec = Some (FM_ERR_DELETED, None, s)"
    using assms(2) slot_gone_iff by (simp add: fm_core_update_row_locked_def fm_slot_eq)
  with True assms(1) show ?thesis by simp
next
  case False
  show ?thesis
    by (rule update_row_locked_cases [OF assms, where g = g]) (use False in \<open>auto simp: same_rows_def\<close>)
qed

theorem update_row_locked_correct_witness:
  "\<exists>s i rc ek s'. rows s = [i \<mapsto> [7, 1]] \<and> fm_core_update_row_locked s i (gen_of s i) [7, 1] [8, 2] = Some (rc, ek, s')
    \<and> (rc = FM_ERR_DUP_KEY \<or> rows s' = [i \<mapsto> [8, 2]])"
proof -
  obtain i s where s: "fm_core_insert_row demo_share [7, 1] = Some (FM_ERR_OK, Some i, None, s)" "table s"
    "rows s = [i \<mapsto> [7, 1]]" "\<forall>j. \<not> held s j" "has_slot (chunks s) i" by (rule demo_first_row)
  note l = stored_row [OF s(2), of i "[7, 1]"]
  have old: "same_keys s cur [7, 1]" if "rows s i = Some cur" for cur using that s(3) l by simp
  from update_row_locked_correct [OF s(2,5) _ old, of "[8, 2]" "gen_of s i"] l s(3) show ?thesis
    by (intro exI [of _ s] exI [of _ i]) (fastforce split: option.splits)
qed

text \<open>
  C6: Deleting a row of the expected generation removes exactly that row, raises the generation of
  its slot by one and lowers the row count by one; a row that is gone or has another generation is
  reported as deleted and nothing changes. The call always returns and leaves no lock held.
\<close>

theorem delete_row_correct:
  assumes "table s" "has_slot (chunks s) i" "\<not> held s i"
  shows "\<exists>rc s'. fm_core_delete_row s i g = Some (rc, s') \<and> table s' \<and> held s' = held s
    \<and> (if rows s i = None \<or> gen_of s i \<noteq> g then rc = FM_ERR_DELETED \<and> s' = s
       else rc = FM_ERR_OK \<and> rows s' = (rows s)(i := None) \<and> gen_of s' = (gen_of s)(i := g + 1)
         \<and> records s' = records s - 1)"
  by (rule delete_row_cases [OF assms, where g = g]) (use assms(1) in auto)

theorem delete_row_correct_witness:
  "\<exists>s i s'. rows s = [i \<mapsto> [7, 1]] \<and> fm_core_delete_row s i (gen_of s i) = Some (FM_ERR_OK, s') \<and> rows s' = Map.empty"
proof -
  obtain i s where s: "fm_core_insert_row demo_share [7, 1] = Some (FM_ERR_OK, Some i, None, s)" "table s"
    "rows s = [i \<mapsto> [7, 1]]" "\<forall>j. \<not> held s j" "has_slot (chunks s) i" by (rule demo_first_row)
  have nh: "\<not> held s i" using s(4) by simp
  from delete_row_correct [OF s(2,5) nh, of "gen_of s i"] s(3)
  obtain s' where "fm_core_delete_row s i (gen_of s i) = Some (FM_ERR_OK, s')" "rows s' = Map.empty" by auto
  with s(3) show ?thesis by blast
qed

text \<open>
  The delete under an already held row lock has the same effect: exactly that row goes, the generation of its
  slot is raised and the slot is free again, while the row lock stays with the caller; a row that is gone or has
  another generation is reported as deleted and nothing changes.
\<close>

theorem delete_row_locked_correct:
  assumes "table s" "has_slot (chunks s) i"
  shows "\<exists>rc s'. fm_core_delete_row_locked s i g = Some (rc, s') \<and> table s' \<and> held s' = held s
    \<and> (if rows s i = None \<or> gen_of s i \<noteq> g then rc = FM_ERR_DELETED \<and> s' = s
       else rc = FM_ERR_OK \<and> rows s' = (rows s)(i := None) \<and> gen_of s' = (gen_of s)(i := g + 1)
         \<and> records s' = records s - 1)"
  by (rule delete_row_locked_cases [OF assms, where g = g]) (use assms(1) in auto)

theorem delete_row_locked_correct_witness:
  "\<exists>s i s'. rows s = [i \<mapsto> [7, 1]] \<and> fm_core_delete_row_locked s i (gen_of s i) = Some (FM_ERR_OK, s') \<and> rows s' = Map.empty"
proof -
  obtain i s where s: "fm_core_insert_row demo_share [7, 1] = Some (FM_ERR_OK, Some i, None, s)" "table s"
    "rows s = [i \<mapsto> [7, 1]]" "\<forall>j. \<not> held s j" "has_slot (chunks s) i" by (rule demo_first_row)
  from delete_row_locked_correct [OF s(2,5), of "gen_of s i"] s(3)
  obtain s' where "fm_core_delete_row_locked s i (gen_of s i) = Some (FM_ERR_OK, s')" "rows s' = Map.empty" by auto
  with s(3) show ?thesis by blast
qed

text \<open>
  C30: Clearing a table without row locks removes every row, resets the count, raises the generation
  of every slot, and puts every slot of every chunk on the free list.
\<close>

theorem clear_correct:
  assumes "table s" "\<And>i. \<not> held s i"
  shows "\<exists>s'. fm_core_clear s = Some s' \<and> table s' \<and> rows s' = Map.empty \<and> records s' = 0
    \<and> (\<forall>i. \<not> held s' i) \<and> (\<forall>i. gen_of s' i = (if has_slot (chunks s) i then gen_of s i + 1 else 0))
    \<and> free_list s' (rev (map int [0 ..< total_slots s]))"
  using clear_eq [OF assms] by blast

theorem clear_correct_witness:
  "\<exists>s i s'. rows s = [i \<mapsto> [7, 1]] \<and> fm_core_clear s = Some s' \<and> rows s' = Map.empty"
proof -
  obtain i s where s: "fm_core_insert_row demo_share [7, 1] = Some (FM_ERR_OK, Some i, None, s)" "table s"
    "rows s = [i \<mapsto> [7, 1]]" "\<forall>j. \<not> held s j" by (rule demo_first_row)
  from clear_correct [OF s(2)] s(4) obtain s' where "fm_core_clear s = Some s'" "rows s' = Map.empty" by auto
  with s(3) show ?thesis by blast
qed

text \<open>
  C14: A point lookup returns a row that matches the packed key if the table has one, and reports
  not found exactly when no row matches; it leaves the table as it is.
\<close>

theorem find_correct:
  assumes "table s" "key < keys s"
  shows "\<exists>rc h buf' s'. fm_core_find s key pk buf out = Some ((rc, h, buf'), s') \<and> table s' \<and> rows s' = rows s
    \<and> (if \<exists>i r. rows s i = Some r \<and> probe_cmp (keydef s ! key) r pk = 0
       then rc = FM_ERR_OK \<and> rows s h = Some buf' \<and> probe_cmp (keydef s ! key) buf' pk = 0
       else rc = FM_ERR_NOT_FOUND \<and> h = out)"
proof -
  obtain s' h buf' where *: "fm_core_find s key pk buf out = Some ((if h = FM_NULL_SLOT then (FM_ERR_NOT_FOUND, out, buf')
      else (FM_ERR_OK, h, buf')), s')" "table s'" "same_rows s s'"
    "if h = FM_NULL_SLOT then \<forall>i r. rows s i = Some r \<longrightarrow> probe_cmp (keydef s ! key) r pk \<noteq> 0
       else rows s h = Some buf' \<and> probe_cmp (keydef s ! key) buf' pk = 0"
    using find_eq [OF assms, of pk buf out] by blast
  then show ?thesis by (cases "h = FM_NULL_SLOT") (auto simp: same_rows_def)
qed

theorem find_correct_witness:
  "\<exists>rc h buf' s'. fm_core_find demo_share 0 [7] [] 0 = Some ((rc, h, buf'), s') \<and> rc = FM_ERR_NOT_FOUND"
  using find_correct [OF demo_share_table(1), of 0 "[7]" "[]" 0] demo_share_fields demo_share_table(2) by auto

text \<open>
  A scan step from a position returns the row of the first active slot at or after it and the
  position behind that slot, or end of file when there is none.
\<close>

theorem scan_next_correct:
  assumes "table s"
  shows "\<exists>rc pos' buf'. fm_core_scan_next s pos buf = Some (rc, pos', buf')
    \<and> (rc = FM_ERR_OK \<and> pos < pos' \<and> rows s (int pos' - 1) = Some buf' \<and> (\<forall>i. pos \<le> i \<and> i + 1 < pos' \<longrightarrow> rows s (int i) = None)
      \<or> rc = FM_ERR_EOF \<and> (\<forall>i \<ge> pos. rows s (int i) = None))"
proof (cases "find (\<lambda>i. active s (int i)) [pos ..< total_slots s]")
  case None
  obtain F where b: "body s (index_of s) {} F" using assms by (auto simp: table_def)
  have "rows s (int i) = None" if "pos \<le> i" for i
    using None that layout_has_slot [OF bodyD(1) [OF b], of "int i"]
    by (auto simp: find_None_iff rows_def active_def)
  with None scan_next_eq [OF assms, of pos buf] show ?thesis by auto
next
  case (Some i)
  then obtain j where j: "j < length [pos ..< total_slots s]" "active s (int i)" "i = [pos ..< total_slots s] ! j"
    "\<forall>k < j. \<not> active s (int ([pos ..< total_slots s] ! k))" by (auto simp: find_Some_iff)
  then have i: "i = pos + j" by simp
  have "rows s (int k) = None" if "pos \<le> k" "k < i" for k
    using j(1,4) that i by (auto simp: rows_eq_None_iff dest!: spec [of _ "k - pos"])
  moreover obtain r where "rows s (int i) = Some r" using j(2) rows_eq_None_iff by fastforce
  ultimately show ?thesis using Some scan_next_eq [OF assms, of pos buf] i by (auto simp: add.commute)
qed

theorem scan_next_correct_witness:
  "\<exists>rc pos' buf'. fm_core_scan_next demo_share 0 [] = Some (rc, pos', buf') \<and> rc = FM_ERR_EOF"
  using scan_next_correct [OF demo_share_table(1), of 0 "[]"] demo_share_table(2) by auto

text \<open>The generation of a slot moves by at most one in a step, and a slot never goes away.\<close>

lemma table_step_gen: "table_step (R, G) (R', G') \<Longrightarrow> G' i = G i \<or> G' i = G i + 1"
  by (auto elim!: table_stepE)

lemma core_run_gen:
  assumes "(core_step ^^ n) s s'" "table s" "has_slot (chunks s) i"
  shows "table s' \<and> has_slot (chunks s') i \<and> (\<exists>m \<le> n. gen_of s' i = gen_of s i + of_nat m)"
  using assms
proof (induction n arbitrary: s')
  case (Suc n)
  then obtain s1 where s1: "(core_step ^^ n) s s1" "core_step s1 s'" by auto
  from Suc.IH [OF this(1) Suc.prems(2,3)] obtain m where m: "table s1" "has_slot (chunks s1) i" "m \<le> n" "gen_of s1 i = gen_of s i + of_nat m" by blast
  note r = core_step_refines [OF s1(2) m(1)]
  have "table_step (rows s1, gen_of s1) (rows s', gen_of s')" using r by (simp add: view_def)
  from table_step_gen [OF this] consider "gen_of s' i = gen_of s1 i" | "gen_of s' i = gen_of s1 i + 1" by blast
  then have "\<exists>m \<le> Suc n. gen_of s' i = gen_of s i + of_nat m"
  proof cases
    case 1
    then show ?thesis using m(3,4) by (intro exI [of _ m]) simp
  next
    case 2
    then show ?thesis using m(3,4) by (intro exI [of _ "Suc m"]) (simp add: ac_simps)
  qed
  then show ?case using r m(2) by blast
qed auto

lemma gen_not_back:
  assumes "m < 2 ^ 32 - 1"
  shows "(g :: u32) + 1 + of_nat m \<noteq> g"
proof
  assume "g + 1 + of_nat m = g"
  then have "(of_nat (Suc m) :: u32) = 0" by (simp add: add.assoc)
  then have "unat (of_nat (Suc m) :: u32) = 0" by simp
  then show False using assms by (simp only: unat_of_nat) simp
qed

text \<open>
  C12: A position taken before a delete stays dead. After the delete, and after any further calls of the core (inserts that
  use the slot again, updates, deletes, locks, clears; fewer than \<open>2\<^sup>3\<^sup>2 - 1\<close> of them, so that the generation does not come
  round), the position is refused: reading through it reports a deleted row and leaves the buffer, an update under the lock
  of the row and a delete report a deleted row and change nothing, and an update without the lock reports a deleted row, or a
  duplicate where the new image has the key of another row, and changes no row either way, whatever old image it is given.
\<close>

theorem stale_reference_rejected:
  assumes s: "table s" "has_slot (chunks s) i" "\<not> held s i" and del: "fm_core_delete_row s i g = Some (FM_ERR_OK, s1)"
    and run: "(core_step ^^ n) s1 s2" "n < 2 ^ 32 - 1" and nh: "\<not> held s2 i" and len: "length new_rec = reclength s2"
  shows "fm_core_read_row s2 i True g buf = Some (FM_ERR_DELETED, buf)
    \<and> fm_core_update_row_locked s2 i g old_rec new_rec = Some (FM_ERR_DELETED, None, s2)
    \<and> fm_core_delete_row s2 i g = Some (FM_ERR_DELETED, s2)
    \<and> (\<exists>rc ek s3. fm_core_update_row s2 i g old_rec new_rec = Some (rc, ek, s3) \<and> table s3 \<and> view s3 = view s2 \<and> held s3 = held s2
         \<and> rc = (if \<exists>k \<in> set (changed_of s2 old_rec new_rec). dup_row s2 new_rec k then FM_ERR_DUP_KEY else FM_ERR_DELETED))"
proof -
  have s1: "table s1" "gen_of s1 i = g + 1" "has_slot (chunks s1) i"
    by (rule delete_row_cases [OF s, where g = g]; use del s(2) in auto)+
  from core_run_gen [OF run(1) s1(1,3)] s1(2) obtain m where m: "table s2" "has_slot (chunks s2) i" "m \<le> n" "gen_of s2 i = g + 1 + of_nat m"
    by auto
  note t = m(1) and hs = m(2)
  have ne: "gen_of s2 i \<noteq> g" unfolding m(4) by (rule gen_not_back) (use m(3) run(2) in simp)
  obtain F where b: "body s2 (index_of s2) {} F" using t by (auto simp: table_def)
  have "fm_core_read_row s2 i True g buf = Some (FM_ERR_DELETED, buf)"
    using read_row_gen [OF bodyD(5) [OF b] hs, of g buf] ne hs by (auto simp: gen_of_def split: option.splits)
  moreover have "fm_core_update_row_locked s2 i g old_rec new_rec = Some (FM_ERR_DELETED, None, s2)"
    using hs ne slot_gone_iff [OF hs] by (simp add: fm_core_update_row_locked_def fm_slot_eq)
  moreover have "fm_core_delete_row s2 i g = Some (FM_ERR_DELETED, s2)"
    by (rule delete_row_cases [OF t hs nh, where g = g]) (use ne in auto)
  moreover have "\<exists>rc ek s3. fm_core_update_row s2 i g old_rec new_rec = Some (rc, ek, s3) \<and> table s3 \<and> view s3 = view s2 \<and> held s3 = held s2
         \<and> rc = (if \<exists>k \<in> set (changed_of s2 old_rec new_rec). dup_row s2 new_rec k then FM_ERR_DUP_KEY else FM_ERR_DELETED)"
    by (rule update_row_gen_cases [OF t hs nh len, where old_rec = old_rec and g = g])
      (use ne in \<open>auto simp: same_rows_def view_def find_None_iff find_Some_iff\<close>)
  ultimately show ?thesis by blast
qed

text \<open>The slot a delete frees is the one the next insert takes.\<close>

lemma delete_row_free_head:
  assumes "fm_core_delete_row s i g = Some (FM_ERR_OK, s')"
  shows "free_head s' = i"
  using assms by (auto simp: fm_core_delete_row_def delete_tail_def fm_core_free_slot_def unlock_struct_def spin_unlock_def
      bind_eq_Some_conv Let_def split: if_splits)

lemma insert_row_free_head:
  assumes "fm_core_insert_row s rec = Some (FM_ERR_OK, Some j, ek, s')" "free_head s \<noteq> FM_NULL_SLOT"
  shows "j = free_head s"
  using assms by (auto simp: fm_core_insert_row_def fm_core_alloc_slot_def lock_struct_def spin_lock_def
      bind_eq_Some_conv Let_def split: if_splits option.splits)

theorem stale_reference_rejected_witness:
  "\<exists>s i g s1 s2. rows s i = Some [7, 1] \<and> fm_core_delete_row s i g = Some (FM_ERR_OK, s1)
    \<and> fm_core_insert_row s1 [8, 1] = Some (FM_ERR_OK, Some i, None, s2) \<and> rows s2 i = Some [8, 1]
    \<and> fm_core_read_row s2 i True g [] = Some (FM_ERR_DELETED, []) \<and> fm_core_delete_row s2 i g = Some (FM_ERR_DELETED, s2)"
proof -
  obtain i s where s: "fm_core_insert_row demo_share [7, 1] = Some (FM_ERR_OK, Some i, None, s)" "table s"
    "rows s = [i \<mapsto> [7, 1]]" "\<forall>j. \<not> held s j" "has_slot (chunks s) i" "static s = static demo_share" "records s = 1"
    by (rule demo_first_row)
  have nh: "\<not> held s i" using s(4) by simp
  obtain s1 where s1: "fm_core_delete_row s i (gen_of s i) = Some (FM_ERR_OK, s1)" "table s1" "rows s1 = Map.empty" "held s1 = held s"
      "records s1 = records s - 1" "static s1 = static s"
    by (rule delete_row_cases [OF s(2,5) nh, where g = "gen_of s i"]) (use s(3) in auto)
  have st: "static s1 = static demo_share" using s1(6) s(6) by simp
  have f: "reclength s1 = 2" "\<And>n z. alloc (ops s1) n z" "max_records s1 = 2"
    using st demo_share_fields by (simp_all add: static_def)
  have r0: "records s1 = 0" "\<forall>k < keys s1. \<not> dup_row s1 [8, 1] k"
    using s1(3,5) s(7) by (simp_all add: dup_row_def)
  obtain j s2 where j: "fm_core_insert_row s1 [8, 1] = Some (FM_ERR_OK, Some j, None, s2)" "rows s2 = (rows s1)(j \<mapsto> [8, 1])" "held s2 = held s1"
      "static s2 = static s1"
    by (rule insert_row_room [OF s1(2) _ f(2), of "[8, 1]"]) (use f r0 in auto)
  have "i \<noteq> FM_NULL_SLOT" using s(5) by auto
  then have same: "j = i" using insert_row_free_head [OF j(1)] delete_row_free_head [OF s1(1)] by simp
  have "(core_step ^^ 1) s1 s2" using core_step.insert [OF _ j(1)] f(1) by (simp add: OO_def)
  moreover have "\<not> held s2 i" using j(3) s1(4) s(4) by simp
  moreover have "length [8, 1 :: u8] = reclength s2" using j(4) f(1) by (simp add: static_def)
  ultimately have "fm_core_read_row s2 i True (gen_of s i) [] = Some (FM_ERR_DELETED, []) \<and> fm_core_delete_row s2 i (gen_of s i) = Some (FM_ERR_DELETED, s2)"
    using stale_reference_rejected [OF s(2,5) nh s1(1), of 1 s2 "[8, 1]" "[]"] by simp
  with s1(1) j same s(3) show ?thesis by (intro exI [of _ s] exI [of _ i] exI [of _ "gen_of s i"] exI [of _ s1] exI [of _ s2]) simp
qed

text \<open>
  The duplicate-key error of an insert always reports key number 0: the loop that takes the
  row out of the keys before the failing one leaves its counter at the largest 32-bit value, to
  which one is added.
\<close>

theorem insert_dup_errkey_is_zero:
  assumes "fm_core_insert_row s rec = Some (FM_ERR_DUP_KEY, slot, ek, s')"
  shows "ek = Some 0"
  using assms
  by (auto simp: fm_core_insert_row_def lock_struct_def spin_lock_def bind_eq_Some_conv Let_def
      split: if_splits option.splits dest!: rollback_keys_end)

theorem insert_dup_errkey_is_zero_witness:
  "\<exists>s slot ek s'. fm_core_insert_row s [7, 2] = Some (FM_ERR_DUP_KEY, slot, ek, s') \<and> ek = Some 0"
proof -
  obtain s slot ek s' where "fm_core_insert_row s [7, 2] = Some (FM_ERR_DUP_KEY, slot, ek, s')"
    by (rule demo_dup)
  with insert_dup_errkey_is_zero [OF this] show ?thesis by blast
qed

lemma nodes_after_append: "c \<notin> set as \<Longrightarrow> nodes_after c (as @ c # bs) = bs"
  by (induction as) auto

lemma find_filter: "find P xs = (case filter P xs of [] \<Rightarrow> None | y # ys \<Rightarrow> Some y)"
  by (induction xs) auto

lemma find_after_match:
  assumes "distinct xs" "j < length (filter P xs)"
  shows "find P (nodes_after (filter P xs ! j) xs) = (if j + 1 < length (filter P xs) then Some (filter P xs ! (j + 1)) else None)"
proof -
  let ?c = "filter P xs ! j"
  have c: "?c \<in> set xs" "P ?c" using nth_mem [OF assms(2)] by auto
  then obtain as bs where x: "xs = as @ ?c # bs" "?c \<notin> set as" using assms(1) by (meson split_list_first)
  have f: "filter P xs = filter P as @ ?c # filter P bs" using c(2) by (subst x(1)) simp
  have "filter P xs ! length (filter P as) = ?c" using arg_cong [OF f, of "\<lambda>l. l ! length (filter P as)"] by (simp add: nth_append)
  moreover have "length (filter P as) < length (filter P xs)" using arg_cong [OF f, of length] by simp
  moreover have "distinct (filter P xs)" using assms(1) by simp
  ultimately have j: "j = length (filter P as)" using assms(2) nth_eq_iff_index_eq by metis
  have "nodes_after ?c xs = bs" using nodes_after_append [OF x(2), of bs] x(1) by simp
  then have "find P (nodes_after ?c xs) = (case filter P bs of [] \<Rightarrow> None | y # ys \<Rightarrow> Some y)" by (simp add: find_filter)
  moreover have "filter P xs ! (j + 1) = filter P bs ! 0" if "filter P bs \<noteq> []"
    using arg_cong [OF f, of "\<lambda>l. l ! (j + 1)"] by (simp add: nth_append j)
  moreover have "length (filter P xs) = j + 1 + length (filter P bs)" using arg_cong [OF f, of length] j by simp
  ultimately show ?thesis by (cases "filter P bs") auto
qed

lemma lookup_enumerates:
  assumes "table s" "key < keys s"
  shows "\<exists>ys. distinct ys \<and> set ys = {i. \<exists>r. rows s i = Some r \<and> probe_cmp (keydef s ! key) r pk = 0}
    \<and> (\<forall>buf out. \<exists>buf'. fm_core_find s key pk buf out =
        Some (if ys = [] then (FM_ERR_NOT_FOUND, out, buf') else (FM_ERR_OK, hd ys, the (rows s (hd ys))), s))
    \<and> (\<forall>j buf out. j < length ys \<longrightarrow> (\<exists>buf'. fm_core_find_next s key pk (ys ! j) buf out =
        Some (if j + 1 < length ys then (FM_ERR_OK, ys ! (j + 1), the (rows s (ys ! (j + 1)))) else (FM_ERR_NOT_FOUND, out, buf'), s)))"
proof (rule lookup_chain [OF assms, of pk], goal_cases)
  case (1 xs)
  let ?P = "row_matches s (\<lambda>r. probe_cmp (keydef s ! key) r pk = 0)"
  let ?ys = "filter ?P xs"
  have set: "set ?ys = {i. \<exists>r. rows s i = Some r \<and> probe_cmp (keydef s ! key) r pk = 0}"
    using 1(2) by (auto simp: row_matches_def split: option.splits)
  have f: "\<exists>buf'. fm_core_find s key pk buf out =
      Some (if ?ys = [] then (FM_ERR_NOT_FOUND, out, buf') else (FM_ERR_OK, hd ?ys, the (rows s (hd ?ys))), s)" for buf out
    using 1(3) [of buf out] by (cases ?ys) (auto simp: lookup_result_def find_filter)
  have n: "\<exists>buf'. fm_core_find_next s key pk (?ys ! j) buf out =
      Some (if j + 1 < length ?ys then (FM_ERR_OK, ?ys ! (j + 1), the (rows s (?ys ! (j + 1)))) else (FM_ERR_NOT_FOUND, out, buf'), s)"
    if "j < length ?ys" for j buf out
    using 1(4) [of "?ys ! j" buf out] find_after_match [OF 1(1) that] by (auto simp: lookup_result_def)
  show ?case using 1(1) set f n by (intro exI [of _ ?ys]) simp
qed

text \<open>
  C15: The rows with a key are enumerated completely: there is an order of exactly the rows that match
  the packed key such that \<open>fm_core_find\<close> returns the first of them, \<open>fm_core_find_next\<close> called with one
  of them returns the next, and with the last one it reports the end. Neither call changes the share.
\<close>

theorem find_next_enumerates:
  assumes "table s" "key < keys s"
  shows "\<exists>ys. distinct ys \<and> set ys = {i. \<exists>r. rows s i = Some r \<and> probe_cmp (keydef s ! key) r pk = 0}
    \<and> (\<forall>buf out. \<exists>buf'. fm_core_find s key pk buf out =
        Some (if ys = [] then (FM_ERR_NOT_FOUND, out, buf') else (FM_ERR_OK, hd ys, the (rows s (hd ys))), s))
    \<and> (\<forall>j buf out. j < length ys \<longrightarrow> (\<exists>buf'. fm_core_find_next s key pk (ys ! j) buf out =
        Some (if j + 1 < length ys then (FM_ERR_OK, ys ! (j + 1), the (rows s (ys ! (j + 1)))) else (FM_ERR_NOT_FOUND, out, buf'), s)))"
  by (rule lookup_enumerates [OF assms])

theorem find_next_enumerates_witness:
  "\<exists>ys. (\<forall>i. i \<in> set ys \<longleftrightarrow> (\<exists>r. rows demo_share i = Some r \<and> probe_cmp (keydef demo_share ! 0) r [7] = 0))
    \<and> (\<exists>buf'. fm_core_find demo_share 0 [7] [] (-1) =
        Some (if ys = [] then (FM_ERR_NOT_FOUND, -1, buf') else (FM_ERR_OK, hd ys, the (rows demo_share (hd ys))), demo_share))"
proof -
  have "0 < keys demo_share" by (simp add: demo_share_fields)
  from find_next_enumerates [OF demo_share_table(1) this, of "[7]"] obtain ys where
    "set ys = {i. \<exists>r. rows demo_share i = Some r \<and> probe_cmp (keydef demo_share ! 0) r [7] = 0}"
    "\<exists>buf'. fm_core_find demo_share 0 [7] [] (-1) =
        Some (if ys = [] then (FM_ERR_NOT_FOUND, -1, buf') else (FM_ERR_OK, hd ys, the (rows demo_share (hd ys))), demo_share)" by blast
  then show ?thesis by (intro exI [of _ ys]) auto
qed


lemma demo_share_keydef: "map (\<lambda>kc. (kc_ops kc, kc_unique kc)) (keydef demo_share) = [(byte_key, True)]"
  using init_share_eq(1) [of "\<lparr>alloc = \<lambda>_ _. True\<rparr>" 2 _ 2 1 16, OF _ _ _ refl] by (simp add: demo_share_def wire_keys_def)

text \<open>
  C38: A row that is no longer in the table cannot serve as the cursor of \<open>fm_core_find_next\<close>: the
  call reports the end of the matches, also when rows with the key exist. The comment of the function
  promises the first match in this case.
\<close>

theorem find_next_stale_cursor:
  assumes "table s" "key < keys s" "rows s cur = None"
  shows "\<exists>buf'. fm_core_find_next s key pk cur buf out = Some ((FM_ERR_NOT_FOUND, out, buf'), s)"
proof (rule lookup_chain [OF assms(1,2), of pk], goal_cases)
  case (1 xs)
  have "nodes_after cur xs = []" using 1(5) [of cur] assms(3) by (intro nodes_after_notin) auto
  then show ?case using 1(4) [of cur buf out] by (simp add: lookup_result_def)
qed

theorem find_next_stale_cursor_witness:
  "\<exists>s i j buf'. rows s i = Some [7, 1] \<and> probe_cmp (keydef s ! 0) [7, 1] [7] = 0
    \<and> fm_core_find_next s 0 [7] j [] (-1) = Some ((FM_ERR_NOT_FOUND, -1, buf'), s)"
proof -
  obtain i s where i: "table s" "rows s = [i \<mapsto> [7, 1]]" "static s = static demo_share"
    by (rule demo_first_row)
  have k: "keys s = 1" using i(3) demo_share_fields by (simp add: static_def)
  have "map (\<lambda>kc. (kc_ops kc, kc_unique kc)) (keydef s) = [(byte_key, True)]"
    using arg_cong [OF i(3), of "\<lambda>st. map (\<lambda>(a, b, c). (a, b)) (snd (snd (snd (snd (snd st)))))"] demo_share_keydef
    by (simp add: static_def comp_def)
  then have c: "kc_ops (keydef s ! 0) = byte_key" by (cases "keydef s") auto
  have "rows s (i + 1) = None" using i(2) by simp
  then obtain buf' where "fm_core_find_next s 0 [7] (i + 1) [] (-1) = Some ((FM_ERR_NOT_FOUND, -1, buf'), s)"
    using find_next_stale_cursor [of s 0 "i + 1" "[7]" "[]" "-1"] i(1) k by auto
  moreover have "probe_cmp (keydef s ! 0) [7, 1] [7] = 0" using c by (simp add: byte_key_def probe_cmp_def)
  ultimately show ?thesis using i(2) by (intro exI [of _ s] exI [of _ i] exI [of _ "i + 1"] exI [of _ buf']) simp
qed

end
