(* ===== verification/Fm_Key_Hash.thy ===== *)
theory Fm_Key_Hash
  imports Fm_Store
begin

text \<open>
  Key hashing, comparison and packing (\<open>src/fm_hash.cc\<close>) over the key definitions of
  \<open>src/fm_def.h\<close>, and the proof that the callbacks the engine hands to the concurrency core keep
  the contract \<open>key_contract\<close> the core relies on.

  The collation functions of a character set and the byte-order and bit-field macros are code of the
  server: \<open>CHARSET_INFO\<close> holds the functions of a character set and \<open>server\<close> the macros, as
  parameters. \<open>charset_ok\<close> is what the engine relies on: collation equality is an equivalence, and
  strings that collate equal hash equal.

  A pointer into an image or a packed key is an offset, and \<open>bytes_at xs p n\<close> are the \<open>n\<close> bytes at
  offset \<open>p\<close>. The server lays out records and keys so that every access of a segment is inside the
  buffer; the model reads 0 outside of it. \<open>ulong\<close> is 64 bits wide.
\<close>

section \<open>Parameters: the server's character sets and macros\<close>

definition byte_at :: "image \<Rightarrow> nat \<Rightarrow> u8" where
  "byte_at xs p = (if p < length xs then xs ! p else 0)"

definition bytes_at :: "image \<Rightarrow> nat \<Rightarrow> nat \<Rightarrow> image" where
  "bytes_at xs p n = map (\<lambda>i. byte_at xs (p + i)) [0..<n]"

record server =
  get_rec_bits :: "image \<Rightarrow> nat \<Rightarrow> nat \<Rightarrow> u8"
  uint2korr :: "image \<Rightarrow> nat"

type_synonym hash_state = "u64 \<times> u64"

record CHARSET_INFO =
  mbmaxlen :: nat
  my_ci_charpos :: "image \<Rightarrow> nat \<Rightarrow> nat"
  my_ci_hash_sort :: "image \<Rightarrow> hash_state \<Rightarrow> hash_state"
  my_ci_strnncollsp :: "image \<Rightarrow> image \<Rightarrow> int"

datatype ha_key_flag = HA_NOSAME | HA_NULL_PART_KEY | HA_NULL_ARE_EQUAL | HA_AUTO_KEY | HA_KEYFLAG_other nat

datatype ha_key_alg = HA_KEY_ALG_UNDEF | HA_KEY_ALG_BTREE | HA_KEY_ALG_HASH | HA_KEY_ALG_other nat

section \<open>Key definitions\<close>

record HA_KEYSEG =
  seg_type :: ha_keytype
  seg_charset :: CHARSET_INFO
  seg_start :: nat
  seg_length :: nat
  seg_flag :: nat
  seg_null_bit :: u8
  seg_null_pos :: nat
  seg_bit_length :: nat
  seg_bit_start :: nat
  seg_bit_pos :: nat

text \<open>\<open>keysegs\<close> is the length of the list \<open>kd_seg\<close>; a flag word is the set of its flags.\<close>

record FM_KEYDEF =
  kd_seg :: "HA_KEYSEG list"
  kd_flag :: "ha_key_flag set"
  kd_length :: nat
  kd_algorithm :: ha_key_alg

text \<open>The segment of a record is null: its null bit is set.\<close>

definition seg_null :: "HA_KEYSEG \<Rightarrow> image \<Rightarrow> bool" where
  "seg_null seg rec \<longleftrightarrow> byte_at rec (seg_null_pos seg) AND seg_null_bit seg \<noteq> 0"

definition bit_seg :: "HA_KEYSEG \<Rightarrow> bool" where
  "bit_seg seg \<longleftrightarrow> seg_type seg = HA_KEYTYPE_BIT \<and> seg_bit_length seg \<noteq> 0"

definition fm_charpos :: "CHARSET_INFO \<Rightarrow> image \<Rightarrow> nat \<Rightarrow> nat" where
  "fm_charpos cs b num = my_ci_charpos cs b num"

section \<open>Hashing\<close>

definition hash_null :: "hash_state \<Rightarrow> hash_state" where
  "hash_null st = (case st of (nr, nr2) \<Rightarrow> (nr XOR (push_bit 1 nr OR 1), nr2))"

definition hash_byte :: "u8 \<Rightarrow> hash_state \<Rightarrow> hash_state" where
  "hash_byte b st = (case st of (nr, nr2) \<Rightarrow> (nr XOR (((nr AND 63) + nr2) * ucast b + push_bit 8 nr), nr2 + 3))"

text \<open>One segment of a packed key at offset \<open>key\<close>: the offset of the next one and the new state.\<close>

definition hashnr_seg :: "server \<Rightarrow> image \<Rightarrow> HA_KEYSEG \<Rightarrow> nat \<Rightarrow> hash_state \<Rightarrow> nat \<times> hash_state" where
  "hashnr_seg sv xs seg key st =
     (let nullable = seg_null_bit seg \<noteq> 0; cs = seg_charset seg;
          next_key = key + seg_length seg + (if nullable then 1 else 0)
      in if nullable \<and> byte_at xs key \<noteq> 0
         then (if seg_type seg = HA_KEYTYPE_VARTEXT1 then next_key + 2 else next_key, hash_null st)
         else
           let pos = (if nullable then key + 1 else key)
           in if seg_type seg = HA_KEYTYPE_TEXT then
                let len = (if 1 < mbmaxlen cs
                           then min (seg_length seg) (fm_charpos cs (bytes_at xs pos (seg_length seg)) (seg_length seg div mbmaxlen cs))
                           else seg_length seg)
                in (next_key, my_ci_hash_sort cs (bytes_at xs pos len) st)
              else if seg_type seg = HA_KEYTYPE_VARTEXT1 then
                let n = uint2korr sv (bytes_at xs pos 2);
                    len = (if 1 < mbmaxlen cs
                           then min n (fm_charpos cs (bytes_at xs (pos + 2) n) (seg_length seg div mbmaxlen cs))
                           else n)
                in (next_key + 2, my_ci_hash_sort cs (bytes_at xs (pos + 2) len) st)
              else (next_key, fold hash_byte (bytes_at xs pos (next_key - pos)) st))"

fun hashnr_loop :: "server \<Rightarrow> image \<Rightarrow> HA_KEYSEG list \<Rightarrow> nat \<Rightarrow> hash_state \<Rightarrow> hash_state" where
  "hashnr_loop sv xs [] key st = st"
| "hashnr_loop sv xs (seg # segs) key st =
     (case hashnr_seg sv xs seg key st of (key', st') \<Rightarrow> hashnr_loop sv xs segs key' st')"

definition fm_hashnr :: "server \<Rightarrow> FM_KEYDEF \<Rightarrow> image \<Rightarrow> u64" where
  "fm_hashnr sv kd key = fst (hashnr_loop sv key (kd_seg kd) 0 (1, 4))"

text \<open>The length of a \<open>VARCHAR\<close> value in a record, and the text of a segment of a record.\<close>

definition varchar_length :: "server \<Rightarrow> HA_KEYSEG \<Rightarrow> image \<Rightarrow> nat" where
  "varchar_length sv seg rec =
     (if seg_bit_start seg = 1 then unat (byte_at rec (seg_start seg)) else uint2korr sv (bytes_at rec (seg_start seg) 2))"

definition rec_text :: "HA_KEYSEG \<Rightarrow> image \<Rightarrow> nat \<Rightarrow> image" where
  "rec_text seg xs pos =
     (let cs = seg_charset seg;
          char_length = (if 1 < mbmaxlen cs
            then min (fm_charpos cs (bytes_at xs pos (seg_length seg)) (seg_length seg div mbmaxlen cs)) (seg_length seg)
            else seg_length seg)
      in bytes_at xs pos char_length)"

definition rec_hash_seg :: "server \<Rightarrow> image \<Rightarrow> HA_KEYSEG \<Rightarrow> hash_state \<Rightarrow> hash_state" where
  "rec_hash_seg sv rec seg st =
     (let cs = seg_charset seg; pos = seg_start seg
      in if seg_null_bit seg \<noteq> 0 \<and> seg_null seg rec then hash_null st
         else if seg_type seg = HA_KEYTYPE_TEXT then my_ci_hash_sort cs (rec_text seg rec pos) st
         else if seg_type seg = HA_KEYTYPE_VARTEXT1 then
           let pack_length = seg_bit_start seg; n = varchar_length sv seg rec;
               len = (if 1 < mbmaxlen cs
                      then min n (fm_charpos cs (bytes_at rec (pos + pack_length) n) (seg_length seg div mbmaxlen cs))
                      else min n (seg_length seg))
           in my_ci_hash_sort cs (bytes_at rec (pos + pack_length) len) st
         else if bit_seg seg then
           fold hash_byte (bytes_at rec pos (seg_length seg - 1))
             (hash_byte (get_rec_bits sv (bytes_at rec (seg_bit_pos seg) 2) (seg_bit_start seg) (seg_bit_length seg)) st)
         else fold hash_byte (bytes_at rec pos (seg_length seg)) st)"

definition fm_rec_hashnr :: "server \<Rightarrow> FM_KEYDEF \<Rightarrow> image \<Rightarrow> u64" where
  "fm_rec_hashnr sv kd rec = fst (fold (rec_hash_seg sv rec) (kd_seg kd) (1, 4))"

section \<open>Comparison\<close>

text \<open>The text of a \<open>VARCHAR\<close> segment of a record, as the comparisons cut it.\<close>

definition rec_varchar :: "server \<Rightarrow> HA_KEYSEG \<Rightarrow> image \<Rightarrow> nat \<Rightarrow> image" where
  "rec_varchar sv seg rec pos =
     (let cs = seg_charset seg; n = varchar_length sv seg rec;
          char_length = (if 1 < mbmaxlen cs
            then min (fm_charpos cs (bytes_at rec pos n) (seg_length seg div mbmaxlen cs)) n
            else min n (seg_length seg))
      in bytes_at rec pos char_length)"

text \<open>\<open>True\<close> where the source returns 1 for this segment.\<close>

definition rec_seg_cmp :: "server \<Rightarrow> image \<Rightarrow> image \<Rightarrow> HA_KEYSEG \<Rightarrow> bool" where
  "rec_seg_cmp sv rec1 rec2 seg =
     (let cs = seg_charset seg; nb = seg_null_bit seg; np = seg_null_pos seg
      in if nb \<noteq> 0 \<and> byte_at rec1 np AND nb \<noteq> byte_at rec2 np AND nb then True
         else if nb \<noteq> 0 \<and> seg_null seg rec1 then False
         else if seg_type seg = HA_KEYTYPE_TEXT then
           my_ci_strnncollsp cs (rec_text seg rec1 (seg_start seg)) (rec_text seg rec2 (seg_start seg)) \<noteq> 0
         else if seg_type seg = HA_KEYTYPE_VARTEXT1 then
           let skip = (if seg_bit_start seg = 1 then 1 else 2)
           in my_ci_strnncollsp cs (rec_varchar sv seg rec1 (seg_start seg + skip)) (rec_varchar sv seg rec2 (seg_start seg + skip)) \<noteq> 0
         else if bit_seg seg then
           let bits = (\<lambda>rec. get_rec_bits sv (bytes_at rec (seg_bit_pos seg) 2) (seg_bit_start seg) (seg_bit_length seg))
           in bits rec1 \<noteq> bits rec2
              \<or> bytes_at rec1 (seg_start seg) (seg_length seg - 1) \<noteq> bytes_at rec2 (seg_start seg) (seg_length seg - 1)
         else bytes_at rec1 (seg_start seg) (seg_length seg) \<noteq> bytes_at rec2 (seg_start seg) (seg_length seg))"

fun rec_cmp_loop :: "server \<Rightarrow> image \<Rightarrow> image \<Rightarrow> HA_KEYSEG list \<Rightarrow> int" where
  "rec_cmp_loop sv rec1 rec2 [] = 0"
| "rec_cmp_loop sv rec1 rec2 (seg # segs) = (if rec_seg_cmp sv rec1 rec2 seg then 1 else rec_cmp_loop sv rec1 rec2 segs)"

definition fm_rec_key_cmp :: "server \<Rightarrow> FM_KEYDEF \<Rightarrow> image \<Rightarrow> image \<Rightarrow> int" where
  "fm_rec_key_cmp sv kd rec1 rec2 = rec_cmp_loop sv rec1 rec2 (kd_seg kd)"

text \<open>A segment of a packed key against a record: \<open>None\<close> where the source returns 1, otherwise the
  offset of the next segment, the \<open>key += seg->length\<close> of the loop included.\<close>

definition key_seg_cmp :: "server \<Rightarrow> image \<Rightarrow> image \<Rightarrow> HA_KEYSEG \<Rightarrow> nat \<Rightarrow> nat option" where
  "key_seg_cmp sv rec xs seg key0 =
     (let cs = seg_charset seg; nullable = seg_null_bit seg \<noteq> 0; found_null = nullable \<and> seg_null seg rec;
          key = (if nullable then key0 + 1 else key0)
      in if nullable \<and> of_bool found_null \<noteq> byte_at xs key0 then None
         else if found_null then
           Some ((if seg_type seg = HA_KEYTYPE_VARTEXT1 then key + 2 else key) + seg_length seg)
         else if seg_type seg = HA_KEYTYPE_TEXT then
           if my_ci_strnncollsp cs (rec_text seg rec (seg_start seg)) (rec_text seg xs key) \<noteq> 0 then None
           else Some (key + seg_length seg)
         else if seg_type seg = HA_KEYTYPE_VARTEXT1 then
           let n = uint2korr sv (bytes_at xs key 2); pos = seg_start seg + seg_bit_start seg;
               char_length_key = (if 1 < mbmaxlen cs
                 then min n (fm_charpos cs (bytes_at xs (key + 2) n) (seg_length seg div mbmaxlen cs)) else n)
           in if my_ci_strnncollsp cs (rec_varchar sv seg rec pos) (bytes_at xs (key + 2) char_length_key) \<noteq> 0 then None
              else Some (key + 2 + seg_length seg)
         else if bit_seg seg then
           if get_rec_bits sv (bytes_at rec (seg_bit_pos seg) 2) (seg_bit_start seg) (seg_bit_length seg) \<noteq> byte_at xs key then None
           else if bytes_at rec (seg_start seg) (seg_length seg - 1) \<noteq> bytes_at xs (key + 1) (seg_length seg - 1) then None
           else Some (key + 1 + seg_length seg)
         else if bytes_at rec (seg_start seg) (seg_length seg) \<noteq> bytes_at xs key (seg_length seg) then None
         else Some (key + seg_length seg))"

fun key_cmp_loop :: "server \<Rightarrow> image \<Rightarrow> image \<Rightarrow> HA_KEYSEG list \<Rightarrow> nat \<Rightarrow> int" where
  "key_cmp_loop sv rec xs [] key = 0"
| "key_cmp_loop sv rec xs (seg # segs) key =
     (case key_seg_cmp sv rec xs seg key of None \<Rightarrow> 1 | Some key' \<Rightarrow> key_cmp_loop sv rec xs segs key')"

definition fm_key_cmp :: "server \<Rightarrow> FM_KEYDEF \<Rightarrow> image \<Rightarrow> image \<Rightarrow> int" where
  "fm_key_cmp sv kd rec key = key_cmp_loop sv rec key (kd_seg kd) 0"

fun null_loop :: "image \<Rightarrow> HA_KEYSEG list \<Rightarrow> int" where
  "null_loop rec [] = 0"
| "null_loop rec (seg # segs) = (if seg_null_bit seg \<noteq> 0 \<and> seg_null seg rec then 1 else null_loop rec segs)"

definition fm_if_null_in_key :: "FM_KEYDEF \<Rightarrow> image \<Rightarrow> int" where
  "fm_if_null_in_key kd rec = null_loop rec (kd_seg kd)"

section \<open>The callbacks of a key\<close>

definition fm_ops_hash_rec :: "server \<Rightarrow> FM_KEYDEF \<Rightarrow> image \<Rightarrow> u32" where
  "fm_ops_hash_rec sv kd rec = ucast (fm_rec_hashnr sv kd rec)"

definition fm_ops_hash_key :: "server \<Rightarrow> FM_KEYDEF \<Rightarrow> image \<Rightarrow> u32" where
  "fm_ops_hash_key sv kd packed_key = ucast (fm_hashnr sv kd packed_key)"

definition fm_ops_cmp_rec_rec :: "server \<Rightarrow> FM_KEYDEF \<Rightarrow> image \<Rightarrow> image \<Rightarrow> int" where
  "fm_ops_cmp_rec_rec sv kd a b = fm_rec_key_cmp sv kd a b"

definition fm_ops_cmp_rec_key :: "server \<Rightarrow> FM_KEYDEF \<Rightarrow> image \<Rightarrow> image \<Rightarrow> int" where
  "fm_ops_cmp_rec_key sv kd rec packed_key = fm_key_cmp sv kd rec packed_key"

definition fm_ops_has_null_part :: "FM_KEYDEF \<Rightarrow> image \<Rightarrow> int" where
  "fm_ops_has_null_part kd rec = fm_if_null_in_key kd rec"

definition fm_key_ops :: "server \<Rightarrow> FM_KEYDEF \<Rightarrow> FM_KEY_OPS" where
  "fm_key_ops sv kd = \<lparr>hash_rec = Some (fm_ops_hash_rec sv kd), hash_key = Some (fm_ops_hash_key sv kd),
     cmp_rec_rec = Some (fm_ops_cmp_rec_rec sv kd), cmp_rec_key = Some (fm_ops_cmp_rec_key sv kd),
     has_null_part = Some (fm_ops_has_null_part kd)\<rparr>"

definition fm_key_ops_init :: "server \<Rightarrow> FM_KEYDEF list \<Rightarrow> FM_SHARE_CORE \<Rightarrow> FM_SHARE_CORE" where
  "fm_key_ops_init sv kds core = wire_keys core (map (\<lambda>kd. (fm_key_ops sv kd, HA_NOSAME \<in> kd_flag kd)) kds)"

section \<open>Packing\<close>

text \<open>The bytes \<open>fm_make_key\<close> writes for one segment.\<close>

definition make_key_seg :: "server \<Rightarrow> image \<Rightarrow> HA_KEYSEG \<Rightarrow> image" where
  "make_key_seg sv rec seg =
     (let cs = seg_charset seg; pos = seg_start seg;
          nb = (if seg_null_bit seg \<noteq> 0 then [of_bool (seg_null seg rec)] else []);
          char_length = (if 1 < mbmaxlen cs
            then min (fm_charpos cs (bytes_at rec pos (seg_length seg)) (seg_length seg div mbmaxlen cs)) (seg_length seg)
            else seg_length seg)
      in if seg_type seg = HA_KEYTYPE_VARTEXT1 then nb @ bytes_at rec pos (char_length + seg_bit_start seg)
         else if bit_seg seg then
           nb @ [get_rec_bits sv (bytes_at rec (seg_bit_pos seg) 2) (seg_bit_start seg) (seg_bit_length seg)]
              @ bytes_at rec pos (char_length - 1)
         else nb @ bytes_at rec pos char_length)"

text \<open>\<open>fm_make_key\<close> fills the front of the buffer \<open>key\<close>; the rest of it stays.\<close>

definition fm_make_key :: "server \<Rightarrow> FM_KEYDEF \<Rightarrow> image \<Rightarrow> image \<Rightarrow> image" where
  "fm_make_key sv kd key rec =
     (let w = concat (map (make_key_seg sv rec) (kd_seg kd)) in w @ drop (length w) key)"

section \<open>What the key routines rely on\<close>

definition charset_ok :: "CHARSET_INFO \<Rightarrow> bool" where
  "charset_ok cs \<longleftrightarrow> (\<forall>a. my_ci_strnncollsp cs a a = 0)
     \<and> (\<forall>a b. my_ci_strnncollsp cs a b = 0 \<longrightarrow> my_ci_strnncollsp cs b a = 0)
     \<and> (\<forall>a b c. my_ci_strnncollsp cs a b = 0 \<longrightarrow> my_ci_strnncollsp cs b c = 0 \<longrightarrow> my_ci_strnncollsp cs a c = 0)
     \<and> (\<forall>a b st. my_ci_strnncollsp cs a b = 0 \<longrightarrow> my_ci_hash_sort cs a st = my_ci_hash_sort cs b st)"

text \<open>\<open>VARCHAR\<close> segments carry a length of one or two bytes; a bit field has a byte in the key.\<close>

definition seg_ok :: "HA_KEYSEG \<Rightarrow> bool" where
  "seg_ok seg \<longleftrightarrow>
     (seg_type seg = HA_KEYTYPE_TEXT \<or> seg_type seg = HA_KEYTYPE_VARTEXT1 \<longrightarrow> charset_ok (seg_charset seg))
     \<and> (seg_type seg = HA_KEYTYPE_VARTEXT1 \<longrightarrow> seg_bit_start seg = 1 \<or> seg_bit_start seg = 2)
     \<and> (bit_seg seg \<longrightarrow> 0 < seg_length seg)"

definition keydef_ok :: "FM_KEYDEF \<Rightarrow> bool" where
  "keydef_ok kd \<longleftrightarrow> (\<forall>seg \<in> set (kd_seg kd). seg_ok seg)"

text \<open>No bit field is followed by another segment.\<close>

definition bits_last :: "FM_KEYDEF \<Rightarrow> bool" where
  "bits_last kd \<longleftrightarrow> (\<forall>seg \<in> set (butlast (kd_seg kd)). \<not> bit_seg seg)"

lemma charset_okD:
  assumes "charset_ok cs"
  shows "my_ci_strnncollsp cs a a = 0"
    "my_ci_strnncollsp cs a b = 0 \<Longrightarrow> my_ci_strnncollsp cs b a = 0"
    "my_ci_strnncollsp cs a b = 0 \<Longrightarrow> my_ci_strnncollsp cs b c = 0 \<Longrightarrow> my_ci_strnncollsp cs a c = 0"
    "my_ci_strnncollsp cs a b = 0 \<Longrightarrow> my_ci_hash_sort cs a st = my_ci_hash_sort cs b st"
  using assms unfolding charset_ok_def by blast+

section \<open>Comparing records\<close>

lemma rec_cmp_loop_iff: "rec_cmp_loop sv r r' segs = 0 \<longleftrightarrow> (\<forall>seg \<in> set segs. \<not> rec_seg_cmp sv r r' seg)"
  by (induction segs) auto

lemma null_loop_iff: "null_loop r segs \<noteq> 0 \<longleftrightarrow> (\<exists>seg \<in> set segs. seg_null_bit seg \<noteq> 0 \<and> seg_null seg r)"
  by (induction segs) auto

text \<open>What of a record a segment compares, once the null bits agree.\<close>

definition seg_value_eq :: "server \<Rightarrow> image \<Rightarrow> image \<Rightarrow> HA_KEYSEG \<Rightarrow> bool" where
  "seg_value_eq sv r r' seg \<longleftrightarrow>
     (if seg_type seg = HA_KEYTYPE_TEXT then
        my_ci_strnncollsp (seg_charset seg) (rec_text seg r (seg_start seg)) (rec_text seg r' (seg_start seg)) = 0
      else if seg_type seg = HA_KEYTYPE_VARTEXT1 then
        my_ci_strnncollsp (seg_charset seg) (rec_varchar sv seg r (seg_start seg + seg_bit_start seg))
          (rec_varchar sv seg r' (seg_start seg + seg_bit_start seg)) = 0
      else if bit_seg seg then
        get_rec_bits sv (bytes_at r (seg_bit_pos seg) 2) (seg_bit_start seg) (seg_bit_length seg)
          = get_rec_bits sv (bytes_at r' (seg_bit_pos seg) 2) (seg_bit_start seg) (seg_bit_length seg)
        \<and> bytes_at r (seg_start seg) (seg_length seg - 1) = bytes_at r' (seg_start seg) (seg_length seg - 1)
      else bytes_at r (seg_start seg) (seg_length seg) = bytes_at r' (seg_start seg) (seg_length seg))"

lemma rec_seg_cmp_iff:
  assumes "seg_type seg = HA_KEYTYPE_VARTEXT1 \<Longrightarrow> seg_bit_start seg = 1 \<or> seg_bit_start seg = 2"
  shows "\<not> rec_seg_cmp sv r r' seg \<longleftrightarrow>
    (seg_null_bit seg \<noteq> 0 \<longrightarrow> byte_at r (seg_null_pos seg) AND seg_null_bit seg = byte_at r' (seg_null_pos seg) AND seg_null_bit seg)
    \<and> (seg_null_bit seg \<noteq> 0 \<and> seg_null seg r \<or> seg_value_eq sv r r' seg)"
  using assms by (auto simp: rec_seg_cmp_def seg_value_eq_def Let_def seg_null_def)

lemma seg_ok_bit_start: "seg_ok seg \<Longrightarrow> seg_type seg = HA_KEYTYPE_VARTEXT1 \<Longrightarrow> seg_bit_start seg = 1 \<or> seg_bit_start seg = 2"
  by (simp add: seg_ok_def)

lemmas rec_seg_cmp_ok_iff = rec_seg_cmp_iff [OF seg_ok_bit_start]

lemma seg_value_eq_refl: "seg_ok seg \<Longrightarrow> seg_value_eq sv r r seg"
  by (simp add: seg_value_eq_def seg_ok_def charset_okD(1))

lemma seg_value_eq_sym: "seg_ok seg \<Longrightarrow> seg_value_eq sv r r' seg \<Longrightarrow> seg_value_eq sv r' r seg"
  by (auto simp: seg_value_eq_def seg_ok_def intro: charset_okD(2) split: if_splits)

lemma seg_value_eq_trans:
  "seg_ok seg \<Longrightarrow> seg_value_eq sv r r' seg \<Longrightarrow> seg_value_eq sv r' r'' seg \<Longrightarrow> seg_value_eq sv r r'' seg"
  by (auto simp: seg_value_eq_def seg_ok_def intro: charset_okD(3) split: if_splits)

lemma rec_seg_cmp_refl: "seg_ok seg \<Longrightarrow> \<not> rec_seg_cmp sv r r seg"
  by (simp add: rec_seg_cmp_ok_iff seg_value_eq_refl)

lemma rec_seg_cmp_null:
  "seg_ok seg \<Longrightarrow> \<not> rec_seg_cmp sv r r' seg \<Longrightarrow> seg_null_bit seg \<noteq> 0 \<Longrightarrow> seg_null seg r = seg_null seg r'"
  by (simp add: rec_seg_cmp_ok_iff seg_null_def)

lemma rec_seg_cmp_sym: "seg_ok seg \<Longrightarrow> \<not> rec_seg_cmp sv r r' seg \<Longrightarrow> \<not> rec_seg_cmp sv r' r seg"
  by (auto simp: rec_seg_cmp_ok_iff seg_null_def intro: seg_value_eq_sym)

lemma rec_seg_cmp_trans:
  "seg_ok seg \<Longrightarrow> \<not> rec_seg_cmp sv r r' seg \<Longrightarrow> \<not> rec_seg_cmp sv r' r'' seg \<Longrightarrow> \<not> rec_seg_cmp sv r r'' seg"
  by (auto simp: rec_seg_cmp_ok_iff seg_null_def intro: seg_value_eq_trans)

text \<open>The hash of a \<open>VARCHAR\<close> segment is the hash of the text the comparison cuts out.\<close>

lemma rec_hash_seg_eq:
  assumes "\<not> (seg_null_bit seg \<noteq> 0 \<and> seg_null seg r)"
  shows "rec_hash_seg sv r seg st =
    (if seg_type seg = HA_KEYTYPE_TEXT then my_ci_hash_sort (seg_charset seg) (rec_text seg r (seg_start seg)) st
     else if seg_type seg = HA_KEYTYPE_VARTEXT1
     then my_ci_hash_sort (seg_charset seg) (rec_varchar sv seg r (seg_start seg + seg_bit_start seg)) st
     else if bit_seg seg then
       fold hash_byte (get_rec_bits sv (bytes_at r (seg_bit_pos seg) 2) (seg_bit_start seg) (seg_bit_length seg)
         # bytes_at r (seg_start seg) (seg_length seg - 1)) st
     else fold hash_byte (bytes_at r (seg_start seg) (seg_length seg)) st)"
  using assms by (auto simp: rec_hash_seg_def rec_varchar_def Let_def min.commute)

lemma rec_seg_cmp_hash:
  assumes ok: "seg_ok seg" and eq: "\<not> rec_seg_cmp sv r r' seg"
  shows "rec_hash_seg sv r seg st = rec_hash_seg sv r' seg st"
proof (cases "seg_null_bit seg \<noteq> 0 \<and> seg_null seg r")
  case True
  then show ?thesis using rec_seg_cmp_null [OF assms] by (simp add: rec_hash_seg_def)
next
  case False
  then have "\<not> (seg_null_bit seg \<noteq> 0 \<and> seg_null seg r')" using rec_seg_cmp_null [OF assms] by blast
  moreover have "seg_value_eq sv r r' seg" using eq False by (simp add: rec_seg_cmp_ok_iff [OF ok])
  moreover have "seg_type seg = HA_KEYTYPE_TEXT \<or> seg_type seg = HA_KEYTYPE_VARTEXT1 \<longrightarrow> charset_ok (seg_charset seg)"
    using ok by (simp add: seg_ok_def)
  ultimately show ?thesis
    using False by (auto simp: rec_hash_seg_eq seg_value_eq_def dest: charset_okD(4) [where st = st] split: if_splits)
qed

lemma rec_cmp_hash:
  assumes "\<forall>seg \<in> set segs. seg_ok seg" "\<forall>seg \<in> set segs. \<not> rec_seg_cmp sv r r' seg"
  shows "fold (rec_hash_seg sv r) segs st = fold (rec_hash_seg sv r') segs st"
  using assms
proof (induction segs arbitrary: st)
  case (Cons seg segs)
  then show ?case using rec_seg_cmp_hash [of seg sv r r' st] by simp
qed simp

section \<open>Comparing a record with a packed key\<close>

lemma bytes_at_Cons: "bytes_at xs p (Suc n) = byte_at xs p # bytes_at xs (p + 1) n"
  by (simp add: bytes_at_def upt_conv_Cons map_Suc_upt [symmetric] del: upt_Suc)

text \<open>A segment that compares equal contributes the same to both hashes, and both routines go on at
  the same offset, unless the segment is a bit field.\<close>

lemma key_seg_cmp_hash:
  assumes ok: "seg_ok seg" and eq: "key_seg_cmp sv r xs seg key = Some key'"
  shows "snd (hashnr_seg sv xs seg key st) = rec_hash_seg sv r seg st"
    and "\<not> bit_seg seg \<Longrightarrow> fst (hashnr_seg sv xs seg key st) = key'"
proof -
  have cs: "seg_type seg = HA_KEYTYPE_TEXT \<or> seg_type seg = HA_KEYTYPE_VARTEXT1 \<longrightarrow> charset_ok (seg_charset seg)"
    using ok by (simp add: seg_ok_def)
  let ?k = "if seg_null_bit seg \<noteq> 0 then key + 1 else key"
  have len: "bit_seg seg \<Longrightarrow> bytes_at xs ?k (seg_length seg) = byte_at xs ?k # bytes_at xs (?k + 1) (seg_length seg - 1)"
    using ok bytes_at_Cons [of xs ?k "seg_length seg - 1"] by (simp add: seg_ok_def)
  show "snd (hashnr_seg sv xs seg key st) = rec_hash_seg sv r seg st"
  proof (cases "seg_null_bit seg \<noteq> 0 \<and> seg_null seg r")
    case True
    then show ?thesis using eq by (auto simp: key_seg_cmp_def hashnr_seg_def rec_hash_seg_def Let_def split: if_splits)
  next
    case False
    then have nz: "\<not> (seg_null_bit seg \<noteq> 0 \<and> byte_at xs key \<noteq> 0)" using eq by (auto simp: key_seg_cmp_def Let_def split: if_splits)
    show ?thesis
      using eq False nz cs len
      by (auto simp: key_seg_cmp_def hashnr_seg_def rec_hash_seg_eq Let_def rec_text_def min.commute
          dest: charset_okD(4) [where st = st] split: if_splits)
  qed
  show "\<not> bit_seg seg \<Longrightarrow> fst (hashnr_seg sv xs seg key st) = key'"
    using eq by (auto simp: key_seg_cmp_def hashnr_seg_def Let_def split: if_splits)
qed

lemma key_cmp_hash:
  assumes "\<forall>seg \<in> set segs. seg_ok seg" "\<forall>seg \<in> set (butlast segs). \<not> bit_seg seg" "key_cmp_loop sv r xs segs key = 0"
  shows "hashnr_loop sv xs segs key st = fold (rec_hash_seg sv r) segs st"
  using assms
proof (induction segs arbitrary: key st)
  case (Cons seg segs)
  then obtain key' where k: "key_seg_cmp sv r xs seg key = Some key'" "key_cmp_loop sv r xs segs key' = 0"
    by (auto split: option.splits)
  note h = key_seg_cmp_hash [OF _ k(1), of st]
  obtain k2 where e: "hashnr_seg sv xs seg key st = (k2, rec_hash_seg sv r seg st)"
    using h(1) Cons.prems(1) by (metis list.set_intros(1) prod.collapse)
  show ?case
  proof (cases segs)
    case Nil
    then show ?thesis using e by simp
  next
    case (Cons seg' segs')
    then have "\<not> bit_seg seg" using Cons.prems(2) by simp
    then have "k2 = key'" using h(2) Cons.prems(1) e by simp
    then show ?thesis using e Cons.IH [OF _ _ k(2)] Cons.prems(1,2) Cons by simp
  qed
qed simp


section \<open>The contract of the callbacks\<close>

text \<open>A key definition the core can rely on, and the contract the callbacks of the engine keep for it.\<close>

locale sound_keydef =
  fixes sv :: server and kd :: FM_KEYDEF
  assumes keydef_ok: "keydef_ok kd" and bits_last: "bits_last kd"

sublocale sound_keydef \<subseteq> key_contract "fm_key_ops sv kd" "fm_ops_hash_rec sv kd" "fm_ops_hash_key sv kd"
  "fm_ops_cmp_rec_rec sv kd" "fm_ops_cmp_rec_key sv kd" "\<lambda>r. fm_ops_has_null_part kd r \<noteq> 0"
proof
  have ok: "\<forall>seg \<in> set (kd_seg kd). seg_ok seg" using keydef_ok by (simp add: keydef_ok_def)
  note cmp = fm_ops_cmp_rec_rec_def fm_rec_key_cmp_def rec_cmp_loop_iff
  show "hash_rec (fm_key_ops sv kd) = Some (fm_ops_hash_rec sv kd)" "hash_key (fm_key_ops sv kd) = Some (fm_ops_hash_key sv kd)"
    "cmp_rec_rec (fm_key_ops sv kd) = Some (fm_ops_cmp_rec_rec sv kd)"
    "cmp_rec_key (fm_key_ops sv kd) = Some (fm_ops_cmp_rec_key sv kd)"
    by (simp_all add: fm_key_ops_def)
  show "fm_ops_has_null_part kd r \<noteq> 0 \<longleftrightarrow> (\<exists>f. has_null_part (fm_key_ops sv kd) = Some f \<and> f r \<noteq> 0)" for r
    by (simp add: fm_key_ops_def)
  show "fm_ops_cmp_rec_rec sv kd r r = 0" for r using ok rec_seg_cmp_refl by (simp add: cmp)
  fix r r'
  assume e: "fm_ops_cmp_rec_rec sv kd r r' = 0"
  then show "fm_ops_cmp_rec_rec sv kd r' r = 0" using ok rec_seg_cmp_sym by (auto simp: cmp)
  show "fm_ops_hash_rec sv kd r = fm_ops_hash_rec sv kd r'"
    using rec_cmp_hash [OF ok] e by (simp add: cmp fm_ops_hash_rec_def fm_rec_hashnr_def)
  show "(fm_ops_has_null_part kd r \<noteq> 0) = (fm_ops_has_null_part kd r' \<noteq> 0)"
  proof -
    have "seg_null seg r = seg_null seg r'" if "seg \<in> set (kd_seg kd)" "seg_null_bit seg \<noteq> 0" for seg
      using rec_seg_cmp_null [of seg sv r r'] e ok that by (simp add: cmp)
    then show ?thesis unfolding fm_ops_has_null_part_def fm_if_null_in_key_def null_loop_iff by auto
  qed
  show "fm_ops_cmp_rec_rec sv kd r r'' = 0" if "fm_ops_cmp_rec_rec sv kd r' r'' = 0" for r''
    using e that ok rec_seg_cmp_trans by (auto simp: cmp)
next
  have ok: "\<forall>seg \<in> set (kd_seg kd). seg_ok seg" "\<forall>seg \<in> set (butlast (kd_seg kd)). \<not> bit_seg seg"
    using keydef_ok bits_last by (simp_all add: keydef_ok_def bits_last_def)
  show "fm_ops_hash_rec sv kd r = fm_ops_hash_key sv kd p" if "fm_ops_cmp_rec_key sv kd r p = 0" for r p
    using key_cmp_hash [OF ok, of sv r p 0] that
    by (simp add: fm_ops_cmp_rec_key_def fm_key_cmp_def fm_ops_hash_rec_def fm_rec_hashnr_def fm_ops_hash_key_def fm_hashnr_def)
qed

context sound_keydef
begin

lemma contract_ok_keydef: "contract_ok (fm_key_ops sv kd)"
proof -
  have "(\<lambda>r. \<exists>f. has_null_part (fm_key_ops sv kd) = Some f \<and> f r \<noteq> 0) = (\<lambda>r. fm_ops_has_null_part kd r \<noteq> 0)"
    by (simp add: fm_key_ops_def)
  then show ?thesis
    unfolding contract_ok_def hash_rec hash_key cmp_rec_rec cmp_rec_key option.sel using key_contract_axioms by simp
qed

lemma callbacks_sound:
  "fm_rec_key_cmp sv kd a a = 0
   \<and> (fm_rec_key_cmp sv kd a b = 0 \<longrightarrow> fm_rec_key_cmp sv kd b a = 0)
   \<and> (fm_rec_key_cmp sv kd a b = 0 \<longrightarrow> fm_rec_key_cmp sv kd b c = 0 \<longrightarrow> fm_rec_key_cmp sv kd a c = 0)
   \<and> (fm_rec_key_cmp sv kd a b = 0 \<longrightarrow> fm_ops_hash_rec sv kd a = fm_ops_hash_rec sv kd b
        \<and> (fm_if_null_in_key kd a \<noteq> 0 \<longleftrightarrow> fm_if_null_in_key kd b \<noteq> 0))
   \<and> (fm_key_cmp sv kd a p = 0 \<longrightarrow> fm_ops_hash_rec sv kd a = fm_ops_hash_key sv kd p)"
  using cr_refl cr_sym cr_trans cr_hash cr_null ck_hash
  unfolding fm_ops_cmp_rec_rec_def fm_ops_cmp_rec_key_def fm_ops_has_null_part_def by blast

end

section \<open>Packed keys and records\<close>

text \<open>
  The format of the packed keys the SQL layer builds for a lookup: a null byte for a segment that can be null; then a
  \<open>VARCHAR\<close> with its length in two bytes, a bit field with its loose bits in the first byte, any other value as it is in the
  record. \<open>holds_seg sv xs p seg rec\<close>: at offset \<open>p\<close> of \<open>xs\<close> there is the value of \<open>rec\<close> in that format.
\<close>

abbreviation seg_key :: "HA_KEYSEG \<Rightarrow> nat \<Rightarrow> nat" where
  "seg_key seg p \<equiv> (if seg_null_bit seg \<noteq> 0 then p + 1 else p)"

definition seg_space :: "HA_KEYSEG \<Rightarrow> nat" where
  "seg_space seg = (if seg_null_bit seg \<noteq> 0 then 1 else 0) + (if seg_type seg = HA_KEYTYPE_VARTEXT1 then 2 else 0) + seg_length seg"

definition holds_seg :: "server \<Rightarrow> image \<Rightarrow> nat \<Rightarrow> HA_KEYSEG \<Rightarrow> image \<Rightarrow> bool" where
  "holds_seg sv xs p seg rec \<longleftrightarrow>
     (seg_null_bit seg \<noteq> 0 \<longrightarrow> byte_at xs p = of_bool (seg_null seg rec))
     \<and> (seg_null_bit seg \<noteq> 0 \<and> seg_null seg rec
        \<or> (let key = seg_key seg p in
            if seg_type seg = HA_KEYTYPE_TEXT then rec_text seg xs key = rec_text seg rec (seg_start seg)
            else if seg_type seg = HA_KEYTYPE_VARTEXT1 then
              let v = rec_varchar sv seg rec (seg_start seg + seg_bit_start seg)
              in uint2korr sv (bytes_at xs key 2) = length v \<and> bytes_at xs (key + 2) (length v) = v
            else if bit_seg seg then
              byte_at xs key = get_rec_bits sv (bytes_at rec (seg_bit_pos seg) 2) (seg_bit_start seg) (seg_bit_length seg)
              \<and> bytes_at xs (key + 1) (seg_length seg - 1) = bytes_at rec (seg_start seg) (seg_length seg - 1)
            else bytes_at xs key (seg_length seg) = bytes_at rec (seg_start seg) (seg_length seg)))"

fun holds_key :: "server \<Rightarrow> image \<Rightarrow> nat \<Rightarrow> HA_KEYSEG list \<Rightarrow> image \<Rightarrow> bool" where
  "holds_key sv xs p [] rec \<longleftrightarrow> True"
| "holds_key sv xs p (seg # segs) rec \<longleftrightarrow> holds_seg sv xs p seg rec \<and> holds_key sv xs (p + seg_space seg) segs rec"

text \<open>
  What the two comparisons rely on to agree: the null bit of a column is a single bit, and a text that was cut to a number
  of characters is cut no further.
\<close>

definition one_null_bit :: "HA_KEYSEG \<Rightarrow> bool" where
  "one_null_bit seg \<longleftrightarrow> seg_null_bit seg = 0 \<or> (\<exists>n < 8. seg_null_bit seg = push_bit n 1)"

definition charpos_ok :: "CHARSET_INFO \<Rightarrow> bool" where
  "charpos_ok cs \<longleftrightarrow> (\<forall>b num. min (my_ci_charpos cs b num) (length b) \<le> my_ci_charpos cs (take (my_ci_charpos cs b num) b) num)"

definition seg_cuts_ok :: "HA_KEYSEG \<Rightarrow> bool" where
  "seg_cuts_ok seg \<longleftrightarrow> one_null_bit seg \<and> (seg_type seg = HA_KEYTYPE_VARTEXT1 \<and> 1 < mbmaxlen (seg_charset seg) \<longrightarrow> charpos_ok (seg_charset seg))"

lemma length_bytes_at [simp]: "length (bytes_at xs p n) = n"
  by (simp add: bytes_at_def)

lemma take_bytes_at: "take m (bytes_at xs p n) = bytes_at xs p (min m n)"
  by (simp add: bytes_at_def take_map take_upt min_def)

lemma single_null_bit:
  assumes "one_null_bit seg" "seg_null_bit seg \<noteq> 0"
  shows "x AND seg_null_bit seg = (if x AND seg_null_bit seg = 0 then 0 else seg_null_bit seg)"
proof -
  obtain n where n: "n < 8" "seg_null_bit seg = push_bit n 1" using assms by (auto simp: one_null_bit_def)
  have "x AND push_bit n 1 = (if bit x n then push_bit n 1 else 0)"
    by (rule bit_word_eqI) (auto simp: bit_simps)
  then show ?thesis unfolding n(2) by simp
qed

lemma null_bits_agree:
  assumes "one_null_bit seg" "seg_null_bit seg \<noteq> 0"
  shows "byte_at r (seg_null_pos seg) AND seg_null_bit seg = byte_at r' (seg_null_pos seg) AND seg_null_bit seg
    \<longleftrightarrow> seg_null seg r = seg_null seg r'"
  using single_null_bit [OF assms] unfolding seg_null_def by metis

text \<open>The text of a \<open>VARCHAR\<close> in a key is the whole text: it was cut when the key was built.\<close>

lemma rec_varchar_cut:
  assumes "seg_cuts_ok seg" "seg_type seg = HA_KEYTYPE_VARTEXT1" "1 < mbmaxlen (seg_charset seg)"
    and v: "v = rec_varchar sv seg rec pos"
  shows "length v \<le> fm_charpos (seg_charset seg) v (seg_length seg div mbmaxlen (seg_charset seg))"
proof -
  let ?cs = "seg_charset seg" and ?b = "bytes_at rec pos (varchar_length sv seg rec)"
  let ?c = "my_ci_charpos ?cs ?b (seg_length seg div mbmaxlen ?cs)"
  have e: "v = take ?c ?b" using assms(3) by (simp add: v rec_varchar_def fm_charpos_def take_bytes_at Let_def)
  have "charpos_ok ?cs" using assms by (simp add: seg_cuts_ok_def)
  then have "min ?c (length ?b) \<le> my_ci_charpos ?cs (take ?c ?b) (seg_length seg div mbmaxlen ?cs)" unfolding charpos_ok_def by blast
  then show ?thesis unfolding fm_charpos_def e by (simp add: min.commute)
qed

lemma key_seg_cmp_value:
  assumes ok: "seg_cuts_ok seg" and h: "holds_seg sv xs p seg rec"
    and nn: "\<not> (seg_null_bit seg \<noteq> 0 \<and> seg_null seg r)" "\<not> (seg_null_bit seg \<noteq> 0 \<and> seg_null seg rec)"
  shows "key_seg_cmp sv r xs seg p = (if seg_value_eq sv r rec seg then Some (p + seg_space seg + (if bit_seg seg then 1 else 0)) else None)"
proof -
  define key where "key = seg_key seg p"
  have n0: "\<not> (seg_null_bit seg \<noteq> 0 \<and> byte_at xs p \<noteq> 0)" using h nn(2) by (auto simp: holds_seg_def)
  have sp: "p + seg_space seg = key + (if seg_type seg = HA_KEYTYPE_VARTEXT1 then 2 else 0) + seg_length seg"
    by (simp add: seg_space_def key_def)
  note hv = h [unfolded holds_seg_def Let_def, folded key_def]
  consider (t) "seg_type seg = HA_KEYTYPE_TEXT" | (v) "seg_type seg = HA_KEYTYPE_VARTEXT1"
    | (b) "bit_seg seg" | (o) "seg_type seg \<noteq> HA_KEYTYPE_TEXT" "seg_type seg \<noteq> HA_KEYTYPE_VARTEXT1" "\<not> bit_seg seg"
    by blast
  then show ?thesis
  proof cases
    case v
    let ?v = "rec_varchar sv seg rec (seg_start seg + seg_bit_start seg)"
    have w: "uint2korr sv (bytes_at xs key 2) = length ?v" "bytes_at xs (key + 2) (length ?v) = ?v" using hv nn(2) v by auto
    have "(if 1 < mbmaxlen (seg_charset seg) then min (length ?v) (fm_charpos (seg_charset seg) ?v (seg_length seg div mbmaxlen (seg_charset seg)))
        else length ?v) = length ?v"
      using rec_varchar_cut [OF ok v _ refl] by (simp add: min_def)
    with w v show ?thesis unfolding key_seg_cmp_def Let_def key_def [symmetric] sp seg_value_eq_def using nn n0 by (auto simp: bit_seg_def)
  next
    case t
    then have "rec_text seg xs key = rec_text seg rec (seg_start seg)" using hv nn(2) by auto
    with t show ?thesis unfolding key_seg_cmp_def Let_def key_def [symmetric] sp seg_value_eq_def using nn n0 by (auto simp: bit_seg_def)
  next
    case b
    then have "byte_at xs key = get_rec_bits sv (bytes_at rec (seg_bit_pos seg) 2) (seg_bit_start seg) (seg_bit_length seg)"
      "bytes_at xs (key + 1) (seg_length seg - 1) = bytes_at rec (seg_start seg) (seg_length seg - 1)"
      using hv nn(2) by (auto simp: bit_seg_def)
    with b show ?thesis unfolding key_seg_cmp_def Let_def key_def [symmetric] sp seg_value_eq_def using nn n0 by (auto simp: bit_seg_def)
  next
    case o
    then have "bytes_at xs key (seg_length seg) = bytes_at rec (seg_start seg) (seg_length seg)" using hv nn(2) by auto
    with o show ?thesis unfolding key_seg_cmp_def Let_def key_def [symmetric] sp seg_value_eq_def using nn n0 by auto
  qed
qed

lemma key_seg_cmp_holds:
  assumes sok: "seg_ok seg" and ok: "seg_cuts_ok seg" and h: "holds_seg sv xs p seg rec"
  shows "rec_seg_cmp sv r rec seg \<Longrightarrow> key_seg_cmp sv r xs seg p = None"
    and "\<not> rec_seg_cmp sv r rec seg \<Longrightarrow> \<exists>p'. key_seg_cmp sv r xs seg p = Some p' \<and> (bit_seg seg \<or> p' = p + seg_space seg)"
proof -
  let ?nb = "seg_null_bit seg \<noteq> 0"
  have null: "?nb \<Longrightarrow> byte_at xs p = of_bool (seg_null seg rec)" using h by (simp add: holds_seg_def)
  note m = key_seg_cmp_value [OF ok h, of r]
  have nn: "?nb \<Longrightarrow> seg_null seg r \<noteq> seg_null seg rec \<Longrightarrow> key_seg_cmp sv r xs seg p = None"
    using null by (auto simp: key_seg_cmp_def Let_def of_bool_eq_iff)
  have nn': "?nb \<Longrightarrow> seg_null seg r \<Longrightarrow> seg_null seg rec \<Longrightarrow> key_seg_cmp sv r xs seg p = Some (p + seg_space seg)"
    using null by (auto simp: key_seg_cmp_def seg_space_def Let_def)
  have iff: "\<not> rec_seg_cmp sv r rec seg \<longleftrightarrow> (?nb \<longrightarrow> seg_null seg r = seg_null seg rec)
      \<and> (?nb \<and> seg_null seg r \<or> seg_value_eq sv r rec seg)"
    using null_bits_agree [of seg r rec] ok by (subst rec_seg_cmp_ok_iff [OF sok]) (auto simp: seg_cuts_ok_def)
  show "rec_seg_cmp sv r rec seg \<Longrightarrow> key_seg_cmp sv r xs seg p = None" using iff m nn by (cases "?nb \<and> seg_null seg rec") auto
  show "\<not> rec_seg_cmp sv r rec seg \<Longrightarrow> \<exists>p'. key_seg_cmp sv r xs seg p = Some p' \<and> (bit_seg seg \<or> p' = p + seg_space seg)"
    using iff m nn' by (cases "?nb \<and> seg_null seg r") auto
qed

lemma key_cmp_holds:
  assumes "\<forall>seg \<in> set segs. seg_ok seg \<and> seg_cuts_ok seg" "\<forall>seg \<in> set (butlast segs). \<not> bit_seg seg" "holds_key sv xs p segs rec"
  shows "key_cmp_loop sv r xs segs p = 0 \<longleftrightarrow> rec_cmp_loop sv r rec segs = 0"
  using assms
proof (induction segs arbitrary: p)
  case (Cons seg segs)
  note k = key_seg_cmp_holds [of seg sv xs p rec r]
  show ?case
  proof (cases "rec_seg_cmp sv r rec seg")
    case True
    then show ?thesis using k(1) Cons.prems by simp
  next
    case False
    then obtain p' where p': "key_seg_cmp sv r xs seg p = Some p'" "bit_seg seg \<or> p' = p + seg_space seg"
      using k(2) Cons.prems by auto
    show ?thesis
    proof (cases "segs = []")
      case ne: False
      then have "p' = p + seg_space seg" using p'(2) Cons.prems(2) by simp
      then show ?thesis using Cons.IH [of "p + seg_space seg"] Cons.prems p'(1) False ne by simp
    qed (simp add: p' False)
  qed
qed simp

section \<open>Packing\<close>

text \<open>
  Segments that \<open>fm_make_key\<close> packs in that format: one byte per character, \<open>VARCHAR\<close> with a two-byte length, one null bit.
\<close>

definition plain_seg :: "HA_KEYSEG \<Rightarrow> bool" where
  "plain_seg seg \<longleftrightarrow> mbmaxlen (seg_charset seg) \<le> 1
     \<and> (seg_type seg = HA_KEYTYPE_VARTEXT1 \<longrightarrow> seg_bit_start seg = 2)
     \<and> (seg_null_bit seg = 0 \<or> (\<exists>n < 8. seg_null_bit seg = push_bit n 1))
     \<and> (bit_seg seg \<longrightarrow> 0 < seg_length seg)"

definition varchar_fits :: "server \<Rightarrow> image \<Rightarrow> HA_KEYSEG \<Rightarrow> bool" where
  "varchar_fits sv rec seg \<longleftrightarrow> (seg_type seg = HA_KEYTYPE_VARTEXT1 \<longrightarrow> varchar_length sv seg rec \<le> seg_length seg)"

lemma bytes_at_add: "bytes_at xs p (m + n) = bytes_at xs p m @ bytes_at xs (p + m) n"
proof (induction m arbitrary: p)
  case (Suc m)
  then show ?case using bytes_at_Cons [of xs p "m + n"] bytes_at_Cons [of xs p m] by simp
qed (simp add: bytes_at_def)

lemma bytes_at_prefix:
  assumes "bytes_at xs p n = bytes_at ys q n" "m \<le> n"
  shows "bytes_at xs p m = bytes_at ys q m"
  using assms bytes_at_add [of xs p m "n - m"] bytes_at_add [of ys q m "n - m"] by simp

lemma bytes_at_suffix:
  assumes "bytes_at xs p (m + n) = bytes_at ys q (m + n)"
  shows "bytes_at xs (p + m) n = bytes_at ys (q + m) n"
  using assms bytes_at_add [of xs p m n] bytes_at_add [of ys q m n] by simp

lemma bytes_at_append: "bytes_at (as @ bs @ cs) (length as) (length bs) = bs"
  by (rule nth_equalityI) (simp_all add: bytes_at_def byte_at_def nth_append)

text \<open>The packed form of a plain segment: the null byte and the bytes of the value.\<close>

lemma make_key_plain:
  assumes "plain_seg seg"
  shows "make_key_seg sv rec seg = (if seg_null_bit seg \<noteq> 0 then [of_bool (seg_null seg rec)] else [])
    @ (if seg_type seg = HA_KEYTYPE_VARTEXT1 then bytes_at rec (seg_start seg) (2 + seg_length seg)
       else if bit_seg seg then get_rec_bits sv (bytes_at rec (seg_bit_pos seg) 2) (seg_bit_start seg) (seg_bit_length seg)
         # bytes_at rec (seg_start seg) (seg_length seg - 1)
       else bytes_at rec (seg_start seg) (seg_length seg))"
  using assms by (auto simp: make_key_seg_def plain_seg_def Let_def add.commute)

text \<open>What a packed segment leaves at its place in the key: the null byte, and behind it the value
  bytes, laid out by the segment's type.\<close>

lemma packed_parts:
  assumes pl: "plain_seg seg"
    and w: "bytes_at xs p (length (make_key_seg sv rec seg)) = make_key_seg sv rec seg"
  shows "seg_null_bit seg \<noteq> 0 \<Longrightarrow> byte_at xs p = of_bool (seg_null seg rec)"
    and "seg_type seg = HA_KEYTYPE_VARTEXT1 \<Longrightarrow>
      bytes_at xs (seg_key seg p) (2 + seg_length seg) = bytes_at rec (seg_start seg) (2 + seg_length seg)"
    and "bit_seg seg \<Longrightarrow> byte_at xs (seg_key seg p)
      = get_rec_bits sv (bytes_at rec (seg_bit_pos seg) 2) (seg_bit_start seg) (seg_bit_length seg)"
    and "bit_seg seg \<Longrightarrow> bytes_at xs (seg_key seg p + 1) (seg_length seg - 1) = bytes_at rec (seg_start seg) (seg_length seg - 1)"
    and "seg_type seg \<noteq> HA_KEYTYPE_VARTEXT1 \<Longrightarrow> \<not> bit_seg seg \<Longrightarrow>
      bytes_at xs (seg_key seg p) (seg_length seg) = bytes_at rec (seg_start seg) (seg_length seg)"
proof -
  have len0: "bit_seg seg \<Longrightarrow> seg_length seg = Suc (seg_length seg - 1)" using pl by (simp add: plain_seg_def)
  have val: "bytes_at xs (seg_key seg p) ((if seg_type seg = HA_KEYTYPE_VARTEXT1 then 2 else 0) + seg_length seg)
      = (if seg_type seg = HA_KEYTYPE_VARTEXT1 then bytes_at rec (seg_start seg) (2 + seg_length seg)
         else if bit_seg seg then get_rec_bits sv (bytes_at rec (seg_bit_pos seg) 2) (seg_bit_start seg) (seg_bit_length seg)
           # bytes_at rec (seg_start seg) (seg_length seg - 1)
         else bytes_at rec (seg_start seg) (seg_length seg))"
    using w len0 by (auto simp: make_key_plain [OF pl] bytes_at_Cons split: if_splits)
  show "seg_null_bit seg \<noteq> 0 \<Longrightarrow> byte_at xs p = of_bool (seg_null seg rec)"
    using w len0 by (auto simp: make_key_plain [OF pl] bytes_at_Cons split: if_splits)
  show "seg_type seg = HA_KEYTYPE_VARTEXT1 \<Longrightarrow>
      bytes_at xs (seg_key seg p) (2 + seg_length seg) = bytes_at rec (seg_start seg) (2 + seg_length seg)"
    and "seg_type seg \<noteq> HA_KEYTYPE_VARTEXT1 \<Longrightarrow> \<not> bit_seg seg \<Longrightarrow>
      bytes_at xs (seg_key seg p) (seg_length seg) = bytes_at rec (seg_start seg) (seg_length seg)" using val by simp_all
  show "bit_seg seg \<Longrightarrow> byte_at xs (seg_key seg p)
      = get_rec_bits sv (bytes_at rec (seg_bit_pos seg) 2) (seg_bit_start seg) (seg_bit_length seg)"
    and "bit_seg seg \<Longrightarrow> bytes_at xs (seg_key seg p + 1) (seg_length seg - 1) = bytes_at rec (seg_start seg) (seg_length seg - 1)"
    using val bytes_at_Cons [of xs "seg_key seg p" "seg_length seg - 1"] len0 by (auto simp: bit_seg_def)
qed

lemma packed_varchar:
  assumes pl: "plain_seg seg" and fit: "varchar_fits sv rec seg" and v: "seg_type seg = HA_KEYTYPE_VARTEXT1"
    and all: "bytes_at xs key (2 + seg_length seg) = bytes_at rec (seg_start seg) (2 + seg_length seg)"
  shows "seg_bit_start seg = 2" "bytes_at xs key 2 = bytes_at rec (seg_start seg) 2"
    "bytes_at xs (key + 2) (varchar_length sv seg rec) = rec_varchar sv seg rec (seg_start seg + 2)"
    "uint2korr sv (bytes_at xs key 2) = varchar_length sv seg rec"
proof -
  let ?n = "varchar_length sv seg rec"
  show b: "seg_bit_start seg = 2" using pl v by (simp add: plain_seg_def)
  show two: "bytes_at xs key 2 = bytes_at rec (seg_start seg) 2" by (rule bytes_at_prefix [OF all]) simp
  then show "uint2korr sv (bytes_at xs key 2) = ?n" by (simp add: varchar_length_def b)
  have le: "?n \<le> seg_length seg" using fit v by (simp add: varchar_fits_def)
  then have "bytes_at xs (key + 2) ?n = bytes_at rec (seg_start seg + 2) ?n"
    using bytes_at_prefix [OF bytes_at_suffix [OF all]] by simp
  then show "bytes_at xs (key + 2) ?n = rec_varchar sv seg rec (seg_start seg + 2)"
    using le pl by (simp add: rec_varchar_def plain_seg_def min_def Let_def)
qed

lemma make_key_holds_seg:
  assumes pl: "plain_seg seg" and fit: "varchar_fits sv rec seg"
    and w: "bytes_at xs p (length (make_key_seg sv rec seg)) = make_key_seg sv rec seg"
  shows "holds_seg sv xs p seg rec" "length (make_key_seg sv rec seg) = seg_space seg" "seg_cuts_ok seg"
proof -
  define key where "key = seg_key seg p"
  note pk = packed_parts [OF pl w, folded key_def]
  have mb: "\<not> Suc 0 < mbmaxlen (seg_charset seg)" using pl by (simp add: plain_seg_def)
  show "length (make_key_seg sv rec seg) = seg_space seg"
    using pl by (auto simp: make_key_plain [OF pl] plain_seg_def bit_seg_def seg_space_def)
  show "seg_cuts_ok seg" using pl by (auto simp: seg_cuts_ok_def one_null_bit_def plain_seg_def)
  show "holds_seg sv xs p seg rec"
  proof (cases "seg_type seg = HA_KEYTYPE_VARTEXT1")
    case v: True
    note pv = packed_varchar [OF pl fit v pk(2) [OF v]]
    have "length (rec_varchar sv seg rec (seg_start seg + 2)) = varchar_length sv seg rec"
      using fit v mb by (simp add: rec_varchar_def varchar_fits_def Let_def)
    with v pv pk(1) show ?thesis unfolding holds_seg_def Let_def key_def [symmetric] by simp
  next
    case False
    have "rec_text seg xs key = rec_text seg rec (seg_start seg)" if "seg_type seg = HA_KEYTYPE_TEXT"
      using pk(5) that by (simp add: rec_text_def mb bit_seg_def Let_def)
    with False pk(1,3-5) show ?thesis unfolding holds_seg_def Let_def key_def [symmetric] by (auto simp: bit_seg_def)
  qed
qed

lemma make_key_holds:
  assumes "\<forall>seg \<in> set segs. plain_seg seg \<and> varchar_fits sv rec seg"
    and "bytes_at xs p (length (concat (map (make_key_seg sv rec) segs))) = concat (map (make_key_seg sv rec) segs)"
  shows "holds_key sv xs p segs rec"
  using assms
proof (induction segs arbitrary: p)
  case (Cons seg segs)
  let ?w = "make_key_seg sv rec seg"
  have ws: "bytes_at xs p (length ?w) = ?w"
    "bytes_at xs (p + length ?w) (length (concat (map (make_key_seg sv rec) segs))) = concat (map (make_key_seg sv rec) segs)"
    using Cons.prems(2) by (simp_all add: bytes_at_add)
  have s: "plain_seg seg" "varchar_fits sv rec seg" using Cons.prems(1) by simp_all
  note m = make_key_holds_seg [OF s ws(1)]
  show ?case using m(1) Cons.IH [of "p + seg_space seg"] ws(2) Cons.prems(1) unfolding m(2) by simp
qed simp

lemma make_key_front:
  "bytes_at (fm_make_key sv kd buf rec) 0 (length (concat (map (make_key_seg sv rec) (kd_seg kd))))
    = concat (map (make_key_seg sv rec) (kd_seg kd))"
  using bytes_at_append [of "[]"] by (simp add: fm_make_key_def Let_def)

section \<open>Keys to run the model on\<close>

text \<open>A column of fixed length without nulls: an integer, date or binary column, under any character set.\<close>

definition binary_keydef :: "CHARSET_INFO \<Rightarrow> nat \<Rightarrow> nat \<Rightarrow> FM_KEYDEF" where
  "binary_keydef cs start len = \<lparr>kd_seg = [\<lparr>seg_type = HA_KEYTYPE_BINARY, seg_charset = cs, seg_start = start,
       seg_length = len, seg_flag = 0, seg_null_bit = 0, seg_null_pos = 0, seg_bit_length = 0, seg_bit_start = 0, seg_bit_pos = 0\<rparr>],
     kd_flag = {HA_NOSAME}, kd_length = len, kd_algorithm = HA_KEY_ALG_HASH\<rparr>"

interpretation fixed_key: sound_keydef sv "binary_keydef cs start len" for sv cs start len
  by unfold_locales (simp_all add: keydef_ok_def bits_last_def seg_ok_def bit_seg_def binary_keydef_def)

text \<open>Concrete functions for the parameters: bytewise collation, little-endian lengths.\<close>

definition binary_charset :: CHARSET_INFO where
  "binary_charset = \<lparr>mbmaxlen = 1, my_ci_charpos = (\<lambda>b num. num), my_ci_hash_sort = fold hash_byte,
     my_ci_strnncollsp = (\<lambda>a b. if a = b then 0 else 1)\<rparr>"

definition little_server :: server where
  "little_server = \<lparr>get_rec_bits = (\<lambda>b ofs len. drop_bit ofs (b ! 0) AND mask len),
     uint2korr = (\<lambda>b. unat (b ! 0) + 256 * unat (b ! 1))\<rparr>"

lemma binary_charset_ok: "charset_ok binary_charset"
  by (simp add: charset_ok_def binary_charset_def)

text \<open>A nullable \<open>VARCHAR(3)\<close> with a length of \<open>pack\<close> bytes, and a \<open>BIT(4)\<close> followed by a byte.\<close>

definition varchar_keydef :: "nat \<Rightarrow> FM_KEYDEF" where
  "varchar_keydef pack = \<lparr>kd_seg = [\<lparr>seg_type = HA_KEYTYPE_VARTEXT1, seg_charset = binary_charset, seg_start = 1, seg_length = 3,
       seg_flag = 0, seg_null_bit = 1, seg_null_pos = 0, seg_bit_length = 0, seg_bit_start = pack, seg_bit_pos = 0\<rparr>],
     kd_flag = {HA_NOSAME}, kd_length = 6, kd_algorithm = HA_KEY_ALG_HASH\<rparr>"

definition bit_keydef :: FM_KEYDEF where
  "bit_keydef = \<lparr>kd_seg = [\<lparr>seg_type = HA_KEYTYPE_BIT, seg_charset = binary_charset, seg_start = 1, seg_length = 1,
       seg_flag = 0, seg_null_bit = 0, seg_null_pos = 0, seg_bit_length = 4, seg_bit_start = 0, seg_bit_pos = 0\<rparr>,
      \<lparr>seg_type = HA_KEYTYPE_BINARY, seg_charset = binary_charset, seg_start = 1, seg_length = 1,
       seg_flag = 0, seg_null_bit = 0, seg_null_pos = 0, seg_bit_length = 0, seg_bit_start = 0, seg_bit_pos = 0\<rparr>],
     kd_flag = {HA_NOSAME}, kd_length = 2, kd_algorithm = HA_KEY_ALG_HASH\<rparr>"

lemmas key_examples = varchar_keydef_def bit_keydef_def binary_charset_def little_server_def

section \<open>Properties\<close>

text \<open>
  C16: The callbacks keep the contract of the core. For key definitions whose text segments have a sound collation, whose
  null bits are single bits and in which no bit field is followed by another segment: comparing equal is an equivalence on
  records; equal records have the same hash and agree on null parts; a record that matches a packed key has the hash of that
  key, so that a lookup visits its bucket; and a packed key that holds the values of a record, in the format of the SQL layer
  (two-byte \<open>VARCHAR\<close> lengths, whatever length the record has), is matched by exactly the records that compare equal to it.
\<close>

theorem key_callbacks_sound:
  assumes "keydef_ok kd" "bits_last kd" "\<forall>seg \<in> set (kd_seg kd). seg_cuts_ok seg"
  shows "fm_rec_key_cmp sv kd a a = 0
    \<and> (fm_rec_key_cmp sv kd a b = 0 \<longrightarrow> fm_rec_key_cmp sv kd b a = 0)
    \<and> (fm_rec_key_cmp sv kd a b = 0 \<longrightarrow> fm_rec_key_cmp sv kd b c = 0 \<longrightarrow> fm_rec_key_cmp sv kd a c = 0)
    \<and> (fm_rec_key_cmp sv kd a b = 0 \<longrightarrow> fm_ops_hash_rec sv kd a = fm_ops_hash_rec sv kd b
         \<and> (fm_if_null_in_key kd a \<noteq> 0 \<longleftrightarrow> fm_if_null_in_key kd b \<noteq> 0))
    \<and> (fm_key_cmp sv kd a p = 0 \<longrightarrow> fm_ops_hash_rec sv kd a = fm_ops_hash_key sv kd p)
    \<and> (holds_key sv p 0 (kd_seg kd) b \<longrightarrow> (fm_key_cmp sv kd a p = 0 \<longleftrightarrow> fm_rec_key_cmp sv kd a b = 0))"
proof -
  have "fm_key_cmp sv kd a p = 0 \<longleftrightarrow> fm_rec_key_cmp sv kd a b = 0" if "holds_key sv p 0 (kd_seg kd) b"
    using key_cmp_holds [OF _ _ that, of a] assms by (simp add: fm_key_cmp_def fm_rec_key_cmp_def keydef_ok_def bits_last_def)
  with sound_keydef.callbacks_sound [OF sound_keydef.intro [OF assms(1,2)], of sv a b c p] show ?thesis by blast
qed

theorem key_callbacks_sound_witness:
  "fm_key_cmp little_server (varchar_keydef 1) [0, 2, 7, 8, 9] [0, 2, 0, 7, 8, 0] = 0
    \<and> fm_ops_hash_rec little_server (varchar_keydef 1) [0, 2, 7, 8, 9]
      = fm_ops_hash_key little_server (varchar_keydef 1) [0, 2, 0, 7, 8, 0]"
proof -
  let ?r = "[0, 2, 7, 8, 9] :: image" and ?p = "[0, 2, 0, 7, 8, 0] :: image"
  have "keydef_ok (varchar_keydef 1)" "bits_last (varchar_keydef 1)"
    using binary_charset_ok by (simp_all add: varchar_keydef_def keydef_ok_def bits_last_def seg_ok_def bit_seg_def)
  moreover have "\<forall>seg \<in> set (kd_seg (varchar_keydef 1)). seg_cuts_ok seg"
    by (auto simp: varchar_keydef_def seg_cuts_ok_def one_null_bit_def binary_charset_def intro!: exI [of _ 0])
  ultimately have "holds_key little_server ?p 0 (kd_seg (varchar_keydef 1)) ?r
      \<longrightarrow> (fm_key_cmp little_server (varchar_keydef 1) ?r ?p = 0 \<longleftrightarrow> fm_rec_key_cmp little_server (varchar_keydef 1) ?r ?r = 0)"
    and "fm_rec_key_cmp little_server (varchar_keydef 1) ?r ?r = 0"
    and "fm_key_cmp little_server (varchar_keydef 1) ?r ?p = 0 \<longrightarrow> fm_ops_hash_rec little_server (varchar_keydef 1) ?r
      = fm_ops_hash_key little_server (varchar_keydef 1) ?p"
    using key_callbacks_sound [of "varchar_keydef 1" little_server ?r ?r ?r ?p] by blast+
  moreover have "holds_key little_server ?p 0 (kd_seg (varchar_keydef 1)) ?r" by code_simp
  ultimately show ?thesis by blast
qed

text \<open>
  C28: Packing round trip. For key definitions with single-byte character sets, two-byte \<open>VARCHAR\<close>
  lengths and no bit field before the last segment, and a record whose \<open>VARCHAR\<close> values fit their segments, the key
  \<open>fm_make_key\<close> packs from the record matches exactly the records that compare equal to it, and has the hash of the record.
\<close>

theorem make_key_roundtrip:
  assumes "\<forall>seg \<in> set (kd_seg kd). plain_seg seg \<and> varchar_fits sv rec seg" "keydef_ok kd" "bits_last kd"
  shows "(fm_key_cmp sv kd r (fm_make_key sv kd buf rec) = 0 \<longleftrightarrow> fm_rec_key_cmp sv kd r rec = 0)
    \<and> fm_ops_hash_key sv kd (fm_make_key sv kd buf rec) = fm_ops_hash_rec sv kd rec"
proof -
  have ok: "\<forall>seg \<in> set (kd_seg kd). seg_ok seg \<and> seg_cuts_ok seg"
    using assms(1,2) by (auto simp: keydef_ok_def seg_cuts_ok_def one_null_bit_def plain_seg_def)
  have bl: "\<forall>seg \<in> set (butlast (kd_seg kd)). \<not> bit_seg seg" using assms(3) by (simp add: bits_last_def)
  have iff: "fm_key_cmp sv kd x (fm_make_key sv kd buf rec) = 0 \<longleftrightarrow> fm_rec_key_cmp sv kd x rec = 0" for x
    using key_cmp_holds [OF ok bl make_key_holds [OF assms(1) make_key_front], of x buf] by (simp add: fm_key_cmp_def fm_rec_key_cmp_def)
  note s = sound_keydef.callbacks_sound [OF sound_keydef.intro [OF assms(2,3)], of sv rec rec rec "fm_make_key sv kd buf rec"]
  from s have "fm_rec_key_cmp sv kd rec rec = 0" by blast
  with s show ?thesis by (simp add: iff)
qed

theorem make_key_roundtrip_witness:
  "fm_make_key little_server (varchar_keydef 2) [9, 9, 9, 9, 9, 9, 9] [0, 2, 0, 7, 8, 1] = [0, 2, 0, 7, 8, 1, 9]
    \<and> fm_key_cmp little_server (varchar_keydef 2) [0, 2, 0, 7, 8, 5] [0, 2, 0, 7, 8, 1, 9] = 0
    \<and> fm_rec_key_cmp little_server (varchar_keydef 2) [0, 2, 0, 7, 8, 5] [0, 2, 0, 7, 8, 1] = 0"
proof -
  let ?r = "[0, 2, 0, 7, 8, 1] :: image" and ?x = "[0, 2, 0, 7, 8, 5] :: image" and ?b = "[9, 9, 9, 9, 9, 9, 9] :: image"
  have v: "varchar_length little_server (hd (kd_seg (varchar_keydef 2))) ?r \<le> 3" by code_simp
  have "\<forall>seg \<in> set (kd_seg (varchar_keydef 2)). plain_seg seg \<and> varchar_fits little_server ?r seg"
    using v by (auto simp: varchar_keydef_def plain_seg_def varchar_fits_def bit_seg_def binary_charset_def intro!: exI [of _ 0])
  moreover have "keydef_ok (varchar_keydef 2)" "bits_last (varchar_keydef 2)"
    using binary_charset_ok by (simp_all add: varchar_keydef_def keydef_ok_def bits_last_def seg_ok_def bit_seg_def)
  ultimately have k: "fm_key_cmp little_server (varchar_keydef 2) ?x (fm_make_key little_server (varchar_keydef 2) ?b ?r) = 0
    \<longleftrightarrow> fm_rec_key_cmp little_server (varchar_keydef 2) ?x ?r = 0"
    using make_key_roundtrip [of "varchar_keydef 2" little_server ?r ?x ?b] by blast
  have "fm_make_key little_server (varchar_keydef 2) ?b ?r = [0, 2, 0, 7, 8, 1, 9]" by code_simp
  moreover have "fm_rec_key_cmp little_server (varchar_keydef 2) ?x ?r = 0" by code_simp
  ultimately show ?thesis using k by simp
qed

text \<open>
  C39: A \<open>VARCHAR\<close> of at most 255 bytes has a one-byte length in the record. \<open>fm_make_key\<close> copies that byte as it is, where
  the comparison reads a two-byte length, so that the first byte of the text is taken for the high byte of the length. For a
  key that starts with such a column, of a single-byte character set under whose collation strings of different length
  differ, and a record whose value there is not null and has a first byte other than 0, the key packed from the record does
  not match the record itself.
\<close>

theorem make_key_short_varchar_mismatch:
  assumes kd: "kd_seg kd = seg # segs" "seg_type seg = HA_KEYTYPE_VARTEXT1" "seg_bit_start seg = 1" "0 < seg_length seg"
    and cs: "mbmaxlen (seg_charset seg) \<le> 1" "\<And>a b. my_ci_strnncollsp (seg_charset seg) a b = 0 \<Longrightarrow> length a = length b"
    and sv: "\<And>a b. uint2korr sv [a, b] = unat a + 256 * unat b"
    and val: "seg_null_bit seg = 0 \<or> \<not> seg_null seg rec" "byte_at rec (seg_start seg + 1) \<noteq> 0"
  shows "fm_key_cmp sv kd rec (fm_make_key sv kd buf rec) = 1"
proof -
  let ?k = "fm_make_key sv kd buf rec" and ?w = "make_key_seg sv rec seg" and ?n = "varchar_length sv seg rec"
  let ?nb = "if seg_null_bit seg \<noteq> 0 then [0] else [] :: image"
  have w: "?w = ?nb @ bytes_at rec (seg_start seg) (seg_length seg + 1)"
    using kd(2,3) cs(1) val(1) by (auto simp: make_key_seg_def Let_def)
  have "bytes_at ?k 0 (length ?w) = ?w" using make_key_front [of sv kd buf rec] by (simp add: kd(1) bytes_at_add)
  then have k: "bytes_at ?k 0 (length ?nb) = ?nb" "bytes_at ?k (length ?nb) (seg_length seg + 1) = bytes_at rec (seg_start seg) (seg_length seg + 1)"
    using bytes_at_add [of ?k 0 "length ?nb" "seg_length seg + 1"] by (simp_all add: w)
  have key: "(if seg_null_bit seg \<noteq> 0 then 0 + 1 else 0 :: nat) = length ?nb" by simp
  have null: "seg_null_bit seg \<noteq> 0 \<Longrightarrow> byte_at ?k 0 = 0" using k(1) by (simp add: bytes_at_def)
  have "bytes_at ?k (length ?nb) 2 = bytes_at rec (seg_start seg) 2" by (rule bytes_at_prefix [OF k(2)]) (use kd(4) in simp)
  also have "\<dots> = [byte_at rec (seg_start seg), byte_at rec (seg_start seg + 1)]" by (simp add: bytes_at_def numeral_2_eq_2)
  finally have n: "uint2korr sv (bytes_at ?k (length ?nb) 2) = ?n + 256 * unat (byte_at rec (seg_start seg + 1))"
    using kd(3) by (simp add: sv varchar_length_def)
  have pos: "0 < unat (byte_at rec (seg_start seg + 1))" using val(2) by (simp add: unat_gt_0)
  let ?m = "uint2korr sv (bytes_at ?k (length ?nb) 2)"
  have "length (rec_varchar sv seg rec (seg_start seg + 1)) \<le> ?n" using cs(1) by (simp add: rec_varchar_def Let_def)
  then have "length (rec_varchar sv seg rec (seg_start seg + 1)) \<noteq> length (bytes_at ?k (length ?nb + 2) ?m)" using n pos by simp
  then have "my_ci_strnncollsp (seg_charset seg) (rec_varchar sv seg rec (seg_start seg + 1)) (bytes_at ?k (length ?nb + 2) ?m) \<noteq> 0"
    using cs(2) by blast
  then have "key_seg_cmp sv rec ?k seg 0 = None"
    using kd(2,3) cs(1) val(1) null unfolding key_seg_cmp_def Let_def key by (cases "seg_null_bit seg = 0") simp_all
  then show ?thesis by (simp add: fm_key_cmp_def kd(1))
qed

theorem make_key_short_varchar_mismatch_witness:
  "fm_make_key little_server (varchar_keydef 1) [0, 0, 0, 0, 0, 0] [0, 1, 65, 0, 0] = [0, 1, 65, 0, 0, 0]
    \<and> fm_key_cmp little_server (varchar_keydef 1) [0, 1, 65, 0, 0] [0, 1, 65, 0, 0, 0] = 1"
proof -
  let ?r = "[0, 1, 65, 0, 0] :: image" and ?seg = "hd (kd_seg (varchar_keydef 1))"
  have f: "fm_make_key little_server (varchar_keydef 1) [0, 0, 0, 0, 0, 0] ?r = [0, 1, 65, 0, 0, 0]" by code_simp
  have c: "length a = length b" if "my_ci_strnncollsp (seg_charset ?seg) a b = 0" for a b
    using that by (simp add: varchar_keydef_def binary_charset_def split: if_splits)
  have u: "uint2korr little_server [a, b] = unat a + 256 * unat b" for a b by (simp add: little_server_def)
  have v: "kd_seg (varchar_keydef 1) = [?seg]" "seg_type ?seg = HA_KEYTYPE_VARTEXT1" "seg_bit_start ?seg = 1" "0 < seg_length ?seg"
    "mbmaxlen (seg_charset ?seg) \<le> 1" "seg_null_bit ?seg = 0 \<or> \<not> seg_null ?seg ?r" "byte_at ?r (seg_start ?seg + 1) \<noteq> 0"
    by (simp_all add: varchar_keydef_def binary_charset_def seg_null_def byte_at_def)
  have "fm_key_cmp little_server (varchar_keydef 1) ?r (fm_make_key little_server (varchar_keydef 1) [0, 0, 0, 0, 0, 0] ?r) = 1"
    by (rule make_key_short_varchar_mismatch [OF v(1-5) c u v(6,7)])
  with f show ?thesis by simp
qed

text \<open>
  \<open>fm_key_cmp\<close> goes on one byte too far after a bit field: with another segment behind it, a
  record does not match the key packed from it, although both hash alike.
\<close>

theorem bit_key_misaligned:
  "fm_make_key little_server bit_keydef [] [5, 9] = [5, 9] \<and> fm_key_cmp little_server bit_keydef [5, 9] [5, 9] = 1
    \<and> fm_ops_hash_key little_server bit_keydef [5, 9] = fm_ops_hash_rec little_server bit_keydef [5, 9]"
proof (intro conjI)
  have bits: "get_rec_bits little_server (bytes_at [5, 9] 0 2) 0 4 = 5" by code_simp
  show "fm_ops_hash_key little_server bit_keydef [5, 9] = fm_ops_hash_rec little_server bit_keydef [5, 9]"
    using bits by (simp add: fm_ops_hash_key_def fm_ops_hash_rec_def fm_hashnr_def fm_rec_hashnr_def bit_keydef_def
        hashnr_seg_def rec_hash_seg_def bit_seg_def bytes_at_def byte_at_def numeral_2_eq_2)
qed code_simp+

end
