(* ===== verification/Fm_Auto_Inc.thy ===== *)
theory Fm_Auto_Inc
  imports Fm_Core
begin

text \<open>
  Auto-increment values of the concurrency core (\<open>src/fm_core.h\<close>, lines 1081 to 1153):
  \<open>fm_core_auto_inc_reserve\<close> and \<open>fm_core_auto_inc_observe\<close>, on 64-bit words.

  \<open>reserve_target\<close> is the body of the reservation loop between the load of the counter and the
  compare-exchange. The operations are given twice: as one thread runs them, and as the steps of
  any number of threads that share the counter (\<open>ai_step\<close>), where the compare-exchange can fail
  because another thread was faster, or for no reason (it is the weak one).
\<close>

section \<open>Operations\<close>

text \<open>The first and the last value of the interval, or \<open>None\<close> where the source returns 0.\<close>

definition reserve_target :: "u64 \<Rightarrow> u64 \<Rightarrow> u64 \<Rightarrow> u64 \<Rightarrow> (u64 \<times> u64) option" where
  "reserve_target cur offset' inc' nb' =
     (let offset = (if offset' = 0 then 1 else offset');
          inc = (if inc' = 0 then 1 else inc');
          nb = (if nb' = 0 then 1 else nb');
          v = cur + 1
      in if v = 0 then None
         else do {
           v1 \<leftarrow> (if inc > 1 then
                   (let r = (if v > offset then v - offset else 0);
                        steps = (r + inc - 1) div inc;
                        v2 = offset + steps * inc
                    in if v2 < v then None
                       else if v2 \<le> cur then
                         (let v' = cur + inc
                          in if v' \<le> cur then None
                             else (let steps2 = (if v' > offset then v' - offset else 0);
                                       v3 = offset + ((steps2 + inc - 1) div inc) * inc
                                   in if v3 < v' \<or> v3 = 0 then None else Some v3))
                       else Some v2)
                 else Some v);
           let hi = v1 + (nb - 1) * inc;
           if hi < v1 then None else Some (v1, hi) })"

definition fm_core_auto_inc_reserve ::
  "FM_SHARE_CORE \<Rightarrow> u64 \<Rightarrow> u64 \<Rightarrow> u64 \<Rightarrow> u64 \<times> u64 option \<times> FM_SHARE_CORE" where
  "fm_core_auto_inc_reserve s offset inc nb =
     (case reserve_target (auto_inc s) offset inc nb of
        None \<Rightarrow> (0, None, s)
      | Some (v, hi) \<Rightarrow> (v, Some (if nb = 0 then 1 else nb), s\<lparr>auto_inc := hi\<rparr>))"

definition fm_core_auto_inc_observe :: "FM_SHARE_CORE \<Rightarrow> u64 \<Rightarrow> FM_SHARE_CORE" where
  "fm_core_auto_inc_observe s value = (if value > auto_inc s then s\<lparr>auto_inc := value\<rparr> else s)"

section \<open>Threads that share the counter\<close>

text \<open>
  A thread is between calls, has loaded the counter in a reservation, or has loaded it while
  observing a value. \<open>granted\<close> records what the calls returned, the newest first: the first value, the increment
  and the number in \<open>*reserved\<close>. The caller uses the values \<open>first\<close>, \<open>first + inc\<close>, and so on, \<open>reserved\<close> of them.
\<close>

record grant =
  g_first :: u64
  g_inc :: u64
  g_reserved :: u64

definition grant_of :: "u64 \<Rightarrow> u64 \<Rightarrow> u64 \<Rightarrow> grant" where
  "grant_of v inc nb = \<lparr>g_first = v, g_inc = (if inc = 0 then 1 else inc), g_reserved = (if nb = 0 then 1 else nb)\<rparr>"

definition grant_values :: "grant \<Rightarrow> u64 list" where
  "grant_values g = map (\<lambda>i. g_first g + of_nat i * g_inc g) [0 ..< unat (g_reserved g)]"

text \<open>The span of the values, as a number, is within 64 bits.\<close>

definition grant_fits :: "grant \<Rightarrow> bool" where
  "grant_fits g \<longleftrightarrow> (unat (g_reserved g) - 1) * unat (g_inc g) < 2 ^ 64"

datatype ai_pc = AiIdle | AiReserve u64 u64 u64 u64 | AiObserve u64 u64

record ai_state =
  ai_ctr :: u64
  ai_pcs :: "nat \<Rightarrow> ai_pc"
  granted :: "grant list"

inductive ai_step :: "ai_state \<Rightarrow> ai_state \<Rightarrow> bool" where
  load: "ai_pcs c t = AiIdle \<Longrightarrow> ai_step c (c\<lparr>ai_pcs := (ai_pcs c)(t := AiReserve (ai_ctr c) off inc nb)\<rparr>)"
| overflow: "ai_pcs c t = AiReserve cur off inc nb \<Longrightarrow> reserve_target cur off inc nb = None \<Longrightarrow>
    ai_step c (c\<lparr>ai_pcs := (ai_pcs c)(t := AiIdle)\<rparr>)"
| cas_ok: "ai_pcs c t = AiReserve cur off inc nb \<Longrightarrow> reserve_target cur off inc nb = Some (v, hi) \<Longrightarrow> ai_ctr c = cur \<Longrightarrow>
    ai_step c (c\<lparr>ai_ctr := hi, ai_pcs := (ai_pcs c)(t := AiIdle), granted := grant_of v inc nb # granted c\<rparr>)"
| cas_fail: "ai_pcs c t = AiReserve cur off inc nb \<Longrightarrow> reserve_target cur off inc nb = Some (v, hi) \<Longrightarrow>
    ai_step c (c\<lparr>ai_pcs := (ai_pcs c)(t := AiReserve (ai_ctr c) off inc nb)\<rparr>)"
| ob_load: "ai_pcs c t = AiIdle \<Longrightarrow> ai_step c (c\<lparr>ai_pcs := (ai_pcs c)(t := AiObserve val (ai_ctr c))\<rparr>)"
| ob_done: "ai_pcs c t = AiObserve val cur \<Longrightarrow> \<not> val > cur \<Longrightarrow> ai_step c (c\<lparr>ai_pcs := (ai_pcs c)(t := AiIdle)\<rparr>)"
| ob_ok: "ai_pcs c t = AiObserve val cur \<Longrightarrow> val > cur \<Longrightarrow> ai_ctr c = cur \<Longrightarrow>
    ai_step c (c\<lparr>ai_ctr := val, ai_pcs := (ai_pcs c)(t := AiIdle)\<rparr>)"
| ob_fail: "ai_pcs c t = AiObserve val cur \<Longrightarrow> val > cur \<Longrightarrow>
    ai_step c (c\<lparr>ai_pcs := (ai_pcs c)(t := AiObserve val (ai_ctr c))\<rparr>)"

section \<open>One reservation\<close>

lemma word_suc_greater:
  assumes "(cur :: u64) + 1 \<noteq> 0"
  shows "cur < cur + 1"
proof -
  have u: "unat (cur + 1) = (unat cur + 1) mod 2 ^ 64" by (simp add: unat_word_ariths)
  have "unat cur + 1 \<noteq> 2 ^ 64"
  proof
    assume "unat cur + 1 = 2 ^ 64"
    with u have "unat (cur + 1) = 0" by simp
    with assms show False by (simp only: unat_eq_0)
  qed
  moreover have "unat cur < 2 ^ 64" using unsigned_less [of cur] by simp
  ultimately have "unat (cur + 1) = unat cur + 1" unfolding u by simp
  then show ?thesis unfolding word_less_nat_alt by simp
qed

text \<open>The second search for a congruent value in the source is never reached.\<close>

lemma reserve_target_eq:
  "reserve_target cur offset' inc' nb' =
     (let offset = (if offset' = 0 then 1 else offset'); inc = (if inc' = 0 then 1 else inc');
          nb = (if nb' = 0 then 1 else nb'); v = cur + 1;
          v1 = (if inc > 1 then offset + (((if v > offset then v - offset else 0) + inc - 1) div inc) * inc else v);
          hi = v1 + (nb - 1) * inc
      in if v = 0 \<or> v1 < v \<or> hi < v1 then None else Some (v1, hi))"
proof -
  define off inc nb v where "off = (if offset' = 0 then 1 else offset')" and "inc = (if inc' = 0 then 1 else inc')"
    and "nb = (if nb' = 0 then 1 else nb')" and "v = cur + 1"
  define v2 where "v2 = off + (((if v > off then v - off else 0) + inc - 1) div inc) * inc"
  note defs = off_def inc_def nb_def v_def v2_def
  obtain X where X: "reserve_target cur offset' inc' nb' = (if v = 0 then None else do {
      v1 \<leftarrow> (if inc > 1 then if v2 < v then None else if v2 \<le> cur then X else Some v2 else Some v);
      if v1 + (nb - 1) * inc < v1 then None else Some (v1, v1 + (nb - 1) * inc) })"
    unfolding reserve_target_def Let_def defs by blast
  have "v2 < v" if "v \<noteq> 0" "v2 \<le> cur"
    using that(2) word_suc_greater [of cur] that(1) unfolding v_def by (metis order_le_less_trans)
  then have "reserve_target cur offset' inc' nb' = (if v = 0 \<or> inc > 1 \<and> v2 < v then None
      else let v1 = if inc > 1 then v2 else v in if v1 + (nb - 1) * inc < v1 then None else Some (v1, v1 + (nb - 1) * inc))"
    unfolding X by (cases "v = 0"; cases "inc > 1"; cases "v2 < v"; cases "v2 \<le> cur") (simp_all only: Let_def if_True if_False simp_thms bind.simps)
  also have "\<dots> = (let v1 = if inc > 1 then v2 else v; hi = v1 + (nb - 1) * inc
      in if v = 0 \<or> v1 < v \<or> hi < v1 then None else Some (v1, hi))"
    by (cases "inc > 1") (auto simp only: Let_def if_True if_False simp_thms order_less_irrefl split: if_splits)
  finally show ?thesis unfolding Let_def defs .
qed

lemma reserve_target_above:
  assumes "reserve_target cur off inc nb = Some (v, hi)"
  shows "cur < v" "v \<le> hi"
proof -
  have *: "cur + 1 \<noteq> 0" "cur + 1 \<le> v" "v \<le> hi"
    using assms by (auto simp: reserve_target_eq Let_def not_less split: if_splits)
  show "cur < v" using word_suc_greater [OF *(1)] *(2) by (rule order_less_le_trans)
  show "v \<le> hi" by (rule *(3))
qed

section \<open>Every interleaving\<close>

definition g_last :: "grant \<Rightarrow> u64" where
  "g_last g = g_first g + (g_reserved g - 1) * g_inc g"

text \<open>The target of the compare-exchange is the last value of the grant.\<close>

lemma reserve_target_last: "reserve_target cur off inc nb = Some (v, hi) \<Longrightarrow> hi = g_last (grant_of v inc nb)"
  by (auto simp: reserve_target_eq Let_def g_last_def grant_of_def split: if_splits)

definition ai_inv :: "ai_state \<Rightarrow> bool" where
  "ai_inv c \<longleftrightarrow> (\<forall>g \<in> set (granted c). g_reserved g \<noteq> 0 \<and> g_inc g \<noteq> 0 \<and> g_first g \<le> g_last g \<and> g_last g \<le> ai_ctr c)
     \<and> sorted_wrt (\<lambda>g g'. g_last g' < g_first g) (granted c)"

lemma grant_of_simps [simp]: "g_first (grant_of v inc nb) = v" "g_reserved (grant_of v inc nb) \<noteq> 0" "g_inc (grant_of v inc nb) \<noteq> 0"
  by (simp_all add: grant_of_def)

lemma ai_inv_step: "ai_step c c' \<Longrightarrow> ai_inv c \<Longrightarrow> ai_inv c'"
proof (induction rule: ai_step.induct)
  case (cas_ok c t cur off inc nb v hi)
  note a = reserve_target_above [OF cas_ok(2)] and l = reserve_target_last [OF cas_ok(2)]
  have "g_last g < v" "g_last g \<le> hi" if "g \<in> set (granted c)" for g
  proof -
    have "g_last g \<le> cur" using cas_ok(3,4) that by (auto simp: ai_inv_def)
    then show "g_last g < v" using a(1) by (rule order_le_less_trans)
    then show "g_last g \<le> hi" using a(2) by (metis order_less_imp_le order_trans)
  qed
  then show ?case using cas_ok(4) a l unfolding ai_inv_def by simp
next
  case (ob_ok c t val cur)
  then show ?case unfolding ai_inv_def by (auto intro: order_trans order_less_imp_le)
qed (auto simp: ai_inv_def)

lemma ai_ctr_mono: "ai_step c c' \<Longrightarrow> ai_ctr c \<le> ai_ctr c'"
  by (induction rule: ai_step.induct) (auto dest: reserve_target_above intro: order_less_imp_le order_trans)

lemma ai_run:
  assumes "ai_step\<^sup>*\<^sup>* c c'"
  shows "ai_inv c \<Longrightarrow> ai_inv c'" "ai_ctr c \<le> ai_ctr c'"
    "granted c = [] \<Longrightarrow> \<forall>g \<in> set (granted c'). ai_ctr c < g_first g"
  using assms
proof (induction rule: rtranclp_induct)
  case base
  show "ai_inv c \<Longrightarrow> ai_inv c" "ai_ctr c \<le> ai_ctr c" by auto
  show "granted c = [] \<Longrightarrow> \<forall>g \<in> set (granted c). ai_ctr c < g_first g" by simp
next
  case (step d e)
  show "ai_inv c \<Longrightarrow> ai_inv e" using step ai_inv_step by blast
  show "ai_ctr c \<le> ai_ctr e" using step ai_ctr_mono order_trans by blast
  assume g: "granted c = []"
  from step.hyps(2) show "\<forall>g \<in> set (granted e). ai_ctr c < g_first g"
  proof cases
    case (cas_ok t cur off inc nb v hi)
    then show ?thesis
      using step.IH(2,3) g reserve_target_above(1) [OF cas_ok(3)] by (auto intro: order_le_less_trans)
  qed (use step.IH(3) g in auto)
qed

section \<open>Values of one reservation\<close>

lemma unat_add_small: "unat (a :: u64) + unat b < 2 ^ 64 \<Longrightarrow> unat (a + b) = unat a + unat b"
  by (simp add: unat_word_ariths)

lemma unat_mult_small: "unat (a :: u64) * unat b < 2 ^ 64 \<Longrightarrow> unat (a * b) = unat a * unat b"
  by (simp add: unat_word_ariths)

text \<open>Where the span fits, the overflow check of the source is exact, and the values lie between the first and the last.\<close>

lemma sum_no_wrap:
  assumes "(v :: u64) \<le> v + w"
  shows "unat (v + w) = unat v + unat w"
proof (rule ccontr)
  assume n: "unat (v + w) \<noteq> unat v + unat w"
  have "unat v < 2 ^ 64" "unat w < 2 ^ 64" using unsigned_less [of v] unsigned_less [of w] by simp_all
  moreover have "unat v + unat w \<ge> 2 ^ 64" using n unat_add_small [of v w] by linarith
  moreover have "unat (v + w) = (unat v + unat w) mod 2 ^ 64" by (simp add: unat_word_ariths)
  moreover have "(unat v + unat w) mod 2 ^ 64 = unat v + unat w - 2 ^ 64" if "unat v + unat w \<ge> 2 ^ 64" "unat v + unat w < 2 * 2 ^ 64"
    using that by (simp add: mod_if)
  ultimately have "unat (v + w) < unat v" by linarith
  with assms show False by (simp add: word_le_nat_alt)
qed

lemma grant_nth:
  assumes "grant_fits g" "g_first g \<le> g_last g" "i < unat (g_reserved g)"
  shows "unat (g_first g + of_nat i * g_inc g) = unat (g_first g) + i * unat (g_inc g)"
    "g_first g + of_nat i * g_inc g \<le> g_last g"
proof -
  let ?n = "unat (g_reserved g)"
  have "?n < 2 ^ 64" using unsigned_less [of "g_reserved g"] by simp
  then have ui: "unat (of_nat i :: u64) = i" using assms(3) by (simp add: unat_of_nat)
  have un: "unat (g_reserved g - 1) = ?n - 1" using assms(3) by (simp add: unat_sub word_le_nat_alt)
  have le: "i * unat (g_inc g) \<le> (?n - 1) * unat (g_inc g)" using assms(3) by (intro mult_right_mono) auto
  have m: "unat ((g_reserved g - 1) * g_inc g) = (?n - 1) * unat (g_inc g)"
    using assms(1) by (subst unat_mult_small) (simp_all add: un grant_fits_def)
  have l: "unat (g_last g) = unat (g_first g) + (?n - 1) * unat (g_inc g)"
    using sum_no_wrap [of "g_first g" "(g_reserved g - 1) * g_inc g"] assms(2) by (simp add: g_last_def m)
  have "i * unat (g_inc g) < 2 ^ 64" using order_le_less_trans [OF le] assms(1) by (simp add: grant_fits_def)
  then have mi: "unat (of_nat i * g_inc g) = i * unat (g_inc g)" using unat_mult_small [of "of_nat i" "g_inc g"] by (simp add: ui)
  have "unat (g_last g) < 2 ^ 64" using unsigned_less [of "g_last g"] by simp
  then have "unat (g_first g) + unat (of_nat i * g_inc g) < 2 ^ 64" unfolding l mi using le by linarith
  from unat_add_small [OF this] show u: "unat (g_first g + of_nat i * g_inc g) = unat (g_first g) + i * unat (g_inc g)"
    unfolding mi .
  show "g_first g + of_nat i * g_inc g \<le> g_last g" unfolding word_le_nat_alt u l using le by simp
qed

lemma grant_values_range:
  assumes "grant_fits g" "g_first g \<le> g_last g" "x \<in> set (grant_values g)"
  shows "g_first g \<le> x" "x \<le> g_last g"
  using assms grant_nth [OF assms(1,2)] by (auto simp: grant_values_def word_le_nat_alt)

lemma grant_values_distinct:
  assumes "grant_fits g" "g_first g \<le> g_last g" "g_inc g \<noteq> 0"
  shows "distinct (grant_values g)"
proof -
  have "0 < unat (g_inc g)" using assms(3) by (simp add: unat_gt_0)
  then have "inj_on (\<lambda>i. g_first g + of_nat i * g_inc g) {0 ..< unat (g_reserved g)}"
    using grant_nth(1) [OF assms(1,2)] by (intro inj_onI) (metis add_left_cancel atLeastLessThan_iff mult_right_cancel less_numeral_extra(3))
  then show ?thesis by (simp add: grant_values_def distinct_map)
qed

lemma ceil_steps:
  fixes a n :: nat
  assumes "0 < n"
  shows "a \<le> (a + n - 1) div n * n" "(a + n - 1) div n * n < a + n"
proof -
  have "(a + n - 1) div n * n + (a + n - 1) mod n = a + n - 1" by simp
  moreover have "(a + n - 1) mod n < n" using assms by simp
  ultimately show "a \<le> (a + n - 1) div n * n" "(a + n - 1) div n * n < a + n" using assms by linarith+
qed

lemma aligned_value:
  fixes v offset inc :: u64
  assumes i: "1 < inc" and small: "unat v + unat offset + unat inc < 2 ^ 64"
  defines "w \<equiv> offset + (((if v > offset then v - offset else 0) + inc - 1) div inc) * inc"
  shows "unat w = unat offset + (unat v - unat offset + unat inc - 1) div unat inc * unat inc"
    "v \<le> w" "unat w < max (unat v) (unat offset) + unat inc"
proof -
  define r where "r = (if v > offset then v - offset else 0)"
  let ?q = "(unat v - unat offset + unat inc - 1) div unat inc"
  have inc: "0 < unat inc" "1 < unat inc" using i by (auto simp: word_less_nat_alt)
  have r: "unat r = unat v - unat offset"
    by (auto simp: r_def unat_sub word_less_nat_alt order_less_imp_le not_less)
  have e: "r + inc - 1 = r + (inc - 1)" by simp
  have "unat (inc - 1) = unat inc - 1" using inc by (simp add: unat_sub word_le_nat_alt)
  then have n: "unat (r + inc - 1) = unat v - unat offset + unat inc - 1"
    using small inc r unat_add_small [of r "inc - 1"] unfolding e by simp
  note c = ceil_steps [OF inc(1), of "unat v - unat offset"]
  have st: "unat ((r + inc - 1) div inc * inc) = ?q * unat inc"
    using c(2) small by (subst unat_mult_small) (auto simp: unat_div n)
  show w: "unat w = unat offset + ?q * unat inc"
    unfolding w_def r_def [symmetric] using c(2) small by (subst unat_add_small) (auto simp: st)
  show "v \<le> w" unfolding word_le_nat_alt w using c(1) by simp
  show "unat w < max (unat v) (unat offset) + unat inc" unfolding w using c(2) by simp
qed

lemma reserve_target_values:
  assumes pos: "offset \<noteq> 0" "inc \<noteq> 0" "nb \<noteq> 0"
    and small: "unat cur + unat offset + unat inc + unat nb * unat inc < 2 ^ 64 - 1"
  obtains v hi where "reserve_target cur offset inc nb = Some (v, hi)" "cur < v"
    "unat hi = unat v + (unat nb - 1) * unat inc"
    "unat v < max (unat cur + 1) (unat offset) + unat inc"
    "1 < inc \<longrightarrow> unat offset \<le> unat v \<and> (unat v - unat offset) mod unat inc = 0" "inc = 1 \<longrightarrow> v = cur + 1"
proof -
  define v where "v = (if inc > 1 then offset + (((if cur + 1 > offset then cur + 1 - offset else 0) + inc - 1) div inc) * inc else cur + 1)"
  have n1: "unat (cur + 1) = unat cur + 1" using small by (subst unat_add_small) auto
  have inc: "0 < unat inc" and nb: "0 < unat nb" using pos by (auto simp: unat_gt_0)
  have al: "1 < inc \<Longrightarrow> unat v = unat offset + (unat (cur + 1) - unat offset + unat inc - 1) div unat inc * unat inc"
    "1 < inc \<Longrightarrow> cur + 1 \<le> v" "1 < inc \<Longrightarrow> unat v < max (unat (cur + 1)) (unat offset) + unat inc"
    using aligned_value [of inc "cur + 1" offset] small by (auto simp: v_def n1)
  have one: "\<not> 1 < inc \<Longrightarrow> inc = 1" using inc by (simp add: word_less_nat_alt word_unat_eq_iff)
  have bound: "unat v < max (unat cur + 1) (unat offset) + unat inc"
    using al(3) inc by (cases "1 < inc") (auto simp: n1 v_def)
  have ge: "cur + 1 \<le> v" using al(2) by (cases "1 < inc") (auto simp: v_def)
  have nz: "cur + 1 \<noteq> 0" using n1 by (metis add_is_0 one_neq_zero unat_0)
  have nb1: "unat (nb - 1) = unat nb - 1" using nb by (simp add: unat_sub word_le_nat_alt)
  have le: "(unat nb - 1) * unat inc \<le> unat nb * unat inc - unat inc" by (simp add: diff_mult_distrib)
  have ge1: "unat inc \<le> unat nb * unat inc" using nb by simp
  have mul: "unat ((nb - 1) * inc) = (unat nb - 1) * unat inc"
    using small le by (subst unat_mult_small) (auto simp: nb1)
  have hi: "unat (v + (nb - 1) * inc) = unat v + (unat nb - 1) * unat inc"
    using small bound le ge1 by (subst unat_add_small) (auto simp: mul max_def split: if_splits)
  have "reserve_target cur offset inc nb =
      (if cur + 1 = 0 \<or> v < cur + 1 \<or> v + (nb - 1) * inc < v then None else Some (v, v + (nb - 1) * inc))"
    by (simp only: reserve_target_eq Let_def pos if_False v_def)
  then have "reserve_target cur offset inc nb = Some (v, v + (nb - 1) * inc)"
    using nz ge hi by (simp add: not_less word_le_nat_alt)
  moreover have "cur < v" using word_suc_greater [OF nz] ge by (rule order_less_le_trans)
  moreover have "1 < inc \<longrightarrow> unat offset \<le> unat v \<and> (unat v - unat offset) mod unat inc = 0" using al(1) by simp
  moreover have "inc = 1 \<longrightarrow> v = cur + 1" by (simp add: v_def)
  ultimately show thesis using hi bound by (intro that [of v "v + (nb - 1) * inc"])
qed

lemma least_of_progression:
  fixes v :: nat
  assumes "off \<le> v" "(v - off) mod inc = 0" "v < max (cur + 1) off + inc" "cur < off + n * inc"
  shows "v \<le> off + n * inc"
proof (rule ccontr)
  assume "\<not> ?thesis"
  moreover obtain m where m: "v = off + m * inc" using assms(1,2) by (metis add_diff_inverse_nat mod_0_imp_dvd dvd_div_mult_self not_less)
  ultimately have "n < m" by (simp add: not_le)
  then have "Suc n * inc \<le> m * inc" by (intro mult_right_mono) auto
  then have "off + n * inc + inc \<le> v" using m by simp
  then show False using assms(3,4) by (simp add: max_def split: if_splits)
qed

section \<open>Properties\<close>

text \<open>
  C18: However many threads reserve and observe auto-increment values, in whatever order their loads
  and compare-exchanges interleave: where the span of each grant fits 64 bits, no value is handed out twice, neither by
  one call nor by two; all values lie above the counter at the start and none above the counter at the end; every
  later grant lies above every earlier one.
\<close>

theorem auto_inc_values_distinct:
  assumes run: "ai_step\<^sup>*\<^sup>* c c'" and new: "granted c = []" and fit: "\<forall>g \<in> set (granted c'). grant_fits g"
  shows "distinct (concat (map grant_values (granted c')))
    \<and> (\<forall>g \<in> set (granted c'). \<forall>x \<in> set (grant_values g). ai_ctr c < x \<and> x \<le> ai_ctr c')
    \<and> sorted_wrt (\<lambda>g g'. \<forall>x \<in> set (grant_values g). \<forall>y \<in> set (grant_values g'). y < x) (granted c')"
proof -
  have inv: "ai_inv c'" using ai_run(1) [OF run] new by (simp add: ai_inv_def)
  have g: "g_inc g \<noteq> 0" "g_first g \<le> g_last g" "g_last g \<le> ai_ctr c'" "ai_ctr c < g_first g" "grant_fits g" if "g \<in> set (granted c')" for g
    using inv ai_run(3) [OF run new] fit that by (auto simp: ai_inv_def)
  note rng = grant_values_range [OF g(5,2)]
  have ord: "sorted_wrt (\<lambda>g g'. \<forall>x \<in> set (grant_values g). \<forall>y \<in> set (grant_values g'). y < x) (granted c')"
  proof (rule sorted_wrt_mono_rel [of _ "\<lambda>g g'. g_last g' < g_first g"])
    show "sorted_wrt (\<lambda>g g'. g_last g' < g_first g) (granted c')" using inv by (simp add: ai_inv_def)
    fix g g' assume m: "g \<in> set (granted c')" "g' \<in> set (granted c')" "g_last g' < g_first g"
    show "\<forall>x \<in> set (grant_values g). \<forall>y \<in> set (grant_values g'). y < x"
      using rng(1) [OF m(1) m(1)] rng(2) [OF m(2) m(2)] m(3) by (meson order_le_less_trans order_less_le_trans)
  qed
  have "distinct (concat (map grant_values gs))"
    if "sorted_wrt (\<lambda>g g'. \<forall>x \<in> set (grant_values g). \<forall>y \<in> set (grant_values g'). y < x) gs" "set gs \<subseteq> set (granted c')" for gs
    using that
  proof (induction gs)
    case (Cons a gs)
    have "distinct (grant_values a)" by (rule grant_values_distinct [OF g(5,2,1)]) (use Cons.prems(2) in auto)
    moreover have "set (grant_values a) \<inter> set (concat (map grant_values gs)) = {}" using Cons.prems(1) by fastforce
    ultimately show ?case using Cons by simp
  qed simp
  from this [OF ord order_refl] have "distinct (concat (map grant_values (granted c')))" .
  moreover have "ai_ctr c < x \<and> x \<le> ai_ctr c'" if "g \<in> set (granted c')" "x \<in> set (grant_values g)" for g x
    using g(3,4) [OF that(1)] rng [OF that(1) that(1) that(2)] by (auto intro: order_less_le_trans order_trans)
  ultimately show ?thesis using ord by blast
qed

theorem auto_inc_values_distinct_witness:
  "\<exists>c c'. granted c = [] \<and> ai_step\<^sup>*\<^sup>* c c' \<and> granted c' = [grant_of 1 1 3] \<and> distinct (concat (map grant_values (granted c')))"
proof -
  let ?c = "\<lparr>ai_ctr = 0, ai_pcs = \<lambda>_. AiIdle, granted = []\<rparr>"
  let ?d = "?c\<lparr>ai_pcs := (ai_pcs ?c)(0 := AiReserve 0 1 1 3)\<rparr>"
  let ?e = "?d\<lparr>ai_ctr := 3, ai_pcs := (ai_pcs ?d)(0 := AiIdle), granted := [grant_of 1 1 3]\<rparr>"
  have "reserve_target 0 1 1 3 = Some (1, 3)" by (simp add: reserve_target_def)
  then have "ai_step ?d ?e" using cas_ok [of ?d 0 0 1 1 3 1 3] by simp
  moreover have "ai_step ?c ?d" using load [of ?c 0 1 1 3] by simp
  ultimately have r: "ai_step\<^sup>*\<^sup>* ?c ?e" by (meson converse_rtranclp_into_rtranclp r_into_rtranclp)
  have "\<forall>g \<in> set (granted ?e). grant_fits g" by (simp add: grant_of_def grant_fits_def)
  from auto_inc_values_distinct [OF r _ this] r show ?thesis by (intro exI [of _ ?c] exI [of _ ?e]) simp
qed


text \<open>
  C31: Away from the end of the 64-bit range a reservation succeeds: it reports the \<open>nb\<close> values that were asked for,
  which step by the increment, start above the counter and end at the new counter. With an increment above one, the
  first of them is the smallest value of the progression \<open>offset\<close>, \<open>offset + inc\<close>, \<open>offset + 2 inc\<close> and so on above the
  counter; values below the offset are not used, also where the offset exceeds the increment. With increment one
  the offset plays no part.
\<close>

theorem auto_inc_reserve_correct:
  assumes "offset \<noteq> 0" "inc \<noteq> 0" "nb \<noteq> 0"
    and "unat (auto_inc s) + unat offset + unat inc + unat nb * unat inc < 2 ^ 64 - 1"
  shows "\<exists>v hi. fm_core_auto_inc_reserve s offset inc nb = (v, Some nb, s\<lparr>auto_inc := hi\<rparr>)
    \<and> auto_inc s < v \<and> unat hi = unat v + (unat nb - 1) * unat inc
    \<and> (inc = 1 \<longrightarrow> v = auto_inc s + 1)
    \<and> (1 < inc \<longrightarrow> unat offset \<le> unat v \<and> (unat v - unat offset) mod unat inc = 0
        \<and> (\<forall>n. unat (auto_inc s) < unat offset + n * unat inc \<longrightarrow> unat v \<le> unat offset + n * unat inc))"
proof (rule reserve_target_values [OF assms])
  fix v hi
  assume *: "reserve_target (auto_inc s) offset inc nb = Some (v, hi)" "auto_inc s < v"
    "unat hi = unat v + (unat nb - 1) * unat inc" "unat v < max (unat (auto_inc s) + 1) (unat offset) + unat inc"
    "1 < inc \<longrightarrow> unat offset \<le> unat v \<and> (unat v - unat offset) mod unat inc = 0" "inc = 1 \<longrightarrow> v = auto_inc s + 1"
  have "fm_core_auto_inc_reserve s offset inc nb = (v, Some nb, s\<lparr>auto_inc := hi\<rparr>)"
    using assms(3) *(1) by (simp add: fm_core_auto_inc_reserve_def)
  moreover have "unat v \<le> unat offset + n * unat inc" if "1 < inc" "unat (auto_inc s) < unat offset + n * unat inc" for n
  proof (rule least_of_progression)
    show "unat offset \<le> unat v" "(unat v - unat offset) mod unat inc = 0" using *(5) that(1) by simp_all
    show "unat v < max (unat (auto_inc s) + 1) (unat offset) + unat inc" by (rule *(4))
    show "unat (auto_inc s) < unat offset + n * unat inc" by (rule that(2))
  qed
  ultimately show ?thesis using * by (intro exI [of _ v] exI [of _ hi]) blast
qed

theorem auto_inc_reserve_correct_witness:
  "\<exists>v r s'. fm_core_auto_inc_reserve (undefined\<lparr>auto_inc := 12\<rparr>) 5 10 2 = (v, r, s') \<and> r = Some 2 \<and> 12 < v
    \<and> unat (auto_inc s') = unat v + 10 \<and> unat v \<le> 15"
proof -
  let ?s = "undefined\<lparr>auto_inc := 12\<rparr> :: FM_SHARE_CORE"
  obtain v hi where e: "fm_core_auto_inc_reserve ?s 5 10 2 = (v, Some 2, ?s\<lparr>auto_inc := hi\<rparr>)"
    and r: "auto_inc ?s < v" "unat hi = unat v + (unat (2 :: u64) - 1) * unat (10 :: u64)"
      "1 < (10 :: u64) \<longrightarrow> (\<forall>n. unat (auto_inc ?s) < unat (5 :: u64) + n * unat (10 :: u64) \<longrightarrow> unat v \<le> unat (5 :: u64) + n * unat (10 :: u64))"
    using auto_inc_reserve_correct [of 5 10 2 ?s] by auto
  have "12 < v" "unat hi = unat v + 10" "unat v \<le> 15" using r(1,2) spec [OF mp [OF r(3)], of 1] by simp_all
  then show ?thesis by (intro exI [of _ v] exI [of _ "Some 2"] exI [of _ "?s\<lparr>auto_inc := hi\<rparr>"]) (simp add: e)
qed

text \<open>
  Observing a value raises the counter to it and never lowers it, so a value inserted explicitly
  is not handed out again.
\<close>

theorem auto_inc_observe_max:
  "auto_inc (fm_core_auto_inc_observe s value) = max (auto_inc s) value
    \<and> (\<forall>v hi. reserve_target (auto_inc (fm_core_auto_inc_observe s value)) off inc nb = Some (v, hi) \<longrightarrow> value < v)"
proof -
  have m: "auto_inc (fm_core_auto_inc_observe s value) = max (auto_inc s) value"
    by (auto simp: fm_core_auto_inc_observe_def max_def not_less intro: order_less_imp_le)
  moreover have "value < v" if "reserve_target (max (auto_inc s) value) off inc nb = Some (v, hi)" for v hi
    using reserve_target_above(1) [OF that] by (simp add: max_def split: if_splits)
  ultimately show ?thesis by simp
qed

theorem auto_inc_observe_max_witness:
  "auto_inc (fm_core_auto_inc_observe (undefined\<lparr>auto_inc := 3\<rparr>) 9) = max 3 9"
  using auto_inc_observe_max [of "undefined\<lparr>auto_inc := 3\<rparr>" 9 1 1 1] by simp

end
