(* ===== verification/Fm_Def.thy ===== *)
theory Fm_Def
  imports Fm_Key_Hash Fm_Auto_Inc
begin

text \<open>
  The structures of the server side (\<open>src/fm_def.h\<close>): shares, open handles, the statistics and the
  create information, with the error codes and flags the engine uses, and the registry of shares of
  \<open>src/fm_create.cc\<close> as a store of objects.

  An address is a number; \<open>rg_shares\<close> and \<open>rg_infos\<close> are the live objects, and an access to an object
  that has been freed is undefined (\<open>None\<close>). The list threaded through \<open>share_next\<close> is the list of
  addresses \<open>fm_share_list\<close>, the list threaded through \<open>next_open\<close> the list \<open>sh_open_list\<close>.

  \<open>engine_env\<close> are the parameters of the surrounding program: whether the \<open>n\<close>-th allocation succeeds,
  the error it leaves in \<open>my_errno\<close> otherwise, the allocator of the core, the clock, the session limit
  on the table size, the binary character set and whether this is a debug build.
\<close>

section \<open>Error codes and flags\<close>

datatype ha_err =
    HA_OK
  | HA_ERR_RECORD_FILE_FULL
  | HA_ERR_OUT_OF_MEM
  | HA_ERR_RECORD_DELETED
  | HA_ERR_FOUND_DUPP_KEY
  | HA_ERR_KEY_NOT_FOUND
  | HA_ERR_CRASHED
  | HA_ERR_RECORD_CHANGED
  | HA_ERR_END_OF_FILE
  | HA_ERR_WRONG_INDEX
  | HA_ERR_WRONG_COMMAND
  | HA_ERR_UNSUPPORTED
  | HA_ERR_AUTOINC_READ_FAILED
  | ENOENT
  | HA_FAILURE
  | HA_ERRNO nat

datatype ha_state =
    HA_STATE_AKTIV
  | HA_STATE_DELETED
  | HA_STATE_PREV_FOUND
  | HA_STATE_NEXT_FOUND
  | HA_STATE_NO_KEY

section \<open>Shares and open handles\<close>

type_synonym address = nat

record FM_SHARE =
  sh_name :: string
  sh_core :: FM_SHARE_CORE
  sh_keydef :: "FM_KEYDEF list"
  sh_max_key_length :: nat
  sh_open_count :: nat
  sh_delete_on_close :: bool
  sh_internal :: bool
  sh_create_time :: nat
  sh_open_list :: "address list"

definition FM_REF_LENGTH :: nat where
  "FM_REF_LENGTH = 8"

record FM_SLOT_REF =
  ref_slot :: slot_id
  ref_gen :: u32

text \<open>\<open>opt_flag\<close> is the bit \<open>READ_CHECK_USED\<close>, the only one the engine uses.\<close>

record FM_INFO =
  inf_s :: address
  current_slot :: slot_id
  current_gen :: u32
  current_hash_slot :: slot_id
  lastinx :: int
  errkey :: int
  inf_update :: "ha_state set"
  opt_flag :: bool
  inf_mode :: nat
  scan_pos :: nat
  lastkey_len :: nat
  lastkey :: image
  scratch :: image
  open_listed :: bool

record FMINFO =
  fi_records :: int
  fi_deleted :: int
  fi_max_records :: nat
  fi_data_length :: nat
  fi_index_length :: nat
  fi_reclength :: nat
  fi_errkey :: int
  fi_auto_increment :: u64
  fi_create_time :: nat

record FM_CREATE_INFO =
  ci_keydef :: "FM_KEYDEF list"
  ci_keys :: nat
  ci_reclength :: nat
  ci_max_key_length :: nat
  ci_max_records :: nat
  ci_max_table_size :: nat
  ci_auto_increment :: u64
  ci_auto_key :: nat
  ci_auto_key_type :: ha_keytype
  ci_with_auto_increment :: bool
  ci_internal_table :: bool
  ci_pin_share :: bool

section \<open>The registry and its surroundings\<close>

record engine_env =
  env_malloc :: "nat \<Rightarrow> bool"
  env_errno :: ha_err
  fm_core_ops :: FM_SHARE_CORE_OPS
  env_time :: nat
  max_heap_table_size :: nat
  my_charset_bin :: CHARSET_INFO
  env_server :: server
  env_debug :: bool

text \<open>
  \<open>rg_mallocs\<close> counts the requests to the allocator, \<open>rg_live\<close> the blocks that have not been freed,
  \<open>rg_next\<close> is an address that was never used.
\<close>

record fm_registry =
  rg_shares :: "address \<Rightarrow> FM_SHARE option"
  rg_infos :: "address \<Rightarrow> FM_INFO option"
  fm_share_list :: "address list"
  THR_LOCK_fastmem :: bool
  my_errno :: ha_err
  rg_mallocs :: nat
  rg_live :: int
  rg_next :: address

definition my_malloc :: "engine_env \<Rightarrow> fm_registry \<Rightarrow> bool \<times> fm_registry" where
  "my_malloc env r =
     (if env_malloc env (rg_mallocs r) then (True, r\<lparr>rg_mallocs := rg_mallocs r + 1, rg_live := rg_live r + 1\<rparr>)
      else (False, r\<lparr>rg_mallocs := rg_mallocs r + 1, my_errno := env_errno env\<rparr>))"

definition my_free :: "fm_registry \<Rightarrow> fm_registry" where
  "my_free r = r\<lparr>rg_live := rg_live r - 1\<rparr>"

text \<open>The registry mutex is not recursive: a thread that takes it twice waits for itself.\<close>

definition mysql_mutex_lock :: "fm_registry \<Rightarrow> fm_registry option" where
  "mysql_mutex_lock r = (if THR_LOCK_fastmem r then None else Some (r\<lparr>THR_LOCK_fastmem := True\<rparr>))"

definition mysql_mutex_unlock :: "fm_registry \<Rightarrow> fm_registry" where
  "mysql_mutex_unlock r = r\<lparr>THR_LOCK_fastmem := False\<rparr>"

definition put_share :: "fm_registry \<Rightarrow> address \<Rightarrow> FM_SHARE \<Rightarrow> fm_registry" where
  "put_share r i sh = r\<lparr>rg_shares := (rg_shares r)(i \<mapsto> sh)\<rparr>"

definition put_info :: "fm_registry \<Rightarrow> address \<Rightarrow> FM_INFO \<Rightarrow> fm_registry" where
  "put_info r h info = r\<lparr>rg_infos := (rg_infos r)(h \<mapsto> info)\<rparr>"

end
