(* ===== verification/Fm_Create.thy ===== *)
theory Fm_Create
  imports Fm_Def
begin

text \<open>
  The lifecycle of shares (\<open>src/fm_create.cc\<close>): the create information built from a \<open>TABLE\<close>, the
  registry of named shares, and creating, opening, closing, dropping, renaming and freeing them.

  \<open>TABLE\<close>, \<open>KEY\<close>, \<open>KEY_PART_INFO\<close> and \<open>Field\<close> are objects of the server; the records below hold what
  \<open>fm_prepare_create_info\<close> reads of them.
\<close>

section \<open>Registry helpers\<close>

fun find_share_loop :: "fm_registry \<Rightarrow> string \<Rightarrow> address list \<Rightarrow> address option option" where
  "find_share_loop r nm [] = Some None"
| "find_share_loop r nm (i # rest) = do {
     sh \<leftarrow> rg_shares r i;
     if nm = sh_name sh then Some (Some i) else find_share_loop r nm rest }"

definition fm_find_named_share :: "fm_registry \<Rightarrow> string \<Rightarrow> address option option" where
  "fm_find_named_share r nm = find_share_loop r nm (fm_share_list r)"

definition fm_share_list_add :: "fm_registry \<Rightarrow> address \<Rightarrow> fm_registry" where
  "fm_share_list_add r i = r\<lparr>fm_share_list := i # fm_share_list r\<rparr>"

definition fm_share_list_remove :: "fm_registry \<Rightarrow> address \<Rightarrow> fm_registry" where
  "fm_share_list_remove r i = r\<lparr>fm_share_list := remove1 i (fm_share_list r)\<rparr>"

section \<open>Create information from a table\<close>

record Field =
  f_key_type :: ha_keytype
  f_enum_or_set :: bool
  f_charset :: CHARSET_INFO
  f_null :: "(u8 \<times> nat) option"
  f_auto_increment :: bool
  f_bit_len :: nat
  f_bit_ofs :: nat
  f_bit_pos :: nat

record KEY_PART_INFO =
  kp_field :: Field
  kp_offset :: nat
  kp_length :: nat
  kp_flag :: nat

record KEY =
  k_algorithm :: ha_key_alg
  k_flags :: "ha_key_flag set"
  k_parts :: "KEY_PART_INFO list"

record TABLE =
  t_total_keys :: nat
  t_key_info :: "KEY list"
  t_found_next_number_field :: bool
  t_next_number_index :: nat
  t_next_number_key_offset :: nat
  t_reclength :: nat
  t_max_rows :: nat

definition prepare_seg :: "engine_env \<Rightarrow> KEY_PART_INFO \<Rightarrow> HA_KEYSEG" where
  "prepare_seg env kp =
     (let f = kp_field kp; kt = f_key_type f;
          ty = (if kt = HA_KEYTYPE_TEXT \<or> kt = HA_KEYTYPE_VARTEXT1 \<or> kt = HA_KEYTYPE_VARTEXT2 \<or> kt = HA_KEYTYPE_VARBINARY1
                  \<or> kt = HA_KEYTYPE_VARBINARY2 \<or> kt = HA_KEYTYPE_BIT then kt else HA_KEYTYPE_BINARY);
          bitf = (ty = HA_KEYTYPE_BIT)
      in \<lparr>seg_type = ty, seg_charset = (if f_enum_or_set f then my_charset_bin env else f_charset f),
          seg_start = kp_offset kp, seg_length = kp_length kp, seg_flag = kp_flag kp,
          seg_null_bit = (case f_null f of Some (b, p) \<Rightarrow> b | None \<Rightarrow> 0),
          seg_null_pos = (case f_null f of Some (b, p) \<Rightarrow> p | None \<Rightarrow> 0),
          seg_bit_length = (if bitf then f_bit_len f else 0),
          seg_bit_start = (if bitf then f_bit_ofs f else 0),
          seg_bit_pos = (if bitf then f_bit_pos f else 0)\<rparr>)"

text \<open>
  One key. The default branch of the switch is \<open>DBUG_ASSERT(0)\<close>. The branch for \<open>BTREE\<close> keys frees
  the block and then \<open>seg\<close>, an address inside that block: the second \<open>my_free\<close> is undefined.
\<close>

definition prepare_key :: "engine_env \<Rightarrow> KEY \<Rightarrow> FM_KEYDEF option" where
  "prepare_key env k =
     (case k_algorithm k of
        HA_KEY_ALG_BTREE \<Rightarrow> None
      | HA_KEY_ALG_other n \<Rightarrow> None
      | _ \<Rightarrow> Some \<lparr>kd_seg = map (prepare_seg env) (k_parts k), kd_flag = k_flags k \<inter> {HA_NOSAME, HA_NULL_ARE_EQUAL},
               kd_length = 0, kd_algorithm = HA_KEY_ALG_HASH\<rparr>)"

fun prepare_keys :: "engine_env \<Rightarrow> KEY list \<Rightarrow> FM_KEYDEF list option" where
  "prepare_keys env [] = Some []"
| "prepare_keys env (k # ks) = do { kd \<leftarrow> prepare_key env k; kds \<leftarrow> prepare_keys env ks; Some (kd # kds) }"

text \<open>The last part of the auto-increment key that is an auto-increment column.\<close>

definition auto_key_of :: "TABLE \<Rightarrow> nat \<times> ha_keytype" where
  "auto_key_of t =
     (let n = t_next_number_index t;
          ps = (if t_found_next_number_field t \<and> n < length (t_key_info t)
                then filter (\<lambda>kp. f_auto_increment (kp_field kp)) (k_parts (t_key_info t ! n)) else [])
      in if ps = [] then (0, HA_KEYTYPE_other 0) else (n + 1, f_key_type (kp_field (last ps))))"

definition estimate_max_records :: "TABLE \<Rightarrow> nat \<Rightarrow> nat" where
  "estimate_max_records t max_table_size =
     (let slot_sz = unat (fm_align8 (FM_SLOT_DATA_OFFSET + of_nat (t_reclength t)));
          mem_per_row = slot_sz + length (t_key_info t) * 4 + 16;
          m = max_table_size div (if mem_per_row \<noteq> 0 then mem_per_row else 1);
          m1 = (if t_max_rows t \<noteq> 0 \<and> m > t_max_rows t then t_max_rows t else m)
      in if m1 = 0 then 1 else m1)"

text \<open>The second pass over the segments: all variable-length types become \<open>VARTEXT1\<close>, with the size
  of the length bytes in \<open>bit_start\<close>; the number is the packed length of the segment.\<close>

definition finish_seg :: "HA_KEYSEG \<Rightarrow> HA_KEYSEG \<times> nat" where
  "finish_seg s =
     (let len = seg_length s + (if seg_null_bit s \<noteq> 0 then 1 else 0)
      in if seg_type s = HA_KEYTYPE_VARBINARY1 \<or> seg_type s = HA_KEYTYPE_VARTEXT1
         then (s\<lparr>seg_type := HA_KEYTYPE_VARTEXT1, seg_bit_start := 1\<rparr>, len + 2)
         else if seg_type s = HA_KEYTYPE_VARBINARY2 \<or> seg_type s = HA_KEYTYPE_VARTEXT2
         then (s\<lparr>seg_type := HA_KEYTYPE_VARTEXT1, seg_bit_start := 2\<rparr>, len + 2)
         else (s, len))"

definition finish_key :: "FM_KEYDEF \<Rightarrow> FM_KEYDEF" where
  "finish_key kd = kd\<lparr>kd_seg := map (fst \<circ> finish_seg) (kd_seg kd), kd_length := sum_list (map (snd \<circ> finish_seg) (kd_seg kd))\<rparr>"

definition max_key_len_of :: "FM_KEYDEF list \<Rightarrow> nat" where
  "max_key_len_of kds = foldr max (map kd_length kds) 0"

definition fm_prepare_create_info ::
  "engine_env \<Rightarrow> TABLE \<Rightarrow> bool \<Rightarrow> fm_registry \<Rightarrow> (ha_err \<times> FM_CREATE_INFO option \<times> fm_registry) option" where
  "fm_prepare_create_info env t internal_table r =
     (if t_total_keys t > length (t_key_info t) then Some (HA_ERR_UNSUPPORTED, None, r)
      else let (ok, r1) = my_malloc env r
      in if \<not> ok then Some (my_errno r1, None, r1)
      else do {
        kds0 \<leftarrow> prepare_keys env (t_key_info t);
        let n = t_next_number_index t;
        assert_that (t_found_next_number_field t \<longrightarrow> n < length kds0);
        let kds1 = (if t_found_next_number_field t
                    then kds0[n := (kds0 ! n)\<lparr>kd_flag := kd_flag (kds0 ! n) \<union> {HA_AUTO_KEY}\<rparr>] else kds0);
        let kds = map finish_key kds1;
        let max_table_size = max (max_heap_table_size env) 8;
        Some (HA_OK, Some \<lparr>ci_keydef = kds, ci_keys = length kds, ci_reclength = t_reclength t,
            ci_max_key_length = max_key_len_of kds, ci_max_records = estimate_max_records t max_table_size,
            ci_max_table_size = max_table_size, ci_auto_increment = 0, ci_auto_key = fst (auto_key_of t),
            ci_auto_key_type = snd (auto_key_of t),
            ci_with_auto_increment = (t_found_next_number_field t \<and> t_next_number_key_offset t = 0),
            ci_internal_table = internal_table, ci_pin_share = False\<rparr>, r1) })"

section \<open>Free\<close>

definition fm_free :: "fm_registry \<Rightarrow> address \<Rightarrow> fm_registry option" where
  "fm_free r i = do {
     sh \<leftarrow> rg_shares r i;
     let r1 = (if sh_internal sh then r else fm_share_list_remove r i);
     core \<leftarrow> fm_core_free_share (sh_core sh);
     Some (my_free (my_free (r1\<lparr>rg_shares := (rg_shares r1)(i := None)\<rparr>))) }"

section \<open>Create\<close>

text \<open>The loop starts at 1024; the test \<open>0 < nb\<close> only excludes a start at 0, which never happens.\<close>

function bucket_loop :: "nat \<Rightarrow> nat \<Rightarrow> nat" where
  "bucket_loop mr nb =
     (if nb < mr div 4 \<and> nb < 2 ^ 20 \<and> 0 < nb then bucket_loop mr (2 * nb) else nb)"
  by pat_completeness auto
termination
  by (relation "measure (\<lambda>(m, nb). 2 ^ 20 - nb)") auto

text \<open>
  The share as \<open>fm_create\<close> builds it in fresh memory. \<open>max_records\<close> and \<open>nbuckets\<close> are narrowed to
  32 bits by the call of \<open>fm_core_init_share\<close>.
\<close>

definition new_share :: "engine_env \<Rightarrow> string \<Rightarrow> FM_CREATE_INFO \<Rightarrow> FM_SHARE" where
  "new_share env nm ci =
     (let nbuckets = bucket_loop (ci_max_records ci) 1024;
          core = fm_core_init_share (fm_core_ops env) (ci_reclength ci) (ci_keys ci) (u32_of (ci_max_records ci)) (of_nat nbuckets)
      in \<lparr>sh_name = nm,
          sh_core = core\<lparr>auto_key := ci_auto_key ci, auto_key_type := ci_auto_key_type ci, auto_inc := ci_auto_increment ci\<rparr>,
          sh_keydef = ci_keydef ci, sh_max_key_length = ci_max_key_length ci, sh_open_count = 0,
          sh_delete_on_close = ci_internal_table ci, sh_internal = ci_internal_table ci,
          sh_create_time = env_time env, sh_open_list = []\<rparr>)"

text \<open>The error exit: the registry is unlocked, then the core and the share are freed.\<close>

definition create_err :: "fm_registry \<Rightarrow> bool \<Rightarrow> FM_SHARE option
    \<Rightarrow> (ha_err \<times> address option \<times> bool \<times> fm_registry) option" where
  "create_err r internal sh =
     (let r1 = (if internal then r else mysql_mutex_unlock r)
      in case sh of
           None \<Rightarrow> Some (HA_FAILURE, None, True, r1)
         | Some s \<Rightarrow> do { core \<leftarrow> fm_core_free_share (sh_core s); Some (HA_FAILURE, None, True, my_free r1) })"

definition fm_create :: "engine_env \<Rightarrow> string \<Rightarrow> FM_CREATE_INFO \<Rightarrow> bool \<Rightarrow> fm_registry
    \<Rightarrow> (ha_err \<times> address option \<times> bool \<times> fm_registry) option" where
  "fm_create env nm ci pin_share r = do {
     let internal = ci_internal_table ci;
     (found, r1) \<leftarrow> (if internal then Some (None, r)
       else do {
         r0 \<leftarrow> mysql_mutex_lock r;
         f \<leftarrow> fm_find_named_share r0 nm;
         case f of
           None \<Rightarrow> Some (None, r0)
         | Some i \<Rightarrow> do {
             sh \<leftarrow> rg_shares r0 i;
             if sh_open_count sh = 0 then do { r2 \<leftarrow> fm_free r0 i; Some (None, r2) } else Some (Some i, r0) } });
     case found of
       Some i \<Rightarrow> do {
         sh \<leftarrow> rg_shares r1 i;
         let r2 = (if pin_share then put_share r1 i (sh\<lparr>sh_open_count := sh_open_count sh + 1\<rparr>) else r1);
         Some (HA_OK, Some i, False, mysql_mutex_unlock r2) }
     | None \<Rightarrow>
         (let (ok, r2) = my_malloc env r1
          in if \<not> ok then create_err r2 internal None
          else let sh = new_share env nm ci
          in if \<not> has_chunks (sh_core sh) then create_err r2 internal (Some sh)
          else let (ok2, r3) = my_malloc env r2
          in if \<not> ok2 then create_err r3 internal (Some sh)
          else let i = rg_next r3;
                   sh' = (if \<not> internal \<and> pin_share then sh\<lparr>sh_open_count := 1\<rparr> else sh);
                   r4 = (put_share r3 i sh')\<lparr>rg_next := i + 1\<rparr>;
                   r5 = (if internal then r4 else mysql_mutex_unlock (fm_share_list_add r4 i))
               in Some (HA_OK, Some i, True, r5)) }"

section \<open>Open and close\<close>

definition fresh_info :: "engine_env \<Rightarrow> address \<Rightarrow> FM_SHARE \<Rightarrow> nat \<Rightarrow> FM_INFO" where
  "fresh_info env i sh md = \<lparr>inf_s = i, current_slot = -1, current_gen = 0, current_hash_slot = -1, lastinx = -1,
     errkey = -1, inf_update = {}, opt_flag = env_debug env, inf_mode = md, scan_pos = 0, lastkey_len = 0,
     lastkey = replicate (sh_max_key_length sh) 0, scratch = replicate (reclength (sh_core sh)) 0, open_listed = False\<rparr>"

definition fm_open_from_share_locked ::
  "engine_env \<Rightarrow> address \<Rightarrow> nat \<Rightarrow> fm_registry \<Rightarrow> (address option \<times> fm_registry) option" where
  "fm_open_from_share_locked env i md r = do {
     sh \<leftarrow> rg_shares r i;
     let (ok, r1) = my_malloc env r;
     if \<not> ok then Some (None, r1)
     else let h = rg_next r1
          in Some (Some h, (put_info (put_share r1 i (sh\<lparr>sh_open_count := sh_open_count sh + 1\<rparr>)) h
                (fresh_info env i sh md))\<lparr>rg_next := h + 1\<rparr>) }"

definition fm_open_from_share ::
  "engine_env \<Rightarrow> address \<Rightarrow> nat \<Rightarrow> fm_registry \<Rightarrow> (address option \<times> fm_registry) option" where
  "fm_open_from_share env i md r = fm_open_from_share_locked env i md r"

definition list_info :: "fm_registry \<Rightarrow> address \<Rightarrow> address \<Rightarrow> fm_registry option" where
  "list_info r i h = do {
     sh \<leftarrow> rg_shares r i;
     info \<leftarrow> rg_infos r h;
     Some (put_info (put_share r i (sh\<lparr>sh_open_list := h # sh_open_list sh\<rparr>)) h (info\<lparr>open_listed := True\<rparr>)) }"

definition fm_open_from_share_and_register ::
  "engine_env \<Rightarrow> address \<Rightarrow> nat \<Rightarrow> fm_registry \<Rightarrow> (address option \<times> fm_registry) option" where
  "fm_open_from_share_and_register env i md r = do {
     r0 \<leftarrow> mysql_mutex_lock r;
     (h, r1) \<leftarrow> fm_open_from_share_locked env i md r0;
     case h of
       None \<Rightarrow> Some (None, mysql_mutex_unlock r1)
     | Some a \<Rightarrow> do {
         r2 \<leftarrow> list_info r1 i a;
         sh \<leftarrow> rg_shares r2 i;
         let r3 = put_share r2 i (sh\<lparr>sh_open_count := sh_open_count sh - 1\<rparr>);
         Some (Some a, mysql_mutex_unlock r3) } }"

definition fm_open :: "engine_env \<Rightarrow> string \<Rightarrow> nat \<Rightarrow> fm_registry \<Rightarrow> (address option \<times> fm_registry) option" where
  "fm_open env nm md r = do {
     r0 \<leftarrow> mysql_mutex_lock r;
     f \<leftarrow> fm_find_named_share r0 nm;
     case f of
       None \<Rightarrow> Some (None, mysql_mutex_unlock (r0\<lparr>my_errno := ENOENT\<rparr>))
     | Some i \<Rightarrow> do {
         (h, r1) \<leftarrow> fm_open_from_share_locked env i md r0;
         case h of
           None \<Rightarrow> Some (None, mysql_mutex_unlock r1)
         | Some a \<Rightarrow> do { r2 \<leftarrow> list_info r1 i a; Some (Some a, mysql_mutex_unlock r2) } } }"

text \<open>\<open>!--share->open_count\<close> on a count that is already 0 would wrap.\<close>

definition dec_count :: "nat \<Rightarrow> nat" where
  "dec_count n = (if n = 0 then 2 ^ 32 - 1 else n - 1)"

definition fm_close :: "fm_registry \<Rightarrow> address \<Rightarrow> fm_registry option" where
  "fm_close r h = do {
     info \<leftarrow> rg_infos r h;
     let i = inf_s info;
     r0 \<leftarrow> mysql_mutex_lock r;
     sh \<leftarrow> rg_shares r0 i;
     let sh1 = (if open_listed info then sh\<lparr>sh_open_list := remove1 h (sh_open_list sh)\<rparr> else sh);
     let sh2 = sh1\<lparr>sh_open_count := dec_count (sh_open_count sh1)\<rparr>;
     let r1 = put_share r0 i sh2;
     r2 \<leftarrow> (if sh_open_count sh2 = 0 \<and> sh_delete_on_close sh2 then fm_free r1 i else Some r1);
     Some (mysql_mutex_unlock (my_free (r2\<lparr>rg_infos := (rg_infos r2)(h := None)\<rparr>))) }"

definition fm_release_share :: "fm_registry \<Rightarrow> address \<Rightarrow> bool \<Rightarrow> fm_registry option" where
  "fm_release_share r i internal_table =
     (if internal_table then fm_free r i
      else do {
        r0 \<leftarrow> mysql_mutex_lock r;
        sh \<leftarrow> rg_shares r0 i;
        let n = dec_count (sh_open_count sh);
        let r1 = put_share r0 i (sh\<lparr>sh_open_count := n\<rparr>);
        r2 \<leftarrow> (if n = 0 then fm_free r1 i else Some r1);
        Some (mysql_mutex_unlock r2) })"

section \<open>Drop, rename, clear\<close>

definition fm_try_free :: "fm_registry \<Rightarrow> address \<Rightarrow> fm_registry option" where
  "fm_try_free r i = do {
     sh \<leftarrow> rg_shares r i;
     if sh_open_count sh = 0 then fm_free r i else Some (put_share r i (sh\<lparr>sh_delete_on_close := True\<rparr>)) }"

definition fm_delete_table :: "fm_registry \<Rightarrow> string \<Rightarrow> (ha_err \<times> fm_registry) option" where
  "fm_delete_table r nm = do {
     r0 \<leftarrow> mysql_mutex_lock r;
     f \<leftarrow> fm_find_named_share r0 nm;
     case f of
       Some i \<Rightarrow> do { r1 \<leftarrow> fm_try_free r0 i; Some (HA_OK, mysql_mutex_unlock r1) }
     | None \<Rightarrow> Some (ENOENT, mysql_mutex_unlock (r0\<lparr>my_errno := ENOENT\<rparr>)) }"

definition fm_drop_table :: "fm_registry \<Rightarrow> address \<Rightarrow> fm_registry option" where
  "fm_drop_table r h = do {
     info \<leftarrow> rg_infos r h;
     r0 \<leftarrow> mysql_mutex_lock r;
     r1 \<leftarrow> fm_try_free r0 (inf_s info);
     Some (mysql_mutex_unlock r1) }"

definition fm_rename :: "engine_env \<Rightarrow> fm_registry \<Rightarrow> string \<Rightarrow> string \<Rightarrow> (ha_err \<times> fm_registry) option" where
  "fm_rename env r old_name new_name = do {
     r0 \<leftarrow> mysql_mutex_lock r;
     f \<leftarrow> fm_find_named_share r0 old_name;
     case f of
       None \<Rightarrow> Some (HA_OK, mysql_mutex_unlock r0)
     | Some i \<Rightarrow>
         (let (ok, r1) = my_malloc env r0
          in if \<not> ok then Some (my_errno r1, mysql_mutex_unlock r1)
          else do { sh \<leftarrow> rg_shares r1 i; Some (HA_OK, mysql_mutex_unlock (my_free (put_share r1 i (sh\<lparr>sh_name := new_name\<rparr>)))) }) }"

definition fm_clear :: "FM_SHARE \<Rightarrow> FM_INFO \<Rightarrow> (FM_INFO \<times> FM_SHARE) option" where
  "fm_clear sh info = do {
     core \<leftarrow> fm_core_clear (sh_core sh);
     Some (info\<lparr>current_slot := -1, current_hash_slot := -1, lastinx := -1, inf_update := {}\<rparr>, sh\<lparr>sh_core := core\<rparr>) }"

section \<open>Sizes\<close>

declare bucket_loop.simps [simp del]

lemma bucket_loop_pow:
  assumes "nb = 2 ^ k" "10 \<le> k" "k \<le> 20"
  shows "\<exists>j. k \<le> j \<and> j \<le> 20 \<and> bucket_loop mr nb = 2 ^ j \<and> (mr div 4 \<le> 2 ^ j \<or> j = 20) \<and> (j = k \<or> 2 ^ j < 2 * (mr div 4))"
  using assms
proof (induction mr nb arbitrary: k rule: bucket_loop.induct)
  case (1 mr nb)
  show ?case
  proof (cases "nb < mr div 4 \<and> nb < 2 ^ 20 \<and> 0 < nb")
    case True
    have "k < 20" using True 1(2,4) by (cases "k = 20") auto
    moreover have "2 * nb = 2 ^ (k + 1)" using 1(2) by simp
    ultimately obtain j where j: "k + 1 \<le> j" "j \<le> 20" "bucket_loop mr (2 * nb) = 2 ^ j" "mr div 4 \<le> 2 ^ j \<or> j = 20"
      "j = k + 1 \<or> 2 ^ j < 2 * (mr div 4)"
      using 1(1) [OF True, of "k + 1"] 1(3) by auto
    have "bucket_loop mr nb = 2 ^ j" using True j(3) bucket_loop.simps [of mr nb] by simp
    with j True 1(2) show ?thesis by (intro exI [of _ j]) auto
  next
    case False
    have "k = 20" if "\<not> nb < 2 ^ 20"
      using that 1(2,4) power_strict_increasing [of k 20 "2 :: nat"] by (cases "k = 20") auto
    moreover have "bucket_loop mr nb = nb" using False by (subst bucket_loop.simps) auto
    ultimately show ?thesis using False 1(2,4) by (intro exI [of _ k]) auto
  qed
qed

text \<open>
  C32: Every hash table of a new share has a power of two of buckets, at least 1024 and at most \<open>2\<^sup>2\<^sup>0\<close>; the number is at least a
  quarter of the row limit unless it is at the maximum, and above the minimum it is less than half the row limit.
\<close>

theorem bucket_count_bounds:
  assumes "kc \<in> set (keydef (sh_core (new_share env nm ci)))"
  shows "\<exists>k. unat (kc_nbuckets kc) = 2 ^ k \<and> 10 \<le> k \<and> k \<le> 20 \<and> (ci_max_records ci div 4 \<le> 2 ^ k \<or> k = 20)
    \<and> (k = 10 \<or> 2 ^ k < 2 * (ci_max_records ci div 4))"
proof -
  obtain j where j: "10 \<le> j" "j \<le> 20" "bucket_loop (ci_max_records ci) 1024 = 2 ^ j" "ci_max_records ci div 4 \<le> 2 ^ j \<or> j = 20"
    "j = 10 \<or> 2 ^ j < 2 * (ci_max_records ci div 4)" using bucket_loop_pow [of 1024 10 "ci_max_records ci"] by auto
  have lt: "(2 :: nat) ^ j < 2 ^ 32" using j(2) by (intro power_strict_increasing) simp_all
  then have u: "unat (of_nat (2 ^ j) :: u32) = 2 ^ j" by (simp only: unat_of_nat) simp
  then have nz: "(of_nat (2 ^ j) :: u32) \<noteq> 0" by (metis power_not_zero unat_0 zero_neq_numeral)
  from assms have "kc_nbuckets kc = (if (of_nat (2 ^ j) :: u32) \<noteq> 0 then of_nat (2 ^ j) else 1024)"
    unfolding new_share_def Let_def j(3) by (intro init_share_shape(3) [OF refl]) simp
  then have "unat (kc_nbuckets kc) = 2 ^ j" using nz u by simp
  with j show ?thesis by blast
qed

lemma estimate_bounds:
  "1 \<le> estimate_max_records t lim
    \<and> (t_max_rows t = 0 \<or> estimate_max_records t lim \<le> t_max_rows t)
    \<and> (estimate_max_records t lim = 1 \<or>
       estimate_max_records t lim * (unat (fm_align8 (FM_SLOT_DATA_OFFSET + of_nat (t_reclength t))) + length (t_key_info t) * 4 + 16) \<le> lim)"
proof -
  define mem where "mem = unat (fm_align8 (FM_SLOT_DATA_OFFSET + of_nat (t_reclength t))) + length (t_key_info t) * 4 + 16"
  have d: "(lim div mem) * mem \<le> lim" by simp
  have e: "estimate_max_records t lim = (let m = lim div mem; m1 = (if t_max_rows t \<noteq> 0 \<and> m > t_max_rows t then t_max_rows t else m)
      in if m1 = 0 then 1 else m1)"
    by (simp add: estimate_max_records_def mem_def Let_def)
  have "t_max_rows t * mem \<le> lim" if "t_max_rows t < lim div mem"
    using that d by (meson less_imp_le mult_le_mono1 order_trans)
  then show ?thesis using d unfolding e mem_def [symmetric] by (auto simp: Let_def)
qed

section \<open>Prepared keys\<close>

lemma prepare_keys_SomeD:
  assumes "prepare_keys env ks = Some kds"
  shows "length kds = length ks \<and> (\<forall>i < length ks. prepare_key env (ks ! i) = Some (kds ! i))"
  using assms
proof (induction ks arbitrary: kds)
  case (Cons k ks)
  then obtain kd kds' where "prepare_key env k = Some kd" "prepare_keys env ks = Some kds'" "kds = kd # kds'"
    by (auto simp: bind_eq_Some_conv)
  with Cons.IH [of kds'] show ?case by (auto simp: nth_Cons split: nat.split)
qed simp

lemma max_key_len_ge: "kd \<in> set kds \<Longrightarrow> kd_length kd \<le> max_key_len_of kds"
  unfolding max_key_len_of_def by (induction kds) auto

text \<open>
  What is assumed of the parts of a key. Of the server: the collation is an equivalence that the hash respects, and a bit
  field has a byte in the key. Of the table: a bit field with bits outside its bytes is only the last part. Nothing enforces
  the second; the engine accepts such a field anywhere, and with a part behind it its key comparison is off by a byte
  (\<open>bit_key_misaligned\<close>).
\<close>

definition part_ok :: "engine_env \<Rightarrow> KEY_PART_INFO \<Rightarrow> bool" where
  "part_ok env kp \<longleftrightarrow> charset_ok (seg_charset (prepare_seg env kp))
     \<and> (f_key_type (kp_field kp) = HA_KEYTYPE_BIT \<longrightarrow> 0 < kp_length kp)"

definition key_parts_ok :: "engine_env \<Rightarrow> KEY \<Rightarrow> bool" where
  "key_parts_ok env k \<longleftrightarrow> (\<forall>kp \<in> set (k_parts k). part_ok env kp)
     \<and> (\<forall>kp \<in> set (butlast (k_parts k)). f_key_type (kp_field kp) = HA_KEYTYPE_BIT \<longrightarrow> f_bit_len (kp_field kp) = 0)"

text \<open>The four segment types the hash and comparison routines know.\<close>

definition seg_prepared :: "HA_KEYSEG \<Rightarrow> bool" where
  "seg_prepared seg \<longleftrightarrow> seg_type seg \<in> {HA_KEYTYPE_TEXT, HA_KEYTYPE_VARTEXT1, HA_KEYTYPE_BIT, HA_KEYTYPE_BINARY}
     \<and> (seg_type seg = HA_KEYTYPE_VARTEXT1 \<longrightarrow> seg_bit_start seg \<in> {1, 2})"

lemma finish_prepare_seg:
  "seg_prepared (fst (finish_seg (prepare_seg env kp)))"
  "seg_charset (fst (finish_seg (prepare_seg env kp))) = seg_charset (prepare_seg env kp)"
  "seg_length (fst (finish_seg (prepare_seg env kp))) = kp_length kp"
  "seg_type (fst (finish_seg (prepare_seg env kp))) = HA_KEYTYPE_BIT \<longleftrightarrow> f_key_type (kp_field kp) = HA_KEYTYPE_BIT"
  by (auto simp: finish_seg_def prepare_seg_def seg_prepared_def Let_def)

lemma finish_bit_seg:
  "bit_seg (fst (finish_seg (prepare_seg env kp))) \<Longrightarrow> f_key_type (kp_field kp) = HA_KEYTYPE_BIT \<and> f_bit_len (kp_field kp) \<noteq> 0"
  by (auto simp: bit_seg_def finish_seg_def prepare_seg_def Let_def split: if_splits)

lemma finish_seg_space: "snd (finish_seg s) = seg_space (fst (finish_seg s))"
  by (auto simp: finish_seg_def seg_space_def Let_def)

lemma finish_seg_ok: "part_ok env kp \<Longrightarrow> seg_ok (fst (finish_seg (prepare_seg env kp)))"
  using finish_prepare_seg [where env = env and kp = kp]
  by (auto simp: part_ok_def seg_ok_def seg_prepared_def bit_seg_def)


lemma finish_prepare_key:
  assumes p: "prepare_key env k = Some kd"
  shows "kd_algorithm (finish_key kd) = HA_KEY_ALG_HASH" "kd_flag (finish_key kd) = k_flags k \<inter> {HA_NOSAME, HA_NULL_ARE_EQUAL}"
    "kd_seg (finish_key kd) = map (\<lambda>kp. fst (finish_seg (prepare_seg env kp))) (k_parts k)"
    "kd_length (finish_key kd) = sum_list (map seg_space (kd_seg (finish_key kd)))"
  using p by (auto simp: prepare_key_def finish_key_def finish_seg_space comp_def split: ha_key_alg.splits)

text \<open>The bytes \<open>fm_make_key\<close> writes for a segment fit the space the packed length counts for it.\<close>

lemma make_key_seg_space:
  assumes "seg_prepared seg" "bit_seg seg \<Longrightarrow> 0 < seg_length seg"
  shows "length (make_key_seg sv rec seg) \<le> seg_space seg"
  using assms by (auto simp: make_key_seg_def seg_space_def seg_prepared_def bit_seg_def Let_def)

lemma make_key_space:
  assumes "\<forall>seg \<in> set segs. seg_prepared seg \<and> (bit_seg seg \<longrightarrow> 0 < seg_length seg)"
  shows "length (concat (map (make_key_seg sv rec) segs)) \<le> sum_list (map seg_space segs)"
  using assms
proof (induction segs)
  case (Cons seg segs)
  then show ?case using make_key_seg_space [of seg sv rec] by simp
qed simp

lemma prepared_seg_sound:
  assumes ok: "key_parts_ok env k" and s: "kd_seg kd = map (\<lambda>kp. fst (finish_seg (prepare_seg env kp))) (k_parts k)"
  shows "keydef_ok kd" "bits_last kd"
proof -
  show "keydef_ok kd" using ok finish_seg_ok by (auto simp: keydef_ok_def s key_parts_ok_def)
  show "bits_last kd" using ok
    by (auto simp: bits_last_def s key_parts_ok_def simp flip: map_butlast dest: finish_bit_seg)
qed

text \<open>The keys of a successful \<open>fm_prepare_create_info\<close>, key by key.\<close>

lemma fm_prepare_create_info_OK:
  assumes p: "fm_prepare_create_info env t internal r = Some (HA_OK, Some ci, r')"
  shows "length (ci_keydef ci) = length (t_key_info t)" "ci_keys ci = length (t_key_info t)"
    "ci_max_key_length ci = max_key_len_of (ci_keydef ci)"
    "k < length (t_key_info t) \<Longrightarrow> kd_algorithm (ci_keydef ci ! k) = HA_KEY_ALG_HASH
       \<and> kd_flag (ci_keydef ci ! k) = k_flags (t_key_info t ! k) \<inter> {HA_NOSAME, HA_NULL_ARE_EQUAL}
           \<union> (if t_found_next_number_field t \<and> k = t_next_number_index t then {HA_AUTO_KEY} else {})
       \<and> kd_seg (ci_keydef ci ! k) = map (\<lambda>kp. fst (finish_seg (prepare_seg env kp))) (k_parts (t_key_info t ! k))
       \<and> kd_length (ci_keydef ci ! k) = sum_list (map seg_space (kd_seg (ci_keydef ci ! k)))"
proof -
  obtain kds0 where k0: "prepare_keys env (t_key_info t) = Some kds0"
    and n: "t_found_next_number_field t \<longrightarrow> t_next_number_index t < length kds0"
    and ci: "ci_keydef ci = map finish_key (if t_found_next_number_field t
        then kds0[t_next_number_index t := (kds0 ! t_next_number_index t)\<lparr>kd_flag := kd_flag (kds0 ! t_next_number_index t) \<union> {HA_AUTO_KEY}\<rparr>]
        else kds0)" "ci_keys ci = length (ci_keydef ci)" "ci_max_key_length ci = max_key_len_of (ci_keydef ci)"
    using p by (auto simp: fm_prepare_create_info_def Let_def bind_eq_Some_conv assert_that_def split: if_splits prod.splits)
  note kd = prepare_keys_SomeD [OF k0]
  show l: "length (ci_keydef ci) = length (t_key_info t)" using kd by (simp add: ci(1))
  then show "ci_keys ci = length (t_key_info t)" "ci_max_key_length ci = max_key_len_of (ci_keydef ci)" by (simp_all add: ci(2,3))
  assume k: "k < length (t_key_info t)"
  have f: "finish_key (x\<lparr>kd_flag := fl\<rparr>) = (finish_key x)\<lparr>kd_flag := fl\<rparr>" for x fl by (simp add: finish_key_def)
  have g: "kd_flag (finish_key x) = kd_flag x" for x by (simp add: finish_key_def)
  have l: "kd_length (x\<lparr>kd_flag := fl\<rparr>) = kd_length x" for x fl by simp
  show "kd_algorithm (ci_keydef ci ! k) = HA_KEY_ALG_HASH
       \<and> kd_flag (ci_keydef ci ! k) = k_flags (t_key_info t ! k) \<inter> {HA_NOSAME, HA_NULL_ARE_EQUAL}
           \<union> (if t_found_next_number_field t \<and> k = t_next_number_index t then {HA_AUTO_KEY} else {})
       \<and> kd_seg (ci_keydef ci ! k) = map (\<lambda>kp. fst (finish_seg (prepare_seg env kp))) (k_parts (t_key_info t ! k))
       \<and> kd_length (ci_keydef ci ! k) = sum_list (map seg_space (kd_seg (ci_keydef ci ! k)))"
    using finish_prepare_key [of env "t_key_info t ! k" "kds0 ! k"] kd k n by (auto simp: ci(1) nth_list_update f g)
qed

text \<open>When it succeeds: no key beyond the ordinary ones, only hash keys, and memory for the keys.\<close>

definition table_supported :: "TABLE \<Rightarrow> bool" where
  "table_supported t \<longleftrightarrow> t_total_keys t \<le> length (t_key_info t)
     \<and> (\<forall>k \<in> set (t_key_info t). k_algorithm k \<in> {HA_KEY_ALG_UNDEF, HA_KEY_ALG_HASH})
     \<and> (t_found_next_number_field t \<longrightarrow> t_next_number_index t < length (t_key_info t))"

lemma prepare_keys_ok:
  "\<forall>k \<in> set ks. k_algorithm k \<in> {HA_KEY_ALG_UNDEF, HA_KEY_ALG_HASH} \<Longrightarrow> \<exists>kds. prepare_keys env ks = Some kds"
  by (induction ks) (auto simp: prepare_key_def)

lemma fm_prepare_create_info_supported:
  assumes s: "table_supported t" and m: "env_malloc env (rg_mallocs r)"
  obtains ci where "fm_prepare_create_info env t internal r
      = Some (HA_OK, Some ci, r\<lparr>rg_mallocs := rg_mallocs r + 1, rg_live := rg_live r + 1\<rparr>)"
    "ci_reclength ci = t_reclength t" "ci_max_records ci = estimate_max_records t (max (max_heap_table_size env) 8)"
    "ci_internal_table ci = internal" "ci_auto_key ci = fst (auto_key_of t)" "ci_auto_increment ci = 0"
proof -
  obtain kds where k: "prepare_keys env (t_key_info t) = Some kds" using prepare_keys_ok [of "t_key_info t" env] s unfolding table_supported_def by blast
  have "t_found_next_number_field t \<longrightarrow> t_next_number_index t < length kds" "\<not> t_total_keys t > length (t_key_info t)"
    using s prepare_keys_SomeD [OF k] by (auto simp: table_supported_def)
  then show thesis
    using k m that unfolding fm_prepare_create_info_def by (simp add: my_malloc_def Let_def)
qed

text \<open>
  C22: Every key of a prepared table is a hash key over the four segment types the engine knows, with the size of a \<open>VARCHAR\<close>
  length in \<open>bit_start\<close>, and the flag \<open>HA_NULL_PART_KEY\<close> is never set. Its packed length is the space its segments take in a
  packed key, null markers and two-byte lengths included, and at most the size of the key buffer of a handle: packing any
  record into such a buffer writes nothing behind it, provided that bit fields have a byte in the key. If moreover the collations are
  sound and a bit field with loose bits is only ever the last part of its key, the callbacks keep the contract of the core.
\<close>

theorem prepared_keys_sound:
  assumes p: "fm_prepare_create_info env t internal r = Some (HA_OK, Some ci, r')" and kd: "kd \<in> set (ci_keydef ci)"
  shows "kd_algorithm kd = HA_KEY_ALG_HASH \<and> HA_NULL_PART_KEY \<notin> kd_flag kd \<and> (\<forall>seg \<in> set (kd_seg kd). seg_prepared seg)
    \<and> kd_length kd = sum_list (map seg_space (kd_seg kd)) \<and> kd_length kd \<le> ci_max_key_length ci
    \<and> ((\<forall>seg \<in> set (kd_seg kd). bit_seg seg \<longrightarrow> 0 < seg_length seg) \<longrightarrow> length buf = ci_max_key_length ci
        \<longrightarrow> length (fm_make_key sv kd buf rec) = ci_max_key_length ci)
    \<and> ((\<forall>k \<in> set (t_key_info t). key_parts_ok env k) \<longrightarrow> contract_ok (fm_key_ops sv kd))"
proof -
  note c = fm_prepare_create_info_OK [OF p]
  obtain k where k: "k < length (t_key_info t)" "kd = ci_keydef ci ! k" using kd c(1) by (metis in_set_conv_nth)
  note q = c(4) [OF k(1), folded k(2)]
  have "contract_ok (fm_key_ops sv kd)" if "\<forall>k \<in> set (t_key_info t). key_parts_ok env k"
  proof -
    have "key_parts_ok env (t_key_info t ! k)" using that k(1) by simp
    from prepared_seg_sound [OF this, of kd] q show ?thesis
      by (intro sound_keydef.contract_ok_keydef sound_keydef.intro) auto
  qed
  moreover have le: "kd_length kd \<le> ci_max_key_length ci" using max_key_len_ge [OF kd] c(3) by simp
  moreover have sp: "\<forall>seg \<in> set (kd_seg kd). seg_prepared seg" using q finish_prepare_seg(1) by auto
  moreover have "length (fm_make_key sv kd buf rec) = ci_max_key_length ci"
    if "\<forall>seg \<in> set (kd_seg kd). bit_seg seg \<longrightarrow> 0 < seg_length seg" "length buf = ci_max_key_length ci"
    using make_key_space [of "kd_seg kd" sv rec] sp q le that by (simp add: fm_make_key_def Let_def)
  ultimately show ?thesis using q by auto
qed


section \<open>An example table\<close>

text \<open>One unique key over a single byte, as the server describes it.\<close>

definition demo_env :: engine_env where
  "demo_env = \<lparr>env_malloc = \<lambda>_. True, env_errno = HA_ERR_OUT_OF_MEM, fm_core_ops = \<lparr>alloc = \<lambda>_ _. True\<rparr>, env_time = 0,
     max_heap_table_size = 16384, my_charset_bin = binary_charset, env_server = little_server, env_debug = True\<rparr>"

definition demo_TABLE :: TABLE where
  "demo_TABLE = \<lparr>t_total_keys = 1, t_key_info = [\<lparr>k_algorithm = HA_KEY_ALG_UNDEF, k_flags = {HA_NOSAME},
       k_parts = [\<lparr>kp_field = \<lparr>f_key_type = HA_KEYTYPE_BINARY, f_enum_or_set = False, f_charset = binary_charset, f_null = None,
         f_auto_increment = False, f_bit_len = 0, f_bit_ofs = 0, f_bit_pos = 0\<rparr>, kp_offset = 0, kp_length = 1, kp_flag = 0\<rparr>]\<rparr>],
     t_found_next_number_field = False, t_next_number_index = 0, t_next_number_key_offset = 0, t_reclength = 2, t_max_rows = 2\<rparr>"

definition empty_registry :: fm_registry where
  "empty_registry = \<lparr>rg_shares = Map.empty, rg_infos = Map.empty, fm_share_list = [], THR_LOCK_fastmem = False, my_errno = HA_OK,
     rg_mallocs = 0, rg_live = 0, rg_next = 0\<rparr>"

lemma demo_TABLE_parts_ok: "\<forall>k \<in> set (t_key_info demo_TABLE). key_parts_ok demo_env k"
  using binary_charset_ok by (simp add: demo_TABLE_def key_parts_ok_def part_ok_def prepare_seg_def)

lemma demo_prepare:
  obtains ci r where "fm_prepare_create_info demo_env demo_TABLE False empty_registry = Some (HA_OK, Some ci, r)" "length (ci_keydef ci) = 1"
proof -
  have "table_supported demo_TABLE" by (simp add: table_supported_def demo_TABLE_def)
  moreover have "env_malloc demo_env (rg_mallocs empty_registry)" by (simp add: demo_env_def)
  ultimately obtain ci r where p: "fm_prepare_create_info demo_env demo_TABLE False empty_registry = Some (HA_OK, Some ci, r)"
    by (rule fm_prepare_create_info_supported)
  from that [OF this] fm_prepare_create_info_OK(1) [OF this] show thesis by (simp add: demo_TABLE_def)
qed

theorem prepared_keys_sound_witness:
  "\<exists>ci r kd. fm_prepare_create_info demo_env demo_TABLE False empty_registry = Some (HA_OK, Some ci, r) \<and> ci_keydef ci = [kd]
     \<and> kd_algorithm kd = HA_KEY_ALG_HASH \<and> kd_length kd \<le> ci_max_key_length ci \<and> contract_ok (fm_key_ops little_server kd)"
proof (rule demo_prepare, goal_cases)
  case (1 ci r)
  then obtain kd where kd: "ci_keydef ci = [kd]" by (auto simp: length_Suc_conv)
  then show ?case
    using prepared_keys_sound [OF 1(1), of kd "[]" little_server "[]"] 1(1) demo_TABLE_parts_ok by auto
qed

text \<open>A table of two keys and ten million rows: \<open>2\<^sup>2\<^sup>0\<close> buckets, fewer than a quarter of the rows.\<close>

theorem bucket_count_bounds_witness:
  "\<exists>kc ci. ci_max_records ci = 10000000 \<and> kc \<in> set (keydef (sh_core (new_share demo_env ''t'' ci))) \<and> unat (kc_nbuckets kc) = 2 ^ 20"
proof -
  let ?ci = "\<lparr>ci_keydef = [], ci_keys = 2, ci_reclength = 8, ci_max_key_length = 0, ci_max_records = 10000000, ci_max_table_size = 0,
    ci_auto_increment = 0, ci_auto_key = 0, ci_auto_key_type = HA_KEYTYPE_other 0, ci_with_auto_increment = False,
    ci_internal_table = False, ci_pin_share = False\<rparr>"
  let ?s = "sh_core (new_share demo_env ''t'' ?ci)"
  have "length (keydef ?s) = 2"
    unfolding new_share_def Let_def using init_share_shape(6) [OF refl, of "fm_core_ops demo_env"] by (simp add: demo_env_def)
  then obtain kc where kc: "kc \<in> set (keydef ?s)" by (cases "keydef ?s") auto
  from bucket_count_bounds [OF this] obtain k where "unat (kc_nbuckets kc) = 2 ^ k" "2500000 \<le> (2 :: nat) ^ k \<or> k = 20" "k \<le> 20"
    by auto
  moreover have "(2 :: nat) ^ k \<le> 2 ^ 20" using \<open>k \<le> 20\<close> by (rule power_increasing) simp
  ultimately have "unat (kc_nbuckets kc) = 2 ^ 20" by auto
  with kc show ?thesis by (intro exI [of _ kc] exI [of _ ?ci]) simp
qed

end
