(* ===== verification/Fm_Data.thy ===== *)
theory Fm_Data
  imports Complex_Main Fm_Create
begin

text \<open>
  The row operations of an open handle (\<open>src/fm_data.cc\<close>): each maps a call on a handle \<open>FM_INFO\<close> of a
  share \<open>FM_SHARE\<close> to calls of the concurrency core, keeps the cursor of the handle, and translates the
  return codes of the core.

  Every operation returns the error code (also left in \<open>my_errno\<close>), the handle and the share. The core
  uses the buffer \<open>scratch\<close> of the handle for images it writes before it reads them; only the image a
  read check leaves there is kept. A position is the eight bytes of \<open>FM_SLOT_REF\<close> on a little-endian host.

  \<open>korr\<close> holds the number formats of the server: the value of an integer or floating-point column.
\<close>

section \<open>Parameters and error mapping\<close>

record korr =
  sint2korr :: "image \<Rightarrow> int"
  sint3korr :: "image \<Rightarrow> int"
  sint4korr :: "image \<Rightarrow> int"
  sint8korr :: "image \<Rightarrow> int"
  u2korr :: "image \<Rightarrow> nat"
  uint3korr :: "image \<Rightarrow> nat"
  uint4korr :: "image \<Rightarrow> nat"
  uint8korr :: "image \<Rightarrow> u64"
  float4get :: "image \<Rightarrow> rat"
  float8get :: "image \<Rightarrow> rat"

fun fm_core_error_to_ha :: "fm_rc \<Rightarrow> ha_err" where
  "fm_core_error_to_ha FM_ERR_FULL = HA_ERR_RECORD_FILE_FULL"
| "fm_core_error_to_ha FM_ERR_NOMEM = HA_ERR_OUT_OF_MEM"
| "fm_core_error_to_ha FM_ERR_DELETED = HA_ERR_RECORD_DELETED"
| "fm_core_error_to_ha FM_ERR_DUP_KEY = HA_ERR_FOUND_DUPP_KEY"
| "fm_core_error_to_ha FM_ERR_NOT_FOUND = HA_ERR_KEY_NOT_FOUND"
| "fm_core_error_to_ha _ = HA_ERR_CRASHED"

definition fm_slot_gen :: "FM_SHARE \<Rightarrow> slot_id \<Rightarrow> u32 option" where
  "fm_slot_gen sh idx = map_option sl_gen (fm_slot (sh_core sh) idx)"

section \<open>Auto increment\<close>

text \<open>The value of the auto-increment column; the cast of a floating-point value truncates.\<close>

definition float_value :: "rat \<Rightarrow> u64" where
  "float_value f = (if f < 0 then 0 else word_of_int \<lfloor>f\<rfloor>)"

fun auto_inc_value :: "korr \<Rightarrow> ha_keytype \<Rightarrow> image \<Rightarrow> int \<times> u64" where
  "auto_inc_value kr HA_KEYTYPE_INT8 k = (sint (byte_at k 0), 0)"
| "auto_inc_value kr HA_KEYTYPE_BINARY k = (0, ucast (byte_at k 0))"
| "auto_inc_value kr HA_KEYTYPE_SHORT_INT k = (sint2korr kr k, 0)"
| "auto_inc_value kr HA_KEYTYPE_USHORT_INT k = (0, of_nat (u2korr kr k))"
| "auto_inc_value kr HA_KEYTYPE_LONG_INT k = (sint4korr kr k, 0)"
| "auto_inc_value kr HA_KEYTYPE_ULONG_INT k = (0, of_nat (uint4korr kr k))"
| "auto_inc_value kr HA_KEYTYPE_INT24 k = (sint3korr kr k, 0)"
| "auto_inc_value kr HA_KEYTYPE_UINT24 k = (0, of_nat (uint3korr kr k))"
| "auto_inc_value kr HA_KEYTYPE_FLOAT k = (0, float_value (float4get kr k))"
| "auto_inc_value kr HA_KEYTYPE_DOUBLE k = (0, float_value (float8get kr k))"
| "auto_inc_value kr HA_KEYTYPE_LONGLONG k = (sint8korr kr k, 0)"
| "auto_inc_value kr HA_KEYTYPE_ULONGLONG k = (0, uint8korr kr k)"
| "auto_inc_value kr _ k = (0, 0)"

definition fm_update_auto_increment :: "korr \<Rightarrow> FM_SHARE \<Rightarrow> image \<Rightarrow> FM_SHARE option" where
  "fm_update_auto_increment kr sh rec =
     (let core = sh_core sh
      in if auto_key core = 0 then Some sh
      else do {
        assert_that (auto_key core - 1 < length (sh_keydef sh) \<and> kd_seg (sh_keydef sh ! (auto_key core - 1)) \<noteq> []);
        let (s_value, value) = auto_inc_value kr (auto_key_type core)
              (drop (seg_start (hd (kd_seg (sh_keydef sh ! (auto_key core - 1))))) rec);
        Some (sh\<lparr>sh_core := fm_core_auto_inc_observe core (if s_value > 0 then word_of_int s_value else value)\<rparr>) })"

definition fm_get_auto_increment :: "FM_SHARE \<Rightarrow> u64 \<Rightarrow> u64 \<Rightarrow> u64 \<Rightarrow> u64 \<times> u64 \<times> FM_SHARE" where
  "fm_get_auto_increment sh offset inc nb_desired =
     (let (first, reserved, core) = fm_core_auto_inc_reserve (sh_core sh) offset inc nb_desired
      in if first = 0 then (NOT 0, 0, sh\<lparr>sh_core := core\<rparr>)
         else (first, (case reserved of Some n \<Rightarrow> n | None \<Rightarrow> 0), sh\<lparr>sh_core := core\<rparr>))"

text \<open>The compare-and-swap loop of one thread: a successful exchange if the counter is to be raised.\<close>

definition fm_set_auto_increment :: "FM_SHARE \<Rightarrow> u64 \<Rightarrow> FM_SHARE" where
  "fm_set_auto_increment sh value =
     (let nxt = (if value \<noteq> 0 then value - 1 else 0); core = sh_core sh
      in if nxt > auto_inc core then sh\<lparr>sh_core := core\<lparr>auto_inc := nxt\<rparr>\<rparr> else sh)"

section \<open>Write\<close>

definition observe_row :: "korr \<Rightarrow> FM_SHARE \<Rightarrow> image \<Rightarrow> FM_SHARE option" where
  "observe_row kr sh rec = (if auto_key (sh_core sh) \<noteq> 0 then fm_update_auto_increment kr sh rec else Some sh)"

definition fm_write :: "korr \<Rightarrow> FM_SHARE \<Rightarrow> FM_INFO \<Rightarrow> image \<Rightarrow> (ha_err \<times> FM_INFO \<times> FM_SHARE) option" where
  "fm_write kr sh info rec = do {
     (rc, slot, ek, core) \<leftarrow> fm_core_insert_row (sh_core sh) rec;
     let sh1 = sh\<lparr>sh_core := core\<rparr>;
     if rc \<noteq> FM_ERR_OK
     then Some (fm_core_error_to_ha rc,
       if rc = FM_ERR_DUP_KEY then info\<lparr>errkey := (case ek of Some e \<Rightarrow> e | None \<Rightarrow> 0)\<rparr> else info, sh1)
     else do {
       sh2 \<leftarrow> observe_row kr sh1 rec;
       let idx = (case slot of Some i \<Rightarrow> i | None \<Rightarrow> -1);
       g \<leftarrow> fm_slot_gen sh2 idx;
       Some (HA_OK, info\<lparr>lastinx := -1, current_hash_slot := -1, current_slot := idx, current_gen := g,
               inf_update := {HA_STATE_AKTIV}\<rparr>, sh2) } }"

section \<open>Update and delete\<close>

definition fm_reread_locked :: "FM_SHARE \<Rightarrow> FM_INFO \<Rightarrow> image \<Rightarrow> (fm_rc \<times> FM_INFO \<times> image) option" where
  "fm_reread_locked sh info rec = do {
     g \<leftarrow> fm_slot_gen sh (current_slot info);
     (rc, buf) \<leftarrow> fm_core_read_row (sh_core sh) (current_slot info) True g rec;
     Some (rc, if rc = FM_ERR_OK then info\<lparr>current_gen := g\<rparr> else info, buf) }"

text \<open>The optional check that the caller's image is the current one, shared by update and delete:
  the error that ends the operation, or none.\<close>

definition read_check :: "FM_SHARE \<Rightarrow> FM_INFO \<Rightarrow> image \<Rightarrow> (ha_err option \<times> FM_INFO) option" where
  "read_check sh info img =
     (if opt_flag info then do {
        (rc, buf) \<leftarrow> fm_core_read_row (sh_core sh) (current_slot info) True (current_gen info) (scratch info);
        let info1 = info\<lparr>scratch := buf\<rparr>;
        Some (if rc \<noteq> FM_ERR_OK then Some (fm_core_error_to_ha rc)
              else if take (reclength (sh_core sh)) img \<noteq> take (reclength (sh_core sh)) buf then Some HA_ERR_RECORD_CHANGED
              else None, info1) }
      else Some (None, info))"

text \<open>What follows the call of the core in both forms of update.\<close>

definition update_result :: "korr \<Rightarrow> FM_SHARE \<Rightarrow> FM_INFO \<Rightarrow> image \<Rightarrow> fm_rc \<times> int option \<times> FM_SHARE_CORE
    \<Rightarrow> (ha_err \<times> FM_INFO \<times> FM_SHARE) option" where
  "update_result kr sh info newdata res =
     (case res of (rc, ek, core) \<Rightarrow>
        let sh1 = sh\<lparr>sh_core := core\<rparr>
        in if rc \<noteq> FM_ERR_OK
           then Some (fm_core_error_to_ha rc,
             if rc = FM_ERR_DUP_KEY then info\<lparr>errkey := (case ek of Some e \<Rightarrow> e | None \<Rightarrow> 0)\<rparr> else info, sh1)
           else do {
             sh2 \<leftarrow> observe_row kr sh1 newdata;
             Some (HA_OK, info\<lparr>inf_update := {HA_STATE_AKTIV}, current_hash_slot := -1\<rparr>, sh2) })"

definition fm_update :: "korr \<Rightarrow> FM_SHARE \<Rightarrow> FM_INFO \<Rightarrow> image \<Rightarrow> image \<Rightarrow> (ha_err \<times> FM_INFO \<times> FM_SHARE) option" where
  "fm_update kr sh info old newdata = do {
     (err, info1) \<leftarrow> read_check sh info old;
     case err of
       Some e \<Rightarrow> Some (e, info1, sh)
     | None \<Rightarrow> do {
         res \<leftarrow> fm_core_update_row (sh_core sh) (current_slot info1) (current_gen info1) old newdata;
         update_result kr sh info1 newdata res } }"

definition fm_update_locked ::
  "korr \<Rightarrow> FM_SHARE \<Rightarrow> FM_INFO \<Rightarrow> image \<Rightarrow> image \<Rightarrow> (ha_err \<times> FM_INFO \<times> FM_SHARE) option" where
  "fm_update_locked kr sh info old newdata = do {
     (err, info1) \<leftarrow> read_check sh info old;
     case err of
       Some e \<Rightarrow> Some (e, info1, sh)
     | None \<Rightarrow> do {
         res \<leftarrow> fm_core_update_row_locked (sh_core sh) (current_slot info1) (current_gen info1) old newdata;
         update_result kr sh info1 newdata res } }"

definition delete_result :: "FM_SHARE \<Rightarrow> FM_INFO \<Rightarrow> fm_rc \<times> FM_SHARE_CORE \<Rightarrow> ha_err \<times> FM_INFO \<times> FM_SHARE" where
  "delete_result sh info res =
     (case res of (rc, core) \<Rightarrow>
        if rc \<noteq> FM_ERR_OK then (fm_core_error_to_ha rc, info, sh\<lparr>sh_core := core\<rparr>)
        else (HA_OK, info\<lparr>inf_update := {HA_STATE_DELETED}, current_slot := -1, current_hash_slot := -1\<rparr>, sh\<lparr>sh_core := core\<rparr>))"

definition fm_delete :: "FM_SHARE \<Rightarrow> FM_INFO \<Rightarrow> image \<Rightarrow> (ha_err \<times> FM_INFO \<times> FM_SHARE) option" where
  "fm_delete sh info buf = do {
     (err, info1) \<leftarrow> read_check sh info buf;
     case err of
       Some e \<Rightarrow> Some (e, info1, sh)
     | None \<Rightarrow> do {
         res \<leftarrow> fm_core_delete_row (sh_core sh) (current_slot info1) (current_gen info1);
         Some (delete_result sh info1 res) } }"

definition fm_delete_locked :: "FM_SHARE \<Rightarrow> FM_INFO \<Rightarrow> image \<Rightarrow> (ha_err \<times> FM_INFO \<times> FM_SHARE) option" where
  "fm_delete_locked sh info buf = do {
     (err, info1) \<leftarrow> read_check sh info buf;
     case err of
       Some e \<Rightarrow> Some (e, info1, sh)
     | None \<Rightarrow> do {
         res \<leftarrow> fm_core_delete_row_locked (sh_core sh) (current_slot info1) (current_gen info1);
         Some (delete_result sh info1 res) } }"

section \<open>Positions\<close>

definition le32 :: "u32 \<Rightarrow> image" where
  "le32 w = [ucast w, ucast (drop_bit 8 w), ucast (drop_bit 16 w), ucast (drop_bit 24 w)]"

definition of_le32 :: "image \<Rightarrow> u32" where
  "of_le32 b = ucast (byte_at b 0) OR push_bit 8 (ucast (byte_at b 1)) OR push_bit 16 (ucast (byte_at b 2))
     OR push_bit 24 (ucast (byte_at b 3))"

definition ref_bytes :: "FM_SLOT_REF \<Rightarrow> image" where
  "ref_bytes rf = le32 (word_of_int (ref_slot rf)) @ le32 (ref_gen rf)"

definition ref_of_bytes :: "image \<Rightarrow> FM_SLOT_REF" where
  "ref_of_bytes b = \<lparr>ref_slot = sint (of_le32 (take 4 b)), ref_gen = of_le32 (take 4 (drop 4 b))\<rparr>"

definition fm_set_position :: "FM_INFO \<Rightarrow> image" where
  "fm_set_position info = ref_bytes \<lparr>ref_slot = current_slot info, ref_gen = current_gen info\<rparr>"

definition fm_rrnd :: "FM_SHARE \<Rightarrow> FM_INFO \<Rightarrow> image \<Rightarrow> image \<Rightarrow> (ha_err \<times> FM_INFO \<times> image) option" where
  "fm_rrnd sh info rec pos = do {
     let rf = ref_of_bytes pos;
     let info1 = info\<lparr>lastinx := -1\<rparr>;
     if ref_slot rf = -1 then Some (HA_ERR_END_OF_FILE, info1\<lparr>inf_update := {}\<rparr>, rec)
     else do {
       (rc, buf) \<leftarrow> fm_core_read_row (sh_core sh) (ref_slot rf) True (ref_gen rf) rec;
       if rc \<noteq> FM_ERR_OK
       then Some (HA_ERR_RECORD_DELETED, info1\<lparr>inf_update := {HA_STATE_PREV_FOUND, HA_STATE_NEXT_FOUND}\<rparr>, buf)
       else Some (HA_OK, info1\<lparr>current_slot := ref_slot rf, current_gen := ref_gen rf, current_hash_slot := -1,
              inf_update := {HA_STATE_PREV_FOUND, HA_STATE_NEXT_FOUND, HA_STATE_AKTIV}\<rparr>, buf) } }"

section \<open>Scan\<close>

definition fm_scan_init :: "FM_INFO \<Rightarrow> FM_INFO" where
  "fm_scan_init info = info\<lparr>lastinx := -1, scan_pos := 0, current_slot := -1, current_hash_slot := -1, inf_update := {}\<rparr>"

definition fm_scan :: "FM_SHARE \<Rightarrow> FM_INFO \<Rightarrow> image \<Rightarrow> (ha_err \<times> FM_INFO \<times> image) option" where
  "fm_scan sh info rec = do {
     (rc, pos, buf) \<leftarrow> fm_core_scan_next (sh_core sh) (scan_pos info) rec;
     let info1 = info\<lparr>scan_pos := pos\<rparr>;
     if rc \<noteq> FM_ERR_OK
     then Some (HA_ERR_END_OF_FILE, info1\<lparr>inf_update := {HA_STATE_PREV_FOUND, HA_STATE_NEXT_FOUND}\<rparr>, buf)
     else do {
       let i = i32_of (pos + 2 ^ 32 - 1);
       g \<leftarrow> fm_slot_gen sh i;
       Some (HA_OK, info1\<lparr>current_slot := i, current_gen := g, current_hash_slot := -1,
              inf_update := {HA_STATE_PREV_FOUND, HA_STATE_NEXT_FOUND, HA_STATE_AKTIV}\<rparr>, buf) } }"

section \<open>Lookups by key\<close>

text \<open>\<open>memcpy(info->lastkey, key, length)\<close>: the front of the buffer.\<close>

definition save_key :: "FM_INFO \<Rightarrow> image \<Rightarrow> nat \<Rightarrow> FM_INFO" where
  "save_key info key len = info\<lparr>lastkey := bytes_at key 0 len @ drop len (lastkey info), lastkey_len := len\<rparr>"

definition fm_find_key ::
  "FM_SHARE \<Rightarrow> FM_INFO \<Rightarrow> nat \<Rightarrow> image \<Rightarrow> image \<Rightarrow> (ha_err \<times> FM_INFO \<times> image \<times> FM_SHARE) option" where
  "fm_find_key sh info inx key rec = do {
     kc \<leftarrow> fm_key (sh_core sh) inx;
     ((rc, idx, buf), core) \<leftarrow> fm_core_find (sh_core sh) inx key rec (-1);
     let sh1 = sh\<lparr>sh_core := core\<rparr>;
     if rc \<noteq> FM_ERR_OK then Some (HA_ERR_KEY_NOT_FOUND, info\<lparr>inf_update := {HA_STATE_NO_KEY}\<rparr>, buf, sh1)
     else do {
       assert_that (inx < length (sh_keydef sh));
       let kd = sh_keydef sh ! inx;
       let info1 = (if hash_rec (kc_ops kc) \<noteq> None \<and> kd_flag kd \<inter> {HA_NOSAME, HA_NULL_PART_KEY} \<noteq> {HA_NOSAME}
                    then save_key info key (kd_length kd) else info);
       g \<leftarrow> fm_slot_gen sh1 idx;
       Some (HA_OK, info1\<lparr>lastinx := int inx, current_slot := idx, current_gen := g, inf_update := {HA_STATE_AKTIV}\<rparr>, buf, sh1) } }"

definition fm_find_next_key ::
  "FM_SHARE \<Rightarrow> FM_INFO \<Rightarrow> nat \<Rightarrow> image \<Rightarrow> slot_id \<Rightarrow> image \<Rightarrow> (ha_err \<times> FM_INFO \<times> image \<times> FM_SHARE) option" where
  "fm_find_next_key sh info inx key cur_slot rec = do {
     ((rc, idx, buf), core) \<leftarrow> fm_core_find_next (sh_core sh) inx key cur_slot rec (-1);
     let sh1 = sh\<lparr>sh_core := core\<rparr>;
     if rc \<noteq> FM_ERR_OK then Some (HA_ERR_KEY_NOT_FOUND, info\<lparr>inf_update := {HA_STATE_NEXT_FOUND}\<rparr>, buf, sh1)
     else do {
       assert_that (inx < length (sh_keydef sh));
       let len = kd_length (sh_keydef sh ! inx);
       let info1 = (if len \<noteq> lastkey_len info \<or> bytes_at (lastkey info) 0 len \<noteq> bytes_at key 0 len
                    then save_key info key len else info);
       g \<leftarrow> fm_slot_gen sh1 idx;
       Some (HA_OK, info1\<lparr>lastinx := int inx, current_slot := idx, current_gen := g,
              inf_update := {HA_STATE_AKTIV, HA_STATE_NEXT_FOUND}\<rparr>, buf, sh1) } }"

section \<open>Extra, reset, statistics\<close>

datatype ha_extra_function =
    HA_EXTRA_RESET_STATE | HA_EXTRA_NO_READCHECK | HA_EXTRA_READCHECK
  | HA_EXTRA_CHANGE_KEY_TO_UNIQUE | HA_EXTRA_CHANGE_KEY_TO_DUP | HA_EXTRA_other nat

definition fm_reset :: "FM_INFO \<Rightarrow> FM_INFO" where
  "fm_reset info = info\<lparr>lastinx := -1, scan_pos := 0, current_slot := -1, current_hash_slot := -1, inf_update := {}\<rparr>"

definition set_unique :: "bool \<Rightarrow> FM_SHARE \<Rightarrow> FM_SHARE" where
  "set_unique u sh = sh\<lparr>
     sh_keydef := map (\<lambda>kd. kd\<lparr>kd_flag := (if u then kd_flag kd \<union> {HA_NOSAME} else kd_flag kd - {HA_NOSAME})\<rparr>) (sh_keydef sh),
     sh_core := (sh_core sh)\<lparr>keydef := map (\<lambda>kc. kc\<lparr>kc_unique := u\<rparr>) (keydef (sh_core sh))\<rparr>\<rparr>"

fun fm_extra :: "FM_SHARE \<Rightarrow> FM_INFO \<Rightarrow> ha_extra_function \<Rightarrow> FM_INFO \<times> FM_SHARE" where
  "fm_extra sh info HA_EXTRA_RESET_STATE = (fm_reset info, sh)"
| "fm_extra sh info HA_EXTRA_NO_READCHECK = (info\<lparr>opt_flag := False\<rparr>, sh)"
| "fm_extra sh info HA_EXTRA_READCHECK = (info\<lparr>opt_flag := True\<rparr>, sh)"
| "fm_extra sh info HA_EXTRA_CHANGE_KEY_TO_UNIQUE = (info, set_unique True sh)"
| "fm_extra sh info HA_EXTRA_CHANGE_KEY_TO_DUP = (info, set_unique False sh)"
| "fm_extra sh info (HA_EXTRA_other n) = (info, sh)"

text \<open>\<open>sizeof(fm_i32) + sizeof(FM_SPIN)\<close> is 5.\<close>

definition fm_info :: "FM_SHARE \<Rightarrow> FM_INFO \<Rightarrow> FMINFO \<times> FM_INFO" where
  "fm_info sh info =
     (let core = sh_core sh; n = fm_core_slot_count core
      in (\<lparr>fi_records = records core, fi_deleted = 0, fi_max_records = max_records core,
           fi_data_length = n * slot_size core + n * keys core * 4,
           fi_index_length = sum_list (map (\<lambda>kc. unat (kc_nbuckets kc) * 5) (keydef core)),
           fi_reclength = reclength core, fi_errkey = errkey info, fi_auto_increment = auto_inc core + 1,
           fi_create_time = sh_create_time sh\<rparr>, info\<lparr>errkey := 0\<rparr>))"

section \<open>Positions\<close>

lemma bit_shifted_byte:
  "n < 32 \<Longrightarrow> bit (push_bit k (ucast (ucast (drop_bit k (w :: u32)) :: u8)) :: u32) n \<longleftrightarrow> k \<le> n \<and> n < k + 8 \<and> bit w n"
  by (auto simp: bit_simps)

lemma of_le32_le32: "of_le32 (le32 w) = w"
proof -
  have b: "byte_at (le32 w) 0 = ucast (drop_bit 0 w)" "byte_at (le32 w) 1 = ucast (drop_bit 8 w)"
    "byte_at (le32 w) 2 = ucast (drop_bit 16 w)" "byte_at (le32 w) 3 = ucast (drop_bit 24 w)"
    by (simp_all add: byte_at_def le32_def)
  have e: "of_le32 (le32 w) = push_bit 0 (ucast (ucast (drop_bit 0 w) :: u8)) OR push_bit 8 (ucast (ucast (drop_bit 8 w) :: u8))
    OR push_bit 16 (ucast (ucast (drop_bit 16 w) :: u8)) OR push_bit 24 (ucast (ucast (drop_bit 24 w) :: u8))"
    unfolding of_le32_def b push_bit_0_id by (simp only: id_apply)
  have "bit (of_le32 (le32 w)) n \<longleftrightarrow> bit w n" if n: "n < 32" for n
    unfolding e bit_or_iff bit_shifted_byte [OF n] using n by auto
  then show ?thesis by (intro bit_word_eqI) simp
qed

lemma length_le32 [simp]: "length (le32 w) = 4"
  by (simp add: le32_def)

lemma length_ref_bytes [simp]: "length (ref_bytes rf) = FM_REF_LENGTH"
  by (simp add: ref_bytes_def FM_REF_LENGTH_def)

lemma sint_i32: "- (2 ^ 31) \<le> i \<Longrightarrow> i < 2 ^ 31 \<Longrightarrow> sint (word_of_int i :: u32) = i"
  by (simp add: signed_of_int signed_take_bit_int_eq_self)

lemma ref_of_ref_bytes:
  assumes "- (2 ^ 31) \<le> ref_slot rf" "ref_slot rf < 2 ^ 31"
  shows "ref_of_bytes (ref_bytes rf @ rest) = rf"
  using assms by (simp add: ref_of_bytes_def ref_bytes_def of_le32_le32 sint_i32)


section \<open>Well-formed shares\<close>

definition share_ok :: "FM_SHARE \<Rightarrow> bool" where
  "share_ok sh \<longleftrightarrow> table (sh_core sh) \<and> length (sh_keydef sh) = keys (sh_core sh)
     \<and> (auto_key (sh_core sh) \<noteq> 0 \<longrightarrow> auto_key (sh_core sh) - 1 < length (sh_keydef sh)
          \<and> kd_seg (sh_keydef sh ! (auto_key (sh_core sh) - 1)) \<noteq> [])"

text \<open>What every operation keeps of a share: all but the rows, locks and counters.\<close>

definition kept :: "FM_SHARE \<Rightarrow> FM_SHARE \<Rightarrow> bool" where
  "kept sh sh' \<longleftrightarrow> share_ok sh' \<and> static (sh_core sh') = static (sh_core sh) \<and> (\<exists>c. sh' = sh\<lparr>sh_core := c\<rparr>)
     \<and> (\<forall>j. has_slot (chunks (sh_core sh)) j \<longrightarrow> has_slot (chunks (sh_core sh')) j)"

lemma staticD:
  assumes "static s' = static s"
  shows "keys s' = keys s" "reclength s' = reclength s" "auto_key s' = auto_key s" "length (keydef s') = length (keydef s)"
    "k < length (keydef s) \<Longrightarrow> kc_ops (keydef s' ! k) = kc_ops (keydef s ! k)"
    "max_records s' = max_records s"
proof -
  have m: "map (\<lambda>kc. (kc_ops kc, kc_unique kc, kc_nbuckets kc)) (keydef s') = map (\<lambda>kc. (kc_ops kc, kc_unique kc, kc_nbuckets kc)) (keydef s)"
    and o: "keys s' = keys s" "reclength s' = reclength s" "auto_key s' = auto_key s" "max_records s' = max_records s"
    using assms by (simp_all add: static_def)
  then show "keys s' = keys s" "reclength s' = reclength s" "auto_key s' = auto_key s" "max_records s' = max_records s" by simp_all
  show l: "length (keydef s') = length (keydef s)" using m by (rule map_eq_imp_length_eq)
  show "kc_ops (keydef s' ! k) = kc_ops (keydef s ! k)" if "k < length (keydef s)"
    using that l arg_cong [OF m, of "\<lambda>xs. xs ! k"] by simp
qed

lemma keptI:
  assumes "share_ok sh" "table c" "static c = static (sh_core sh)"
    and "\<forall>j. has_slot (chunks (sh_core sh)) j \<longrightarrow> has_slot (chunks c) j"
  shows "kept sh (sh\<lparr>sh_core := c\<rparr>)"
  using assms staticD [OF assms(3)] by (auto simp: kept_def share_ok_def)

lemma kept_refl: "share_ok sh \<Longrightarrow> kept sh sh"
  unfolding kept_def by (auto intro: exI [of _ "sh_core sh"])

lemma kept_trans: "kept a b \<Longrightarrow> kept b c \<Longrightarrow> kept a c"
  unfolding kept_def by auto

lemma keptD:
  assumes "kept sh sh'"
  shows "share_ok sh'" "table (sh_core sh')" "keys (sh_core sh') = keys (sh_core sh)" "reclength (sh_core sh') = reclength (sh_core sh)"
    "has_slot (chunks (sh_core sh)) j \<Longrightarrow> has_slot (chunks (sh_core sh')) j" "sh_keydef sh' = sh_keydef sh"
    "static (sh_core sh') = static (sh_core sh)"
proof -
  show ok: "share_ok sh'" and st: "static (sh_core sh') = static (sh_core sh)" using assms by (simp_all add: kept_def)
  show "table (sh_core sh')" using ok by (simp add: share_ok_def)
  show "keys (sh_core sh') = keys (sh_core sh)" "reclength (sh_core sh') = reclength (sh_core sh)"
    by (rule staticD [OF st])+
  show "has_slot (chunks (sh_core sh)) j \<Longrightarrow> has_slot (chunks (sh_core sh')) j" using assms by (simp add: kept_def)
  show "sh_keydef sh' = sh_keydef sh"
    using assms by (auto simp: kept_def)
qed

lemma same_rows_kept: "share_ok sh \<Longrightarrow> table c \<Longrightarrow> same_rows (sh_core sh) c \<Longrightarrow> kept sh (sh\<lparr>sh_core := c\<rparr>)"
  by (rule keptI) (simp_all add: same_rows_def)

text \<open>The auto-increment counter is independent of the rows.\<close>

lemma auto_inc_frame [simp]:
  "has_slot (chunks (s\<lparr>auto_inc := v\<rparr>)) = has_slot (chunks s)" "rows (s\<lparr>auto_inc := v\<rparr>) = rows s"
  "active (s\<lparr>auto_inc := v\<rparr>) = active s" "held (s\<lparr>auto_inc := v\<rparr>) = held s" "gen_of (s\<lparr>auto_inc := v\<rparr>) = gen_of s"
  "static (s\<lparr>auto_inc := v\<rparr>) = static s"
  by (simp_all add: rows_def active_def held_def gen_of_def static_def fun_eq_iff)

lemma table_auto_inc [simp]: "table (s\<lparr>auto_inc := v\<rparr>) = table s"
proof -
  let ?s = "s\<lparr>auto_inc := v\<rparr>"
  have "index_of ?s = index_of s" "uniq ?s = uniq s" "counted ?s = counted s" "layout ?s = layout s" "steady ?s = steady s"
    "free_list ?s = free_list s" "indexed ?s = indexed s"
    by (simp_all add: index_of_def uniq_def counted_def layout_def steady_def keys_ready_def locks_free_def quiet_def
        free_list_def indexed_def chains_def total_slots_def fun_eq_iff)
  then show ?thesis by (simp add: table_def body_def)
qed

lemma observe_row_eq:
  assumes "share_ok sh"
  shows "\<exists>v. observe_row kr sh rec = Some (sh\<lparr>sh_core := (sh_core sh)\<lparr>auto_inc := v\<rparr>\<rparr>) \<and> auto_inc (sh_core sh) \<le> v"
proof -
  have id: "sh\<lparr>sh_core := (sh_core sh)\<lparr>auto_inc := auto_inc (sh_core sh)\<rparr>\<rparr> = sh" by simp
  show ?thesis
  proof (cases "auto_key (sh_core sh) = 0")
    case True
    then have "observe_row kr sh rec = Some (sh\<lparr>sh_core := (sh_core sh)\<lparr>auto_inc := auto_inc (sh_core sh)\<rparr>\<rparr>)"
      by (simp add: observe_row_def)
    then show ?thesis by blast
  next
    case False
    then have a: "auto_key (sh_core sh) - 1 < length (sh_keydef sh)" "kd_seg (sh_keydef sh ! (auto_key (sh_core sh) - 1)) \<noteq> []"
      using assms by (simp_all add: share_ok_def)
    define val where "val = (case auto_inc_value kr (auto_key_type (sh_core sh))
      (drop (seg_start (hd (kd_seg (sh_keydef sh ! (auto_key (sh_core sh) - 1))))) rec) of
        (sv, uv) \<Rightarrow> if sv > 0 then word_of_int sv else uv)"
    have "observe_row kr sh rec = Some (sh\<lparr>sh_core := fm_core_auto_inc_observe (sh_core sh) val\<rparr>)"
      using False a by (simp add: observe_row_def fm_update_auto_increment_def val_def split: prod.split)
    then show ?thesis
      by (cases "val > auto_inc (sh_core sh)") (auto simp: fm_core_auto_inc_observe_def intro: exI [of _ val] exI [of _ "auto_inc (sh_core sh)"])
  qed
qed

lemma share_ok_auto_inc [simp]: "share_ok (sh\<lparr>sh_core := (sh_core sh)\<lparr>auto_inc := v\<rparr>\<rparr>) = share_ok sh"
  by (simp add: share_ok_def)

section \<open>The operations of a handle on a well-formed share\<close>

lemma table_quiet: "table s \<Longrightarrow> quiet s"
  by (auto simp: table_def dest: bodyD(5))

lemma rows_has_slot: "rows s i = Some r \<Longrightarrow> has_slot (chunks s) i"
  by (auto simp: rows_def active_def split: if_splits)

lemma slot_gen_eq: "has_slot (chunks (sh_core sh)) i \<Longrightarrow> fm_slot_gen sh i = Some (gen_of (sh_core sh) i)"
  by (simp add: fm_slot_gen_def fm_slot_eq gen_of_def)

lemma read_row_table:
  assumes "table s" "has_slot (chunks s) i"
  shows "fm_core_read_row s i True g buf =
    Some (case rows s i of None \<Rightarrow> (FM_ERR_DELETED, buf) | Some r \<Rightarrow> if gen_of s i = g then (FM_ERR_OK, r) else (FM_ERR_DELETED, buf))"
  using read_row_gen [OF table_quiet [OF assms(1)] assms(2)] assms(2) by (simp add: gen_of_def split: option.split)

lemma reread_eq:
  assumes "share_ok sh" "has_slot (chunks (sh_core sh)) (current_slot info)"
  shows "fm_reread_locked sh info buf =
    Some (case rows (sh_core sh) (current_slot info) of None \<Rightarrow> (FM_ERR_DELETED, info, buf)
          | Some r \<Rightarrow> (FM_ERR_OK, info\<lparr>current_gen := gen_of (sh_core sh) (current_slot info)\<rparr>, r))"
  using assms by (auto simp: fm_reread_locked_def slot_gen_eq read_row_table share_ok_def split: option.split)

lemma fm_write_cases:
  assumes so: "share_ok sh" and len: "length rec = reclength (sh_core sh)"
  obtains (err) rc ek sh' where "fm_write kr sh info rec = Some (rc, info\<lparr>errkey := ek\<rparr>, sh')"
      "rc \<in> {HA_ERR_RECORD_FILE_FULL, HA_ERR_OUT_OF_MEM, HA_ERR_FOUND_DUPP_KEY}" "kept sh sh'"
      "same_rows (sh_core sh) (sh_core sh')"
      "rc = HA_ERR_FOUND_DUPP_KEY \<longleftrightarrow> (\<exists>c. fm_core_insert_row (sh_core sh) rec = Some (FM_ERR_DUP_KEY, None, Some 0, c))"
  | (ok) i sh' where "fm_write kr sh info rec = Some (HA_OK, info\<lparr>lastinx := -1, current_hash_slot := -1, current_slot := i,
        current_gen := gen_of (sh_core sh') i, inf_update := {HA_STATE_AKTIV}\<rparr>, sh')" "kept sh sh'"
      "rows (sh_core sh) i = None" "rows (sh_core sh') = (rows (sh_core sh))(i \<mapsto> rec)" "held (sh_core sh') = held (sh_core sh)"
      "gen_of (sh_core sh') = gen_of (sh_core sh)"
proof -
  have t: "table (sh_core sh)" using so by (simp add: share_ok_def)
  show thesis
  proof (rule insert_row_cases [OF t len], goal_cases)
    case (1 s' rc)
    then show thesis
      by (intro err [of "fm_core_error_to_ha rc" "errkey info" "sh\<lparr>sh_core := s'\<rparr>"])
        (auto simp: fm_write_def same_rows_kept so split: if_splits)
  next
    case (2 s')
    then show thesis
      by (intro err [of HA_ERR_FOUND_DUPP_KEY 0 "sh\<lparr>sh_core := s'\<rparr>"]) (auto simp: fm_write_def same_rows_kept so)
  next
    case ins: (3 i s')
    let ?sh = "sh\<lparr>sh_core := s'\<rparr>"
    have k: "kept sh ?sh" by (rule keptI) (use ins so in simp_all)
    obtain v where v: "observe_row kr ?sh rec = Some (?sh\<lparr>sh_core := s'\<lparr>auto_inc := v\<rparr>\<rparr>)"
      using observe_row_eq [OF keptD(1) [OF k]] by auto
    have i: "has_slot (chunks s') i" using ins by (auto intro: rows_has_slot [of _ _ rec])
    have k2: "kept sh (sh\<lparr>sh_core := s'\<lparr>auto_inc := v\<rparr>\<rparr>)" by (rule keptI) (use ins so in simp_all)
    from ins v i k2 show thesis
      by (intro ok [where i = i and sh' = "sh\<lparr>sh_core := s'\<lparr>auto_inc := v\<rparr>\<rparr>"]) (simp_all add: fm_write_def slot_gen_eq)
  qed
qed

lemma read_check_cases:
  assumes "share_ok sh" "has_slot (chunks (sh_core sh)) (current_slot info)"
  obtains (err) e b where "read_check sh info img = Some (Some e, info\<lparr>scratch := b\<rparr>)"
      "e \<in> {HA_ERR_RECORD_DELETED, HA_ERR_RECORD_CHANGED}" "opt_flag info"
      "\<And>r. rows (sh_core sh) (current_slot info) = Some r \<Longrightarrow> gen_of (sh_core sh) (current_slot info) = current_gen info
        \<Longrightarrow> take (reclength (sh_core sh)) img \<noteq> r"
  | (pass) b where "read_check sh info img = Some (None, info\<lparr>scratch := b\<rparr>)"
proof (cases "opt_flag info")
  case False
  then show thesis using pass [of "scratch info"] by (simp add: read_check_def)
next
  case True
  have len: "\<And>r. rows (sh_core sh) (current_slot info) = Some r \<Longrightarrow> length r = reclength (sh_core sh)"
    using assms(1) by (auto simp: share_ok_def table_def dest: bodyD(14))
  show thesis
  proof (cases "rows (sh_core sh) (current_slot info)")
    case None
    then show thesis using True assms
      by (intro err [of HA_ERR_RECORD_DELETED "scratch info"]) (simp_all add: read_check_def read_row_table share_ok_def Let_def)
  next
    case (Some r)
    show thesis
    proof (cases "gen_of (sh_core sh) (current_slot info) = current_gen info")
      case False
      then show thesis using True Some assms
        by (intro err [of HA_ERR_RECORD_DELETED "scratch info"]) (simp_all add: read_check_def read_row_table share_ok_def Let_def)
    next
      case g: True
      show thesis
      proof (cases "take (reclength (sh_core sh)) img = r")
        case True
        then show thesis using \<open>opt_flag info\<close> Some g assms len [OF Some]
          by (intro pass [of r]) (simp add: read_check_def read_row_table share_ok_def Let_def)
      next
        case False
        then show thesis using \<open>opt_flag info\<close> Some g assms len [OF Some]
          by (intro err [of HA_ERR_RECORD_CHANGED r]) (simp_all add: read_check_def read_row_table share_ok_def Let_def)
      qed
    qed
  qed
qed

lemma fm_scan_eq:
  assumes ok: "share_ok sh"
  shows "\<exists>buf'. fm_scan sh info buf = Some (case find (\<lambda>i. active (sh_core sh) (int i)) [scan_pos info ..< total_slots (sh_core sh)] of
      None \<Rightarrow> (HA_ERR_END_OF_FILE, info\<lparr>scan_pos := max (scan_pos info) (total_slots (sh_core sh)),
        inf_update := {HA_STATE_PREV_FOUND, HA_STATE_NEXT_FOUND}\<rparr>, buf')
    | Some i \<Rightarrow> (HA_OK, info\<lparr>scan_pos := i + 1, current_slot := int i, current_gen := gen_of (sh_core sh) (int i),
        current_hash_slot := -1, inf_update := {HA_STATE_PREV_FOUND, HA_STATE_NEXT_FOUND, HA_STATE_AKTIV}\<rparr>,
        the (rows (sh_core sh) (int i))))"
proof -
  have t: "table (sh_core sh)" using ok by (simp add: share_ok_def)
  obtain buf' where b: "fm_core_scan_next (sh_core sh) (scan_pos info) buf =
    Some (case find (\<lambda>i. active (sh_core sh) (int i)) [scan_pos info ..< total_slots (sh_core sh)] of
            None \<Rightarrow> (FM_ERR_EOF, max (scan_pos info) (total_slots (sh_core sh)), buf')
          | Some i \<Rightarrow> (FM_ERR_OK, i + 1, the (rows (sh_core sh) (int i))))" using scan_next_eq [OF t] by blast
  show ?thesis
  proof (cases "find (\<lambda>i. active (sh_core sh) (int i)) [scan_pos info ..< total_slots (sh_core sh)]")
    case None
    then show ?thesis using b by (simp add: fm_scan_def Let_def)
  next
    case (Some i)
    then have a: "active (sh_core sh) (int i)" "i < total_slots (sh_core sh)" by (auto simp: find_Some_iff)
    have lay: "layout (sh_core sh)" using t by (auto simp: table_def dest: bodyD(1))
    have "i < 2 ^ 31" using a(2) layout_total_bound [OF lay] by simp
    then have "i32_of (i + 1 + 2 ^ 32 - 1) = int i" by (simp add: i32_of_def u32_of_def)
    moreover have "has_slot (chunks (sh_core sh)) (int i)" using a(1) by (simp add: active_def)
    ultimately show ?thesis using b Some by (simp add: fm_scan_def Let_def slot_gen_eq)
  qed
qed

lemma update_result_err:
  assumes "rc \<noteq> FM_ERR_OK"
  shows "\<exists>ek'. update_result kr sh info new (rc, ek, c) = Some (fm_core_error_to_ha rc, info\<lparr>errkey := ek'\<rparr>, sh\<lparr>sh_core := c\<rparr>)"
  using assms by (auto simp: update_result_def Let_def intro: exI [of _ "errkey info"])

lemma update_result_ok:
  assumes "kept sh (sh\<lparr>sh_core := c\<rparr>)"
  shows "\<exists>v. update_result kr sh info new (FM_ERR_OK, ek, c)
    = Some (HA_OK, info\<lparr>inf_update := {HA_STATE_AKTIV}, current_hash_slot := -1\<rparr>, sh\<lparr>sh_core := c\<lparr>auto_inc := v\<rparr>\<rparr>)"
proof -
  obtain v where "observe_row kr (sh\<lparr>sh_core := c\<rparr>) new = Some (sh\<lparr>sh_core := c\<lparr>auto_inc := v\<rparr>\<rparr>)"
    using observe_row_eq [OF keptD(1) [OF assms]] by auto
  then show ?thesis by (auto simp: update_result_def Let_def)
qed

lemma fm_update_locked_cases:
  assumes so: "share_ok sh" and i: "has_slot (chunks (sh_core sh)) (current_slot info)"
    and len: "length new = reclength (sh_core sh)"
    and old: "\<And>cur. rows (sh_core sh) (current_slot info) = Some cur \<Longrightarrow> same_keys (sh_core sh) cur old"
  obtains (err) rc b ek sh' where "fm_update_locked kr sh info old new = Some (rc, info\<lparr>scratch := b, errkey := ek\<rparr>, sh')"
      "rc \<in> {HA_ERR_RECORD_DELETED, HA_ERR_RECORD_CHANGED, HA_ERR_FOUND_DUPP_KEY}" "kept sh sh'"
      "same_rows (sh_core sh) (sh_core sh')"
      "rc = HA_ERR_FOUND_DUPP_KEY \<or> rows (sh_core sh) (current_slot info) = None
        \<or> gen_of (sh_core sh) (current_slot info) \<noteq> current_gen info
        \<or> opt_flag info \<and> rows (sh_core sh) (current_slot info) \<noteq> Some (take (reclength (sh_core sh)) old)"
      "rc = HA_ERR_FOUND_DUPP_KEY \<longrightarrow> (\<exists>k \<in> set (changed_of (sh_core sh) old new). dup_row (sh_core sh) new k)"
  | (ok) b sh' where "fm_update_locked kr sh info old new
        = Some (HA_OK, info\<lparr>scratch := b, inf_update := {HA_STATE_AKTIV}, current_hash_slot := -1\<rparr>, sh')" "kept sh sh'"
      "rows (sh_core sh') = (rows (sh_core sh))(current_slot info \<mapsto> new)" "held (sh_core sh') = held (sh_core sh)"
      "gen_of (sh_core sh') = gen_of (sh_core sh)" "rows (sh_core sh) (current_slot info) \<noteq> None"
      "gen_of (sh_core sh) (current_slot info) = current_gen info"
proof -
  have t: "table (sh_core sh)" using so by (simp add: share_ok_def)
  let ?i = "current_slot info" and ?g = "current_gen info"
  show thesis
  proof (rule read_check_cases [OF so i, of old], goal_cases)
    case (1 e b)
    have "fm_update_locked kr sh info old new = Some (e, info\<lparr>scratch := b, errkey := errkey info\<rparr>, sh)"
      using 1(1) by (simp add: fm_update_locked_def)
    then show thesis
      by (rule err) (use 1 so in \<open>auto simp: kept_refl\<close>)
  next
    case (2 b)
    let ?info = "info\<lparr>scratch := b\<rparr>"
    have run: "fm_update_locked kr sh info old new = fm_core_update_row_locked (sh_core sh) ?i ?g old new \<bind> update_result kr sh ?info new"
      using 2 by (simp add: fm_update_locked_def)
    show thesis
    proof (rule update_row_locked_cases [OF t i len old, of ?g], assumption, goal_cases)
      case 1
      obtain ek where "fm_update_locked kr sh info old new = Some (HA_ERR_RECORD_DELETED, info\<lparr>scratch := b, errkey := ek\<rparr>, sh)"
        using update_result_err [of FM_ERR_DELETED kr sh ?info new None "sh_core sh"] 1(2) by (auto simp: run)
      then show thesis by (rule err) (use 1 so in \<open>auto simp: kept_refl\<close>)
    next
      case (2 k s')
      obtain ek where "fm_update_locked kr sh info old new = Some (HA_ERR_FOUND_DUPP_KEY, info\<lparr>scratch := b, errkey := ek\<rparr>, sh\<lparr>sh_core := s'\<rparr>)"
        using update_result_err [of FM_ERR_DUP_KEY kr sh ?info new "Some (int k + 1)" s'] 2(2) by (auto simp: run)
      then show thesis by (rule err) (use 2 so in \<open>auto simp: same_rows_kept find_Some_iff\<close>)
    next
      case (3 s')
      have k: "kept sh (sh\<lparr>sh_core := s'\<rparr>)" by (rule keptI) (use 3 so in simp_all)
      obtain v where v: "update_result kr sh ?info new (FM_ERR_OK, None, s')
        = Some (HA_OK, ?info\<lparr>inf_update := {HA_STATE_AKTIV}, current_hash_slot := -1\<rparr>, sh\<lparr>sh_core := s'\<lparr>auto_inc := v\<rparr>\<rparr>)"
        using update_result_ok [OF k] by blast
      have "kept sh (sh\<lparr>sh_core := s'\<lparr>auto_inc := v\<rparr>\<rparr>)" by (rule keptI) (use 3 so in simp_all)
      then show thesis using 3 v by (intro ok [where b = b and sh' = "sh\<lparr>sh_core := s'\<lparr>auto_inc := v\<rparr>\<rparr>"]) (simp_all add: run)
    qed
  qed
qed


lemma fm_delete_locked_cases:
  assumes so: "share_ok sh" and i: "has_slot (chunks (sh_core sh)) (current_slot info)"
  obtains (err) rc b where "fm_delete_locked sh info buf = Some (rc, info\<lparr>scratch := b\<rparr>, sh)"
      "rc \<in> {HA_ERR_RECORD_DELETED, HA_ERR_RECORD_CHANGED}"
      "rows (sh_core sh) (current_slot info) = None \<or> gen_of (sh_core sh) (current_slot info) \<noteq> current_gen info
        \<or> opt_flag info \<and> rows (sh_core sh) (current_slot info) \<noteq> Some (take (reclength (sh_core sh)) buf)"
  | (ok) b sh' where "fm_delete_locked sh info buf
        = Some (HA_OK, info\<lparr>scratch := b, inf_update := {HA_STATE_DELETED}, current_slot := -1, current_hash_slot := -1\<rparr>, sh')"
      "kept sh sh'" "rows (sh_core sh') = (rows (sh_core sh))(current_slot info := None)" "held (sh_core sh') = held (sh_core sh)"
      "gen_of (sh_core sh') = (gen_of (sh_core sh))(current_slot info := current_gen info + 1)"
      "rows (sh_core sh) (current_slot info) \<noteq> None" "gen_of (sh_core sh) (current_slot info) = current_gen info"
proof -
  have t: "table (sh_core sh)" using so by (simp add: share_ok_def)
  let ?i = "current_slot info" and ?g = "current_gen info"
  have id: "sh\<lparr>sh_core := sh_core sh\<rparr> = sh" by simp
  show thesis
  proof (rule read_check_cases [OF so i, of buf], goal_cases)
    case (1 e b)
    then show thesis by (intro err [of e b]) (auto simp: fm_delete_locked_def)
  next
    case (2 b)
    show thesis
    proof (rule delete_row_locked_cases [OF t i, of ?g], goal_cases)
      case 1
      with 2 show thesis
        by (intro err [of HA_ERR_RECORD_DELETED b]) (auto simp: fm_delete_locked_def delete_result_def)
    next
      case (2 s')
      have "kept sh (sh\<lparr>sh_core := s'\<rparr>)" by (rule keptI) (use 2 so in simp_all)
      with 2 \<open>read_check sh info buf = _\<close> show thesis
        by (intro ok [where b = b and sh' = "sh\<lparr>sh_core := s'\<rparr>"]) (simp_all add: fm_delete_locked_def delete_result_def)
    qed
  qed
qed

lemma fm_rrnd_eq:
  assumes so: "share_ok sh" and rf: "ref_of_bytes pos = rf" and i: "ref_slot rf = -1 \<or> has_slot (chunks (sh_core sh)) (ref_slot rf)"
  shows "fm_rrnd sh info buf pos = Some (
    if ref_slot rf = -1 then (HA_ERR_END_OF_FILE, info\<lparr>lastinx := -1, inf_update := {}\<rparr>, buf)
    else case rows (sh_core sh) (ref_slot rf) of
        Some r \<Rightarrow> if gen_of (sh_core sh) (ref_slot rf) = ref_gen rf
          then (HA_OK, info\<lparr>lastinx := -1, current_slot := ref_slot rf, current_gen := ref_gen rf, current_hash_slot := -1,
            inf_update := {HA_STATE_PREV_FOUND, HA_STATE_NEXT_FOUND, HA_STATE_AKTIV}\<rparr>, r)
          else (HA_ERR_RECORD_DELETED, info\<lparr>lastinx := -1, inf_update := {HA_STATE_PREV_FOUND, HA_STATE_NEXT_FOUND}\<rparr>, buf)
      | None \<Rightarrow> (HA_ERR_RECORD_DELETED, info\<lparr>lastinx := -1, inf_update := {HA_STATE_PREV_FOUND, HA_STATE_NEXT_FOUND}\<rparr>, buf))"
  using assms read_row_table [of "sh_core sh" "ref_slot rf" "ref_gen rf" buf]
  by (auto simp: fm_rrnd_def share_ok_def split: option.split)

lemma share_id: "sh\<lparr>sh_core := sh_core sh\<rparr> = sh"
  by simp

lemma fm_find_key_cases:
  assumes so: "share_ok sh" and k: "inx < keys (sh_core sh)"
  obtains (none) b where "fm_find_key sh info inx key buf = Some (HA_ERR_KEY_NOT_FOUND, info\<lparr>inf_update := {HA_STATE_NO_KEY}\<rparr>, b, sh)"
      "\<And>i r. rows (sh_core sh) i = Some r \<Longrightarrow> probe_cmp (keydef (sh_core sh) ! inx) r key \<noteq> 0"
  | (hit) i r lk ll where "fm_find_key sh info inx key buf = Some (HA_OK, info\<lparr>lastkey := lk, lastkey_len := ll, lastinx := int inx,
        current_slot := i, current_gen := gen_of (sh_core sh) i, inf_update := {HA_STATE_AKTIV}\<rparr>, r, sh)"
      "rows (sh_core sh) i = Some r" "probe_cmp (keydef (sh_core sh) ! inx) r key = 0"
proof -
  have t: "table (sh_core sh)" and kl: "inx < length (sh_keydef sh)" using so k by (simp_all add: share_ok_def)
  have kc: "fm_key (sh_core sh) inx = Some (keydef (sh_core sh) ! inx)"
    using t k by (auto simp: table_def dest!: bodyD(6) keys_readyD(2))
  show thesis
  proof (rule lookup_chain [OF t k, of key], goal_cases)
    case (1 xs)
    obtain buf' where f: "fm_core_find (sh_core sh) inx key buf (-1) = Some (lookup_result (sh_core sh) inx key xs (-1) buf', sh_core sh)"
      using 1(3) by blast
    show thesis
    proof (rule lookup_result_cases [of "sh_core sh" inx key xs "-1" buf'], goal_cases)
      case a: 1
      then show thesis using f 1(2) by (intro none [of buf']) (auto simp: fm_find_key_def kc Let_def)
    next
      case (2 i r)
      let ?kd = "sh_keydef sh ! inx"
      let ?save = "hash_rec (kc_ops (keydef (sh_core sh) ! inx)) \<noteq> None \<and> kd_flag ?kd \<inter> {HA_NOSAME, HA_NULL_PART_KEY} \<noteq> {HA_NOSAME}"
      let ?lk = "if ?save then bytes_at key 0 (kd_length ?kd) @ drop (kd_length ?kd) (lastkey info) else lastkey info"
      let ?ll = "if ?save then kd_length ?kd else lastkey_len info"
      have hs: "has_slot (chunks (sh_core sh)) i" by (rule rows_has_slot [OF 2(3)])
      have "fm_find_key sh info inx key buf = Some (HA_OK, info\<lparr>lastkey := ?lk, lastkey_len := ?ll, lastinx := int inx,
        current_slot := i, current_gen := gen_of (sh_core sh) i, inf_update := {HA_STATE_AKTIV}\<rparr>, r, sh)"
        using f 2(1) kl slot_gen_eq [OF hs] by (auto simp: fm_find_key_def kc Let_def save_key_def)
      then show thesis using 2(3,4) by (rule hit)
    qed
  qed
qed

lemma fm_find_next_key_cases:
  assumes so: "share_ok sh" and k: "inx < keys (sh_core sh)"
  obtains (none) b where "fm_find_next_key sh info inx key cur buf = Some (HA_ERR_KEY_NOT_FOUND, info\<lparr>inf_update := {HA_STATE_NEXT_FOUND}\<rparr>, b, sh)"
  | (hit) i r lk ll where "fm_find_next_key sh info inx key cur buf = Some (HA_OK, info\<lparr>lastkey := lk, lastkey_len := ll, lastinx := int inx,
        current_slot := i, current_gen := gen_of (sh_core sh) i, inf_update := {HA_STATE_AKTIV, HA_STATE_NEXT_FOUND}\<rparr>, r, sh)"
      "rows (sh_core sh) i = Some r" "probe_cmp (keydef (sh_core sh) ! inx) r key = 0"
proof -
  have t: "table (sh_core sh)" and kl: "inx < length (sh_keydef sh)" using so k by (simp_all add: share_ok_def)
  show thesis
  proof (rule lookup_chain [OF t k, of key], goal_cases)
    case (1 xs)
    let ?xs = "nodes_after cur xs"
    obtain buf' where f: "fm_core_find_next (sh_core sh) inx key cur buf (-1) = Some (lookup_result (sh_core sh) inx key ?xs (-1) buf', sh_core sh)"
      using 1(4) by blast
    show thesis
    proof (rule lookup_result_cases [of "sh_core sh" inx key ?xs "-1" buf'], goal_cases)
      case a: 1
      then show thesis using f by (intro none [of buf']) (simp add: fm_find_next_key_def Let_def)
    next
      case (2 i r)
      let ?kd = "sh_keydef sh ! inx"
      let ?save = "kd_length ?kd \<noteq> lastkey_len info \<or> bytes_at (lastkey info) 0 (kd_length ?kd) \<noteq> bytes_at key 0 (kd_length ?kd)"
      let ?lk = "if ?save then bytes_at key 0 (kd_length ?kd) @ drop (kd_length ?kd) (lastkey info) else lastkey info"
      let ?ll = "if ?save then kd_length ?kd else lastkey_len info"
      have hs: "has_slot (chunks (sh_core sh)) i" by (rule rows_has_slot [OF 2(3)])
      have "fm_find_next_key sh info inx key cur buf = Some (HA_OK, info\<lparr>lastkey := ?lk, lastkey_len := ?ll, lastinx := int inx,
        current_slot := i, current_gen := gen_of (sh_core sh) i, inf_update := {HA_STATE_AKTIV, HA_STATE_NEXT_FOUND}\<rparr>, r, sh)"
        using f 2(1) kl slot_gen_eq [OF hs] by (auto simp: fm_find_next_key_def Let_def save_key_def)
      then show thesis using 2(3,4) by (rule hit)
    qed
  qed
qed

end
