(* ===== verification/Ha_Fastmem.thy ===== *)
theory Ha_Fastmem
  imports Fm_Data
begin

text \<open>
  The storage engine handler (\<open>src/ha_fastmem.cc\<close>, \<open>src/ha_fastmem.h\<close>): one record for the members of
  \<open>ha_fastmem\<close>, one definition per method.

  The row methods take the handler, the open handle \<open>file\<close> and its share \<open>file->s\<close> and return them; the
  methods that open, close, create or drop a table work on the registry. What the server passes in or
  inherits (the table, the active index, the auto-increment step of \<open>handler::update_auto_increment\<close>)
  is an argument.
\<close>

section \<open>The handler\<close>

record ha_fastmem =
  ha_file :: "address option"
  internal_share :: address
  internal_table :: bool
  write_stmt :: bool
  row_locked :: bool
  locked_slot :: slot_id
  implicit_emptied :: bool

definition ha_fastmem_init :: ha_fastmem where
  "ha_fastmem_init = \<lparr>ha_file = None, internal_share = 0, internal_table = False, write_stmt = False,
     row_locked = False, locked_slot = -1, implicit_emptied = False\<rparr>"

section \<open>Row locks\<close>

definition unlock_current_row :: "ha_fastmem \<Rightarrow> FM_SHARE \<Rightarrow> (ha_fastmem \<times> FM_SHARE) option" where
  "unlock_current_row ha sh =
     (if \<not> row_locked ha then Some (ha, sh)
      else do {
        core \<leftarrow> unlock_slot (sh_core sh) (locked_slot ha);
        Some (ha\<lparr>row_locked := False, locked_slot := -1\<rparr>, sh\<lparr>sh_core := core\<rparr>) })"

definition lock_current_row :: "ha_fastmem \<Rightarrow> FM_INFO \<Rightarrow> FM_SHARE \<Rightarrow> (ha_fastmem \<times> FM_SHARE) option" where
  "lock_current_row ha info sh =
     (if current_slot info < 0 then Some (ha, sh)
      else if row_locked ha \<and> locked_slot ha = current_slot info then Some (ha, sh)
      else do {
        (ha1, sh1) \<leftarrow> (if row_locked ha then unlock_current_row ha sh else Some (ha, sh));
        core \<leftarrow> lock_slot (sh_core sh1) (current_slot info);
        Some (ha1\<lparr>row_locked := True, locked_slot := current_slot info\<rparr>, sh1\<lparr>sh_core := core\<rparr>) })"

text \<open>The tail of every row read of a write statement: lock the row, read it again, and give the lock
  back with error \<open>fail\<close> when the row is gone.\<close>

definition lock_and_reread :: "ha_err \<Rightarrow> ha_fastmem \<Rightarrow> FM_INFO \<Rightarrow> image \<Rightarrow> FM_SHARE
    \<Rightarrow> (ha_err \<times> ha_fastmem \<times> FM_INFO \<times> image \<times> FM_SHARE) option" where
  "lock_and_reread fail ha info buf sh = do {
     (ha1, sh1) \<leftarrow> lock_current_row ha info sh;
     (rc, info1, buf1) \<leftarrow> fm_reread_locked sh1 info buf;
     if rc \<noteq> FM_ERR_OK
     then do { (ha2, sh2) \<leftarrow> unlock_current_row ha1 sh1; Some (fail, ha2, info1, buf1, sh2) }
     else Some (HA_OK, ha1, info1, buf1, sh1) }"

datatype lock_type = F_RDLCK | F_WRLCK | F_UNLCK | F_other nat

definition external_lock :: "ha_fastmem \<Rightarrow> FM_SHARE \<Rightarrow> lock_type \<Rightarrow> (ha_fastmem \<times> FM_SHARE) option" where
  "external_lock ha sh lt =
     (if lt = F_WRLCK then Some (ha\<lparr>write_stmt := True\<rparr>, sh)
      else if lt = F_UNLCK then unlock_current_row (ha\<lparr>write_stmt := False\<rparr>) sh
      else Some (ha, sh))"

section \<open>Writing rows\<close>

definition ha_write_row :: "korr \<Rightarrow> (FM_SHARE \<Rightarrow> image \<Rightarrow> ha_err \<times> image \<times> FM_SHARE) option
    \<Rightarrow> FM_INFO \<Rightarrow> FM_SHARE \<Rightarrow> image \<Rightarrow> (ha_err \<times> FM_INFO \<times> image \<times> FM_SHARE) option" where
  "ha_write_row kr update_auto_increment info sh buf =
     (let (res, buf1, sh1) = (case update_auto_increment of None \<Rightarrow> (HA_OK, buf, sh) | Some f \<Rightarrow> f sh buf)
      in if res \<noteq> HA_OK then Some (res, info, buf1, sh1)
      else do { (rc, info1, sh2) \<leftarrow> fm_write kr sh1 info buf1; Some (rc, info1, buf1, sh2) })"

text \<open>The guard of update and delete: the row must be locked by this handler; a missing lock is taken
  if possible.\<close>

definition own_row :: "ha_fastmem \<Rightarrow> FM_INFO \<Rightarrow> bool" where
  "own_row ha info \<longleftrightarrow> row_locked ha \<and> locked_slot ha = current_slot info"

definition take_row :: "ha_fastmem \<Rightarrow> FM_INFO \<Rightarrow> FM_SHARE \<Rightarrow> (bool \<times> ha_fastmem \<times> FM_SHARE) option" where
  "take_row ha info sh =
     (if write_stmt ha \<and> own_row ha info then Some (True, ha, sh)
      else do {
        (ha1, sh1) \<leftarrow> (if write_stmt ha \<and> current_slot info \<ge> 0 \<and> \<not> row_locked ha
                       then lock_current_row ha info sh else Some (ha, sh));
        if own_row ha1 info then Some (True, ha1, sh1)
        else do { (ha2, sh2) \<leftarrow> unlock_current_row ha1 sh1; Some (False, ha2, sh2) } })"

definition ha_update_row :: "korr \<Rightarrow> ha_fastmem \<Rightarrow> FM_INFO \<Rightarrow> FM_SHARE \<Rightarrow> image \<Rightarrow> image
    \<Rightarrow> (ha_err \<times> ha_fastmem \<times> FM_INFO \<times> FM_SHARE) option" where
  "ha_update_row kr ha info sh old_data new_data = do {
     (ok, ha1, sh1) \<leftarrow> take_row ha info sh;
     if \<not> ok then Some (HA_ERR_RECORD_CHANGED, ha1, info, sh1)
     else do {
       (rc, info1, sh2) \<leftarrow> fm_update_locked kr sh1 info old_data new_data;
       (ha2, sh3) \<leftarrow> unlock_current_row ha1 sh2;
       Some (rc, ha2, info1, sh3) } }"

definition ha_delete_row :: "ha_fastmem \<Rightarrow> FM_INFO \<Rightarrow> FM_SHARE \<Rightarrow> image
    \<Rightarrow> (ha_err \<times> ha_fastmem \<times> FM_INFO \<times> FM_SHARE) option" where
  "ha_delete_row ha info sh buf = do {
     (ok, ha1, sh1) \<leftarrow> take_row ha info sh;
     if \<not> ok then Some (HA_ERR_RECORD_CHANGED, ha1, info, sh1)
     else do {
       (rc, info1, sh2) \<leftarrow> fm_delete_locked sh1 info buf;
       (ha2, sh3) \<leftarrow> unlock_current_row ha1 sh2;
       Some (rc, ha2, info1, sh3) } }"

definition ha_get_auto_increment :: "FM_SHARE \<Rightarrow> u64 \<Rightarrow> u64 \<Rightarrow> u64 \<Rightarrow> u64 \<times> u64 \<times> ha_err \<times> FM_SHARE" where
  "ha_get_auto_increment sh offset inc nb =
     (let (first, reserved, sh1) = fm_get_auto_increment sh offset inc nb
      in (first, reserved, if first = NOT 0 then HA_ERR_AUTOINC_READ_FAILED else HA_OK, sh1))"

section \<open>Reading by key\<close>

definition key_read :: "nat \<Rightarrow> ha_fastmem \<Rightarrow> FM_INFO \<Rightarrow> FM_SHARE \<Rightarrow> image \<Rightarrow> image
    \<Rightarrow> (ha_err \<times> ha_fastmem \<times> FM_INFO \<times> image \<times> FM_SHARE) option" where
  "key_read inx ha info sh buf key = do {
     (rc, info1, buf1, sh1) \<leftarrow> fm_find_key sh info inx key buf;
     if rc = HA_OK \<and> write_stmt ha then lock_and_reread HA_ERR_KEY_NOT_FOUND ha info1 buf1 sh1
     else Some (rc, ha, info1, buf1, sh1) }"

definition index_read_map :: "nat \<Rightarrow> ha_fastmem \<Rightarrow> FM_INFO \<Rightarrow> FM_SHARE \<Rightarrow> image \<Rightarrow> image
    \<Rightarrow> (ha_err \<times> ha_fastmem \<times> FM_INFO \<times> image \<times> FM_SHARE) option" where
  "index_read_map active_index ha info sh buf key = key_read active_index ha info sh buf key"

definition index_read_last_map :: "nat \<Rightarrow> ha_fastmem \<Rightarrow> FM_INFO \<Rightarrow> FM_SHARE \<Rightarrow> image \<Rightarrow> image
    \<Rightarrow> (ha_err \<times> ha_fastmem \<times> FM_INFO \<times> image \<times> FM_SHARE) option" where
  "index_read_last_map active_index ha info sh buf key = key_read active_index ha info sh buf key"

definition index_read_idx_map :: "ha_fastmem \<Rightarrow> FM_INFO \<Rightarrow> FM_SHARE \<Rightarrow> image \<Rightarrow> nat \<Rightarrow> image
    \<Rightarrow> (ha_err \<times> ha_fastmem \<times> FM_INFO \<times> image \<times> FM_SHARE) option" where
  "index_read_idx_map ha info sh buf index key = key_read index ha info sh buf key"

definition index_next :: "ha_fastmem \<Rightarrow> FM_INFO \<Rightarrow> FM_SHARE \<Rightarrow> image
    \<Rightarrow> (ha_err \<times> ha_fastmem \<times> FM_INFO \<times> image \<times> FM_SHARE) option" where
  "index_next ha info sh buf =
     (if lastinx info < 0 then Some (HA_ERR_WRONG_INDEX, ha, info, buf, sh)
      else do {
        (rc, info1, buf1, sh1) \<leftarrow> fm_find_next_key sh info (nat (lastinx info)) (lastkey info) (current_slot info) buf;
        if rc = HA_ERR_KEY_NOT_FOUND \<and> HA_STATE_NO_KEY \<notin> inf_update info1
        then Some (HA_ERR_END_OF_FILE, ha, info1, buf1, sh1)
        else if rc = HA_OK \<and> write_stmt ha then lock_and_reread HA_ERR_KEY_NOT_FOUND ha info1 buf1 sh1
        else Some (rc, ha, info1, buf1, sh1) })"

definition index_prev :: ha_err where
  "index_prev = HA_ERR_WRONG_COMMAND"

definition index_first :: ha_err where
  "index_first = HA_ERR_WRONG_COMMAND"

definition index_last :: ha_err where
  "index_last = HA_ERR_WRONG_COMMAND"

section \<open>Scans and positions\<close>

definition rnd_init :: "ha_fastmem \<Rightarrow> FM_INFO \<Rightarrow> FM_SHARE \<Rightarrow> bool \<Rightarrow> (ha_fastmem \<times> FM_INFO \<times> FM_SHARE) option" where
  "rnd_init ha info sh scan =
     (if scan then do { (ha1, sh1) \<leftarrow> unlock_current_row ha sh; Some (ha1, fm_scan_init info, sh1) }
      else Some (ha, info, sh))"

definition rnd_next :: "ha_fastmem \<Rightarrow> FM_INFO \<Rightarrow> FM_SHARE \<Rightarrow> image
    \<Rightarrow> (ha_err \<times> ha_fastmem \<times> FM_INFO \<times> image \<times> FM_SHARE) option" where
  "rnd_next ha info sh buf = do {
     (rc, info1, buf1) \<leftarrow> fm_scan sh info buf;
     if rc = HA_ERR_END_OF_FILE then Some (HA_ERR_END_OF_FILE, ha, info1, buf1, sh)
     else if rc = HA_OK \<and> write_stmt ha then lock_and_reread HA_ERR_RECORD_DELETED ha info1 buf1 sh
     else Some (rc, ha, info1, buf1, sh) }"

definition rnd_pos :: "ha_fastmem \<Rightarrow> FM_INFO \<Rightarrow> FM_SHARE \<Rightarrow> image \<Rightarrow> image
    \<Rightarrow> (ha_err \<times> ha_fastmem \<times> FM_INFO \<times> image \<times> FM_SHARE) option" where
  "rnd_pos ha info sh buf pos = do {
     (rc, info1, buf1) \<leftarrow> fm_rrnd sh info buf pos;
     if rc = HA_OK \<and> write_stmt ha then lock_and_reread HA_ERR_RECORD_DELETED ha info1 buf1 sh
     else Some (rc, ha, info1, buf1, sh) }"

definition ha_position :: "FM_INFO \<Rightarrow> image" where
  "ha_position info = fm_set_position info"

text \<open>\<open>memcmp\<close> of two positions: the sign of the first difference.\<close>

fun memcmp :: "image \<Rightarrow> image \<Rightarrow> int" where
  "memcmp (a # as) (b # bs) = (if a < b then -1 else if b < a then 1 else memcmp as bs)"
| "memcmp _ _ = 0"

definition cmp_ref :: "image \<Rightarrow> image \<Rightarrow> int" where
  "cmp_ref ref1 ref2 = memcmp (take FM_REF_LENGTH ref1) (take FM_REF_LENGTH ref2)"

section \<open>Statement boundaries and table-wide operations\<close>

definition ha_extra :: "FM_SHARE \<Rightarrow> FM_INFO \<Rightarrow> ha_extra_function \<Rightarrow> FM_INFO \<times> FM_SHARE" where
  "ha_extra sh info op = fm_extra sh info op"

definition ha_reset :: "ha_fastmem \<Rightarrow> FM_INFO \<Rightarrow> FM_SHARE \<Rightarrow> (ha_fastmem \<times> FM_INFO \<times> FM_SHARE) option" where
  "ha_reset ha info sh = do { (ha1, sh1) \<leftarrow> unlock_current_row ha sh; Some (ha1, fm_reset info, sh1) }"

definition delete_all_rows :: "FM_INFO \<Rightarrow> FM_SHARE \<Rightarrow> (ha_err \<times> FM_INFO \<times> FM_SHARE) option" where
  "delete_all_rows info sh = do { (info1, sh1) \<leftarrow> fm_clear sh info; Some (HA_OK, info1, sh1) }"

definition reset_auto_increment :: "FM_SHARE \<Rightarrow> u64 \<Rightarrow> FM_SHARE" where
  "reset_auto_increment sh value = fm_set_auto_increment sh value"

definition disable_indexes :: ha_err where
  "disable_indexes = HA_ERR_WRONG_COMMAND"

definition enable_indexes :: ha_err where
  "enable_indexes = HA_ERR_WRONG_COMMAND"

definition indexes_are_disabled :: bool where
  "indexes_are_disabled = False"

section \<open>Statistics\<close>

record ha_stats =
  st_errkey :: int
  st_records :: int
  st_deleted :: int
  st_mean_rec_length :: nat
  st_data_file_length :: nat
  st_index_file_length :: nat
  st_max_data_file_length :: nat
  st_delete_length :: int
  st_create_time :: nat
  st_auto_increment_value :: u64

text \<open>The estimate for one key: 1 for a unique key, else the rows per bucket, at least 2.\<close>

definition rec_per_key :: "ha_key_flag set \<Rightarrow> int \<Rightarrow> nat \<Rightarrow> int" where
  "rec_per_key fl recs nb =
     (if HA_NOSAME \<in> fl then 1
      else let pb = (if recs > 1 then recs div int nb else 2) in if pb < 2 then 2 else pb)"

text \<open>The estimates of all keys of the table. A key is given by its flags and whether the server has an
  array for its estimates; \<open>None\<close> is an entry that is left alone. The division needs a bucket array.\<close>

fun rec_per_keys :: "FM_SHARE_CORE \<Rightarrow> int \<Rightarrow> nat \<Rightarrow> (ha_key_flag set \<times> bool) list \<Rightarrow> int option list option" where
  "rec_per_keys core recs i [] = Some []"
| "rec_per_keys core recs i ((fl, has_array) # ks) = do {
     e \<leftarrow> (if \<not> has_array then Some None
           else if HA_NOSAME \<in> fl \<or> recs \<le> 1 then Some (Some (rec_per_key fl recs 1))
           else do {
             kc \<leftarrow> fm_key core i;
             assert_that (kc_nbuckets kc \<noteq> 0);
             Some (Some (rec_per_key fl recs (unat (kc_nbuckets kc)))) });
     es \<leftarrow> rec_per_keys core recs (i + 1) ks;
     Some (e # es) }"

definition ha_info :: "ha_stats \<Rightarrow> FM_SHARE \<Rightarrow> FM_INFO \<Rightarrow> (ha_key_flag set \<times> bool) list \<Rightarrow> bool
    \<Rightarrow> (ha_stats \<times> int option list \<times> FM_INFO) option" where
  "ha_info st sh info tkeys status_auto =
     (let (fm, info1) = fm_info sh info;
          st1 = st\<lparr>st_errkey := fi_errkey fm, st_records := fi_records fm, st_deleted := fi_deleted fm,
             st_mean_rec_length := fi_reclength fm, st_data_file_length := fi_data_length fm,
             st_index_file_length := fi_index_length fm, st_max_data_file_length := fi_max_records fm * fi_reclength fm,
             st_delete_length := fi_deleted fm * int (fi_reclength fm), st_create_time := fi_create_time fm,
             st_auto_increment_value := (if status_auto then fi_auto_increment fm else st_auto_increment_value st)\<rparr>
      in do { es \<leftarrow> rec_per_keys (sh_core sh) (st_records st1) 0 tkeys; Some (st1, es, info1) })"

datatype ha_rkey = HA_READ_KEY_EXACT | HA_READ_AFTER_KEY | HA_READ_other nat

record key_range =
  kr_length :: nat
  kr_flag :: ha_rkey

text \<open>\<open>None\<close> is \<open>HA_POS_ERROR\<close>.\<close>

definition records_in_range :: "nat \<Rightarrow> int \<Rightarrow> int \<Rightarrow> key_range option \<Rightarrow> key_range option \<Rightarrow> int option" where
  "records_in_range key_length recs rpk min_key max_key =
     (case (min_key, max_key) of
        (Some a, Some b) \<Rightarrow>
          if kr_length a \<noteq> kr_length b \<or> kr_length a \<noteq> key_length \<or> kr_flag a \<noteq> HA_READ_KEY_EXACT \<or> kr_flag b \<noteq> HA_READ_AFTER_KEY
          then None else Some (if recs \<le> 1 then recs else rpk)
      | _ \<Rightarrow> None)"

section \<open>Internal temporary tables\<close>

definition find_unique_row :: "server \<Rightarrow> ha_fastmem \<Rightarrow> FM_INFO \<Rightarrow> FM_SHARE \<Rightarrow> image \<Rightarrow> nat
    \<Rightarrow> (bool \<times> ha_fastmem \<times> FM_INFO \<times> image \<times> FM_SHARE) option" where
  "find_unique_row sv ha info sh rec unique_idx = do {
     assert_that (unique_idx < length (sh_keydef sh));
     let kd = sh_keydef sh ! unique_idx;
     if HA_NOSAME \<notin> kd_flag kd then Some (False, ha, info, rec, sh)
     else do {
       let info1 = info\<lparr>lastkey := fm_make_key sv kd (lastkey info) rec\<rparr>;
       ((rc, idx, buf), core) \<leftarrow> fm_core_find (sh_core sh) unique_idx (lastkey info1) (scratch info1) (-1);
       let sh1 = sh\<lparr>sh_core := core\<rparr>;
       let info2 = info1\<lparr>scratch := buf\<rparr>;
       if rc \<noteq> FM_ERR_OK then Some (False, ha, info2, rec, sh1)
       else do {
         g \<leftarrow> fm_slot_gen sh1 idx;
         let info3 = info2\<lparr>current_slot := idx, current_gen := g, lastinx := int unique_idx, inf_update := {HA_STATE_AKTIV}\<rparr>;
         let rec1 = take (reclength core) buf;
         if write_stmt ha
         then do {
           (rc2, ha1, info4, rec2, sh2) \<leftarrow> lock_and_reread HA_FAILURE ha info3 rec1 sh1;
           Some (rc2 = HA_OK, ha1, info4, rec2, sh2) }
         else Some (True, ha, info3, rec1, sh1) } } }"

section \<open>Opening, closing, creating and dropping tables\<close>

text \<open>The tail of \<open>open\<close>: wire the callbacks of the keys. \<open>file\<close> must not be null.\<close>

definition open_finish :: "engine_env \<Rightarrow> ha_fastmem \<Rightarrow> address option \<Rightarrow> fm_registry \<Rightarrow> (bool \<times> ha_fastmem \<times> fm_registry) option" where
  "open_finish env ha file r = do {
     h \<leftarrow> file;
     info \<leftarrow> rg_infos r h;
     sh \<leftarrow> rg_shares r (inf_s info);
     let sh1 = sh\<lparr>sh_core := fm_key_ops_init (env_server env) (sh_keydef sh) (sh_core sh)\<rparr>;
     Some (True, ha\<lparr>ha_file := Some h\<rparr>, put_share r (inf_s info) sh1) }"

definition open_new :: "engine_env \<Rightarrow> TABLE \<Rightarrow> string \<Rightarrow> nat \<Rightarrow> bool \<Rightarrow> ha_fastmem \<Rightarrow> fm_registry
    \<Rightarrow> (bool \<times> ha_fastmem \<times> fm_registry) option" where
  "open_new env tbl nm md internal ha r = do {
     (err, ci, r1) \<leftarrow> fm_prepare_create_info env tbl internal r;
     case ci of
       None \<Rightarrow> Some (False, ha\<lparr>ha_file := None\<rparr>, r1)
     | Some c \<Rightarrow> do {
         (rc, share, created, r2) \<leftarrow> fm_create env nm (c\<lparr>ci_pin_share := True\<rparr>) True r1;
         let r3 = my_free r2;
         case share of
           None \<Rightarrow> Some (False, ha\<lparr>ha_file := None\<rparr>, r3)
         | Some i \<Rightarrow> do {
             let ha1 = ha\<lparr>internal_share := i, implicit_emptied := created\<rparr>;
             (file, r4) \<leftarrow> (if internal then fm_open_from_share env i md r3 else fm_open_from_share_and_register env i md r3);
             case file of
               None \<Rightarrow> do { r5 \<leftarrow> fm_release_share r4 i internal; Some (False, ha1\<lparr>ha_file := None\<rparr>, r5) }
             | Some h \<Rightarrow> open_finish env ha1 (Some h) r4 } } }"

definition ha_open :: "engine_env \<Rightarrow> TABLE \<Rightarrow> string \<Rightarrow> nat \<Rightarrow> bool \<Rightarrow> ha_fastmem \<Rightarrow> fm_registry
    \<Rightarrow> (bool \<times> ha_fastmem \<times> fm_registry) option" where
  "ha_open env tbl nm md internal ha r =
     (let ha0 = ha\<lparr>internal_table := internal\<rparr>
      in if internal then open_new env tbl nm md True ha0 r
      else do {
        (file, r1) \<leftarrow> fm_open env nm md r;
        if file = None \<and> my_errno r1 = ENOENT then open_new env tbl nm md False ha0 r1
        else open_finish env ha0 file r1 })"

definition ha_close :: "ha_fastmem \<Rightarrow> fm_registry \<Rightarrow> fm_registry option" where
  "ha_close ha r = do { h \<leftarrow> ha_file ha; fm_close r h }"

text \<open>\<open>auto_increment_value\<close> of the \<open>HA_CREATE_INFO\<close> is the next value to use.\<close>

definition ha_create :: "engine_env \<Rightarrow> string \<Rightarrow> TABLE \<Rightarrow> u64 \<Rightarrow> ha_fastmem \<Rightarrow> fm_registry
    \<Rightarrow> (ha_err \<times> ha_fastmem \<times> fm_registry) option" where
  "ha_create env nm tbl auto_increment_value ha r = do {
     (err, ci, r1) \<leftarrow> fm_prepare_create_info env tbl (internal_table ha) r;
     case ci of
       None \<Rightarrow> Some (err, ha, r1)
     | Some c \<Rightarrow> do {
         let c1 = c\<lparr>ci_auto_increment := (if auto_increment_value \<noteq> 0 then auto_increment_value - 1 else 0)\<rparr>;
         (rc, share, created, r2) \<leftarrow> fm_create env nm c1 False r1;
         Some (rc, case share of Some i \<Rightarrow> ha\<lparr>internal_share := i\<rparr> | None \<Rightarrow> ha, my_free r2) } }"

datatype drop_result = DROPPED | NO_SUCH_TABLE | DROP_ERROR ha_err

definition fastmem_drop_table :: "fm_registry \<Rightarrow> string \<Rightarrow> (drop_result \<times> fm_registry) option" where
  "fastmem_drop_table r path = do {
     (err, r1) \<leftarrow> fm_delete_table r path;
     Some (if err = ENOENT then NO_SUCH_TABLE else if err = HA_OK then DROPPED else DROP_ERROR err, r1) }"

definition ha_delete_table :: "fm_registry \<Rightarrow> string \<Rightarrow> (drop_result \<times> fm_registry) option" where
  "ha_delete_table r nm = fastmem_drop_table r nm"

definition ha_drop_table :: "ha_fastmem \<Rightarrow> fm_registry \<Rightarrow> fm_registry option" where
  "ha_drop_table ha r = do {
     h \<leftarrow> ha_file ha;
     info \<leftarrow> rg_infos r h;
     sh \<leftarrow> rg_shares r (inf_s info);
     ha_close ha (put_share r (inf_s info) (sh\<lparr>sh_delete_on_close := True\<rparr>)) }"

definition rename_table :: "engine_env \<Rightarrow> fm_registry \<Rightarrow> string \<Rightarrow> string \<Rightarrow> (ha_err \<times> fm_registry) option" where
  "rename_table env r old_name new_name = fm_rename env r old_name new_name"

definition update_create_info :: "ha_stats \<Rightarrow> FM_SHARE \<Rightarrow> FM_INFO \<Rightarrow> (ha_key_flag set \<times> bool) list \<Rightarrow> bool \<Rightarrow> u64
    \<Rightarrow> (u64 \<times> ha_stats \<times> FM_INFO) option" where
  "update_create_info st sh info tkeys used_auto ai_value = do {
     (st1, es, info1) \<leftarrow> ha_info st sh info tkeys True;
     Some (if used_auto then ai_value else st_auto_increment_value st1, st1, info1) }"

datatype table_changes = IS_EQUAL_NO | IS_EQUAL_YES | IS_EQUAL_PACK_LENGTH

definition check_if_incompatible_data :: "bool \<Rightarrow> u64 \<Rightarrow> table_changes \<Rightarrow> bool" where
  "check_if_incompatible_data used_auto ai_value tc =
     (used_auto \<and> ai_value \<noteq> 0 \<or> tc = IS_EQUAL_NO \<or> tc = IS_EQUAL_PACK_LENGTH)"

end
