(* ===== verification/Ha_Session.thy ===== *)
theory Ha_Session
  imports Ha_Fastmem
begin

text \<open>
  Sessions on an open table: the row-lock protocol of the handler (\<open>lock_current_row\<close>,
  \<open>unlock_current_row\<close>), the invariant every method keeps, the calls of the server as data
  (\<open>ha_call\<close>, \<open>ha_exec\<close>, \<open>ha_run\<close>), and the properties of whole read-modify-write cycles, scans and
  positions.

  The view is that of one session while no other session holds a row lock; what interleaved accesses
  of several threads to one slot or counter can do is the subject of \<open>Fm_Seqlock\<close> and \<open>Fm_Auto_Inc\<close>.
\<close>

section \<open>Row locks of the handler\<close>

text \<open>
  What holds between two calls on an open table when no other session holds a row lock: the share is
  well formed, the cursor of the handle is on an existing slot or nowhere, and the only slot lock is
  the one the handler knows of.
\<close>

definition cursor_ok :: "FM_INFO \<Rightarrow> FM_SHARE \<Rightarrow> bool" where
  "cursor_ok info sh \<longleftrightarrow> (current_slot info = -1 \<or> has_slot (chunks (sh_core sh)) (current_slot info))
     \<and> lastinx info < int (keys (sh_core sh))"

definition locks_ok :: "ha_fastmem \<Rightarrow> FM_SHARE \<Rightarrow> bool" where
  "locks_ok ha sh \<longleftrightarrow> (\<forall>i. held (sh_core sh) i \<longleftrightarrow> row_locked ha \<and> i = locked_slot ha)"

definition ha_inv :: "ha_fastmem \<Rightarrow> FM_INFO \<Rightarrow> FM_SHARE \<Rightarrow> bool" where
  "ha_inv ha info sh \<longleftrightarrow> share_ok sh \<and> cursor_ok info sh \<and> locks_ok ha sh"

text \<open>A change of row locks only: rows, generations and everything fixed stay.\<close>

definition relocked_rows :: "FM_SHARE \<Rightarrow> FM_SHARE \<Rightarrow> bool" where
  "relocked_rows sh sh' \<longleftrightarrow> kept sh sh' \<and> rows (sh_core sh') = rows (sh_core sh) \<and> gen_of (sh_core sh') = gen_of (sh_core sh)
     \<and> has_slot (chunks (sh_core sh')) = has_slot (chunks (sh_core sh))"

lemma relocked_rows_refl: "share_ok sh \<Longrightarrow> relocked_rows sh sh"
  by (simp add: relocked_rows_def kept_refl)

lemma relocked_rows_trans: "relocked_rows a b \<Longrightarrow> relocked_rows b c \<Longrightarrow> relocked_rows a c"
  by (auto simp: relocked_rows_def intro: kept_trans)

lemma relocked_rowsD:
  assumes "relocked_rows sh sh'"
  shows "kept sh sh'" "share_ok sh'" "rows (sh_core sh') = rows (sh_core sh)" "gen_of (sh_core sh') = gen_of (sh_core sh)"
    "has_slot (chunks (sh_core sh')) = has_slot (chunks (sh_core sh))"
  using assms keptD(1) [of sh sh'] by (simp_all add: relocked_rows_def)

lemma cursor_ok_kept: "kept sh sh' \<Longrightarrow> cursor_ok info sh \<Longrightarrow> cursor_ok info sh'"
  by (auto simp: cursor_ok_def keptD)

lemma put_wlock_share:
  assumes so: "share_ok sh" and i: "has_slot (chunks (sh_core sh)) i"
    and c: "c = put_slot (sh_core sh) i ((slot_of (chunks (sh_core sh)) i)\<lparr>sl_wlock := w\<rparr>)"
  shows "relocked_rows sh (sh\<lparr>sh_core := c\<rparr>)" "held c = (held (sh_core sh))(i := w)"
proof -
  have t: "table (sh_core sh)" using so by (simp add: share_ok_def)
  note p = put_wlock_table [OF t i c]
  have v: "rows c = rows (sh_core sh)" "gen_of c = gen_of (sh_core sh)" using p(2) by (simp_all add: view_def)
  have h: "has_slot (chunks c) = has_slot (chunks (sh_core sh))" using i by (simp add: c fun_eq_iff)
  have "kept sh (sh\<lparr>sh_core := c\<rparr>)" by (rule keptI) (use so p h c in auto)
  then show "relocked_rows sh (sh\<lparr>sh_core := c\<rparr>)" using v h by (simp add: relocked_rows_def)
  show "held c = (held (sh_core sh))(i := w)"
    using h put_slot_views [OF i] by (auto simp: c held_def fun_eq_iff)
qed

lemma unlock_current_row_eq:
  assumes so: "share_ok sh" and l: "locks_ok ha sh"
  obtains sh' where "unlock_current_row ha sh = Some (if row_locked ha then ha\<lparr>row_locked := False, locked_slot := -1\<rparr> else ha, sh')"
    "relocked_rows sh sh'" "\<forall>i. \<not> held (sh_core sh') i"
proof (cases "row_locked ha")
  case False
  then show thesis using that [of sh] so l by (simp add: unlock_current_row_def relocked_rows_refl locks_ok_def)
next
  case True
  then have h: "held (sh_core sh) (locked_slot ha)" using l by (simp add: locks_ok_def)
  then have i: "has_slot (chunks (sh_core sh)) (locked_slot ha)" by (simp add: held_def)
  note p = put_wlock_share [OF so i refl, of False]
  show thesis
    by (rule that [OF _ p(1)]) (use True p(2) l in \<open>auto simp: unlock_current_row_def unlock_slot_eq [OF i] locks_ok_def\<close>)
qed

lemma lock_current_row_eq:
  assumes so: "share_ok sh" and l: "locks_ok ha sh" and i: "has_slot (chunks (sh_core sh)) (current_slot info)"
  obtains sh' where "lock_current_row ha info sh = Some (ha\<lparr>row_locked := True, locked_slot := current_slot info\<rparr>, sh')"
    "relocked_rows sh sh'" "\<forall>j. held (sh_core sh') j \<longleftrightarrow> j = current_slot info"
proof -
  have pos: "\<not> current_slot info < 0" using i by (auto dest: has_slot_nonneg)
  show thesis
  proof (cases "own_row ha info")
    case True
    then show thesis using that [of sh] so l pos
      by (auto simp: lock_current_row_def own_row_def relocked_rows_refl locks_ok_def)
  next
    case False
    obtain sh1 where u: "unlock_current_row ha sh = Some (if row_locked ha then ha\<lparr>row_locked := False, locked_slot := -1\<rparr> else ha, sh1)"
      "relocked_rows sh sh1" "\<forall>i. \<not> held (sh_core sh1) i" by (rule unlock_current_row_eq [OF so l])
    have u': "(if row_locked ha then unlock_current_row ha sh else Some (ha, sh))
        = Some (if row_locked ha then ha\<lparr>row_locked := False, locked_slot := -1\<rparr> else ha, sh1)"
      using u(1) by (auto simp: unlock_current_row_def)
    have so1: "share_ok sh1" "has_slot (chunks (sh_core sh1)) (current_slot info)"
      using u(2) i by (simp_all add: relocked_rowsD)
    note p = put_wlock_share [OF so1 refl, of True]
    show thesis
      by (rule that [OF _ relocked_rows_trans [OF u(2) p(1)]])
        (use False pos u' lock_slot_eq [OF so1(2)] p(2) u(3) in \<open>auto simp: lock_current_row_def own_row_def\<close>)
  qed
qed


lemma lock_and_reread_eq:
  assumes so: "share_ok sh" and l: "locks_ok ha sh" and r: "rows (sh_core sh) (current_slot info) = Some r"
  obtains sh' where "lock_and_reread fail ha info buf sh = Some (HA_OK, ha\<lparr>row_locked := True, locked_slot := current_slot info\<rparr>,
      info\<lparr>current_gen := gen_of (sh_core sh) (current_slot info)\<rparr>, r, sh')"
    "relocked_rows sh sh'" "\<forall>j. held (sh_core sh') j \<longleftrightarrow> j = current_slot info"
proof -
  obtain sh' where c: "lock_current_row ha info sh = Some (ha\<lparr>row_locked := True, locked_slot := current_slot info\<rparr>, sh')"
    "relocked_rows sh sh'" "\<forall>j. held (sh_core sh') j \<longleftrightarrow> j = current_slot info"
    by (rule lock_current_row_eq [OF so l rows_has_slot [OF r]])
  note d = relocked_rowsD [OF c(2)]
  have "fm_reread_locked sh' info buf = Some (FM_ERR_OK, info\<lparr>current_gen := gen_of (sh_core sh) (current_slot info)\<rparr>, r)"
    using reread_eq [OF d(2), of info buf] rows_has_slot [OF r] r by (simp add: d)
  then show thesis using c by (intro that [of sh']) (simp_all add: lock_and_reread_def)
qed

text \<open>The guard of update and delete: afterwards the handler holds the lock of the current row and no
  other, or the call is refused and no lock is held.\<close>

lemma take_row_cases:
  assumes so: "share_ok sh" and l: "locks_ok ha sh" and c: "cursor_ok info sh"
  obtains (no) sh' where "take_row ha info sh = Some (False, if row_locked ha then ha\<lparr>row_locked := False, locked_slot := -1\<rparr> else ha, sh')"
      "relocked_rows sh sh'" "\<forall>i. \<not> held (sh_core sh') i" "\<not> own_row ha info"
      "\<not> (write_stmt ha \<and> \<not> row_locked ha \<and> current_slot info \<noteq> -1)"
  | (yes) sh' where "take_row ha info sh = Some (True, ha\<lparr>row_locked := True, locked_slot := current_slot info\<rparr>, sh')"
      "relocked_rows sh sh'" "\<forall>j. held (sh_core sh') j \<longleftrightarrow> j = current_slot info" "has_slot (chunks (sh_core sh)) (current_slot info)"
proof (cases "own_row ha info")
  case True
  then have "has_slot (chunks (sh_core sh)) (current_slot info)" using l by (auto simp: own_row_def locks_ok_def held_def)
  then show thesis using True l so by (intro yes [of sh]) (auto simp: take_row_def own_row_def locks_ok_def relocked_rows_refl)
next
  case False
  show thesis
  proof (cases "write_stmt ha \<and> current_slot info \<ge> 0 \<and> \<not> row_locked ha")
    case True
    then have i: "has_slot (chunks (sh_core sh)) (current_slot info)" using c by (auto simp: cursor_ok_def)
    show thesis
    proof (rule lock_current_row_eq [OF so l i], goal_cases)
      case (1 sh')
      then show thesis using True False i by (intro yes [of sh']) (auto simp: take_row_def own_row_def)
    qed
  next
    case w: False
    have neg: "current_slot info \<noteq> -1 \<Longrightarrow> current_slot info \<ge> 0" using c by (auto simp: cursor_ok_def dest: has_slot_nonneg)
    show thesis
    proof (rule unlock_current_row_eq [OF so l], goal_cases)
      case (1 sh')
      then show thesis using w False neg by (intro no [of sh']) (auto simp: take_row_def)
    qed
  qed
qed

section \<open>Calls of the server\<close>

text \<open>
  The calls a server makes on an open table, as data, and the effect of a call on the handler, its
  handle, the share and the record buffer. \<open>WriteRow\<close> carries the auto-increment step of the server,
  if the table has one; \<open>HA_FAILURE\<close> stands for the result 1 of \<open>find_unique_row\<close>.
\<close>

record session =
  s_ha :: ha_fastmem
  s_info :: FM_INFO
  s_sh :: FM_SHARE
  s_buf :: image

datatype ha_call =
    WriteRow "(FM_SHARE \<Rightarrow> image \<Rightarrow> ha_err \<times> image \<times> FM_SHARE) option" image
  | UpdateRow image image
  | DeleteRow image
  | IndexReadMap nat image
  | IndexReadLastMap nat image
  | IndexReadIdxMap nat image
  | IndexNext
  | RndInit bool
  | RndNext
  | RndPos image
  | FindUniqueRow image nat
  | ExternalLock lock_type
  | ResetStatement
  | Extra ha_extra_function
  | DeleteAllRows
  | ResetAutoIncrement u64
  | GetAutoIncrement u64 u64 u64

definition put_session :: "session \<Rightarrow> ha_err \<times> ha_fastmem \<times> FM_INFO \<times> image \<times> FM_SHARE \<Rightarrow> ha_err \<times> session" where
  "put_session st r = (case r of (e, ha, info, buf, sh) \<Rightarrow> (e, \<lparr>s_ha = ha, s_info = info, s_sh = sh, s_buf = buf\<rparr>))"

fun ha_exec :: "korr \<Rightarrow> server \<Rightarrow> ha_call \<Rightarrow> session \<Rightarrow> (ha_err \<times> session) option" where
  "ha_exec kr sv (WriteRow ai rec) st = do {
     (e, info, buf, sh) \<leftarrow> ha_write_row kr ai (s_info st) (s_sh st) rec;
     Some (e, st\<lparr>s_info := info, s_sh := sh, s_buf := buf\<rparr>) }"
| "ha_exec kr sv (UpdateRow old_data new_data) st = do {
     (e, ha, info, sh) \<leftarrow> ha_update_row kr (s_ha st) (s_info st) (s_sh st) old_data new_data;
     Some (e, st\<lparr>s_ha := ha, s_info := info, s_sh := sh\<rparr>) }"
| "ha_exec kr sv (DeleteRow buf) st = do {
     (e, ha, info, sh) \<leftarrow> ha_delete_row (s_ha st) (s_info st) (s_sh st) buf;
     Some (e, st\<lparr>s_ha := ha, s_info := info, s_sh := sh\<rparr>) }"
| "ha_exec kr sv (IndexReadMap inx key) st =
     map_option (put_session st) (index_read_map inx (s_ha st) (s_info st) (s_sh st) (s_buf st) key)"
| "ha_exec kr sv (IndexReadLastMap inx key) st =
     map_option (put_session st) (index_read_last_map inx (s_ha st) (s_info st) (s_sh st) (s_buf st) key)"
| "ha_exec kr sv (IndexReadIdxMap inx key) st =
     map_option (put_session st) (index_read_idx_map (s_ha st) (s_info st) (s_sh st) (s_buf st) inx key)"
| "ha_exec kr sv IndexNext st = map_option (put_session st) (index_next (s_ha st) (s_info st) (s_sh st) (s_buf st))"
| "ha_exec kr sv (RndInit scan) st = do {
     (ha, info, sh) \<leftarrow> rnd_init (s_ha st) (s_info st) (s_sh st) scan;
     Some (HA_OK, st\<lparr>s_ha := ha, s_info := info, s_sh := sh\<rparr>) }"
| "ha_exec kr sv RndNext st = map_option (put_session st) (rnd_next (s_ha st) (s_info st) (s_sh st) (s_buf st))"
| "ha_exec kr sv (RndPos pos) st = map_option (put_session st) (rnd_pos (s_ha st) (s_info st) (s_sh st) (s_buf st) pos)"
| "ha_exec kr sv (FindUniqueRow rec idx) st = do {
     (found, ha, info, buf, sh) \<leftarrow> find_unique_row sv (s_ha st) (s_info st) (s_sh st) rec idx;
     Some (put_session st (if found then HA_OK else HA_FAILURE, ha, info, buf, sh)) }"
| "ha_exec kr sv (ExternalLock lt) st = do {
     (ha, sh) \<leftarrow> external_lock (s_ha st) (s_sh st) lt;
     Some (HA_OK, st\<lparr>s_ha := ha, s_sh := sh\<rparr>) }"
| "ha_exec kr sv ResetStatement st = do {
     (ha, info, sh) \<leftarrow> ha_reset (s_ha st) (s_info st) (s_sh st);
     Some (HA_OK, st\<lparr>s_ha := ha, s_info := info, s_sh := sh\<rparr>) }"
| "ha_exec kr sv (Extra op) st =
     (let (info, sh) = ha_extra (s_sh st) (s_info st) op in Some (HA_OK, st\<lparr>s_info := info, s_sh := sh\<rparr>))"
| "ha_exec kr sv DeleteAllRows st = do {
     (e, info, sh) \<leftarrow> delete_all_rows (s_info st) (s_sh st);
     Some (e, st\<lparr>s_info := info, s_sh := sh\<rparr>) }"
| "ha_exec kr sv (ResetAutoIncrement v) st = Some (HA_OK, st\<lparr>s_sh := reset_auto_increment (s_sh st) v\<rparr>)"
| "ha_exec kr sv (GetAutoIncrement offset inc nb) st =
     (case ha_get_auto_increment (s_sh st) offset inc nb of (first, reserved, e, sh) \<Rightarrow> Some (e, st\<lparr>s_sh := sh\<rparr>))"

text \<open>
  What the server must respect: images have the record length, the old image of an update has the keys
  of the current row, key numbers exist, a position is the end marker or lies in the table, and a
  table is not emptied in the middle of a read-modify-write cycle. The two operations that change the
  keys of a table with rows (\<open>HA_EXTRA_CHANGE_KEY_TO_UNIQUE\<close>, \<open>\<dots>_DUP\<close>) are not among the calls.
\<close>

definition ai_ok :: "(FM_SHARE \<Rightarrow> image \<Rightarrow> ha_err \<times> image \<times> FM_SHARE) \<Rightarrow> bool" where
  "ai_ok f \<longleftrightarrow> (\<forall>sh buf. \<exists>e buf' v. f sh buf = (e, buf', sh\<lparr>sh_core := (sh_core sh)\<lparr>auto_inc := v\<rparr>\<rparr>) \<and> length buf' = length buf)"

fun call_ok :: "ha_call \<Rightarrow> session \<Rightarrow> bool" where
  "call_ok (WriteRow ai rec) st \<longleftrightarrow> length rec = reclength (sh_core (s_sh st)) \<and> (\<forall>f. ai = Some f \<longrightarrow> ai_ok f)"
| "call_ok (UpdateRow old_data new_data) st \<longleftrightarrow> length new_data = reclength (sh_core (s_sh st))
     \<and> (\<forall>cur. rows (sh_core (s_sh st)) (current_slot (s_info st)) = Some cur \<longrightarrow> same_keys (sh_core (s_sh st)) cur old_data)"
| "call_ok (IndexReadMap inx key) st \<longleftrightarrow> inx < keys (sh_core (s_sh st))"
| "call_ok (IndexReadLastMap inx key) st \<longleftrightarrow> inx < keys (sh_core (s_sh st))"
| "call_ok (IndexReadIdxMap inx key) st \<longleftrightarrow> inx < keys (sh_core (s_sh st))"
| "call_ok (RndPos pos) st \<longleftrightarrow>
     ref_slot (ref_of_bytes pos) = -1 \<or> has_slot (chunks (sh_core (s_sh st))) (ref_slot (ref_of_bytes pos))"
| "call_ok (FindUniqueRow rec idx) st \<longleftrightarrow> idx < keys (sh_core (s_sh st))"
| "call_ok (Extra op) st \<longleftrightarrow> op \<noteq> HA_EXTRA_CHANGE_KEY_TO_UNIQUE \<and> op \<noteq> HA_EXTRA_CHANGE_KEY_TO_DUP"
| "call_ok DeleteAllRows st \<longleftrightarrow> \<not> row_locked (s_ha st)"
| "call_ok _ st \<longleftrightarrow> True"

fun ha_run :: "korr \<Rightarrow> server \<Rightarrow> ha_call list \<Rightarrow> session \<Rightarrow> (ha_err list \<times> session) option" where
  "ha_run kr sv [] st = Some ([], st)"
| "ha_run kr sv (c # cs) st = do { (e, st1) \<leftarrow> ha_exec kr sv c st; (es, st2) \<leftarrow> ha_run kr sv cs st1; Some (e # es, st2) }"

definition session_ok :: "session \<Rightarrow> bool" where
  "session_ok st \<longleftrightarrow> ha_inv (s_ha st) (s_info st) (s_sh st)"

text \<open>A list of calls each of which respects the rules in the state it is made in.\<close>

fun calls_ok :: "korr \<Rightarrow> server \<Rightarrow> ha_call list \<Rightarrow> session \<Rightarrow> bool" where
  "calls_ok kr sv [] st \<longleftrightarrow> True"
| "calls_ok kr sv (c # cs) st \<longleftrightarrow> call_ok c st \<and> (\<forall>e st1. ha_exec kr sv c st = Some (e, st1) \<longrightarrow> calls_ok kr sv cs st1)"

section \<open>Every call returns and keeps the invariant\<close>

lemma ha_invI: "kept sh sh' \<Longrightarrow> cursor_ok info sh' \<Longrightarrow> locks_ok ha sh' \<Longrightarrow> ha_inv ha info sh'"
  by (simp add: ha_inv_def keptD)

lemma cursor_ok_upd [simp]:
  "cursor_ok (info\<lparr>errkey := e\<rparr>) sh = cursor_ok info sh" "cursor_ok (info\<lparr>scratch := b\<rparr>) sh = cursor_ok info sh"
  "cursor_ok (info\<lparr>current_gen := g\<rparr>) sh = cursor_ok info sh" "cursor_ok (info\<lparr>inf_update := u\<rparr>) sh = cursor_ok info sh"
  "cursor_ok (info\<lparr>scan_pos := p\<rparr>) sh = cursor_ok info sh" "cursor_ok (info\<lparr>current_hash_slot := h\<rparr>) sh = cursor_ok info sh"
  "cursor_ok (info\<lparr>opt_flag := o'\<rparr>) sh = cursor_ok info sh" "cursor_ok (info\<lparr>lastkey := lk\<rparr>) sh = cursor_ok info sh"
  by (simp_all add: cursor_ok_def)

lemma locks_ok_free: "\<forall>i. \<not> held (sh_core sh) i \<Longrightarrow> \<not> row_locked ha \<Longrightarrow> locks_ok ha sh"
  by (simp add: locks_ok_def)

lemma locks_ok_same_held: "held (sh_core sh') = held (sh_core sh) \<Longrightarrow> locks_ok ha sh' = locks_ok ha sh"
  by (simp add: locks_ok_def)

text \<open>The tail of every read: after a hit on a row the handler locks it in a write statement. The row
  read again is the row that was found.\<close>

lemma read_tail:
  assumes so: "share_ok sh" and l: "locks_ok ha sh" and r: "rows (sh_core sh) (current_slot info) = Some r" and c: "cursor_ok info sh"
    and g: "current_gen info = gen_of (sh_core sh) (current_slot info)"
  obtains ha' sh' where "(if write_stmt ha then lock_and_reread fail ha info buf sh else Some (HA_OK, ha, info, buf, sh))
      = Some (HA_OK, ha', info, if write_stmt ha then r else buf, sh')"
    "relocked_rows sh sh'" "ha_inv ha' info sh'" "write_stmt ha' = write_stmt ha" "write_stmt ha \<longrightarrow> own_row ha' info"
proof (cases "write_stmt ha")
  case True
  have i: "info\<lparr>current_gen := gen_of (sh_core sh) (current_slot info)\<rparr> = info" using g by simp
  show thesis
  proof (rule lock_and_reread_eq [OF so l r, of fail buf], goal_cases)
    case (1 sh')
    note k = relocked_rowsD(1) [OF 1(2)]
    have "ha_inv (ha\<lparr>row_locked := True, locked_slot := current_slot info\<rparr>) info sh'"
      by (rule ha_invI [OF k cursor_ok_kept [OF k c]]) (use 1(3) in \<open>simp add: locks_ok_def\<close>)
    then show thesis using 1 True i by (intro that [of "ha\<lparr>row_locked := True, locked_slot := current_slot info\<rparr>" sh'])
      (simp_all add: own_row_def)
  qed
next
  case False
  then show thesis using assms by (intro that [of ha sh]) (simp_all add: ha_inv_def relocked_rows_refl)
qed

text \<open>A read by key finds a row that matches, locked in a write statement, or reports that there is none.\<close>

lemma key_read_cases:
  assumes inv: "ha_inv ha info sh" and k: "inx < keys (sh_core sh)"
  obtains (none) b where "key_read inx ha info sh buf key = Some (HA_ERR_KEY_NOT_FOUND, ha, info\<lparr>inf_update := {HA_STATE_NO_KEY}\<rparr>, b, sh)"
      "\<And>i r. rows (sh_core sh) i = Some r \<Longrightarrow> probe_cmp (keydef (sh_core sh) ! inx) r key \<noteq> 0"
  | (hit) i r lk ll ha' sh' where "key_read inx ha info sh buf key = Some (HA_OK, ha', info\<lparr>lastkey := lk, lastkey_len := ll, lastinx := int inx,
        current_slot := i, current_gen := gen_of (sh_core sh) i, inf_update := {HA_STATE_AKTIV}\<rparr>, r, sh')"
      "rows (sh_core sh) i = Some r" "probe_cmp (keydef (sh_core sh) ! inx) r key = 0" "relocked_rows sh sh'"
      "ha_inv ha' (info\<lparr>lastkey := lk, lastkey_len := ll, lastinx := int inx,
        current_slot := i, current_gen := gen_of (sh_core sh) i, inf_update := {HA_STATE_AKTIV}\<rparr>) sh'"
      "write_stmt ha' = write_stmt ha" "write_stmt ha \<longrightarrow> row_locked ha' \<and> locked_slot ha' = i"
proof -
  have so: "share_ok sh" and l: "locks_ok ha sh" using inv by (simp_all add: ha_inv_def)
  show thesis
  proof (rule fm_find_key_cases [OF so k, of info key buf], goal_cases)
    case (1 b)
    show thesis by (rule none [of b]) (use 1 in \<open>simp_all add: key_read_def\<close>)
  next
    case (2 i r lk ll)
    let ?info = "info\<lparr>lastkey := lk, lastkey_len := ll, lastinx := int inx, current_slot := i,
      current_gen := gen_of (sh_core sh) i, inf_update := {HA_STATE_AKTIV}\<rparr>"
    have "cursor_ok ?info sh" using k rows_has_slot [OF 2(2)] by (simp add: cursor_ok_def)
    show thesis
    proof (rule read_tail [OF so l _ \<open>cursor_ok ?info sh\<close>, of r HA_ERR_KEY_NOT_FOUND r], goal_cases)
      case (3 ha' sh')
      have "key_read inx ha info sh buf key = Some (HA_OK, ha', ?info, r, sh')"
        using 3(1) 2(1) by (cases "write_stmt ha") (simp_all add: key_read_def)
      then show thesis by (rule hit) (use 2 3 in \<open>simp_all add: own_row_def\<close>)
    qed (use 2 in simp_all)
  qed
qed

lemma key_read_total:
  assumes inv: "ha_inv ha info sh" and k: "inx < keys (sh_core sh)"
  shows "\<exists>e ha' info' buf' sh'. key_read inx ha info sh buf key = Some (e, ha', info', buf', sh') \<and> ha_inv ha' info' sh'"
  by (rule key_read_cases [OF inv k, of buf key]) (use inv in \<open>auto simp: ha_inv_def\<close>)

lemma index_next_total:
  assumes inv: "ha_inv ha info sh"
  shows "\<exists>e ha' info' buf' sh'. index_next ha info sh buf = Some (e, ha', info', buf', sh') \<and> ha_inv ha' info' sh'"
proof (cases "lastinx info < 0")
  case True
  then show ?thesis using inv by (simp add: index_next_def)
next
  case False
  have so: "share_ok sh" and l: "locks_ok ha sh" and c: "cursor_ok info sh" using inv by (simp_all add: ha_inv_def)
  have k: "nat (lastinx info) < keys (sh_core sh)" using c False by (simp add: cursor_ok_def nat_less_iff)
  show ?thesis
  proof (rule fm_find_next_key_cases [OF so k, of info "lastkey info" "current_slot info" buf], goal_cases)
    case (1 b)
    then show ?thesis using inv False by (simp add: index_next_def ha_inv_def)
  next
    case (2 i r lk ll)
    let ?info = "info\<lparr>lastkey := lk, lastkey_len := ll, lastinx := int (nat (lastinx info)), current_slot := i,
      current_gen := gen_of (sh_core sh) i, inf_update := {HA_STATE_AKTIV, HA_STATE_NEXT_FOUND}\<rparr>"
    have "cursor_ok ?info sh" using c k rows_has_slot [OF 2(2)] by (auto simp: cursor_ok_def)
    show ?thesis
      by (rule read_tail [OF so l _ \<open>cursor_ok ?info sh\<close>, of r HA_ERR_KEY_NOT_FOUND r])
        (use 2 False in \<open>cases "write_stmt ha"; simp add: index_next_def\<close>)+
  qed
qed

lemma rnd_next_cases:
  assumes inv: "ha_inv ha info sh"
  obtains (eof) info' b where "rnd_next ha info sh buf = Some (HA_ERR_END_OF_FILE, ha, info', b, sh)" "ha_inv ha info' sh"
      "\<And>j. scan_pos info \<le> j \<Longrightarrow> rows (sh_core sh) (int j) = None"
  | (row) i r ha' info' sh' where "rnd_next ha info sh buf = Some (HA_OK, ha', info', r, sh')" "rows (sh_core sh) (int i) = Some r"
      "scan_pos info \<le> i" "\<And>j. scan_pos info \<le> j \<Longrightarrow> j < i \<Longrightarrow> rows (sh_core sh) (int j) = None"
      "current_slot info' = int i" "current_gen info' = gen_of (sh_core sh) (int i)" "scan_pos info' = i + 1" "relocked_rows sh sh'"
      "ha_inv ha' info' sh'" "write_stmt ha' = write_stmt ha" "write_stmt ha \<longrightarrow> own_row ha' info'"
proof -
  have so: "share_ok sh" and l: "locks_ok ha sh" and c: "cursor_ok info sh" using inv by (simp_all add: ha_inv_def)
  have lay: "layout (sh_core sh)" using so by (auto simp: share_ok_def table_def dest: bodyD(1))
  let ?F = "find (\<lambda>i. active (sh_core sh) (int i)) [scan_pos info ..< total_slots (sh_core sh)]"
  obtain buf' where f: "fm_scan sh info buf = Some (case ?F of
      None \<Rightarrow> (HA_ERR_END_OF_FILE, info\<lparr>scan_pos := max (scan_pos info) (total_slots (sh_core sh)),
        inf_update := {HA_STATE_PREV_FOUND, HA_STATE_NEXT_FOUND}\<rparr>, buf')
    | Some i \<Rightarrow> (HA_OK, info\<lparr>scan_pos := i + 1, current_slot := int i, current_gen := gen_of (sh_core sh) (int i),
        current_hash_slot := -1, inf_update := {HA_STATE_PREV_FOUND, HA_STATE_NEXT_FOUND, HA_STATE_AKTIV}\<rparr>,
        the (rows (sh_core sh) (int i))))" using fm_scan_eq [OF so] by blast
  have out: "rows (sh_core sh) (int j) = None" if "total_slots (sh_core sh) \<le> j" for j
    using that layout_has_slot [OF lay, of "int j"] by (simp add: rows_eq_None_iff active_def)
  show thesis
  proof (cases ?F)
    case None
    have "rows (sh_core sh) (int j) = None" if "scan_pos info \<le> j" for j
      using None out [of j] that by (cases "j < total_slots (sh_core sh)") (auto simp: find_None_iff rows_eq_None_iff)
    then show thesis using None f inv
      by (intro eof [where b = buf' and info' = "info\<lparr>scan_pos := max (scan_pos info) (total_slots (sh_core sh)),
        inf_update := {HA_STATE_PREV_FOUND, HA_STATE_NEXT_FOUND}\<rparr>"]) (simp_all add: rnd_next_def ha_inv_def)
  next
    case (Some i)
    let ?info = "info\<lparr>scan_pos := i + 1, current_slot := int i, current_gen := gen_of (sh_core sh) (int i),
        current_hash_slot := -1, inf_update := {HA_STATE_PREV_FOUND, HA_STATE_NEXT_FOUND, HA_STATE_AKTIV}\<rparr>"
    obtain k where k: "i = [scan_pos info ..< total_slots (sh_core sh)] ! k" "k < total_slots (sh_core sh) - scan_pos info"
      "active (sh_core sh) (int i)" "\<And>j. j < k \<Longrightarrow> \<not> active (sh_core sh) (int ([scan_pos info ..< total_slots (sh_core sh)] ! j))"
      using Some by (auto simp: find_Some_iff)
    then have i: "i = scan_pos info + k" by simp
    have before: "rows (sh_core sh) (int j) = None" if "scan_pos info \<le> j" "j < i" for j
      using k(2) k(4) [of "j - scan_pos info"] that i by (simp add: rows_eq_None_iff)
    obtain r where r: "rows (sh_core sh) (int i) = Some r" using k(3) by (auto simp: rows_def)
    have cu: "cursor_ok ?info sh" using c rows_has_slot [OF r] by (auto simp: cursor_ok_def)
    show thesis
    proof (rule read_tail [OF so l _ cu, of r HA_ERR_RECORD_DELETED r], goal_cases)
      case (3 ha' sh')
      have "rnd_next ha info sh buf = Some (HA_OK, ha', ?info, r, sh')"
        using 3(1) f Some r by (cases "write_stmt ha") (simp_all add: rnd_next_def)
      then show thesis by (rule row) (use 3 r before i in simp_all)
    qed (use r in simp_all)
  qed
qed

lemma rnd_next_total:
  assumes inv: "ha_inv ha info sh"
  shows "\<exists>e ha' info' buf' sh'. rnd_next ha info sh buf = Some (e, ha', info', buf', sh') \<and> ha_inv ha' info' sh'"
  by (rule rnd_next_cases [OF inv, of buf]) auto

lemma rnd_pos_total:
  assumes inv: "ha_inv ha info sh"
    and p: "ref_slot (ref_of_bytes pos) = -1 \<or> has_slot (chunks (sh_core sh)) (ref_slot (ref_of_bytes pos))"
  shows "\<exists>e ha' info' buf' sh'. rnd_pos ha info sh buf pos = Some (e, ha', info', buf', sh') \<and> ha_inv ha' info' sh'"
proof -
  let ?rf = "ref_of_bytes pos"
  let ?hit = "ref_slot ?rf \<noteq> -1 \<and> rows (sh_core sh) (ref_slot ?rf) \<noteq> None \<and> gen_of (sh_core sh) (ref_slot ?rf) = ref_gen ?rf"
  have so: "share_ok sh" and l: "locks_ok ha sh" and c: "cursor_ok info sh" using inv by (simp_all add: ha_inv_def)
  note f = fm_rrnd_eq [OF so refl p, of info buf]
  show ?thesis
  proof (cases ?hit)
    case True
    then obtain r where r: "rows (sh_core sh) (ref_slot ?rf) = Some r" by auto
    let ?info = "info\<lparr>lastinx := -1, current_slot := ref_slot ?rf, current_gen := ref_gen ?rf, current_hash_slot := -1,
            inf_update := {HA_STATE_PREV_FOUND, HA_STATE_NEXT_FOUND, HA_STATE_AKTIV}\<rparr>"
    have "cursor_ok ?info sh" using c rows_has_slot [OF r] by (auto simp: cursor_ok_def)
    show ?thesis
      by (rule read_tail [OF so l _ \<open>cursor_ok ?info sh\<close>, of r HA_ERR_RECORD_DELETED r])
        (use f True r in \<open>cases "write_stmt ha"; simp add: rnd_pos_def\<close>)+
  next
    case False
    then obtain e u where "fm_rrnd sh info buf pos = Some (e, info\<lparr>lastinx := -1, inf_update := u\<rparr>, buf)" "e \<noteq> HA_OK"
      using f by (auto split: option.splits if_splits)
    then show ?thesis using so l c by (auto simp: rnd_pos_def ha_inv_def cursor_ok_def)
  qed
qed

lemma find_unique_row_total:
  assumes inv: "ha_inv ha info sh" and k: "idx < keys (sh_core sh)"
  shows "\<exists>b ha' info' buf' sh'. find_unique_row sv ha info sh rec idx = Some (b, ha', info', buf', sh') \<and> ha_inv ha' info' sh'"
proof -
  have so: "share_ok sh" and l: "locks_ok ha sh" and c: "cursor_ok info sh" using inv by (simp_all add: ha_inv_def)
  have t: "table (sh_core sh)" and kl: "idx < length (sh_keydef sh)" using so k by (simp_all add: share_ok_def)
  let ?kd = "sh_keydef sh ! idx" and ?lk = "fm_make_key sv (sh_keydef sh ! idx) (lastkey info) rec"
  show ?thesis
  proof (cases "HA_NOSAME \<in> kd_flag ?kd")
    case False
    then show ?thesis using kl inv by (auto simp: find_unique_row_def Let_def)
  next
    case ns: True
    show ?thesis
    proof (rule lookup_chain [OF t k, of ?lk], goal_cases)
      case (1 xs)
      obtain buf' where f: "fm_core_find (sh_core sh) idx ?lk (scratch info) (-1) = Some (lookup_result (sh_core sh) idx ?lk xs (-1) buf', sh_core sh)"
        using 1(3) by blast
      show ?thesis
      proof (rule lookup_result_cases [of "sh_core sh" idx ?lk xs "-1" buf'], goal_cases)
        case a: 1
        then show ?thesis using f ns kl inv by (auto simp: find_unique_row_def Let_def ha_inv_def)
      next
        case (2 i r)
        let ?info = "info\<lparr>lastkey := ?lk, scratch := r, current_slot := i, current_gen := gen_of (sh_core sh) i, lastinx := int idx,
          inf_update := {HA_STATE_AKTIV}\<rparr>"
        have hs: "has_slot (chunks (sh_core sh)) i" by (rule rows_has_slot [OF 2(3)])
        have "cursor_ok ?info sh" using k hs by (simp add: cursor_ok_def)
        show ?thesis
          by (rule read_tail [OF so l _ \<open>cursor_ok ?info sh\<close>, of r HA_FAILURE "take (reclength (sh_core sh)) r"])
            (use 2 f ns kl slot_gen_eq [OF hs] in \<open>cases "write_stmt ha"; auto simp: find_unique_row_def Let_def\<close>)+
      qed
    qed
  qed
qed

lemma kept_auto_inc: "share_ok sh \<Longrightarrow> kept sh (sh\<lparr>sh_core := (sh_core sh)\<lparr>auto_inc := v\<rparr>\<rparr>)"
  by (rule keptI) (auto simp: share_ok_def)

lemma ha_write_row_total:
  assumes inv: "ha_inv ha info sh" and len: "length rec = reclength (sh_core sh)" and ai: "\<And>f. ai = Some f \<Longrightarrow> ai_ok f"
  shows "\<exists>e info' buf' sh'. ha_write_row kr ai info sh rec = Some (e, info', buf', sh') \<and> ha_inv ha info' sh'"
proof -
  obtain e buf v where b: "(case ai of None \<Rightarrow> (HA_OK, rec, sh) | Some f \<Rightarrow> f sh rec) = (e, buf, sh\<lparr>sh_core := (sh_core sh)\<lparr>auto_inc := v\<rparr>\<rparr>)"
    "length buf = length rec"
  proof (cases ai)
    case None
    then show thesis by (intro that [of HA_OK rec "auto_inc (sh_core sh)"]) simp_all
  next
    case (Some f)
    then show thesis using ai [of f] that by (fastforce simp: ai_ok_def)
  qed
  let ?sh = "sh\<lparr>sh_core := (sh_core sh)\<lparr>auto_inc := v\<rparr>\<rparr>"
  have k: "kept sh ?sh" using inv by (simp add: ha_inv_def kept_auto_inc)
  have l: "locks_ok ha ?sh" using inv by (simp add: ha_inv_def locks_ok_def)
  have c: "cursor_ok info ?sh" using inv cursor_ok_kept [OF k] by (simp add: ha_inv_def)
  show ?thesis
  proof (cases "e = HA_OK")
    case False
    then show ?thesis using b ha_invI [OF k c l] by (simp add: ha_write_row_def)
  next
    case True
    have len': "length buf = reclength (sh_core ?sh)" using b(2) len by simp
    show ?thesis
    proof (rule fm_write_cases [OF keptD(1) [OF k] len', of kr info], goal_cases)
      case (1 rc ek sh')
      then show ?thesis using b True l cursor_ok_kept [OF 1(3) c] ha_invI [OF kept_trans [OF k 1(3)]]
        by (auto simp: ha_write_row_def same_rows_def locks_ok_def)
    next
      case (2 i sh')
      let ?info = "info\<lparr>lastinx := -1, current_hash_slot := -1, current_slot := i, current_gen := gen_of (sh_core sh') i, inf_update := {HA_STATE_AKTIV}\<rparr>"
      have "has_slot (chunks (sh_core sh')) i" using 2(4) by (auto intro: rows_has_slot [of _ _ buf])
      then have "ha_inv ha ?info sh'"
        using 2 l by (intro ha_invI [OF kept_trans [OF k 2(2)]]) (auto simp: cursor_ok_def locks_ok_def)
      then show ?thesis using 2(1) b True by (simp add: ha_write_row_def)
    qed
  qed
qed

text \<open>Update and delete release the row lock on every path.\<close>

definition released :: "ha_fastmem \<Rightarrow> FM_SHARE \<Rightarrow> bool" where
  "released ha sh \<longleftrightarrow> \<not> row_locked ha \<and> (\<forall>i. \<not> held (sh_core sh) i)"

lemma unlock_released:
  assumes so: "share_ok sh" and l: "locks_ok ha sh"
  obtains ha' sh' where "unlock_current_row ha sh = Some (ha', sh')" "relocked_rows sh sh'" "released ha' sh'" "write_stmt ha' = write_stmt ha"
proof (rule unlock_current_row_eq [OF so l], goal_cases)
  case (1 sh')
  let ?ha = "if row_locked ha then ha\<lparr>row_locked := False, locked_slot := -1\<rparr> else ha"
  show thesis by (rule that [of ?ha sh']) (use 1 in \<open>auto simp: released_def\<close>)
qed

lemma static_ops:
  assumes "table s" "static s' = static s" "k < keys s"
  shows "kc_ops (keydef s' ! k) = kc_ops (keydef s ! k)" "kc_unique (keydef s' ! k) = kc_unique (keydef s ! k)"
proof -
  obtain F where "body s (index_of s) {} F" using assms(1) by (auto simp: table_def)
  then have k: "k < length (keydef s)" "k < length (keydef s')"
    using assms(3) staticD(4) [OF assms(2)] by (auto dest!: bodyD(6) simp: keys_ready_def)
  have "map (\<lambda>kc. (kc_ops kc, kc_unique kc, kc_nbuckets kc)) (keydef s') ! k
      = map (\<lambda>kc. (kc_ops kc, kc_unique kc, kc_nbuckets kc)) (keydef s) ! k"
    using assms(2) by (simp add: static_def)
  then show "kc_ops (keydef s' ! k) = kc_ops (keydef s ! k)" "kc_unique (keydef s' ! k) = kc_unique (keydef s ! k)" using k by simp_all
qed

lemma static_views:
  assumes "table s" "static s' = static s"
  shows "same_keys s' = same_keys s" "rows s' = rows s \<Longrightarrow> k < keys s \<Longrightarrow> dup_row s' r k = dup_row s r k"
proof -
  note o = static_ops [OF assms]
  show "same_keys s' = same_keys s" using o staticD(1) [OF assms(2)] by (simp add: same_keys_def fun_eq_iff rec_cmp_def)
  show "dup_row s' r k = dup_row s r k" if "rows s' = rows s" "k < keys s"
    using o [OF that(2)] that(1) by (simp add: dup_row_def rec_cmp_def null_key_def)
qed

lemma ha_update_row_cases:
  assumes inv: "ha_inv ha info sh" and len: "length new_data = reclength (sh_core sh)"
    and old: "\<And>cur. rows (sh_core sh) (current_slot info) = Some cur \<Longrightarrow> same_keys (sh_core sh) cur old_data"
  obtains (err) e ha' b ek sh' where "ha_update_row kr ha info sh old_data new_data = Some (e, ha', info\<lparr>scratch := b, errkey := ek\<rparr>, sh')"
      "e \<in> {HA_ERR_RECORD_DELETED, HA_ERR_RECORD_CHANGED, HA_ERR_FOUND_DUPP_KEY}" "kept sh sh'"
      "rows (sh_core sh') = rows (sh_core sh)" "gen_of (sh_core sh') = gen_of (sh_core sh)" "released ha' sh'"
      "own_row ha info \<Longrightarrow> e = HA_ERR_FOUND_DUPP_KEY \<or> rows (sh_core sh) (current_slot info) = None
        \<or> gen_of (sh_core sh) (current_slot info) \<noteq> current_gen info
        \<or> opt_flag info \<and> rows (sh_core sh) (current_slot info) \<noteq> Some (take (reclength (sh_core sh)) old_data)"
      "e = HA_ERR_FOUND_DUPP_KEY \<longrightarrow> (\<exists>k < keys (sh_core sh). dup_row (sh_core sh) new_data k)"
  | (ok) ha' b sh' where "ha_update_row kr ha info sh old_data new_data
        = Some (HA_OK, ha', info\<lparr>scratch := b, inf_update := {HA_STATE_AKTIV}, current_hash_slot := -1\<rparr>, sh')" "kept sh sh'"
      "rows (sh_core sh') = (rows (sh_core sh))(current_slot info \<mapsto> new_data)" "gen_of (sh_core sh') = gen_of (sh_core sh)"
      "rows (sh_core sh) (current_slot info) \<noteq> None" "released ha' sh'"
proof -
  have so: "share_ok sh" and l: "locks_ok ha sh" and c: "cursor_ok info sh" using inv by (simp_all add: ha_inv_def)
  have id: "info\<lparr>scratch := scratch info, errkey := errkey info\<rparr> = info" by simp
  from so l c show thesis
  proof (cases rule: take_row_cases)
    case (no sh')
    then show thesis
      by (intro err [where b = "scratch info" and ek = "errkey info" and sh' = sh' and e = HA_ERR_RECORD_CHANGED
            and ha' = "if row_locked ha then ha\<lparr>row_locked := False, locked_slot := -1\<rparr> else ha"])
        (auto simp: ha_update_row_def relocked_rowsD released_def)
  next
    case (yes sh1)
    note d = relocked_rowsD [OF yes(2)]
    let ?ha = "ha\<lparr>row_locked := True, locked_slot := current_slot info\<rparr>"
    have st: "static (sh_core sh1) = static (sh_core sh)" "reclength (sh_core sh1) = reclength (sh_core sh)" "keys (sh_core sh1) = keys (sh_core sh)"
      using keptD [OF d(1)] by simp_all
    have sk: "same_keys (sh_core sh1) = same_keys (sh_core sh)" using static_views(1) [OF _ st(1)] so by (simp add: share_ok_def)
    have l1: "locks_ok ?ha sh'" if "held (sh_core sh') = held (sh_core sh1)" for sh' using yes(3) that by (simp add: locks_ok_def)
    show thesis
    proof (rule fm_update_locked_cases [of sh1 info new_data old_data kr], goal_cases)
      case (5 rc b ek sh2)
      have "held (sh_core sh2) = held (sh_core sh1)" using 5(4) by (simp add: same_rows_def)
      then obtain ha3 sh3 where u: "unlock_current_row ?ha sh2 = Some (ha3, sh3)" "relocked_rows sh2 sh3" "released ha3 sh3"
        using unlock_released [OF keptD(1) [OF 5(3)] l1] by metis
      note d3 = relocked_rowsD [OF u(2)]
      have dup: "rc = HA_ERR_FOUND_DUPP_KEY \<longrightarrow> (\<exists>k < keys (sh_core sh). dup_row (sh_core sh) new_data k)"
        using 5(6) so st static_views(2) [OF _ st(1) d(3)] by (auto simp: changed_of_def share_ok_def)
      have eq: "rows (sh_core sh2) = rows (sh_core sh1)" "gen_of (sh_core sh2) = gen_of (sh_core sh1)" using 5(4) by (simp_all add: same_rows_def)
      show thesis
        by (rule err [where e = rc and ha' = ha3 and b = b and ek = ek and sh' = sh3])
          (use yes(1) u 5(1,2,5) dup eq d d3 st kept_trans [OF d(1) kept_trans [OF 5(3) d3(1)]] in \<open>simp_all add: ha_update_row_def\<close>)
    next
      case (6 b sh2)
      then obtain ha3 sh3 where u: "unlock_current_row ?ha sh2 = Some (ha3, sh3)" "relocked_rows sh2 sh3" "released ha3 sh3"
        using unlock_released [OF keptD(1) [OF 6(2)] l1] by metis
      note d3 = relocked_rowsD [OF u(2)]
      show thesis
        by (rule ok [where ha' = ha3 and b = b and sh' = sh3])
          (use yes(1) u 6 d d3 kept_trans [OF d(1) kept_trans [OF 6(2) d3(1)]] in \<open>auto simp: ha_update_row_def\<close>)
    qed (use yes(4) d st sk len old in auto)
  qed
qed

lemma ha_delete_row_cases:
  assumes inv: "ha_inv ha info sh"
  obtains (err) e ha' b sh' where "ha_delete_row ha info sh buf = Some (e, ha', info\<lparr>scratch := b\<rparr>, sh')"
      "e \<in> {HA_ERR_RECORD_DELETED, HA_ERR_RECORD_CHANGED}" "kept sh sh'"
      "rows (sh_core sh') = rows (sh_core sh)" "gen_of (sh_core sh') = gen_of (sh_core sh)" "released ha' sh'"
      "own_row ha info \<Longrightarrow> rows (sh_core sh) (current_slot info) = None
        \<or> gen_of (sh_core sh) (current_slot info) \<noteq> current_gen info
        \<or> opt_flag info \<and> rows (sh_core sh) (current_slot info) \<noteq> Some (take (reclength (sh_core sh)) buf)"
  | (ok) ha' b sh' where "ha_delete_row ha info sh buf = Some (HA_OK, ha',
        info\<lparr>scratch := b, inf_update := {HA_STATE_DELETED}, current_slot := -1, current_hash_slot := -1\<rparr>, sh')" "kept sh sh'"
      "rows (sh_core sh') = (rows (sh_core sh))(current_slot info := None)"
      "gen_of (sh_core sh') = (gen_of (sh_core sh))(current_slot info := current_gen info + 1)"
      "rows (sh_core sh) (current_slot info) \<noteq> None" "released ha' sh'"
proof -
  have so: "share_ok sh" and l: "locks_ok ha sh" and c: "cursor_ok info sh" using inv by (simp_all add: ha_inv_def)
  from so l c show thesis
  proof (cases rule: take_row_cases)
    case (no sh')
    then show thesis
      by (intro err [where b = "scratch info" and sh' = sh' and e = HA_ERR_RECORD_CHANGED
            and ha' = "if row_locked ha then ha\<lparr>row_locked := False, locked_slot := -1\<rparr> else ha"])
        (auto simp: ha_delete_row_def relocked_rowsD released_def)
  next
    case (yes sh1)
    note d = relocked_rowsD [OF yes(2)]
    let ?ha = "ha\<lparr>row_locked := True, locked_slot := current_slot info\<rparr>"
    have rl: "reclength (sh_core sh1) = reclength (sh_core sh)" using keptD(4) [OF d(1)] .
    have l1: "locks_ok ?ha sh'" if "held (sh_core sh') = held (sh_core sh1)" for sh' using yes(3) that by (simp add: locks_ok_def)
    show thesis
    proof (rule fm_delete_locked_cases [of sh1 info buf], goal_cases)
      case (3 rc b)
      obtain ha3 sh3 where u: "unlock_current_row ?ha sh1 = Some (ha3, sh3)" "relocked_rows sh1 sh3" "released ha3 sh3"
        using unlock_released [OF d(2) l1] by metis
      note d3 = relocked_rowsD [OF u(2)]
      show thesis
        by (rule err [where e = rc and ha' = ha3 and b = b and sh' = sh3])
          (use yes(1) u 3 d d3 rl kept_trans [OF d(1) d3(1)] in \<open>simp_all add: ha_delete_row_def\<close>)
    next
      case (4 b sh2)
      then obtain ha3 sh3 where u: "unlock_current_row ?ha sh2 = Some (ha3, sh3)" "relocked_rows sh2 sh3" "released ha3 sh3"
        using unlock_released [OF keptD(1) [OF 4(2)] l1] by metis
      note d3 = relocked_rowsD [OF u(2)]
      show thesis
        by (rule ok [where ha' = ha3 and b = b and sh' = sh3])
          (use yes(1) u 4 d d3 kept_trans [OF d(1) kept_trans [OF 4(2) d3(1)]] in \<open>auto simp: ha_delete_row_def\<close>)
    qed (use yes(4) d in auto)
  qed
qed

lemma released_inv: "kept sh sh' \<Longrightarrow> cursor_ok info sh' \<Longrightarrow> released ha sh' \<Longrightarrow> ha_inv ha info sh'"
  by (rule ha_invI) (simp_all add: released_def locks_ok_free)

lemma ha_update_row_total:
  assumes inv: "ha_inv ha info sh" and len: "length new_data = reclength (sh_core sh)"
    and old: "\<And>cur. rows (sh_core sh) (current_slot info) = Some cur \<Longrightarrow> same_keys (sh_core sh) cur old_data"
  shows "\<exists>e ha' info' sh'. ha_update_row kr ha info sh old_data new_data = Some (e, ha', info', sh') \<and> ha_inv ha' info' sh'"
proof -
  have c: "cursor_ok info sh" using inv by (simp add: ha_inv_def)
  show ?thesis
  proof (rule ha_update_row_cases [OF inv len old, of kr], assumption, goal_cases)
    case (1 e ha' b ek sh')
    then show ?thesis using released_inv [OF 1(3) _ 1(6)] cursor_ok_kept [OF 1(3) c] by simp
  next
    case (2 ha' b sh')
    then show ?thesis using released_inv [OF 2(2) _ 2(6)] cursor_ok_kept [OF 2(2) c] by simp
  qed
qed

lemma ha_delete_row_total:
  assumes inv: "ha_inv ha info sh"
  shows "\<exists>e ha' info' sh'. ha_delete_row ha info sh buf = Some (e, ha', info', sh') \<and> ha_inv ha' info' sh'"
proof -
  have c: "cursor_ok info sh" using inv by (simp add: ha_inv_def)
  from inv show ?thesis
  proof (cases rule: ha_delete_row_cases [where buf = buf])
    case (err e ha' b sh')
    then show ?thesis using released_inv [OF err(3) _ err(6)] cursor_ok_kept [OF err(3) c] by simp
  next
    case (ok ha' b sh')
    have "cursor_ok (info\<lparr>scratch := b, inf_update := {HA_STATE_DELETED}, current_slot := -1, current_hash_slot := -1\<rparr>) sh'"
      using cursor_ok_kept [OF ok(2) c] by (simp add: cursor_ok_def)
    then show ?thesis using ok released_inv [OF ok(2) _ ok(6)] by simp
  qed
qed

text \<open>The calls that drop the row lock of the statement.\<close>

lemma unlock_inv:
  assumes inv: "ha_inv ha info sh" and c: "\<And>sh'. cursor_ok info sh' \<Longrightarrow> cursor_ok (f info) sh'"
  obtains ha' sh' where "unlock_current_row ha sh = Some (ha', sh')" "relocked_rows sh sh'" "released ha' sh'" "ha_inv ha' (f info) sh'"
proof -
  have so: "share_ok sh" and l: "locks_ok ha sh" and ci: "cursor_ok info sh" using inv by (simp_all add: ha_inv_def)
  obtain ha' sh' where u: "unlock_current_row ha sh = Some (ha', sh')" "relocked_rows sh sh'" "released ha' sh'"
    by (rule unlock_released [OF so l])
  note k = relocked_rowsD(1) [OF u(2)]
  show thesis by (rule that [OF u]) (rule released_inv [OF k c [OF cursor_ok_kept [OF k ci]] u(3)])
qed

lemma cursor_ok_reset: "cursor_ok info sh \<Longrightarrow> cursor_ok (fm_reset info) sh" "cursor_ok info sh \<Longrightarrow> cursor_ok (fm_scan_init info) sh"
  by (simp_all add: cursor_ok_def fm_reset_def fm_scan_init_def)

lemma locks_ok_write_stmt [simp]: "locks_ok (ha\<lparr>write_stmt := w\<rparr>) sh = locks_ok ha sh"
  by (simp add: locks_ok_def)

lemma external_lock_total:
  assumes inv: "ha_inv ha info sh"
  shows "\<exists>ha' sh'. external_lock ha sh lt = Some (ha', sh') \<and> ha_inv ha' info sh' \<and> (lt = F_UNLCK \<longrightarrow> released ha' sh')"
proof -
  have w: "ha_inv (ha\<lparr>write_stmt := w\<rparr>) info sh" for w using inv by (simp add: ha_inv_def)
  obtain ha' sh' where "unlock_current_row (ha\<lparr>write_stmt := False\<rparr>) sh = Some (ha', sh')" "released ha' sh'" "ha_inv ha' info sh'"
    by (rule unlock_inv [OF w, of "\<lambda>i. i"]) auto
  then show ?thesis using w inv by (auto simp: external_lock_def)
qed

lemma ha_reset_total:
  assumes inv: "ha_inv ha info sh"
  shows "\<exists>ha' sh'. ha_reset ha info sh = Some (ha', fm_reset info, sh') \<and> ha_inv ha' (fm_reset info) sh' \<and> released ha' sh'
    \<and> rows (sh_core sh') = rows (sh_core sh)"
  by (rule unlock_inv [OF inv, of fm_reset]) (auto simp: cursor_ok_reset ha_reset_def relocked_rowsD)

lemma rnd_init_total:
  assumes inv: "ha_inv ha info sh"
  shows "\<exists>ha' info' sh'. rnd_init ha info sh scan = Some (ha', info', sh') \<and> ha_inv ha' info' sh'"
  by (rule unlock_inv [OF inv, of fm_scan_init]) (auto simp: cursor_ok_reset rnd_init_def inv)

lemma delete_all_rows_eq:
  assumes inv: "ha_inv ha info sh" and nl: "\<not> row_locked ha"
  shows "\<exists>sh'. delete_all_rows info sh = Some (HA_OK, info\<lparr>current_slot := -1, current_hash_slot := -1, lastinx := -1, inf_update := {}\<rparr>, sh')
    \<and> ha_inv ha (info\<lparr>current_slot := -1, current_hash_slot := -1, lastinx := -1, inf_update := {}\<rparr>) sh'
    \<and> rows (sh_core sh') = Map.empty"
proof -
  have so: "share_ok sh" and l: "locks_ok ha sh" using inv by (simp_all add: ha_inv_def)
  have t: "table (sh_core sh)" using so by (simp add: share_ok_def)
  have "\<And>i. \<not> held (sh_core sh) i" using l nl by (simp add: locks_ok_def)
  from clear_eq [OF t this] obtain s' where s: "fm_core_clear (sh_core sh) = Some s'" "table s'" "rows s' = Map.empty"
    "\<forall>i. \<not> held s' i" "static s' = static (sh_core sh)" "has_slot (chunks s') = has_slot (chunks (sh_core sh))" by blast
  have "kept sh (sh\<lparr>sh_core := s'\<rparr>)" by (rule keptI) (use so s in simp_all)
  then have "ha_inv ha (info\<lparr>current_slot := -1, current_hash_slot := -1, lastinx := -1, inf_update := {}\<rparr>) (sh\<lparr>sh_core := s'\<rparr>)"
    by (rule ha_invI) (use nl s(4) in \<open>simp_all add: cursor_ok_def locks_ok_def\<close>)
  then show ?thesis using s by (simp add: delete_all_rows_def fm_clear_def)
qed

lemma ha_inv_auto_inc:
  assumes "ha_inv ha info sh" shows "ha_inv ha info (sh\<lparr>sh_core := (sh_core sh)\<lparr>auto_inc := v\<rparr>\<rparr>)"
  using assms by (auto simp: ha_inv_def cursor_ok_def locks_ok_def)

lemma extra_inv:
  assumes inv: "ha_inv ha info sh" and op: "op \<noteq> HA_EXTRA_CHANGE_KEY_TO_UNIQUE" "op \<noteq> HA_EXTRA_CHANGE_KEY_TO_DUP"
  shows "\<exists>info'. ha_extra sh info op = (info', sh) \<and> ha_inv ha info' sh"
  using assms by (cases op) (auto simp: ha_extra_def ha_inv_def cursor_ok_reset)

lemma get_auto_increment_eq: "\<exists>first reserved e v. ha_get_auto_increment sh off inc nb
    = (first, reserved, e, sh\<lparr>sh_core := (sh_core sh)\<lparr>auto_inc := v\<rparr>\<rparr>)"
proof (cases "reserve_target (auto_inc (sh_core sh)) off inc nb")
  case None
  then show ?thesis
    by (auto simp: ha_get_auto_increment_def fm_get_auto_increment_def fm_core_auto_inc_reserve_def Let_def
        intro: exI [of _ "auto_inc (sh_core sh)"])
next
  case (Some p)
  then show ?thesis
    by (cases p) (auto simp: ha_get_auto_increment_def fm_get_auto_increment_def fm_core_auto_inc_reserve_def Let_def)
qed

theorem ha_call_total:
  assumes inv: "session_ok st" and c: "call_ok call st"
  shows "\<exists>e st'. ha_exec kr sv call st = Some (e, st') \<and> session_ok st'"
proof -
  have i: "ha_inv (s_ha st) (s_info st) (s_sh st)" using inv by (simp add: session_ok_def)
  show ?thesis
  proof (cases call)
    case (WriteRow ai rec)
    with c ha_write_row_total [OF i, of rec ai kr] show ?thesis by (auto simp: session_ok_def)
  next
    case (UpdateRow o' n')
    with c ha_update_row_total [OF i, of n' o' kr] show ?thesis by (auto simp: session_ok_def)
  next
    case (DeleteRow b)
    with ha_delete_row_total [OF i, of b] show ?thesis by (auto simp: session_ok_def)
  next
    case (IndexReadMap inx key)
    with c key_read_total [OF i, of inx "s_buf st" key] show ?thesis by (auto simp: session_ok_def index_read_map_def put_session_def)
  next
    case (IndexReadLastMap inx key)
    with c key_read_total [OF i, of inx "s_buf st" key] show ?thesis by (auto simp: session_ok_def index_read_last_map_def put_session_def)
  next
    case (IndexReadIdxMap inx key)
    with c key_read_total [OF i, of inx "s_buf st" key] show ?thesis by (auto simp: session_ok_def index_read_idx_map_def put_session_def)
  next
    case IndexNext
    with index_next_total [OF i, of "s_buf st"] show ?thesis by (auto simp: session_ok_def put_session_def)
  next
    case (RndInit scan)
    with rnd_init_total [OF i, of scan] show ?thesis by (auto simp: session_ok_def)
  next
    case RndNext
    with rnd_next_total [OF i, of "s_buf st"] show ?thesis by (auto simp: session_ok_def put_session_def)
  next
    case (RndPos pos)
    with c rnd_pos_total [OF i, of pos "s_buf st"] show ?thesis by (auto simp: session_ok_def put_session_def)
  next
    case (FindUniqueRow rec idx)
    with c find_unique_row_total [OF i, of idx sv rec] show ?thesis by (auto simp: session_ok_def put_session_def)
  next
    case (ExternalLock lt)
    with external_lock_total [OF i, of lt] show ?thesis by (auto simp: session_ok_def)
  next
    case ResetStatement
    with ha_reset_total [OF i] show ?thesis by (auto simp: session_ok_def)
  next
    case (Extra op)
    with c extra_inv [OF i, of op] show ?thesis by (auto simp: session_ok_def)
  next
    case DeleteAllRows
    with c delete_all_rows_eq [OF i] show ?thesis by (auto simp: session_ok_def)
  next
    case (ResetAutoIncrement v)
    with ha_inv_auto_inc [OF i] show ?thesis
      by (auto simp: session_ok_def reset_auto_increment_def fm_set_auto_increment_def Let_def i)
  next
    case (GetAutoIncrement off inc nb)
    with ha_inv_auto_inc [OF i] get_auto_increment_eq [of "s_sh st" off inc nb] show ?thesis by (auto simp: session_ok_def)
  qed
qed

section \<open>Full scans\<close>

text \<open>The loop of the server over \<open>rnd_next\<close> up to the end of the table, with the slot and image of
  every row it is given; \<open>None\<close> is a call that does not return, or the end of the fuel.\<close>

fun scan_rows :: "nat \<Rightarrow> ha_fastmem \<Rightarrow> FM_INFO \<Rightarrow> FM_SHARE \<Rightarrow> image \<Rightarrow> ((slot_id \<times> image) list \<times> ha_fastmem \<times> FM_INFO \<times> FM_SHARE) option" where
  "scan_rows 0 ha info sh buf = None"
| "scan_rows (Suc n) ha info sh buf = do {
     (e, ha1, info1, buf1, sh1) \<leftarrow> rnd_next ha info sh buf;
     if e = HA_ERR_END_OF_FILE then Some ([], ha1, info1, sh1)
     else do {
       (xs, ha2, info2, sh2) \<leftarrow> scan_rows n ha1 info1 sh1 buf1;
       Some (if e = HA_OK then (current_slot info1, buf1) # xs else xs, ha2, info2, sh2) } }"

lemma scan_rows_eq:
  assumes "ha_inv ha info sh" "\<And>j. N \<le> j \<Longrightarrow> rows (sh_core sh) (int j) = None" "N - scan_pos info < n"
  shows "\<exists>ha' info' sh'. scan_rows n ha info sh buf
      = Some (map (\<lambda>i. (int i, the (rows (sh_core sh) (int i)))) (filter (\<lambda>i. rows (sh_core sh) (int i) \<noteq> None) [scan_pos info ..< N]), ha', info', sh')
    \<and> relocked_rows sh sh' \<and> ha_inv ha' info' sh'"
  using assms
proof (induction n arbitrary: ha info sh buf)
  case (Suc n)
  show ?case
  proof (rule rnd_next_cases [OF Suc.prems(1), of buf], goal_cases)
    case (1 info' b)
    have e: "filter (\<lambda>i. rows (sh_core sh) (int i) \<noteq> None) [scan_pos info ..< N] = []"
      using 1(3) by (auto simp: filter_empty_conv)
    have "relocked_rows sh sh" using Suc.prems(1) by (simp add: relocked_rows_refl ha_inv_def)
    then show ?case using 1(1,2) unfolding e by simp
  next
    case (2 i r ha' info' sh')
    note d = relocked_rowsD [OF 2(8)]
    have iN: "i < N" using 2(2) Suc.prems(2) [of i] by (cases "i < N") auto
    have s: "[scan_pos info ..< N] = [scan_pos info ..< i] @ i # [i + 1 ..< N]"
      using 2(3) iN upt_add_eq_append [of "scan_pos info" i "N - i"] by (simp add: upt_conv_Cons)
    have e: "filter (\<lambda>i. rows (sh_core sh) (int i) \<noteq> None) [scan_pos info ..< i] = []"
      using 2(4) by (auto simp: filter_empty_conv)
    have "N - scan_pos info' < n" using Suc.prems(3) 2(3,7) iN by simp
    then obtain ha2 info2 sh2 where r: "scan_rows n ha' info' sh' r
        = Some (map (\<lambda>i. (int i, the (rows (sh_core sh) (int i)))) (filter (\<lambda>i. rows (sh_core sh) (int i) \<noteq> None) [i + 1 ..< N]), ha2, info2, sh2)"
      "relocked_rows sh' sh2" "ha_inv ha2 info2 sh2"
      using Suc.IH [OF 2(9), of r] Suc.prems(2) 2(7) d(3) by auto
    then show ?case using 2(1,2,5) relocked_rows_trans [OF 2(8) r(2)] unfolding s filter_append e by simp
  qed
qed simp

lemma key_read_hit:
  assumes inv: "ha_inv ha info sh" and k: "inx < keys (sh_core sh)" and w: "write_stmt ha"
    and r0: "rows (sh_core sh) i0 = Some r0" "probe_cmp (keydef (sh_core sh) ! inx) r0 key = 0"
  obtains i r ha' info' sh' where "key_read inx ha info sh buf key = Some (HA_OK, ha', info', r, sh')"
    "rows (sh_core sh) i = Some r" "probe_cmp (keydef (sh_core sh) ! inx) r key = 0" "relocked_rows sh sh'"
    "ha_inv ha' info' sh'" "own_row ha' info'" "current_slot info' = i" "current_gen info' = gen_of (sh_core sh) i"
proof (rule key_read_cases [OF inv k, of buf key], goal_cases)
  case (1 b)
  then show thesis using r0 by blast
next
  case (2 i r lk ll ha' sh')
  show thesis by (rule 2(1) [OF 2(2-6)]) (use 2(8) w in \<open>simp_all add: own_row_def\<close>)
qed

lemma ha_run_total:
  assumes "session_ok st" "calls_ok kr sv cs st"
  shows "\<exists>es st'. ha_run kr sv cs st = Some (es, st') \<and> length es = length cs \<and> session_ok st'"
  using assms
proof (induction cs arbitrary: st)
  case (Cons c cs)
  obtain e st1 where "ha_exec kr sv c st = Some (e, st1)" "session_ok st1"
    using ha_call_total [OF Cons.prems(1), of c kr sv] Cons.prems(2) by auto
  with Cons.IH [of st1] Cons.prems(2) show ?case by fastforce
qed simp

section \<open>A session with one row\<close>

definition demo_korr :: korr where
  "demo_korr = \<lparr>sint2korr = \<lambda>_. 0, sint3korr = \<lambda>_. 0, sint4korr = \<lambda>_. 0, sint8korr = \<lambda>_. 0, u2korr = \<lambda>_. 0, uint3korr = \<lambda>_. 0,
     uint4korr = \<lambda>_. 0, uint8korr = \<lambda>_. 0, float4get = \<lambda>_. 0, float8get = \<lambda>_. 0\<rparr>"

definition demo_session :: "FM_SHARE_CORE \<Rightarrow> bool \<Rightarrow> session" where
  "demo_session core w = \<lparr>s_ha = ha_fastmem_init\<lparr>write_stmt := w\<rparr>,
     s_info = \<lparr>inf_s = 0, current_slot = -1, current_gen = 0, current_hash_slot = -1, lastinx = -1, errkey = -1, inf_update = {},
       opt_flag = True, inf_mode = 0, scan_pos = 0, lastkey_len = 0, lastkey = [0], scratch = [0, 0], open_listed = True\<rparr>,
     s_sh = \<lparr>sh_name = ''demo'', sh_core = core, sh_keydef = [binary_keydef binary_charset 0 1], sh_max_key_length = 1,
       sh_open_count = 1, sh_delete_on_close = False, sh_internal = False, sh_create_time = 0, sh_open_list = [0]\<rparr>,
     s_buf = [0, 0]\<rparr>"

lemma demo_session_fields [simp]:
  "sh_core (s_sh (demo_session core w)) = core" "write_stmt (s_ha (demo_session core w)) = w" "\<not> row_locked (s_ha (demo_session core w))"
  "scan_pos (s_info (demo_session core w)) = 0"
  by (simp_all add: demo_session_def ha_fastmem_init_def)

lemma demo_share_auto_key: "auto_key demo_share = 0"
  by (simp add: demo_share_def wire_keys_def fm_core_init_share_def zero_share_def core_alloc_def Let_def init_keys_eq)

lemma demo_row_session:
  obtains i core where "\<And>w. session_ok (demo_session core w)" "rows core = [i \<mapsto> [7, 1]]" "keys core = 1" "reclength core = 2"
    "\<And>r k. probe_cmp (keydef core ! 0) r k = (if hd (r @ [0]) = hd (k @ [0]) then 0 else 1)" "has_slot (chunks core) i"
proof (rule demo_first_row, goal_cases)
  case (1 i core)
  note st = staticD [OF 1(8)]
  have f: "keys core = 1" "reclength core = 2" "auto_key core = 0"
    using st demo_share_fields demo_share_auto_key by simp_all
  have "length (keydef demo_share) = 1" using arg_cong [OF demo_share_keydef, of length] by simp
  then have "kc_ops (keydef core ! 0) = byte_key"
    using st(5) [of 0] demo_share_keydef by (cases "keydef demo_share") auto
  then have "probe_cmp (keydef core ! 0) r k = (if hd (r @ [0]) = hd (k @ [0]) then 0 else 1)" for r k
    by (simp add: probe_cmp_def byte_key_def)
  moreover have "session_ok (demo_session core w)" for w
    using 1 f by (simp add: session_ok_def ha_inv_def share_ok_def cursor_ok_def locks_ok_def demo_session_def ha_fastmem_init_def)
  ultimately show thesis using 1(2-8) f by (intro 1(1) [of core i]) simp_all
qed

section \<open>Properties of the handler\<close>

text \<open>
  C2: A session that respects the rules of the server never gets stuck, whatever calls it makes: every
  call returns, and after it the share is well formed, the cursor is on an existing slot or nowhere
  and the only row lock is the one the handler knows of.
\<close>

theorem session_never_stuck:
  assumes "session_ok st" "calls_ok kr sv cs st"
  shows "\<exists>es st'. ha_run kr sv cs st = Some (es, st') \<and> length es = length cs \<and> session_ok st'"
  by (rule ha_run_total [OF assms])

theorem session_never_stuck_witness:
  "\<exists>st i es st'. session_ok st \<and> rows (sh_core (s_sh st)) = [i \<mapsto> [7, 1]] \<and> ha_run demo_korr little_server
      [ExternalLock F_WRLCK, IndexReadMap 0 [7], DeleteRow [7, 1], RndNext, ResetStatement] st = Some (es, st')
    \<and> length es = 5 \<and> session_ok st'"
proof (rule demo_row_session, goal_cases)
  case (1 i core)
  let ?cs = "[ExternalLock F_WRLCK, IndexReadMap 0 [7], DeleteRow [7, 1], RndNext, ResetStatement]" and ?st = "demo_session core False"
  have "calls_ok demo_korr little_server ?cs ?st" using 1(3) by (auto simp: external_lock_def)
  from session_never_stuck [OF 1(1) this] obtain es st' where "ha_run demo_korr little_server ?cs ?st = Some (es, st')"
    "length es = length ?cs" "session_ok st'" by blast
  then show ?case using 1(1,2) by (intro exI [of _ ?st] exI [of _ i] exI [of _ es] exI [of _ st']) (simp del: ha_run.simps)
qed

text \<open>
  C7: The read-modify-write cycle of an update by key loses no update. In a write statement, if a row
  with the key exists, the index read returns such a row and leaves exactly that row locked, so that
  its image stays current while the server computes the new one; the update then replaces exactly
  this row, or reports a duplicate that is really there and changes nothing. Afterwards no row is
  locked.
\<close>

theorem read_modify_write:
  assumes st: "session_ok st" "write_stmt (s_ha st)" "inx < keys (sh_core (s_sh st))"
    and row: "rows (sh_core (s_sh st)) i0 = Some r0" "probe_cmp (keydef (sh_core (s_sh st)) ! inx) r0 key = 0"
    and f: "\<And>r. length (f r) = reclength (sh_core (s_sh st))"
  shows "\<exists>i r st1 e st2. ha_exec kr sv (IndexReadMap inx key) st = Some (HA_OK, st1) \<and> s_buf st1 = r
    \<and> rows (sh_core (s_sh st)) i = Some r \<and> probe_cmp (keydef (sh_core (s_sh st)) ! inx) r key = 0
    \<and> (\<forall>j. held (sh_core (s_sh st1)) j \<longleftrightarrow> j = i)
    \<and> ha_exec kr sv (UpdateRow r (f r)) st1 = Some (e, st2) \<and> (\<forall>j. \<not> held (sh_core (s_sh st2)) j)
    \<and> (e = HA_OK \<and> rows (sh_core (s_sh st2)) = (rows (sh_core (s_sh st)))(i \<mapsto> f r)
       \<or> e = HA_ERR_FOUND_DUPP_KEY \<and> rows (sh_core (s_sh st2)) = rows (sh_core (s_sh st))
         \<and> (\<exists>k < keys (sh_core (s_sh st)). dup_row (sh_core (s_sh st)) (f r) k))"
proof -
  let ?sh = "s_sh st" and ?key = "key_read inx (s_ha st) (s_info st) (s_sh st) (s_buf st) key"
  have inv: "ha_inv (s_ha st) (s_info st) ?sh" using st by (simp add: session_ok_def)
  then have t: "table (sh_core ?sh)" by (simp add: ha_inv_def share_ok_def)
  show ?thesis
  proof (rule key_read_hit [OF inv st(3,2) row, of "s_buf st"], goal_cases)
    case (1 i r ha' info' sh')
    note d = relocked_rowsD [OF 1(4)]
    have c: "static (sh_core sh') = static (sh_core ?sh)" "reclength (sh_core sh') = reclength (sh_core ?sh)" "keys (sh_core sh') = keys (sh_core ?sh)"
      using keptD [OF d(1)] by simp_all
    have self: "same_keys (sh_core sh') r r" using stored_row [OF t 1(2)] static_views(1) [OF t c(1)] by simp
    have len: "take (reclength (sh_core sh')) r = r" using stored_row [OF t 1(2)] c(2) by simp
    let ?st1 = "\<lparr>s_ha = ha', s_info = info', s_sh = sh', s_buf = r\<rparr>"
    have e1: "ha_exec kr sv (IndexReadMap inx key) st = Some (HA_OK, ?st1)"
      using 1(1) by (simp add: index_read_map_def put_session_def)
    have h: "\<forall>j. held (sh_core sh') j \<longleftrightarrow> j = i" using 1(5,6,7) by (auto simp: ha_inv_def locks_ok_def own_row_def)
    have "\<exists>e st2. ha_exec kr sv (UpdateRow r (f r)) ?st1 = Some (e, st2) \<and> (\<forall>j. \<not> held (sh_core (s_sh st2)) j)
      \<and> (e = HA_OK \<and> rows (sh_core (s_sh st2)) = (rows (sh_core ?sh))(i \<mapsto> f r)
       \<or> e = HA_ERR_FOUND_DUPP_KEY \<and> rows (sh_core (s_sh st2)) = rows (sh_core ?sh)
         \<and> (\<exists>k < keys (sh_core ?sh). dup_row (sh_core ?sh) (f r) k))"
    proof (rule ha_update_row_cases [OF 1(5), of "f r" r kr], goal_cases)
      case (3 e ha3 b ek sh3)
      have "e = HA_ERR_FOUND_DUPP_KEY" using 3(7) [OF 1(6)] 1(2,7,8) d len by simp
      moreover have "\<exists>k < keys (sh_core ?sh). dup_row (sh_core ?sh) (f r) k"
        using 3(8) calculation c(3) static_views(2) [OF t c(1) d(3)] by auto
      ultimately show ?case using 3 d by (simp add: released_def)
    next
      case (4 ha3 b sh3)
      then show ?case using d 1(7) by (simp add: released_def)
    qed (use f c(2) self d 1(2,7) in auto)
    then show ?case using e1 1(2,3) h by fastforce
  qed
qed

theorem read_modify_write_witness:
  "\<exists>st i st1 st2 e. rows (sh_core (s_sh st)) = [i \<mapsto> [7, 1]] \<and> ha_exec demo_korr little_server (IndexReadMap 0 [7]) st = Some (HA_OK, st1)
     \<and> held (sh_core (s_sh st1)) i \<and> ha_exec demo_korr little_server (UpdateRow [7, 1] [7, 2]) st1 = Some (e, st2)
     \<and> (\<forall>j. \<not> held (sh_core (s_sh st2)) j)"
proof (rule demo_row_session, goal_cases)
  case (1 i core)
  let ?st = "demo_session core True"
  have "0 < keys (sh_core (s_sh ?st))" "rows (sh_core (s_sh ?st)) i = Some [7, 1]" "length [7, 2] = reclength (sh_core (s_sh ?st))"
    "probe_cmp (keydef (sh_core (s_sh ?st)) ! 0) [7, 1] [7] = 0" using 1 by simp_all
  from read_modify_write [OF 1(1) _ this(1,2,4), of "\<lambda>_. [7, 2]" demo_korr little_server] this(3)
  obtain i' r st1 e st2 where "ha_exec demo_korr little_server (IndexReadMap 0 [7]) ?st = Some (HA_OK, st1)" "rows core i' = Some r"
    "\<forall>j. held (sh_core (s_sh st1)) j \<longleftrightarrow> j = i'" "ha_exec demo_korr little_server (UpdateRow r [7, 2]) st1 = Some (e, st2)"
    "\<forall>j. \<not> held (sh_core (s_sh st2)) j"
    by (simp del: ha_exec.simps) blast
  moreover have "i' = i" "r = [7, 1]" using calculation(2) 1(2) by (auto split: if_splits)
  ultimately show ?case using 1(2) by (intro exI [of _ ?st] exI [of _ i] exI [of _ st1] exI [of _ st2] exI [of _ e]) (simp del: ha_exec.simps)
qed

text \<open>
  C21: Every call that ends a read-modify-write cycle or a statement leaves no row locked, on every
  path, errors included: update, delete, the start of a scan, the reset at a statement boundary and
  the end of the table lock.
\<close>

fun ends_cycle :: "ha_call \<Rightarrow> bool" where
  "ends_cycle (UpdateRow old_data new_data) = True"
| "ends_cycle (DeleteRow buf) = True"
| "ends_cycle (RndInit scan) = scan"
| "ends_cycle ResetStatement = True"
| "ends_cycle (ExternalLock lt) = (lt = F_UNLCK)"
| "ends_cycle _ = False"

theorem cycle_end_releases_locks:
  assumes inv: "session_ok st" and c: "call_ok call st" and e: "ends_cycle call"
  shows "\<exists>rc st'. ha_exec kr sv call st = Some (rc, st') \<and> \<not> row_locked (s_ha st') \<and> (\<forall>i. \<not> held (sh_core (s_sh st')) i)"
proof -
  have i: "ha_inv (s_ha st) (s_info st) (s_sh st)" using inv by (simp add: session_ok_def)
  show ?thesis
  proof (cases call)
    case (UpdateRow o' n')
    then have o: "length n' = reclength (sh_core (s_sh st))"
      "\<And>cur. rows (sh_core (s_sh st)) (current_slot (s_info st)) = Some cur \<Longrightarrow> same_keys (sh_core (s_sh st)) cur o'" using c by simp_all
    show ?thesis
      by (rule ha_update_row_cases [OF i o, of kr], assumption) (simp_all add: UpdateRow released_def)
  next
    case (DeleteRow b)
    show ?thesis by (rule ha_delete_row_cases [OF i, of b]) (simp_all add: DeleteRow released_def)
  next
    case (RndInit scan)
    show ?thesis by (rule unlock_inv [OF i, of fm_scan_init]) (use RndInit e in \<open>auto simp: cursor_ok_reset rnd_init_def released_def\<close>)
  next
    case ResetStatement
    then show ?thesis using ha_reset_total [OF i] by (auto simp: released_def)
  next
    case (ExternalLock lt)
    then show ?thesis using external_lock_total [OF i, of lt] e by (auto simp: released_def)
  qed (use e in simp_all)
qed

theorem cycle_end_releases_locks_witness:
  "\<exists>st i rc st'. rows (sh_core (s_sh st)) = [i \<mapsto> [7, 1]] \<and> ha_exec demo_korr little_server (DeleteRow [7, 1]) st = Some (rc, st')
     \<and> (\<forall>j. \<not> held (sh_core (s_sh st')) j)"
proof (rule demo_row_session, goal_cases)
  case (1 i core)
  from cycle_end_releases_locks [OF 1(1) [of True], of "DeleteRow [7, 1]" demo_korr little_server] 1(2) show ?case
    by (intro exI [of _ "demo_session core True"] exI [of _ i]) auto
qed

text \<open>
  Emptying the table in the middle of a read-modify-write cycle waits for the row lock the same
  handler holds: the call never returns.
\<close>

theorem delete_all_rows_self_deadlock:
  assumes "session_ok st" "row_locked (s_ha st)"
  shows "ha_exec kr sv DeleteAllRows st = None"
proof -
  have "table (sh_core (s_sh st))" "held (sh_core (s_sh st)) (locked_slot (s_ha st))"
    using assms by (auto simp: session_ok_def ha_inv_def share_ok_def locks_ok_def)
  then have "fm_core_clear (sh_core (s_sh st)) = None"
    using clear_unheld [of "sh_core (s_sh st)" _ "locked_slot (s_ha st)"] by (cases "fm_core_clear (sh_core (s_sh st))") auto
  then show ?thesis by (simp add: delete_all_rows_def fm_clear_def)
qed

theorem delete_all_rows_self_deadlock_witness:
  "\<exists>st st1. ha_exec demo_korr little_server (IndexReadMap 0 [7]) st = Some (HA_OK, st1) \<and> ha_exec demo_korr little_server DeleteAllRows st1 = None"
proof (rule demo_row_session, goal_cases)
  case (1 i core)
  let ?st = "demo_session core True"
  have inv: "ha_inv (s_ha ?st) (s_info ?st) (s_sh ?st)" using 1(1) by (simp add: session_ok_def)
  show ?case
  proof (rule key_read_hit [OF inv, of 0 i "[7, 1]" "[7]" "s_buf ?st"], goal_cases)
    case (5 i r ha' info' sh')
    let ?st1 = "\<lparr>s_ha = ha', s_info = info', s_sh = sh', s_buf = r\<rparr>"
    have "ha_exec demo_korr little_server DeleteAllRows ?st1 = None"
      by (rule delete_all_rows_self_deadlock) (use 5 in \<open>simp_all add: session_ok_def own_row_def\<close>)
    then show ?case using 5(1) by (intro exI [of _ ?st] exI [of _ ?st1]) (simp add: index_read_map_def put_session_def)
  qed (use 1 in simp_all)
qed

text \<open>
  C20: A full scan returns every row of the table exactly once, in slot order, and then the end of the
  table, also when the statement writes and the row lock moves along. Enough fuel is one more step
  than the table has slots.
\<close>

theorem full_scan_exact:
  assumes "session_ok st" "total_slots (sh_core (s_sh st)) < n"
  shows "\<exists>ha info sh xs ha' info' sh'. rnd_init (s_ha st) (s_info st) (s_sh st) True = Some (ha, info, sh)
    \<and> scan_rows n ha info sh buf = Some (xs, ha', info', sh') \<and> sorted_wrt (<) (map fst xs)
    \<and> (\<forall>i r. (i, r) \<in> set xs \<longleftrightarrow> rows (sh_core (s_sh st)) i = Some r)
    \<and> rows (sh_core sh') = rows (sh_core (s_sh st)) \<and> ha_inv ha' info' sh'"
proof -
  let ?core = "sh_core (s_sh st)" and ?N = "total_slots (sh_core (s_sh st))"
  have inv: "ha_inv (s_ha st) (s_info st) (s_sh st)" using assms(1) by (simp add: session_ok_def)
  then have lay: "layout ?core" by (auto simp: ha_inv_def share_ok_def table_def dest: bodyD(1))
  have out: "rows ?core (int j) = None" if "?N \<le> j" for j
    using that layout_has_slot [OF lay, of "int j"] by (simp add: rows_eq_None_iff active_def)
  have slot: "0 \<le> i \<and> nat i < ?N" if "rows ?core i = Some r" for i r
    using layout_has_slot [OF lay, of i] rows_has_slot [OF that] by auto
  let ?js = "filter (\<lambda>i. rows ?core (int i) \<noteq> None) [0 ..< ?N]"
  let ?xs = "map (\<lambda>i. (int i, the (rows ?core (int i)))) ?js"
  have all: "(i, r) \<in> set ?xs \<longleftrightarrow> rows ?core i = Some r" for i r
  proof
    assume "rows ?core i = Some r"
    then show "(i, r) \<in> set ?xs" using slot [of i r] by (auto simp: image_iff intro!: bexI [of _ "nat i"])
  qed auto
  have "sorted_wrt (<) ?js" by (intro sorted_wrt_filter) simp
  then have srt: "sorted_wrt (<) (map fst ?xs)" by (simp add: sorted_wrt_map)
  show ?thesis
  proof (rule unlock_inv [OF inv, of fm_scan_init], goal_cases)
    case (2 ha sh)
    note d = relocked_rowsD [OF 2(2)]
    have sp: "scan_pos (fm_scan_init (s_info st)) = 0" by (simp add: fm_scan_init_def)
    obtain ha' info' sh' where "scan_rows n ha (fm_scan_init (s_info st)) sh buf = Some (?xs, ha', info', sh')"
      "relocked_rows sh sh'" "ha_inv ha' info' sh'"
      using scan_rows_eq [OF 2(4), of ?N n buf] out assms(2) unfolding sp d(3) by auto
    moreover have "rows (sh_core sh') = rows ?core" using relocked_rowsD(3) [OF calculation(2)] d(3) by simp
    moreover have "rnd_init (s_ha st) (s_info st) (s_sh st) True = Some (ha, fm_scan_init (s_info st), sh)"
      using 2(1) by (simp add: rnd_init_def)
    ultimately show ?case using srt all by blast
  qed (simp add: cursor_ok_reset)
qed

theorem full_scan_exact_witness:
  "\<exists>st i ha info sh ha' info' sh'. session_ok st \<and> rows (sh_core (s_sh st)) = [i \<mapsto> [7, 1]]
     \<and> rnd_init (s_ha st) (s_info st) (s_sh st) True = Some (ha, info, sh)
     \<and> scan_rows (total_slots (sh_core (s_sh st)) + 1) ha info sh [] = Some ([(i, [7, 1])], ha', info', sh')"
proof (rule demo_row_session, goal_cases)
  case (1 i core)
  let ?st = "demo_session core True"
  from full_scan_exact [OF 1(1) [of True], of "total_slots (sh_core (s_sh ?st)) + 1" "[]"]
  obtain ha info sh xs ha' info' sh' where x: "rnd_init (s_ha ?st) (s_info ?st) (s_sh ?st) True = Some (ha, info, sh)"
    "scan_rows (total_slots (sh_core (s_sh ?st)) + 1) ha info sh [] = Some (xs, ha', info', sh')" "sorted_wrt (<) (map fst xs)"
    "\<forall>i r. (i, r) \<in> set xs \<longleftrightarrow> rows core i = Some r" by (auto simp del: scan_rows.simps)
  have "p \<in> set xs \<longleftrightarrow> p = (i, [7, 1])" for p using x(4) 1(2) by (cases p) (auto split: if_splits)
  then have s: "set xs = {(i, [7, 1])}" by blast
  have "distinct xs" using x(3) by (metis distinct_map strict_sorted_iff)
  then have "length xs = 1" using s distinct_card [of xs] by simp
  then have "xs = [(i, [7, 1])]" using s by (cases xs) auto
  with x 1(1,2) show ?case by (intro exI [of _ ?st] exI [of _ i]) (auto simp del: scan_rows.simps)
qed

lemma memcmp_eq_0: "length a = length b \<Longrightarrow> memcmp a b = 0 \<longleftrightarrow> a = b"
  by (induction a b rule: list_induct2) auto

lemma share_slot_range:
  assumes "share_ok sh" "has_slot (chunks (sh_core sh)) i"
  shows "0 \<le> i" "i < 2 ^ 31"
proof -
  have lay: "layout (sh_core sh)" using assms(1) by (auto simp: share_ok_def table_def dest: bodyD(1))
  show "0 \<le> i" "i < 2 ^ 31" using layout_has_slot [OF lay, of i] layout_total_bound [OF lay] assms(2) by simp_all
qed

lemma ref_of_position:
  assumes "share_ok sh" "has_slot (chunks (sh_core sh)) (current_slot info)"
  shows "ref_of_bytes (ha_position info) = \<lparr>ref_slot = current_slot info, ref_gen = current_gen info\<rparr>"
  using share_slot_range [OF assms] ref_of_ref_bytes [of "\<lparr>ref_slot = current_slot info, ref_gen = current_gen info\<rparr>" "[]"]
  by (simp add: ha_position_def fm_set_position_def)

text \<open>
  C29: A saved position finds its row again, and only its row: as long as the row is there, reading at
  the position returns it; once the row is gone, also when its slot holds another row by then, the
  read reports a deleted record. Two saved positions compare equal exactly when slot and generation
  agree.
\<close>

theorem position_roundtrip:
  assumes so: "share_ok sh" and i: "has_slot (chunks (sh_core sh)) (current_slot info)"
  shows "(\<exists>info''. fm_rrnd sh info' buf (ha_position info) =
      Some (if gen_of (sh_core sh) (current_slot info) = current_gen info \<and> rows (sh_core sh) (current_slot info) \<noteq> None
            then (HA_OK, info'', the (rows (sh_core sh) (current_slot info))) else (HA_ERR_RECORD_DELETED, info'', buf)))
    \<and> (\<forall>info2. has_slot (chunks (sh_core sh)) (current_slot info2) \<longrightarrow>
      (cmp_ref (ha_position info) (ha_position info2) = 0
        \<longleftrightarrow> current_slot info = current_slot info2 \<and> current_gen info = current_gen info2))"
proof (intro conjI allI impI)
  note rf = ref_of_position [OF so i]
  have "current_slot info \<noteq> -1" using share_slot_range(1) [OF so i] by simp
  then show "\<exists>info''. fm_rrnd sh info' buf (ha_position info) =
      Some (if gen_of (sh_core sh) (current_slot info) = current_gen info \<and> rows (sh_core sh) (current_slot info) \<noteq> None
            then (HA_OK, info'', the (rows (sh_core sh) (current_slot info))) else (HA_ERR_RECORD_DELETED, info'', buf))"
    using fm_rrnd_eq [OF so rf, of info' buf] i by (auto split: option.split)
  fix info2 :: FM_INFO assume i2: "has_slot (chunks (sh_core sh)) (current_slot info2)"
  have "cmp_ref (ha_position info) (ha_position info2) = 0 \<longleftrightarrow> ha_position info = ha_position info2"
    by (simp add: cmp_ref_def memcmp_eq_0 ha_position_def fm_set_position_def)
  also have "\<dots> \<longleftrightarrow> current_slot info = current_slot info2 \<and> current_gen info = current_gen info2"
  proof
    assume "ha_position info = ha_position info2"
    from arg_cong [OF this, of ref_of_bytes] show "current_slot info = current_slot info2 \<and> current_gen info = current_gen info2"
      by (simp add: rf ref_of_position [OF so i2])
  qed (simp add: ha_position_def fm_set_position_def)
  finally show "cmp_ref (ha_position info) (ha_position info2) = 0
    \<longleftrightarrow> current_slot info = current_slot info2 \<and> current_gen info = current_gen info2" .
qed

theorem position_roundtrip_witness:
  "\<exists>sh i info info' info''. rows (sh_core sh) = [i \<mapsto> [7, 1]] \<and> current_slot info = i
     \<and> fm_rrnd sh info' [] (ha_position info) = Some (HA_OK, info'', [7, 1])"
proof (rule demo_row_session, goal_cases)
  case (1 i core)
  let ?st = "demo_session core True"
  let ?info = "(s_info ?st)\<lparr>current_slot := i, current_gen := gen_of core i\<rparr>"
  have "share_ok (s_sh ?st)" using 1(1) [of True] by (simp add: session_ok_def ha_inv_def)
  from position_roundtrip [OF this, of ?info "s_info ?st" "[]"] 1(2,6)
  obtain info'' where "fm_rrnd (s_sh ?st) (s_info ?st) [] (ha_position ?info) = Some (HA_OK, info'', [7, 1])" by auto
  moreover have "rows (sh_core (s_sh ?st)) = [i \<mapsto> [7, 1]]" "current_slot ?info = i" using 1(2) by simp_all
  ultimately show ?case by blast
qed

end
