(* ===== verification/Fm_Registry.thy ===== *)
theory Fm_Registry
  imports Fm_Create
begin

text \<open>
  The registry of shares under every sequence of lifecycle calls (\<open>src/fm_create.cc\<close>): the invariant
  that ties open counts, open lists, pins, the list of shares and the allocated blocks together, that
  every operation keeps it and returns, on the paths without memory too, and when a dropped share is
  freed. Every call holds the registry mutex for its whole duration, so calls of several sessions are
  steps of \<open>reg_step\<close> in some order.
\<close>

section \<open>The invariant of the registry\<close>

text \<open>
  \<open>pins\<close> counts the references to a share that are held outside a handle: the pin \<open>fm_create\<close> takes on
  behalf of a handler under construction, and the reference of the creator of an internal table,
  which is in no list. A pin of a listed share is part of its open count, that of an internal one is not.
\<close>

definition handles :: "fm_registry \<Rightarrow> address \<Rightarrow> address set" where
  "handles r i = {h. \<exists>info. rg_infos r h = Some info \<and> inf_s info = i}"

definition listed :: "fm_registry \<Rightarrow> address \<Rightarrow> address set" where
  "listed r i = {h. \<exists>info. rg_infos r h = Some info \<and> inf_s info = i \<and> open_listed info}"

definition freeable :: "FM_SHARE_CORE \<Rightarrow> bool" where
  "freeable core \<longleftrightarrow> fm_core_free_share core \<noteq> None"

definition counted_share :: "fm_registry \<Rightarrow> (address \<Rightarrow> nat) \<Rightarrow> address \<Rightarrow> FM_SHARE \<Rightarrow> bool" where
  "counted_share r pins i sh \<longleftrightarrow> sh_open_count sh = card (handles r i) + (if sh_internal sh then 0 else pins i)
     \<and> distinct (sh_open_list sh) \<and> set (sh_open_list sh) = listed r i"

definition owned_share :: "fm_registry \<Rightarrow> (address \<Rightarrow> nat) \<Rightarrow> address \<Rightarrow> FM_SHARE \<Rightarrow> bool" where
  "owned_share r pins i sh \<longleftrightarrow>
     (if sh_internal sh then pins i + card (handles r i) = 1 \<and> sh_delete_on_close sh
      else sh_delete_on_close sh \<longrightarrow> 0 < sh_open_count sh)"

text \<open>\<open>X\<close> are shares that are about to be freed: nothing needs to own them.\<close>

definition reg_inv :: "address set \<Rightarrow> fm_registry \<Rightarrow> (address \<Rightarrow> nat) \<Rightarrow> bool" where
  "reg_inv X r pins \<longleftrightarrow> finite (dom (rg_shares r)) \<and> finite (dom (rg_infos r))
     \<and> (\<forall>i \<in> dom (rg_shares r) \<union> dom (rg_infos r). i < rg_next r)
     \<and> distinct (fm_share_list r) \<and> set (fm_share_list r) = {i. \<exists>sh. rg_shares r i = Some sh \<and> \<not> sh_internal sh}
     \<and> (\<forall>h info. rg_infos r h = Some info \<longrightarrow> rg_shares r (inf_s info) \<noteq> None)
     \<and> (\<forall>i. 0 < pins i \<longrightarrow> rg_shares r i \<noteq> None)
     \<and> (\<forall>i sh. rg_shares r i = Some sh \<longrightarrow> freeable (sh_core sh) \<and> counted_share r pins i sh \<and> (i \<in> X \<or> owned_share r pins i sh))
     \<and> rg_live r = 2 * int (card (dom (rg_shares r))) + int (card (dom (rg_infos r)))"

definition reg_ok :: "fm_registry \<Rightarrow> (address \<Rightarrow> nat) \<Rightarrow> bool" where
  "reg_ok r pins \<longleftrightarrow> \<not> THR_LOCK_fastmem r \<and> reg_inv {} r pins"

lemma same_infos:
  assumes "rg_infos r' = rg_infos r"
  shows "handles r' = handles r" "listed r' = listed r" "counted_share r' pins = counted_share r pins" "owned_share r' pins = owned_share r pins"
proof -
  show h: "handles r' = handles r" "listed r' = listed r" using assms by (simp_all add: handles_def listed_def fun_eq_iff)
  show "counted_share r' pins = counted_share r pins" "owned_share r' pins = owned_share r pins"
    by (simp_all add: counted_share_def owned_share_def h fun_eq_iff)
qed

lemma reg_inv_frame [simp]:
  "reg_inv X (r\<lparr>THR_LOCK_fastmem := b\<rparr>) pins = reg_inv X r pins" "reg_inv X (r\<lparr>my_errno := e\<rparr>) pins = reg_inv X r pins"
  "reg_inv X (r\<lparr>rg_mallocs := n\<rparr>) pins = reg_inv X r pins"
  by (simp_all add: reg_inv_def handles_def listed_def counted_share_def owned_share_def)

lemma reg_invD:
  assumes "reg_inv X r pins"
  shows "finite (dom (rg_shares r))" "finite (dom (rg_infos r))" "rg_shares r i = Some sh \<Longrightarrow> i < rg_next r"
    "rg_infos r h = Some info \<Longrightarrow> h < rg_next r"
    "distinct (fm_share_list r)" "set (fm_share_list r) = {i. \<exists>sh. rg_shares r i = Some sh \<and> \<not> sh_internal sh}"
    "rg_infos r h = Some info \<Longrightarrow> \<exists>sh. rg_shares r (inf_s info) = Some sh"
    "0 < pins i \<Longrightarrow> \<exists>sh. rg_shares r i = Some sh" "rg_shares r i = Some sh \<Longrightarrow> freeable (sh_core sh)"
    "rg_shares r i = Some sh \<Longrightarrow> counted_share r pins i sh" "rg_shares r i = Some sh \<Longrightarrow> i \<notin> X \<Longrightarrow> owned_share r pins i sh"
    "rg_live r = 2 * int (card (dom (rg_shares r))) + int (card (dom (rg_infos r)))"
  using assms by (auto simp: reg_inv_def)

lemma finite_handles: "reg_inv X r pins \<Longrightarrow> finite (handles r i)"
  by (rule finite_subset [of _ "dom (rg_infos r)"]) (auto simp: handles_def reg_invD)

lemma card_dom_remove: "finite (dom f) \<Longrightarrow> f i = Some x \<Longrightarrow> card (dom f) = Suc (card (dom f - {i}))"
  by (rule card.remove) auto

lemma find_share_loop_eq:
  "\<forall>i \<in> set is. rg_shares r i \<noteq> None \<Longrightarrow> \<exists>f. find_share_loop r nm is = Some f
    \<and> (case f of None \<Rightarrow> \<forall>i \<in> set is. sh_name (the (rg_shares r i)) \<noteq> nm
       | Some i \<Rightarrow> i \<in> set is \<and> sh_name (the (rg_shares r i)) = nm)"
proof (induction "is")
  case (Cons i "is")
  then obtain sh where "rg_shares r i = Some sh" by auto
  with Cons show ?case by (cases "sh_name sh = nm") (auto split: option.splits)
qed simp

lemma find_named_share_cases:
  assumes "reg_inv X r pins"
  obtains (none) "fm_find_named_share r nm = Some None" "\<And>i sh. rg_shares r i = Some sh \<Longrightarrow> \<not> sh_internal sh \<Longrightarrow> sh_name sh \<noteq> nm"
  | (found) i sh where "fm_find_named_share r nm = Some (Some i)" "rg_shares r i = Some sh" "\<not> sh_internal sh" "sh_name sh = nm"
proof -
  note l = reg_invD(6) [OF assms]
  have "\<forall>i \<in> set (fm_share_list r). rg_shares r i \<noteq> None" using l by auto
  then obtain f where f: "find_share_loop r nm (fm_share_list r) = Some f"
    "case f of None \<Rightarrow> \<forall>i \<in> set (fm_share_list r). sh_name (the (rg_shares r i)) \<noteq> nm
      | Some i \<Rightarrow> i \<in> set (fm_share_list r) \<and> sh_name (the (rg_shares r i)) = nm" using find_share_loop_eq [of "fm_share_list r" r nm] by blast
  show thesis
  proof (cases f)
    case None
    then show thesis using f l by (intro none) (force simp: fm_find_named_share_def)+
  next
    case (Some i)
    then show thesis using f l by (auto simp: fm_find_named_share_def intro!: found [of i])
  qed
qed

section \<open>Freeing a share\<close>

lemma fm_free_eq:
  assumes inv: "reg_inv X r pins" and i: "rg_shares r i = Some sh" and h: "handles r i = {}" and p: "pins i = 0"
  obtains r' where "fm_free r i = Some r'" "reg_inv (X - {i}) r' pins" "r' = r\<lparr>rg_shares := (rg_shares r)(i := None),
      fm_share_list := fm_share_list r', rg_live := rg_live r - 2\<rparr>"
proof -
  note d = reg_invD [OF inv]
  obtain c where c: "fm_core_free_share (sh_core sh) = Some c" using d(9) [OF i] by (auto simp: freeable_def)
  let ?l = "if sh_internal sh then fm_share_list r else remove1 i (fm_share_list r)"
  let ?r = "r\<lparr>rg_shares := (rg_shares r)(i := None), fm_share_list := ?l, rg_live := rg_live r - 2\<rparr>"
  have e: "fm_free r i = Some ?r"
    using i c by (simp add: fm_free_def Let_def my_free_def fm_share_list_remove_def)
  have card: "int (card (dom (rg_shares r) - {i})) = int (card (dom (rg_shares r))) - 1"
    using card_dom_remove [OF d(1) i] by simp
  have cs: "counted_share ?r pins = counted_share r pins" "owned_share ?r pins = owned_share r pins"
    by (rule same_infos; simp)+
  have "set ?l = {j. \<exists>sh. ((rg_shares r)(i := None)) j = Some sh \<and> \<not> sh_internal sh}"
    using d(5,6) i by (auto simp: set_remove1_eq)
  moreover have "((rg_shares r)(i := None)) (inf_s info) \<noteq> None" if "rg_infos r k = Some info" for k info
    using d(7) [OF that] h that by (auto simp: handles_def)
  moreover have "\<forall>j. 0 < pins j \<longrightarrow> ((rg_shares r)(i := None)) j \<noteq> None" using d(8) p by auto
  ultimately have "reg_inv (X - {i}) ?r pins"
    using inv unfolding reg_inv_def cs by (auto simp: card)
  then show thesis using e by (intro that [of ?r]) simp_all
qed

section \<open>Changes of one object\<close>

lemma counted_share_pins: "pins' i = pins i \<Longrightarrow> counted_share r pins' i = counted_share r pins i"
  "pins' i = pins i \<Longrightarrow> owned_share r pins' i = owned_share r pins i"
  by (simp_all add: counted_share_def owned_share_def fun_eq_iff)

lemma reg_inv_put_share:
  assumes inv: "reg_inv X r pins" and i: "rg_shares r i = Some sh" "sh_internal sh' = sh_internal sh" "freeable (sh_core sh')"
    and c: "counted_share r (pins(i := p)) i sh'" "i \<in> Y \<or> owned_share r (pins(i := p)) i sh'" and Y: "X - {i} \<subseteq> Y"
  shows "reg_inv Y (put_share r i sh') (pins(i := p))"
proof -
  note d = reg_invD [OF inv]
  let ?r = "put_share r i sh'" and ?p = "pins(i := p)"
  have ri: "rg_infos ?r = rg_infos r" by (simp add: put_share_def)
  note cs = same_infos [OF ri]
  have dm: "dom (rg_shares ?r) = dom (rg_shares r)" using i(1) by (auto simp: put_share_def)
  have "{j. \<exists>sh. rg_shares ?r j = Some sh \<and> \<not> sh_internal sh} = {j. \<exists>sh. rg_shares r j = Some sh \<and> \<not> sh_internal sh}"
    using i by (auto simp: put_share_def)
  moreover have "freeable (sh_core s) \<and> counted_share ?r ?p j s \<and> (j \<in> Y \<or> owned_share ?r ?p j s)" if "rg_shares ?r j = Some s" for j s
  proof (cases "j = i")
    case True
    have "s = sh'" using that True by (simp add: put_share_def)
    then show ?thesis using True i c by (simp add: cs)
  next
    case False
    then have r: "rg_shares r j = Some s" "?p j = pins j" using that by (simp_all add: put_share_def)
    then show ?thesis using d(9-11) [OF r(1)] False Y counted_share_pins [of ?p j pins r] by (cases "j \<in> X") (auto simp: cs)
  qed
  moreover have "\<forall>h info. rg_infos r h = Some info \<longrightarrow> rg_shares ?r (inf_s info) \<noteq> None"
    using d(7) by (fastforce simp: put_share_def)
  moreover have "\<forall>j. 0 < ?p j \<longrightarrow> rg_shares ?r j \<noteq> None" using d(8) by (auto simp: put_share_def)
  moreover have "fm_share_list ?r = fm_share_list r" "rg_next ?r = rg_next r" "rg_live ?r = rg_live r" by (simp_all add: put_share_def)
  ultimately show ?thesis using d(1-6,12) unfolding reg_inv_def dm ri by auto
qed

lemma handles_del_info:
  assumes "rg_infos r' = (rg_infos r)(h := None)"
  shows "handles r' i = handles r i - {h}" "listed r' i = listed r i - {h}"
  using assms by (auto simp: handles_def listed_def)

lemma handles_add_info:
  assumes "rg_infos r' = (rg_infos r)(h \<mapsto> info)" "rg_infos r h = None"
  shows "handles r' i = (if inf_s info = i then insert h (handles r i) else handles r i)"
    "listed r' i = (if inf_s info = i \<and> open_listed info then insert h (listed r i) else listed r i)" "h \<notin> handles r i" "h \<notin> listed r i"
  using assms by (auto simp: handles_def listed_def)

text \<open>A handle is taken out: the count goes down, and nothing may own the share any more.\<close>

lemma reg_inv_close:
  assumes inv: "reg_inv {} r pins" and h: "rg_infos r h = Some info" "rg_shares r (inf_s info) = Some sh"
    and sh': "sh' = sh\<lparr>sh_open_list := (if open_listed info then remove1 h (sh_open_list sh) else sh_open_list sh), sh_open_count := sh_open_count sh - 1\<rparr>"
    and r': "r' = (put_share r (inf_s info) sh')\<lparr>rg_infos := (rg_infos r)(h := None), rg_live := rg_live r - 1\<rparr>"
  shows "reg_inv {inf_s info} r' pins" "0 < sh_open_count sh"
proof -
  note d = reg_invD [OF inv]
  let ?i = "inf_s info"
  have hi: "h \<in> handles r ?i" using h(1) by (auto simp: handles_def)
  have c: "sh_open_count sh = card (handles r ?i) + (if sh_internal sh then 0 else pins ?i)" "distinct (sh_open_list sh)"
    "set (sh_open_list sh) = listed r ?i" using d(10) [OF h(2)] by (simp_all add: counted_share_def)
  have card: "card (handles r ?i) = Suc (card (handles r ?i - {h}))" using finite_handles [OF inv] hi by (rule card.remove)
  then show pos: "0 < sh_open_count sh" using c(1) by simp
  have ri: "rg_infos r' = (rg_infos r)(h := None)" by (simp add: r')
  note hd = handles_del_info [OF ri]
  have nl: "\<not> open_listed info \<Longrightarrow> h \<notin> listed r ?i" using h(1) by (auto simp: listed_def)
  have "freeable (sh_core s) \<and> counted_share r' pins j s \<and> (j \<in> {?i} \<or> owned_share r' pins j s)" if s: "rg_shares r' j = Some s" for j s
  proof (cases "j = ?i")
    case True
    then have "s = sh'" using s by (simp add: r' put_share_def)
    moreover have "counted_share r' pins ?i sh'"
      using c card nl by (auto simp: counted_share_def sh' hd set_remove1_eq)
    ultimately show ?thesis using True d(9) [OF h(2)] by (simp add: sh')
  next
    case False
    then have r: "rg_shares r j = Some s" using s by (simp add: r' put_share_def)
    have "h \<notin> handles r j" "h \<notin> listed r j" using h(1) False by (auto simp: handles_def listed_def)
    then have "counted_share r' pins j s = counted_share r pins j s" "owned_share r' pins j s = owned_share r pins j s"
      by (simp_all add: counted_share_def owned_share_def hd)
    then show ?thesis using d(9-11) [OF r] by simp
  qed
  moreover have "dom (rg_shares r') = dom (rg_shares r)" "dom (rg_infos r') = dom (rg_infos r) - {h}" using h by (auto simp: r' put_share_def)
  moreover have "{j. \<exists>sh. rg_shares r' j = Some sh \<and> \<not> sh_internal sh} = {j. \<exists>sh. rg_shares r j = Some sh \<and> \<not> sh_internal sh}"
    using h(2) by (auto simp: r' put_share_def sh')
  moreover have "\<forall>k info. rg_infos r' k = Some info \<longrightarrow> rg_shares r' (inf_s info) \<noteq> None"
    using d(7) by (fastforce simp: r' put_share_def split: if_splits)
  moreover have "\<forall>j. 0 < pins j \<longrightarrow> rg_shares r' j \<noteq> None" using d(8) by (auto simp: r' put_share_def)
  moreover have "fm_share_list r' = fm_share_list r" "rg_next r' = rg_next r" "rg_live r' = rg_live r - 1" by (simp_all add: r' put_share_def)
  ultimately show "reg_inv {?i} r' pins"
    using d(1-6,12) card_dom_remove [OF d(2) h(1)] unfolding reg_inv_def by auto
qed


text \<open>A handle is added, in place of \<open>pins i - p\<close> pins.\<close>

lemma reg_inv_open:
  assumes inv: "reg_inv {} r pins" and i: "rg_shares r i = Some sh" and p: "p \<le> pins i"
    and info: "inf_s info = i" "open_listed info = l"
    and sh': "sh_internal sh' = sh_internal sh" "sh_core sh' = sh_core sh" "sh_delete_on_close sh' = sh_delete_on_close sh"
      "sh_open_list sh' = (if l then rg_next r # sh_open_list sh else sh_open_list sh)"
      "sh_open_count sh' = card (handles r i) + 1 + (if sh_internal sh then 0 else p)"
    and own: "sh_internal sh \<Longrightarrow> p = 0 \<and> pins i = 1"
    and r': "r' = r\<lparr>rg_shares := (rg_shares r)(i \<mapsto> sh'), rg_infos := (rg_infos r)(rg_next r \<mapsto> info), rg_next := rg_next r + 1,
      rg_live := rg_live r + 1\<rparr>"
  shows "reg_inv {} r' (pins(i := p))"
proof -
  note d = reg_invD [OF inv]
  let ?h = "rg_next r" and ?p = "pins(i := p)"
  have nh: "rg_infos r ?h = None" using d(4) by (cases "rg_infos r ?h") auto
  have ri: "rg_infos r' = (rg_infos r)(?h \<mapsto> info)" by (simp add: r')
  note ha = handles_add_info [OF ri nh]
  have c: "sh_open_count sh = card (handles r i) + (if sh_internal sh then 0 else pins i)" "distinct (sh_open_list sh)"
    "set (sh_open_list sh) = listed r i" using d(10) [OF i] by (simp_all add: counted_share_def)
  have o: "owned_share r pins i sh" using d(11) [OF i] by simp
  have "freeable (sh_core s) \<and> counted_share r' ?p j s \<and> owned_share r' ?p j s" if s: "rg_shares r' j = Some s" for j s
  proof (cases "j = i")
    case True
    then have e: "s = sh'" using s by (simp add: r')
    have "card (handles r' i) = card (handles r i) + 1" using ha(1,3) finite_handles [OF inv] info(1) by simp
    moreover have "listed r' i = (if l then insert ?h (listed r i) else listed r i)" using ha(2) info by simp
    ultimately have "counted_share r' ?p i sh'" "owned_share r' ?p i sh'"
      using c sh' ha(4) own o by (auto simp: counted_share_def owned_share_def)
    then show ?thesis using True e d(9) [OF i] sh'(2) by simp
  next
    case False
    then have r: "rg_shares r j = Some s" "?p j = pins j" using s by (simp_all add: r')
    have "handles r' j = handles r j" "listed r' j = listed r j" using ha(1,2) info(1) False by simp_all
    then have "counted_share r' ?p j s = counted_share r pins j s" "owned_share r' ?p j s = owned_share r pins j s"
      using r(2) by (simp_all add: counted_share_def owned_share_def)
    then show ?thesis using d(9-11) [OF r(1)] by simp
  qed
  moreover have "dom (rg_shares r') = dom (rg_shares r)" "dom (rg_infos r') = insert ?h (dom (rg_infos r))" using i by (auto simp: r')
  moreover have "{j. \<exists>sh. rg_shares r' j = Some sh \<and> \<not> sh_internal sh} = {j. \<exists>sh. rg_shares r j = Some sh \<and> \<not> sh_internal sh}"
    using i sh'(1) by (auto simp: r')
  moreover have "\<forall>k info. rg_infos r' k = Some info \<longrightarrow> rg_shares r' (inf_s info) \<noteq> None"
    using d(7) info(1) by (fastforce simp: r' split: if_splits)
  moreover have "\<forall>j. 0 < ?p j \<longrightarrow> rg_shares r' j \<noteq> None" using d(8) by (auto simp: r')
  moreover have "fm_share_list r' = fm_share_list r" "rg_next r' = rg_next r + 1" "rg_live r' = rg_live r + 1" by (simp_all add: r')
  moreover have "\<forall>j \<in> dom (rg_shares r) \<union> insert ?h (dom (rg_infos r)). j < rg_next r + 1"
    using d(3,4) by (auto intro: less_SucI)
  ultimately show ?thesis
    using d(1,2,5,6,12) nh unfolding reg_inv_def by (simp add: card_insert_if domIff)
qed

text \<open>A share is added, with the pin of its creator if there is one.\<close>

lemma reg_inv_create:
  assumes inv: "reg_inv {} r pins" and sh: "freeable (sh_core sh)" "sh_open_list sh = []" "sh_open_count sh = (if sh_internal sh then 0 else p)"
    and own: "if sh_internal sh then p = 1 \<and> sh_delete_on_close sh else \<not> sh_delete_on_close sh"
    and r': "r' = r\<lparr>rg_shares := (rg_shares r)(rg_next r \<mapsto> sh), rg_next := rg_next r + 1, rg_live := rg_live r + 2,
      fm_share_list := (if sh_internal sh then fm_share_list r else rg_next r # fm_share_list r)\<rparr>"
  shows "reg_inv {} r' (pins(rg_next r := p))" "rg_shares r (rg_next r) = None" "pins (rg_next r) = 0"
proof -
  note d = reg_invD [OF inv]
  let ?i = "rg_next r" and ?p = "pins(rg_next r := p)"
  show ni: "rg_shares r ?i = None" using d(3) by (cases "rg_shares r ?i") auto
  show "pins ?i = 0" using d(8) [of ?i] ni by auto
  have ri: "rg_infos r' = rg_infos r" by (simp add: r')
  note cs = same_infos [OF ri]
  have he: "handles r ?i = {}" "listed r ?i = {}" using d(7) ni by (fastforce simp: handles_def listed_def)+
  have "freeable (sh_core s) \<and> counted_share r' ?p j s \<and> owned_share r' ?p j s" if s: "rg_shares r' j = Some s" for j s
  proof (cases "j = ?i")
    case True
    then have e: "s = sh" using s by (simp add: r')
    have "counted_share r ?p ?i sh" "owned_share r ?p ?i sh"
      using sh own he by (auto simp: counted_share_def owned_share_def)
    then show ?thesis using True e sh by (simp add: cs)
  next
    case False
    then have r: "rg_shares r j = Some s" "?p j = pins j" using s by (simp_all add: r')
    then show ?thesis using d(9-11) [OF r(1)] counted_share_pins [of ?p j pins r] by (simp add: cs)
  qed
  moreover have "dom (rg_shares r') = insert ?i (dom (rg_shares r))" "dom (rg_infos r') = dom (rg_infos r)" by (auto simp: r')
  moreover have "{j. \<exists>s. rg_shares r' j = Some s \<and> \<not> sh_internal s} = set (fm_share_list r')"
    using d(6) ni by (auto simp: r')
  moreover have "\<forall>k info. rg_infos r' k = Some info \<longrightarrow> rg_shares r' (inf_s info) \<noteq> None"
    using d(7) by (fastforce simp: r')
  moreover have "\<forall>j. 0 < ?p j \<longrightarrow> rg_shares r' j \<noteq> None" using d(8) by (auto simp: r')
  moreover have "distinct (fm_share_list r')" using d(5,6) ni by (auto simp: r')
  moreover have "\<forall>j \<in> insert ?i (dom (rg_shares r)) \<union> dom (rg_infos r). j < rg_next r + 1"
    using d(3,4) by (auto intro: less_SucI)
  moreover have "rg_next r' = rg_next r + 1" "rg_live r' = rg_live r + 2" by (simp_all add: r')
  ultimately show "reg_inv {} r' ?p"
    using d(1,2,12) ni unfolding reg_inv_def by (simp add: card_insert_if domIff)
qed

section \<open>The operations\<close>

lemma my_malloc_cases:
  obtains (fail) "my_malloc env r = (False, r\<lparr>rg_mallocs := rg_mallocs r + 1, my_errno := env_errno env\<rparr>)" "\<not> env_malloc env (rg_mallocs r)"
  | (ok) "my_malloc env r = (True, r\<lparr>rg_mallocs := rg_mallocs r + 1, rg_live := rg_live r + 1\<rparr>)" "env_malloc env (rg_mallocs r)"
  by (cases "env_malloc env (rg_mallocs r)") (simp_all add: my_malloc_def)

lemma fresh_info_fields [simp]: "inf_s (fresh_info env i sh md) = i" "open_listed (fresh_info env i sh md) = False"
  by (simp_all add: fresh_info_def)

text \<open>Opening a share adds one listed handle, or changes nothing for lack of memory.\<close>

lemma fm_open_eq:
  assumes ok: "reg_ok r pins"
  shows "\<exists>a r'. fm_open env nm md r = Some (a, r') \<and> reg_ok r' pins \<and> (a = None \<longrightarrow> rg_shares r' = rg_shares r \<and> rg_infos r' = rg_infos r)
    \<and> (\<forall>h. a = Some h \<longrightarrow> (\<exists>info i sh. rg_infos r' = (rg_infos r)(h \<mapsto> info) \<and> rg_infos r h = None \<and> inf_s info = i
          \<and> rg_shares r i = Some sh \<and> \<not> sh_internal sh \<and> sh_name sh = nm
          \<and> rg_shares r' = (rg_shares r)(i \<mapsto> sh\<lparr>sh_open_count := sh_open_count sh + 1, sh_open_list := h # sh_open_list sh\<rparr>)))"
proof -
  let ?r0 = "r\<lparr>THR_LOCK_fastmem := True\<rparr>"
  have inv: "reg_inv {} ?r0 pins" and lk: "mysql_mutex_lock r = Some ?r0" "\<not> THR_LOCK_fastmem r"
    using ok by (simp_all add: reg_ok_def mysql_mutex_lock_def)
  from inv show ?thesis
  proof (cases rule: find_named_share_cases [where nm = nm])
    case none
    then show ?thesis using lk inv by (simp add: fm_open_def mysql_mutex_unlock_def reg_ok_def)
  next
    case (found i sh)
    show ?thesis
    proof (cases rule: my_malloc_cases [of env ?r0])
      case fail
      then show ?thesis using found lk inv
        by (simp add: fm_open_def fm_open_from_share_locked_def mysql_mutex_unlock_def reg_ok_def)
    next
      case m: ok
      let ?h = "rg_next r" and ?info = "(fresh_info env i sh md)\<lparr>open_listed := True\<rparr>"
        and ?sh = "sh\<lparr>sh_open_count := sh_open_count sh + 1, sh_open_list := rg_next r # sh_open_list sh\<rparr>"
      let ?r1 = "r\<lparr>rg_mallocs := rg_mallocs r + 1\<rparr>"
      let ?r' = "?r1\<lparr>rg_shares := (rg_shares ?r1)(i \<mapsto> ?sh), rg_infos := (rg_infos ?r1)(rg_next ?r1 \<mapsto> ?info), rg_next := rg_next ?r1 + 1,
        rg_live := rg_live ?r1 + 1\<rparr>"
      have e: "fm_open env nm md r = Some (Some ?h, ?r')"
        using found lk m
        by (simp add: fm_open_def fm_open_from_share_locked_def list_info_def put_share_def put_info_def mysql_mutex_unlock_def Let_def)
      have i: "rg_shares r i = Some sh" using found by simp
      have inv1: "reg_inv {} ?r1 pins" using inv by simp
      have h1: "handles ?r1 i = handles r i" by (simp add: handles_def)
      have c: "sh_open_count sh = card (handles r i) + pins i"
        using reg_invD(10) [OF inv1, of i sh] i found(3) h1 by (simp add: counted_share_def)
      have "reg_inv {} ?r' (pins(i := pins i))"
        by (rule reg_inv_open [OF inv1, of i sh "pins i" ?info True]) (use i found(3) c h1 in simp_all)
      then have "reg_ok ?r' pins" using lk(2) by (simp add: reg_ok_def)
      moreover have "rg_infos r ?h = None" using reg_invD(4) [OF inv1, of ?h] by (cases "rg_infos r ?h") auto
      moreover have "rg_infos ?r' = (rg_infos r)(?h \<mapsto> ?info)" "rg_shares ?r' = (rg_shares r)(i \<mapsto> ?sh)" "inf_s ?info = i" by simp_all
      ultimately show ?thesis using e i found(3,4) by blast
    qed
  qed
qed

text \<open>The pin taken by \<open>fm_create\<close> becomes the reference of the handle.\<close>

lemma fm_open_pinned_eq:
  assumes ok: "reg_ok r pins" and p: "0 < pins i" and i: "rg_shares r i = Some sh" "\<not> sh_internal sh"
  shows "\<exists>a r'. fm_open_from_share_and_register env i md r = Some (a, r')
    \<and> reg_ok r' (if a = None then pins else pins(i := pins i - 1))
    \<and> (a = None \<longrightarrow> rg_shares r' = rg_shares r \<and> rg_infos r' = rg_infos r)
    \<and> (\<forall>h. a = Some h \<longrightarrow> (\<exists>info. rg_infos r' = (rg_infos r)(h \<mapsto> info) \<and> rg_infos r h = None \<and> inf_s info = i
          \<and> info = (fresh_info env i sh md)\<lparr>open_listed := True\<rparr>
          \<and> rg_shares r' = (rg_shares r)(i \<mapsto> sh\<lparr>sh_open_list := h # sh_open_list sh\<rparr>)))"
proof -
  let ?r0 = "r\<lparr>THR_LOCK_fastmem := True\<rparr>"
  have inv: "reg_inv {} r pins" and lk: "mysql_mutex_lock r = Some ?r0" "\<not> THR_LOCK_fastmem r"
    using ok by (simp_all add: reg_ok_def mysql_mutex_lock_def)
  have c: "sh_open_count sh = card (handles r i) + pins i"
    using reg_invD(10) [OF inv i(1)] i(2) by (simp add: counted_share_def)
  show ?thesis
  proof (cases rule: my_malloc_cases [of env ?r0])
    case fail
    then show ?thesis using i lk inv
      by (simp add: fm_open_from_share_and_register_def fm_open_from_share_locked_def mysql_mutex_unlock_def reg_ok_def)
  next
    case m: ok
    let ?h = "rg_next r" and ?info = "(fresh_info env i sh md)\<lparr>open_listed := True\<rparr>" and ?sh = "sh\<lparr>sh_open_list := rg_next r # sh_open_list sh\<rparr>"
    let ?r1 = "r\<lparr>rg_mallocs := rg_mallocs r + 1\<rparr>"
    let ?r' = "?r1\<lparr>rg_shares := (rg_shares ?r1)(i \<mapsto> ?sh), rg_infos := (rg_infos ?r1)(rg_next ?r1 \<mapsto> ?info), rg_next := rg_next ?r1 + 1,
      rg_live := rg_live ?r1 + 1\<rparr>"
    have e: "fm_open_from_share_and_register env i md r = Some (Some ?h, ?r')"
      using i lk m by (simp add: fm_open_from_share_and_register_def fm_open_from_share_locked_def list_info_def put_share_def put_info_def
          mysql_mutex_unlock_def Let_def)
    have inv1: "reg_inv {} ?r1 pins" using inv by simp
    have h1: "handles ?r1 i = handles r i" by (simp add: handles_def)
    have "reg_inv {} ?r' (pins(i := pins i - 1))"
      by (rule reg_inv_open [OF inv1, of i sh "pins i - 1" ?info True]) (use i c h1 p in simp_all)
    then have "reg_ok ?r' (pins(i := pins i - 1))" using lk(2) by (simp add: reg_ok_def)
    moreover have "rg_infos r ?h = None" using reg_invD(4) [OF inv, of ?h] by (cases "rg_infos r ?h") auto
    moreover have "rg_infos ?r' = (rg_infos r)(?h \<mapsto> ?info)" "rg_shares ?r' = (rg_shares r)(i \<mapsto> ?sh)" "inf_s ?info = i" by simp_all
    ultimately show ?thesis using e i by simp
  qed
qed

lemma fm_open_internal_eq:
  assumes ok: "reg_ok r pins" and p: "0 < pins i" and i: "rg_shares r i = Some sh" "sh_internal sh"
  shows "\<exists>a r'. fm_open_from_share env i md r = Some (a, r') \<and> reg_ok r' (if a = None then pins else pins(i := 0))
    \<and> (a = None \<longrightarrow> rg_shares r' = rg_shares r \<and> rg_infos r' = rg_infos r)
    \<and> (\<forall>h. a = Some h \<longrightarrow> rg_infos r' = (rg_infos r)(h \<mapsto> fresh_info env i sh md) \<and> rg_infos r h = None)"
proof -
  have inv: "reg_inv {} r pins" and lk: "\<not> THR_LOCK_fastmem r" using ok by (simp_all add: reg_ok_def)
  have c: "sh_open_count sh = card (handles r i)" "pins i + card (handles r i) = 1"
    using reg_invD(10,11) [OF inv i(1)] i(2) by (simp_all add: counted_share_def owned_share_def)
  show ?thesis
  proof (cases rule: my_malloc_cases [of env r])
    case fail
    then show ?thesis using i lk inv by (simp add: fm_open_from_share_def fm_open_from_share_locked_def reg_ok_def)
  next
    case m: ok
    let ?h = "rg_next r" and ?info = "fresh_info env i sh md" and ?sh = "sh\<lparr>sh_open_count := sh_open_count sh + 1\<rparr>"
    let ?r1 = "r\<lparr>rg_mallocs := rg_mallocs r + 1\<rparr>"
    let ?r' = "?r1\<lparr>rg_shares := (rg_shares ?r1)(i \<mapsto> ?sh), rg_infos := (rg_infos ?r1)(rg_next ?r1 \<mapsto> ?info), rg_next := rg_next ?r1 + 1,
      rg_live := rg_live ?r1 + 1\<rparr>"
    have e: "fm_open_from_share env i md r = Some (Some ?h, ?r')"
      using i lk m by (simp add: fm_open_from_share_def fm_open_from_share_locked_def put_share_def put_info_def Let_def)
    have inv1: "reg_inv {} ?r1 pins" using inv by simp
    have h1: "handles ?r1 i = handles r i" by (simp add: handles_def)
    have "reg_inv {} ?r' (pins(i := 0))"
      by (rule reg_inv_open [OF inv1, of i sh 0 ?info False]) (use i c h1 p in simp_all)
    then have "reg_ok ?r' (pins(i := 0))" using lk by (simp add: reg_ok_def)
    moreover have "rg_infos r ?h = None" using reg_invD(4) [OF inv, of ?h] by (cases "rg_infos r ?h") auto
    ultimately show ?thesis using e i by simp
  qed
qed

text \<open>Closing a handle frees its share exactly when the table was dropped and this was its last reference.\<close>

lemma fm_free_infos: "fm_free (r\<lparr>rg_infos := f, rg_live := n\<rparr>) i
    = map_option (\<lambda>r'. r'\<lparr>rg_infos := f, rg_live := rg_live r' + n - rg_live r\<rparr>) (fm_free r i)"
  by (auto simp: fm_free_def Let_def my_free_def fm_share_list_remove_def split: option.split bind_splits)

lemma fm_free_lock: "fm_free (r\<lparr>THR_LOCK_fastmem := b\<rparr>) i = map_option (\<lambda>r'. r'\<lparr>THR_LOCK_fastmem := b\<rparr>) (fm_free r i)"
  by (auto simp: fm_free_def Let_def my_free_def fm_share_list_remove_def split: option.split bind_splits)

lemma put_share_lock: "put_share (r\<lparr>THR_LOCK_fastmem := b\<rparr>) i sh = (put_share r i sh)\<lparr>THR_LOCK_fastmem := b\<rparr>"
  by (simp add: put_share_def)

lemma fm_close_eq:
  assumes ok: "reg_ok r pins" and h: "rg_infos r h = Some info" "rg_shares r (inf_s info) = Some sh"
  shows "\<exists>r'. fm_close r h = Some r' \<and> reg_ok r' pins \<and> rg_infos r' = (rg_infos r)(h := None)
    \<and> (\<forall>j. j \<noteq> inf_s info \<longrightarrow> rg_shares r' j = rg_shares r j)
    \<and> (rg_shares r' (inf_s info) = None \<longleftrightarrow> sh_open_count sh = 1 \<and> sh_delete_on_close sh)
    \<and> (\<forall>s. rg_shares r' (inf_s info) = Some s \<longrightarrow> sh_internal s = sh_internal sh \<and> sh_core s = sh_core sh)"
proof -
  let ?i = "inf_s info"
  let ?sh = "sh\<lparr>sh_open_list := (if open_listed info then remove1 h (sh_open_list sh) else sh_open_list sh), sh_open_count := sh_open_count sh - 1\<rparr>"
  let ?r1 = "put_share r ?i ?sh"
  let ?r = "?r1\<lparr>rg_infos := (rg_infos r)(h := None), rg_live := rg_live r - 1\<rparr>"
  have inv: "reg_inv {} r pins" and lk: "\<not> THR_LOCK_fastmem r" using ok by (simp_all add: reg_ok_def)
  note c = reg_inv_close [OF inv h refl refl]
  note d = reg_invD [OF c(1)]
  have run: "fm_close r h = do {
     r2 \<leftarrow> (if sh_open_count sh - 1 = 0 \<and> sh_delete_on_close sh then fm_free (?r1\<lparr>THR_LOCK_fastmem := True\<rparr>) ?i else Some (?r1\<lparr>THR_LOCK_fastmem := True\<rparr>));
     Some (mysql_mutex_unlock (my_free (r2\<lparr>rg_infos := (rg_infos r2)(h := None)\<rparr>))) }"
    using h lk c(2) by (simp add: fm_close_def mysql_mutex_lock_def put_share_lock dec_count_def Let_def)
  have si: "rg_shares ?r ?i = Some ?sh" by (simp add: put_share_def)
  have cnt: "sh_open_count sh - 1 = card (handles ?r ?i) + (if sh_internal sh then 0 else pins ?i)"
    using d(10) [OF si] by (simp add: counted_share_def)
  show ?thesis
  proof (cases "sh_open_count sh = 1 \<and> sh_delete_on_close sh")
    case True
    have he: "handles ?r ?i = {}" using cnt True finite_handles [OF c(1)] by simp
    have "h \<in> handles r ?i" "finite (handles r ?i)" using h(1) finite_handles [OF inv] by (auto simp: handles_def)
    then have "card (handles r ?i) > 0" using card_gt_0_iff by blast
    then have p: "pins ?i = 0"
      using cnt True he reg_invD(11) [OF inv h(2)] by (cases "sh_internal sh") (simp_all add: owned_share_def)
    obtain r2 where f: "fm_free ?r ?i = Some r2" "reg_inv ({?i} - {?i}) r2 pins" "r2 = ?r\<lparr>rg_shares := (rg_shares ?r)(?i := None),
      fm_share_list := fm_share_list r2, rg_live := rg_live ?r - 2\<rparr>" by (rule fm_free_eq [OF c(1) si he p])
    obtain r3 where r3: "fm_free ?r1 ?i = Some r3" "r2 = r3\<lparr>rg_infos := (rg_infos r)(h := None), rg_live := rg_live r3 + (rg_live r - 1) - rg_live ?r1\<rparr>"
      using f(1) unfolding fm_free_infos by auto
    have "rg_infos r3 = rg_infos r" using r3(1) by (auto simp: fm_free_def my_free_def fm_share_list_remove_def put_share_def Let_def bind_eq_Some_conv)
    then have "fm_close r h = Some (r2\<lparr>THR_LOCK_fastmem := False\<rparr>)"
      using True r3 by (simp add: run fm_free_lock mysql_mutex_unlock_def my_free_def put_share_def)
    moreover have "reg_ok (r2\<lparr>THR_LOCK_fastmem := False\<rparr>) pins" using f(2) by (simp add: reg_ok_def)
    moreover have "rg_infos r2 = (rg_infos r)(h := None)" "rg_shares r2 = (rg_shares r)(?i := None)"
      by (subst f(3), simp add: put_share_def)+
    ultimately show ?thesis using True by simp
  next
    case False
    have own: "owned_share ?r pins ?i ?sh"
      using reg_invD(11) [OF inv h(2)] reg_invD(10) [OF inv h(2)] cnt c(2) False by (auto simp: owned_share_def counted_share_def)
    have "reg_inv {} (put_share ?r ?i ?sh) (pins(?i := pins ?i))"
      by (rule reg_inv_put_share [OF c(1) si]) (use d(9,10) [OF si] own in simp_all)
    moreover have "put_share ?r ?i ?sh = ?r" by (simp add: put_share_def)
    ultimately have "reg_inv {} ?r pins" by simp
    moreover have "fm_close r h = Some (?r\<lparr>THR_LOCK_fastmem := False\<rparr>)"
    proof -
      have "\<not> (sh_open_count sh - 1 = 0 \<and> sh_delete_on_close sh)" using False c(2) by auto
      then show ?thesis unfolding run by (simp only: if_False) (simp add: mysql_mutex_unlock_def my_free_def put_share_def)
    qed
    ultimately show ?thesis using False by (simp add: reg_ok_def put_share_def)
  qed
qed

text \<open>A core whose arrays are there can be freed: a new one, and every well-formed one.\<close>

lemma free_chunks_ok: "n \<le> length (chunks s) \<Longrightarrow> \<exists>s'. free_chunks n s = Some s' \<and> chunks s' = chunks s \<and> keydef s' = keydef s \<and> keys s' = keys s"
  by (induction n) (auto simp: core_dealloc_def)

lemma free_keys_ok: "n \<le> length (keydef s) \<Longrightarrow> \<exists>s'. free_keys n s = Some s' \<and> keydef s' = keydef s"
  by (induction n) (auto simp: core_dealloc_def fm_key_def Let_def)

lemma freeableI:
  assumes "chunk_cnt s \<le> length (chunks s)" "keys s \<le> length (keydef s)"
  shows "freeable s"
proof -
  obtain s1 where s1: "free_chunks (chunk_cnt s) s = Some s1" "keydef s1 = keydef s" "keys s1 = keys s"
    using free_chunks_ok [OF assms(1)] by blast
  let ?s2 = "if has_chunks s1 then core_dealloc s1 1 else s1"
  have "keys ?s2 \<le> length (keydef ?s2)" using s1 assms(2) by (simp add: core_dealloc_def)
  then obtain s3 where "free_keys (keys ?s2) ?s2 = Some s3" using free_keys_ok by blast
  then show ?thesis using s1(1) by (simp add: freeable_def fm_core_free_share_def Let_def)
qed

lemma table_freeable:
  assumes "table s" shows "freeable s"
proof -
  obtain F where b: "body s (index_of s) {} F" using assms by (auto simp: table_def)
  show ?thesis by (rule freeableI) (use bodyD(1,6) [OF b] in \<open>simp_all add: layout_def keys_ready_def\<close>)
qed

text \<open>
  A new core can be freed once its first two blocks were there, the chunk array and the key array; whether there was memory
  for the buckets of the keys does not matter.
\<close>

lemma new_share_freeable:
  assumes "\<forall>n < 2. \<forall>z. alloc (fm_core_ops env) n z"
  shows "freeable (sh_core (new_share env nm ci))"
  by (rule freeableI) (use init_share_shape [OF refl] assms in \<open>simp_all add: new_share_def Let_def\<close>)

lemma new_share_no_chunks:
  assumes "\<And>z. \<not> alloc (fm_core_ops env) 0 z" "0 < ci_keys ci"
  shows "\<not> has_chunks (sh_core (new_share env nm ci))" "\<not> freeable (sh_core (new_share env nm ci))"
proof -
  let ?s = "sh_core (new_share env nm ci)"
  have s: "\<not> has_chunks ?s" "keydef ?s = []" "keys ?s = ci_keys ci" "chunk_cnt ?s = 0"
    using init_share_shape(1,2,5) [OF refl] assms(1) by (simp_all add: new_share_def Let_def)
  then show "\<not> has_chunks ?s" by simp
  have "free_keys (Suc n) ?s = None" for n
    using s(2) by (induction n) (auto simp: fm_key_def bind_eq_None_conv)
  then show "\<not> freeable ?s" using s assms(2) gr0_implies_Suc [of "ci_keys ci"] by (auto simp: freeable_def fm_core_free_share_def)
qed

lemma new_share_fields [simp]:
  "sh_internal (new_share env nm ci) = ci_internal_table ci" "sh_delete_on_close (new_share env nm ci) = ci_internal_table ci"
  "sh_open_count (new_share env nm ci) = 0" "sh_open_list (new_share env nm ci) = []" "sh_name (new_share env nm ci) = nm"
  by (simp_all add: new_share_def Let_def)

text \<open>Giving a reference back without a handle.\<close>

lemma fm_release_share_eq:
  assumes ok: "reg_ok r pins" and p: "0 < pins i" and i: "rg_shares r i = Some sh"
  shows "\<exists>r'. fm_release_share r i (sh_internal sh) = Some r' \<and> reg_ok r' (pins(i := pins i - 1)) \<and> rg_infos r' = rg_infos r
    \<and> (\<forall>j. j \<noteq> i \<longrightarrow> rg_shares r' j = rg_shares r j)"
proof -
  have inv: "reg_inv {} r pins" and lk: "\<not> THR_LOCK_fastmem r" using ok by (simp_all add: reg_ok_def)
  note d = reg_invD [OF inv]
  let ?n = "sh_open_count sh - (if sh_internal sh then 0 else 1)" and ?p = "pins(i := pins i - 1)"
  let ?sh = "sh\<lparr>sh_open_count := ?n\<rparr>"
  let ?r = "put_share r i ?sh"
  have c: "counted_share r ?p i ?sh" using d(10) [OF i] p by (auto simp: counted_share_def)
  have inv1: "reg_inv {i} ?r ?p" by (rule reg_inv_put_share [OF inv i]) (use c d(9) [OF i] in simp_all)
  have i1: "rg_shares ?r i = Some ?sh" by (simp add: put_share_def)
  show ?thesis
  proof (cases "?n = 0")
    case True
    have "card (handles r i) = 0" "?p i = 0"
      using True c d(11) [OF i] p by (auto simp: counted_share_def owned_share_def split: if_splits)
    moreover have "handles ?r = handles r" by (rule same_infos) (simp add: put_share_def)
    ultimately have he: "handles ?r i = {}" "?p i = 0" using finite_handles [OF inv] by simp_all
    obtain r' where f: "fm_free ?r i = Some r'" "reg_inv ({i} - {i}) r' ?p" "r' = ?r\<lparr>rg_shares := (rg_shares ?r)(i := None),
      fm_share_list := fm_share_list r', rg_live := rg_live ?r - 2\<rparr>" by (rule fm_free_eq [OF inv1 i1 he])
    have e: "rg_infos r' = rg_infos r" "rg_shares r' = (rg_shares r)(i := None)" "THR_LOCK_fastmem r' = THR_LOCK_fastmem r"
      by (subst f(3), simp add: put_share_def)+
    show ?thesis
    proof (cases "sh_internal sh")
      case True
      then have "?r = r" using i by (cases r) (auto simp: put_share_def)
      then show ?thesis using True f e lk by (intro exI [of _ r']) (simp add: fm_release_share_def reg_ok_def)
    next
      case False
      have "dec_count (sh_open_count sh) = ?n" using d(10) [OF i] p False by (simp add: dec_count_def counted_share_def)
      then have "fm_release_share r i (sh_internal sh) = Some (r'\<lparr>THR_LOCK_fastmem := False\<rparr>)"
        using f(1) i lk False True
        by (simp add: fm_release_share_def mysql_mutex_lock_def mysql_mutex_unlock_def put_share_lock fm_free_lock)
      then show ?thesis using f(2) e by (simp add: reg_ok_def)
    qed
  next
    case False
    have ni: "\<not> sh_internal sh" using False d(10,11) [OF i] p by (auto simp: counted_share_def owned_share_def)
    have "owned_share r ?p i ?sh" using False ni by (simp add: owned_share_def)
    then have "reg_inv {} ?r ?p" by (intro reg_inv_put_share [OF inv i]) (use c d(9) [OF i] in simp_all)
    moreover have "dec_count (sh_open_count sh) = ?n" using False by (simp add: dec_count_def ni)
    then have "fm_release_share r i (sh_internal sh) = Some (?r\<lparr>THR_LOCK_fastmem := False\<rparr>)"
      using i lk ni False by (simp add: fm_release_share_def mysql_mutex_lock_def mysql_mutex_unlock_def put_share_lock)
    ultimately show ?thesis by (simp add: reg_ok_def put_share_def)
  qed
qed

text \<open>Dropping: a share without references is freed, any other is marked.\<close>

lemma fm_try_free_eq:
  assumes inv: "reg_inv {} r pins" and i: "rg_shares r i = Some sh" and own: "\<not> sh_internal sh \<or> 0 < sh_open_count sh"
  shows "\<exists>r'. fm_try_free r i = Some r' \<and> reg_inv {} r' pins \<and> rg_infos r' = rg_infos r \<and> THR_LOCK_fastmem r' = THR_LOCK_fastmem r
    \<and> rg_shares r' = (rg_shares r)(i := if sh_open_count sh = 0 then None else Some (sh\<lparr>sh_delete_on_close := True\<rparr>))"
proof (cases "sh_open_count sh = 0")
  case True
  note d = reg_invD [OF inv]
  have "card (handles r i) = 0" "pins i = 0" using True d(10) [OF i] own by (auto simp: counted_share_def)
  then have he: "handles r i = {}" "pins i = 0" using finite_handles [OF inv] by simp_all
  obtain r' where f: "fm_free r i = Some r'" "reg_inv ({} - {i}) r' pins" "r' = r\<lparr>rg_shares := (rg_shares r)(i := None),
    fm_share_list := fm_share_list r', rg_live := rg_live r - 2\<rparr>" by (rule fm_free_eq [OF inv i he])
  have "rg_infos r' = rg_infos r" "rg_shares r' = (rg_shares r)(i := None)" "THR_LOCK_fastmem r' = THR_LOCK_fastmem r"
    by (subst f(3), simp)+
  then show ?thesis using f True i by (simp add: fm_try_free_def)
next
  case False
  note d = reg_invD [OF inv]
  let ?sh = "sh\<lparr>sh_delete_on_close := True\<rparr>"
  have "reg_inv {} (put_share r i ?sh) (pins(i := pins i))"
    by (rule reg_inv_put_share [OF inv i]) (use d(9-11) [OF i] False in \<open>auto simp: counted_share_def owned_share_def\<close>)
  then show ?thesis using False i by (simp add: fm_try_free_def put_share_def)
qed

lemma reg_inv_same_state:
  "reg_inv X r pins \<Longrightarrow> rg_shares r' = rg_shares r \<Longrightarrow> rg_infos r' = rg_infos r \<Longrightarrow> fm_share_list r' = fm_share_list r
    \<Longrightarrow> rg_next r' = rg_next r \<Longrightarrow> rg_live r' = rg_live r \<Longrightarrow> reg_inv X r' pins"
  by (simp add: reg_inv_def same_infos [of r' r])

lemma fm_delete_table_eq:
  assumes ok: "reg_ok r pins"
  shows "\<exists>e r'. fm_delete_table r nm = Some (e, r') \<and> reg_ok r' pins \<and> rg_infos r' = rg_infos r
    \<and> (e = ENOENT \<and> rg_shares r' = rg_shares r \<and> (\<forall>i sh. rg_shares r i = Some sh \<longrightarrow> \<not> sh_internal sh \<longrightarrow> sh_name sh \<noteq> nm)
       \<or> (\<exists>i sh. e = HA_OK \<and> rg_shares r i = Some sh \<and> \<not> sh_internal sh \<and> sh_name sh = nm
            \<and> rg_shares r' = (rg_shares r)(i := if sh_open_count sh = 0 then None else Some (sh\<lparr>sh_delete_on_close := True\<rparr>))))"
proof -
  let ?r0 = "r\<lparr>THR_LOCK_fastmem := True\<rparr>"
  have inv: "reg_inv {} ?r0 pins" and lk: "mysql_mutex_lock r = Some ?r0" "\<not> THR_LOCK_fastmem r"
    using ok by (simp_all add: reg_ok_def mysql_mutex_lock_def)
  from inv show ?thesis
  proof (cases rule: find_named_share_cases [where nm = nm])
    case none
    then show ?thesis using lk inv by (simp add: fm_delete_table_def mysql_mutex_unlock_def reg_ok_def)
  next
    case (found i sh)
    obtain r' where t: "fm_try_free ?r0 i = Some r'" "reg_inv {} r' pins" "rg_infos r' = rg_infos r"
      "rg_shares r' = (rg_shares r)(i := if sh_open_count sh = 0 then None else Some (sh\<lparr>sh_delete_on_close := True\<rparr>))"
      using fm_try_free_eq [OF inv found(2)] found(3) by auto
    have e: "fm_delete_table r nm = Some (HA_OK, r'\<lparr>THR_LOCK_fastmem := False\<rparr>)"
      using t(1) found(1) lk by (simp add: fm_delete_table_def mysql_mutex_unlock_def)
    moreover have "rg_shares r i = Some sh" using found(2) by simp
    moreover have "reg_ok (r'\<lparr>THR_LOCK_fastmem := False\<rparr>) pins" "rg_infos (r'\<lparr>THR_LOCK_fastmem := False\<rparr>) = rg_infos r"
      "rg_shares (r'\<lparr>THR_LOCK_fastmem := False\<rparr>) = (rg_shares r)(i := if sh_open_count sh = 0 then None else Some (sh\<lparr>sh_delete_on_close := True\<rparr>))"
      using t by (simp_all add: reg_ok_def)
    ultimately show ?thesis using found(3,4) by blast
  qed
qed

lemma fm_drop_table_eq:
  assumes ok: "reg_ok r pins" and h: "rg_infos r h = Some info" "rg_shares r (inf_s info) = Some sh"
  shows "\<exists>r'. fm_drop_table r h = Some r' \<and> reg_ok r' pins \<and> rg_infos r' = rg_infos r
    \<and> rg_shares r' = (rg_shares r)(inf_s info \<mapsto> sh\<lparr>sh_delete_on_close := True\<rparr>)"
proof -
  let ?r0 = "r\<lparr>THR_LOCK_fastmem := True\<rparr>"
  have inv: "reg_inv {} ?r0 pins" and lk: "mysql_mutex_lock r = Some ?r0" "\<not> THR_LOCK_fastmem r" and inv': "reg_inv {} r pins"
    using ok by (simp_all add: reg_ok_def mysql_mutex_lock_def)
  have pos: "0 < sh_open_count sh" by (rule reg_inv_close(2) [OF inv' h refl refl])
  obtain r' where "fm_try_free ?r0 (inf_s info) = Some r'" "reg_inv {} r' pins" "rg_infos r' = rg_infos r"
      "rg_shares r' = (rg_shares r)(inf_s info \<mapsto> sh\<lparr>sh_delete_on_close := True\<rparr>)"
    using fm_try_free_eq [OF inv, of "inf_s info" sh] h(2) pos by auto
  then show ?thesis using h(1) lk by (simp add: fm_drop_table_def mysql_mutex_unlock_def reg_ok_def)
qed

lemma fm_rename_eq:
  assumes ok: "reg_ok r pins"
  shows "\<exists>e r'. fm_rename env r old_name new_name = Some (e, r') \<and> reg_ok r' pins \<and> rg_infos r' = rg_infos r
    \<and> (rg_shares r' = rg_shares r \<or> (\<exists>i sh. rg_shares r i = Some sh \<and> sh_name sh = old_name \<and> rg_shares r' = (rg_shares r)(i \<mapsto> sh\<lparr>sh_name := new_name\<rparr>)))"
proof -
  let ?r0 = "r\<lparr>THR_LOCK_fastmem := True\<rparr>"
  have inv: "reg_inv {} ?r0 pins" and lk: "mysql_mutex_lock r = Some ?r0" "\<not> THR_LOCK_fastmem r" and inv': "reg_inv {} r pins"
    using ok by (simp_all add: reg_ok_def mysql_mutex_lock_def)
  from inv show ?thesis
  proof (cases rule: find_named_share_cases [where nm = old_name])
    case none
    then show ?thesis using lk inv by (simp add: fm_rename_def mysql_mutex_unlock_def reg_ok_def)
  next
    case (found i sh)
    have i: "rg_shares r i = Some sh" using found(2) by simp
    show ?thesis
    proof (cases rule: my_malloc_cases [of env ?r0])
      case fail
      then show ?thesis using found lk inv by (simp add: fm_rename_def mysql_mutex_unlock_def reg_ok_def)
    next
      case m: ok
      let ?sh = "sh\<lparr>sh_name := new_name\<rparr>"
      let ?r = "(put_share r i ?sh)\<lparr>rg_mallocs := rg_mallocs r + 1\<rparr>"
      note d = reg_invD(9-11) [OF inv' i]
      have "reg_inv {} (put_share r i ?sh) (pins(i := pins i))"
        by (rule reg_inv_put_share [OF inv' i]) (use d in \<open>auto simp: counted_share_def owned_share_def\<close>)
      then have ok': "reg_ok ?r pins" using lk by (simp add: reg_ok_def put_share_def)
      have e: "fm_rename env r old_name new_name = Some (HA_OK, ?r)"
        using found lk m by (simp add: fm_rename_def mysql_mutex_unlock_def my_free_def put_share_def)
      have "rg_shares ?r = (rg_shares r)(i \<mapsto> ?sh)" "rg_infos ?r = rg_infos r" by (simp_all add: put_share_def)
      then show ?thesis using e ok' i found(4) by blast
    qed
  qed
qed

text \<open>The first half of \<open>fm_create\<close>: look the name up, free an unreferenced share of that name.\<close>

definition create_lookup :: "string \<Rightarrow> bool \<Rightarrow> fm_registry \<Rightarrow> (address option \<times> fm_registry) option" where
  "create_lookup nm internal r =
     (if internal then Some (None, r)
      else do {
        r0 \<leftarrow> mysql_mutex_lock r;
        f \<leftarrow> fm_find_named_share r0 nm;
        case f of
          None \<Rightarrow> Some (None, r0)
        | Some i \<Rightarrow> do {
            sh \<leftarrow> rg_shares r0 i;
            if sh_open_count sh = 0 then do { r2 \<leftarrow> fm_free r0 i; Some (None, r2) } else Some (Some i, r0) } })"

lemma create_lookup_eq:
  assumes ok: "reg_ok r pins"
  obtains f r1 where "create_lookup nm internal r = Some (f, r1)" "reg_inv {} r1 pins" "rg_infos r1 = rg_infos r"
    "THR_LOCK_fastmem r1 = (\<not> internal)" "\<And>j. handles r j \<noteq> {} \<Longrightarrow> rg_shares r1 j = rg_shares r j"
    "\<And>i. f = Some i \<Longrightarrow> \<not> internal \<and> rg_shares r1 = rg_shares r \<and> (\<exists>sh. rg_shares r1 i = Some sh \<and> \<not> sh_internal sh \<and> sh_name sh = nm \<and> 0 < sh_open_count sh)"
    "rg_mallocs r1 = rg_mallocs r" "rg_next r1 = rg_next r"
    "(\<forall>i sh. rg_shares r i = Some sh \<longrightarrow> sh_internal sh \<or> sh_name sh \<noteq> nm) \<Longrightarrow> f = None \<and> rg_shares r1 = rg_shares r"
proof -
  let ?r0 = "r\<lparr>THR_LOCK_fastmem := True\<rparr>"
  have inv: "reg_inv {} ?r0 pins" and lk: "mysql_mutex_lock r = Some ?r0" "\<not> THR_LOCK_fastmem r" and inv': "reg_inv {} r pins"
    using ok by (simp_all add: reg_ok_def mysql_mutex_lock_def)
  show thesis
  proof (cases internal)
    case True
    then show thesis using inv' lk by (intro that [of None r]) (simp_all add: create_lookup_def)
  next
    case ni: False
    from inv show thesis
    proof (cases rule: find_named_share_cases [where nm = nm])
      case none
      then show thesis using ni lk inv by (intro that [of None ?r0]) (simp_all add: create_lookup_def)
    next
      case (found i sh)
      show thesis
      proof (cases "sh_open_count sh = 0")
        case False
        then show thesis using ni found lk inv by (intro that [of "Some i" ?r0]) (auto simp: create_lookup_def)
      next
        case True
        have "card (handles r i) = 0" "pins i = 0" using True reg_invD(10) [OF inv', of i sh] found(2,3) by (auto simp: counted_share_def)
        then have he: "handles r i = {}" "pins i = 0" using finite_handles [OF inv'] by simp_all
        have h0: "handles ?r0 i = {}" using he(1) by (simp add: handles_def)
        obtain r2 where f: "fm_free ?r0 i = Some r2" "reg_inv ({} - {i}) r2 pins" "r2 = ?r0\<lparr>rg_shares := (rg_shares ?r0)(i := None),
          fm_share_list := fm_share_list r2, rg_live := rg_live ?r0 - 2\<rparr>" by (rule fm_free_eq [OF inv found(2) h0 he(2)])
        have e: "rg_infos r2 = rg_infos r" "rg_shares r2 = (rg_shares r)(i := None)" "THR_LOCK_fastmem r2" "rg_mallocs r2 = rg_mallocs r"
          "rg_next r2 = rg_next r" by (subst f(3), simp)+
        show thesis
          by (rule that [of None r2]) (use ni found lk True f e he in \<open>auto simp: create_lookup_def\<close>)
      qed
    qed
  qed
qed

lemma fm_create_unfold:
  "fm_create env nm ci pin_share r = do {
     (found, r1) \<leftarrow> create_lookup nm (ci_internal_table ci) r;
     case found of
       Some i \<Rightarrow> do {
         sh \<leftarrow> rg_shares r1 i;
         let r2 = (if pin_share then put_share r1 i (sh\<lparr>sh_open_count := sh_open_count sh + 1\<rparr>) else r1);
         Some (HA_OK, Some i, False, mysql_mutex_unlock r2) }
     | None \<Rightarrow>
         (let (ok, r2) = my_malloc env r1
          in if \<not> ok then create_err r2 (ci_internal_table ci) None
          else let sh = new_share env nm ci
          in if \<not> has_chunks (sh_core sh) then create_err r2 (ci_internal_table ci) (Some sh)
          else let (ok2, r3) = my_malloc env r2
          in if \<not> ok2 then create_err r3 (ci_internal_table ci) (Some sh)
          else let i = rg_next r3;
                   sh' = (if \<not> ci_internal_table ci \<and> pin_share then sh\<lparr>sh_open_count := 1\<rparr> else sh);
                   r4 = (put_share r3 i sh')\<lparr>rg_next := i + 1\<rparr>;
                   r5 = (if ci_internal_table ci then r4 else mysql_mutex_unlock (fm_share_list_add r4 i))
               in Some (HA_OK, Some i, True, r5)) }"
  by (simp add: fm_create_def create_lookup_def Let_def)

text \<open>The error exit gives everything back.\<close>

lemma create_err_eq:
  assumes "\<And>s. sh = Some s \<Longrightarrow> freeable (sh_core s)" "THR_LOCK_fastmem r = (\<not> internal)"
  shows "\<exists>r'. create_err r internal sh = Some (HA_FAILURE, None, True, r')
    \<and> r' = r\<lparr>THR_LOCK_fastmem := False, rg_live := rg_live r - (if sh = None then 0 else 1)\<rparr>"
  using assms by (cases sh) (auto simp: create_err_def Let_def mysql_mutex_unlock_def my_free_def freeable_def)

text \<open>When no share of that name is listed, the call either gives back everything it took, or
  enters the new share under the next identity.\<close>

abbreviation entered :: "fm_registry \<Rightarrow> FM_SHARE \<Rightarrow> fm_registry" where
  "entered r sh \<equiv> r\<lparr>rg_shares := (rg_shares r)(rg_next r \<mapsto> sh), rg_next := rg_next r + 1, rg_live := rg_live r + 2,
    fm_share_list := (if sh_internal sh then fm_share_list r else rg_next r # fm_share_list r)\<rparr>"

lemma fm_create_unlisted:
  assumes lu: "create_lookup nm (ci_internal_table ci) r = Some (None, r1)" and lk: "THR_LOCK_fastmem r1 = (\<not> ci_internal_table ci)"
    and fr: "freeable (sh_core (new_share env nm ci))"
  obtains (failed) n e where "fm_create env nm ci pin r
      = Some (HA_FAILURE, None, True, r1\<lparr>THR_LOCK_fastmem := False, rg_mallocs := n, my_errno := e\<rparr>)"
  | (new) "fm_create env nm ci pin r = Some (HA_OK, Some (rg_next r1), True,
      entered (r1\<lparr>rg_mallocs := rg_mallocs r1 + 2, THR_LOCK_fastmem := False\<rparr>)
        ((new_share env nm ci)\<lparr>sh_open_count := if \<not> ci_internal_table ci \<and> pin then 1 else 0\<rparr>))"
proof (cases rule: my_malloc_cases [of env r1])
  case fail
  then show thesis using fm_create_unfold [of env nm ci pin r] lu lk
    by (intro failed [where n = "rg_mallocs r1 + 1" and e = "env_errno env"]) (cases "ci_internal_table ci", simp_all add: create_err_def mysql_mutex_unlock_def)
next
  case m: ok
  let ?int = "ci_internal_table ci" and ?new = "new_share env nm ci"
  let ?r2 = "r1\<lparr>rg_mallocs := rg_mallocs r1 + 1, rg_live := rg_live r1 + 1\<rparr>"
  note run = fm_create_unfold [of env nm ci pin r] lu m
  have swap: "r1\<lparr>rg_live := l, rg_mallocs := n\<rparr> = r1\<lparr>rg_mallocs := n, rg_live := l\<rparr>" for l n by (cases r1) simp
  have bad: thesis if e: "fm_create env nm ci pin r = create_err (?r2\<lparr>rg_mallocs := n, my_errno := e\<rparr>) ?int (Some ?new)" for n e
  proof -
    have "create_err (?r2\<lparr>rg_mallocs := n, my_errno := e\<rparr>) ?int (Some ?new)
      = Some (HA_FAILURE, None, True, r1\<lparr>THR_LOCK_fastmem := False, rg_mallocs := n, my_errno := e\<rparr>)"
      using create_err_eq [of "Some ?new" "?r2\<lparr>rg_mallocs := n, my_errno := e\<rparr>" ?int] fr lk by auto
    with e show thesis by (intro failed [where n = n and e = e]) simp
  qed
  show thesis
  proof (cases "\<not> has_chunks (sh_core ?new)")
    case True
    then show thesis using run by (intro bad [where n = "rg_mallocs ?r2" and e = "my_errno r1"]) (simp_all add: Let_def swap)
  next
    case c: False
    show thesis
    proof (cases rule: my_malloc_cases [of env ?r2])
      case fail
      then show thesis using run c
        by (intro bad [where n = "rg_mallocs ?r2 + 1" and e = "env_errno env"]) (simp_all add: Let_def)
    next
      case m2: ok
      let ?i = "rg_next r1" and ?sh = "?new\<lparr>sh_open_count := if \<not> ?int \<and> pin then 1 else 0\<rparr>"
      let ?r3 = "?r2\<lparr>rg_mallocs := rg_mallocs ?r2 + 1, rg_live := rg_live ?r2 + 1\<rparr>"
      let ?r5 = "\<lambda>s. if ?int then (put_share ?r3 ?i s)\<lparr>rg_next := ?i + 1\<rparr>
        else mysql_mutex_unlock (fm_share_list_add ((put_share ?r3 ?i s)\<lparr>rg_next := ?i + 1\<rparr>) ?i)"
      have she: "(if \<not> ?int \<and> pin then ?new\<lparr>sh_open_count := 1\<rparr> else ?new) = ?sh" by (rule FM_SHARE.equality) simp_all
      have "fm_create env nm ci pin r = Some (HA_OK, Some ?i, True, ?r5 (if \<not> ?int \<and> pin then ?new\<lparr>sh_open_count := 1\<rparr> else ?new))"
        using run c m2 by (simp add: Let_def)
      moreover have "?r5 ?sh = entered (r1\<lparr>rg_mallocs := rg_mallocs r1 + 2, THR_LOCK_fastmem := False\<rparr>) ?sh"
        by (rule fm_registry.equality) (use lk in \<open>simp_all add: put_share_def fm_share_list_add_def mysql_mutex_unlock_def\<close>)
      ultimately show thesis unfolding she by (intro new) simp
    qed
  qed
qed

text \<open>When it is listed, only its open count may change.\<close>

lemma fm_create_listed:
  assumes lu: "create_lookup nm (ci_internal_table ci) r = Some (Some i, r1)" and i: "rg_shares r1 i = Some sh"
  shows "fm_create env nm ci pin r = Some (HA_OK, Some i, False,
    (put_share r1 i (sh\<lparr>sh_open_count := sh_open_count sh + (if pin then 1 else 0)\<rparr>))\<lparr>THR_LOCK_fastmem := False\<rparr>)"
proof (cases pin)
  case False
  then have "put_share r1 i (sh\<lparr>sh_open_count := sh_open_count sh + (if pin then 1 else 0)\<rparr>) = r1"
    using i by (cases r1) (auto simp: put_share_def)
  then show ?thesis using fm_create_unfold [of env nm ci pin r] lu i False by (simp add: mysql_mutex_unlock_def)
qed (use fm_create_unfold [of env nm ci pin r] lu i in \<open>simp add: mysql_mutex_unlock_def\<close>)

lemma fm_create_eq:
  assumes ok: "reg_ok r pins" and al: "\<forall>n < 2. \<forall>z. alloc (fm_core_ops env) n z"
  obtains (failed) r' where "fm_create env nm ci pin r = Some (HA_FAILURE, None, True, r')" "reg_ok r' pins" "rg_infos r' = rg_infos r"
      "\<And>j. handles r j \<noteq> {} \<Longrightarrow> rg_shares r' j = rg_shares r j"
  | (found) i sh r' where "fm_create env nm ci pin r = Some (HA_OK, Some i, False, r')" "\<not> ci_internal_table ci"
      "reg_ok r' (pins(i := pins i + (if pin then 1 else 0)))" "rg_infos r' = rg_infos r"
      "rg_shares r i = Some sh" "\<not> sh_internal sh" "sh_name sh = nm" "0 < sh_open_count sh"
      "rg_shares r' = (rg_shares r)(i \<mapsto> sh\<lparr>sh_open_count := sh_open_count sh + (if pin then 1 else 0)\<rparr>)"
  | (new) i sh r' where "fm_create env nm ci pin r = Some (HA_OK, Some i, True, r')"
      "reg_ok r' (pins(i := if ci_internal_table ci \<or> pin then 1 else 0))" "rg_infos r' = rg_infos r" "rg_shares r i = None" "pins i = 0"
      "rg_shares r' i = Some sh" "sh = (new_share env nm ci)\<lparr>sh_open_count := if \<not> ci_internal_table ci \<and> pin then 1 else 0\<rparr>"
      "\<And>j. handles r j \<noteq> {} \<Longrightarrow> rg_shares r' j = rg_shares r j"
proof (rule create_lookup_eq [OF ok, of nm "ci_internal_table ci"], goal_cases)
  case (1 f r1)
  note failed = 1(1) and found = 1(2) and new = 1(3) and lu = 1(4) and inv = 1(5) and inf = 1(6) and lk = 1(7) and kept = 1(8) and nxt = 1(11)
  let ?int = "ci_internal_table ci" and ?new = "new_share env nm ci"
  show thesis
  proof (cases f)
    case (Some i)
    then obtain sh where ni: "\<not> ?int" "rg_shares r1 = rg_shares r" and i: "rg_shares r1 i = Some sh" "\<not> sh_internal sh" "sh_name sh = nm" "0 < sh_open_count sh"
      using 1(9) by blast
    let ?r = "put_share r1 i (sh\<lparr>sh_open_count := sh_open_count sh + (if pin then 1 else 0)\<rparr>)"
    have "reg_inv {} ?r (pins(i := pins i + (if pin then 1 else 0)))"
      by (rule reg_inv_put_share [OF inv i(1)]) (use reg_invD(9-11) [OF inv i(1)] i in \<open>auto simp: counted_share_def owned_share_def\<close>)
    with i ni inf show thesis by (intro found [OF fm_create_listed [OF lu [unfolded Some] i(1)]]) (simp_all add: reg_ok_def put_share_def)
  next
    case None
    show thesis
    proof (rule fm_create_unlisted [OF lu [unfolded None] lk new_share_freeable [OF al], of pin], goal_cases)
      case (1 e n)
      then show thesis by (rule failed) (use inv inf kept in \<open>simp_all add: reg_ok_def\<close>)
    next
      case n: 2
      let ?i = "rg_next r1" and ?p = "if ?int \<or> pin then 1 else 0 :: nat"
      let ?sh = "?new\<lparr>sh_open_count := if \<not> ?int \<and> pin then 1 else 0\<rparr>" and ?r4 = "r1\<lparr>rg_mallocs := rg_mallocs r1 + 2, THR_LOCK_fastmem := False\<rparr>"
      have inv4: "reg_inv {} ?r4 pins" and rinv: "reg_inv {} r pins" using inv ok by (simp_all add: reg_ok_def)
      have s: "freeable (sh_core ?sh)" "sh_open_list ?sh = []" "sh_open_count ?sh = (if sh_internal ?sh then 0 else ?p)"
        "if sh_internal ?sh then ?p = 1 \<and> sh_delete_on_close ?sh else \<not> sh_delete_on_close ?sh" using new_share_freeable [OF al] by simp_all
      have nx: "rg_next ?r4 = ?i" "rg_shares ?r4 = rg_shares r1" by simp_all
      have cr: "reg_inv {} (entered ?r4 ?sh) (pins(?i := ?p))" "pins ?i = 0"
        using reg_inv_create [OF inv4 s refl] unfolding nx by blast+
      have fresh: "rg_shares r ?i = None" using reg_invD(3) [OF rinv, of ?i] nxt by (cases "rg_shares r ?i") auto
      have "rg_shares (entered ?r4 ?sh) j = rg_shares r j" if hj: "handles r j \<noteq> {}" for j
      proof -
        obtain h info where "rg_infos r h = Some info" "inf_s info = j" using hj by (auto simp: handles_def)
        then have "rg_shares r j \<noteq> None" using reg_invD(7) [OF rinv, of h info] by auto
        then show ?thesis using kept [OF hj] fresh by auto
      qed
      with n fresh cr inf show thesis by (intro new [of ?i "entered ?r4 ?sh" ?sh]) (simp_all add: reg_ok_def)
    qed
  qed
qed


text \<open>With memory a new name always yields a new share.\<close>

lemma fm_create_fresh:
  assumes ok: "reg_ok r pins" and al: "\<forall>n < 2. \<forall>z. alloc (fm_core_ops env) n z" and m: "\<And>n. env_malloc env n"
    and c: "has_chunks (sh_core (new_share env nm ci))" and nm: "\<forall>i sh. rg_shares r i = Some sh \<longrightarrow> sh_internal sh \<or> sh_name sh \<noteq> nm"
  obtains i sh r' where "fm_create env nm ci pin r = Some (HA_OK, Some i, True, r')"
      "reg_ok r' (pins(i := if ci_internal_table ci \<or> pin then 1 else 0))" "rg_infos r' = rg_infos r" "rg_shares r i = None"
      "rg_shares r' i = Some sh" "sh = (new_share env nm ci)\<lparr>sh_open_count := if \<not> ci_internal_table ci \<and> pin then 1 else 0\<rparr>"
proof -
  have "\<exists>i r'. fm_create env nm ci pin r = Some (HA_OK, Some i, True, r')"
  proof (rule create_lookup_eq [OF ok, of nm "ci_internal_table ci"], goal_cases)
    case (1 f r1)
    then have "f = None" using nm by blast
    then show ?case using 1(1) c m by (simp add: fm_create_unfold my_malloc_def Let_def)
  qed
  then obtain i r' where run: "fm_create env nm ci pin r = Some (HA_OK, Some i, True, r')" by blast
  show thesis
  proof (rule fm_create_eq [OF ok al, of nm ci pin], goal_cases)
    case (3 i' sh r'')
    then show thesis by (intro that [of i' r'' sh]) auto
  qed (use run in auto)
qed

section \<open>Steps of the registry\<close>

text \<open>
  The calls of concurrent sessions on the registry, each atomic under the registry mutex, with the
  pins each session owes: \<open>create\<close> of a pinned or an internal share hands a reference to the caller,
  \<open>open_pinned\<close> and \<open>open_internal\<close> turn it into a handle, \<open>release\<close> gives it back. \<open>work\<close> is any
  operation of a handle on the rows of its share.
\<close>

inductive reg_step :: "engine_env \<Rightarrow> fm_registry \<times> (address \<Rightarrow> nat) \<Rightarrow> fm_registry \<times> (address \<Rightarrow> nat) \<Rightarrow> bool" for env where
  create: "fm_create env nm ci pin r = Some (rc, Some i, created, r')
    \<Longrightarrow> reg_step env (r, pins) (r', pins(i := pins i + (if ci_internal_table ci \<or> pin then 1 else 0)))"
| create_failed: "fm_create env nm ci pin r = Some (rc, None, created, r') \<Longrightarrow> reg_step env (r, pins) (r', pins)"
| open_named: "fm_open env nm md r = Some (a, r') \<Longrightarrow> reg_step env (r, pins) (r', pins)"
| open_pinned: "0 < pins i \<Longrightarrow> rg_shares r i = Some sh \<Longrightarrow> \<not> sh_internal sh
    \<Longrightarrow> fm_open_from_share_and_register env i md r = Some (a, r') \<Longrightarrow> reg_step env (r, pins) (r', if a = None then pins else pins(i := pins i - 1))"
| open_internal: "0 < pins i \<Longrightarrow> rg_shares r i = Some sh \<Longrightarrow> sh_internal sh
    \<Longrightarrow> fm_open_from_share env i md r = Some (a, r') \<Longrightarrow> reg_step env (r, pins) (r', if a = None then pins else pins(i := pins i - 1))"
| close: "rg_infos r h \<noteq> None \<Longrightarrow> fm_close r h = Some r' \<Longrightarrow> reg_step env (r, pins) (r', pins)"
| release: "0 < pins i \<Longrightarrow> rg_shares r i = Some sh \<Longrightarrow> fm_release_share r i (sh_internal sh) = Some r'
    \<Longrightarrow> reg_step env (r, pins) (r', pins(i := pins i - 1))"
| delete: "fm_delete_table r nm = Some (e, r') \<Longrightarrow> reg_step env (r, pins) (r', pins)"
| drop: "rg_infos r h \<noteq> None \<Longrightarrow> fm_drop_table r h = Some r' \<Longrightarrow> reg_step env (r, pins) (r', pins)"
| rename: "fm_rename env r old_name new_name = Some (e, r') \<Longrightarrow> reg_step env (r, pins) (r', pins)"
| work: "rg_infos r h = Some info \<Longrightarrow> rg_shares r (inf_s info) = Some sh \<Longrightarrow> freeable core
    \<Longrightarrow> reg_step env (r, pins) (put_share r (inf_s info) (sh\<lparr>sh_core := core\<rparr>), pins)"

lemma reg_ok_handle: "reg_ok r pins \<Longrightarrow> rg_infos r h \<noteq> None \<Longrightarrow> \<exists>info sh. rg_infos r h = Some info \<and> rg_shares r (inf_s info) = Some sh"
  using reg_invD(7) [of "{}" r pins h] by (auto simp: reg_ok_def)

lemma reg_ok_internal_pin: "reg_ok r pins \<Longrightarrow> rg_shares r i = Some sh \<Longrightarrow> sh_internal sh \<Longrightarrow> 0 < pins i \<Longrightarrow> pins i = 1"
  using reg_invD(11) [of "{}" r pins i sh] by (simp add: reg_ok_def owned_share_def)

lemma reg_step_ok:
  assumes al: "\<forall>n < 2. \<forall>z. alloc (fm_core_ops env) n z" and st: "reg_step env (r, pins) (r', pins')" and ok: "reg_ok r pins"
  shows "reg_ok r' pins'"
  using st
proof cases
  case (create nm ci pin rc i created)
  show ?thesis
    by (rule fm_create_eq [OF ok al, of nm ci pin]) (use create in \<open>auto split: if_splits\<close>)
next
  case (create_failed nm ci pin rc created)
  show ?thesis
    by (rule fm_create_eq [OF ok al, of nm ci pin]) (use create_failed in auto)
next
  case (open_named nm md a)
  then show ?thesis using fm_open_eq [OF ok, of env nm md] by auto
next
  case (open_pinned i sh md a)
  then show ?thesis using fm_open_pinned_eq [OF ok open_pinned(2-4), of env md] by auto
next
  case (open_internal i sh md a)
  then show ?thesis
    using fm_open_internal_eq [OF ok open_internal(2-4), of env md] reg_ok_internal_pin [OF ok open_internal(3,4,2)] by auto
next
  case (close h)
  then obtain info sh where "rg_infos r h = Some info" "rg_shares r (inf_s info) = Some sh" using reg_ok_handle [OF ok] by blast
  from fm_close_eq [OF ok this] close show ?thesis by auto
next
  case (release i sh)
  then show ?thesis using fm_release_share_eq [OF ok release(2,3)] by auto
next
  case (delete nm e)
  then show ?thesis using fm_delete_table_eq [OF ok, of nm] by auto
next
  case (drop h)
  then obtain info sh where "rg_infos r h = Some info" "rg_shares r (inf_s info) = Some sh" using reg_ok_handle [OF ok] by blast
  from fm_drop_table_eq [OF ok this] drop show ?thesis by auto
next
  case (rename old_name new_name e)
  then show ?thesis using fm_rename_eq [OF ok, of env old_name new_name] by auto
next
  case (work h info sh core)
  have inv: "reg_inv {} r pins" and lk: "\<not> THR_LOCK_fastmem r" using ok by (simp_all add: reg_ok_def)
  note d = reg_invD(9-11) [OF inv work(4)]
  have "reg_inv {} r' (pins(inf_s info := pins (inf_s info)))" unfolding work(1)
    by (rule reg_inv_put_share [OF inv work(4)]) (use work d in \<open>auto simp: counted_share_def owned_share_def\<close>)
  then show ?thesis using work lk by (simp add: reg_ok_def put_share_def)
qed

lemma empty_registry_ok: "reg_ok empty_registry (\<lambda>_. 0)"
  by (simp add: reg_ok_def reg_inv_def empty_registry_def)

lemma reg_steps_ok:
  assumes al: "\<forall>n < 2. \<forall>z. alloc (fm_core_ops env) n z" and st: "(reg_step env)\<^sup>*\<^sup>* s s'" and ok: "reg_ok (fst s) (snd s)"
  shows "reg_ok (fst s') (snd s')"
  using st ok
proof (induction rule: rtranclp_induct)
  case (step y z)
  then show ?case using reg_step_ok [OF al, of "fst y" "snd y" "fst z" "snd z"] by simp
qed simp

section \<open>Marked shares\<close>

text \<open>
  What every call keeps: a share is not unmarked, its kind does not change, and the address of a freed share is not given
  to another object.
\<close>

definition marks_kept :: "fm_registry \<Rightarrow> fm_registry \<Rightarrow> bool" where
  "marks_kept r r' \<longleftrightarrow> rg_next r \<le> rg_next r' \<and> (\<forall>i sh'. rg_shares r' i = Some sh' \<longrightarrow> rg_next r \<le> i
     \<or> (\<exists>sh. rg_shares r i = Some sh \<and> sh_internal sh' = sh_internal sh \<and> (sh_delete_on_close sh \<longrightarrow> sh_delete_on_close sh')))"

lemma marks_kept_same: "rg_next r' = rg_next r \<Longrightarrow> rg_shares r' = rg_shares r \<Longrightarrow> marks_kept r r'"
  by (simp add: marks_kept_def)

lemma marks_kept_trans:
  assumes "marks_kept r r'" "marks_kept r' r''"
  shows "marks_kept r r''"
  using assms unfolding marks_kept_def by (meson order_trans)

lemma marks_kept_upd:
  assumes "rg_next r \<le> rg_next r'" "rg_shares r' = (rg_shares r)(i := s)"
    and "\<And>sh'. s = Some sh' \<Longrightarrow> rg_next r \<le> i \<or> (\<exists>sh. rg_shares r i = Some sh \<and> sh_internal sh' = sh_internal sh
      \<and> (sh_delete_on_close sh \<longrightarrow> sh_delete_on_close sh'))"
  shows "marks_kept r r'"
  using assms by (auto simp: marks_kept_def)

lemma fm_free_marks: "fm_free r i = Some r' \<Longrightarrow> marks_kept r r'"
  by (rule marks_kept_upd [where i = i and s = None])
    (auto simp: fm_free_def my_free_def fm_share_list_remove_def Let_def bind_eq_Some_conv)

lemma put_share_marks:
  "rg_shares r i = Some sh \<Longrightarrow> sh_internal sh' = sh_internal sh \<Longrightarrow> (sh_delete_on_close sh \<Longrightarrow> sh_delete_on_close sh') \<Longrightarrow> marks_kept r (put_share r i sh')"
  by (rule marks_kept_upd [where i = i and s = "Some sh'"]) (auto simp: put_share_def)

lemma fm_try_free_marks: "fm_try_free r i = Some r' \<Longrightarrow> marks_kept r r'"
  by (auto simp: fm_try_free_def bind_eq_Some_conv split: if_splits intro: fm_free_marks put_share_marks)

lemma frame_marks [simp]:
  "marks_kept (r\<lparr>THR_LOCK_fastmem := b\<rparr>) r' = marks_kept r r'" "marks_kept r (r'\<lparr>THR_LOCK_fastmem := b\<rparr>) = marks_kept r r'"
  "marks_kept r (r'\<lparr>my_errno := e\<rparr>) = marks_kept r r'" "marks_kept r (r'\<lparr>rg_live := l\<rparr>) = marks_kept r r'"
  "marks_kept r (r'\<lparr>rg_infos := f\<rparr>) = marks_kept r r'" "marks_kept r r"
  by (simp_all add: marks_kept_def)

lemmas lock_defs = mysql_mutex_lock_def mysql_mutex_unlock_def my_free_def

lemma open_locked_marks: "fm_open_from_share_locked env i md r = Some (a, r') \<Longrightarrow> marks_kept r r'"
  by (auto simp: fm_open_from_share_locked_def my_malloc_def bind_eq_Some_conv put_share_def put_info_def Let_def marks_kept_def split: if_splits)

lemma list_info_marks: "list_info r i h = Some r' \<Longrightarrow> marks_kept r r'"
  by (auto simp: list_info_def bind_eq_Some_conv put_share_def put_info_def marks_kept_def split: if_splits)

lemma fm_open_marks: "fm_open env nm md r = Some (a, r') \<Longrightarrow> marks_kept r r'"
  by (auto simp: fm_open_def lock_defs bind_eq_Some_conv split: option.splits if_splits
      dest!: open_locked_marks list_info_marks elim!: marks_kept_trans)

lemma put_count_marks: "rg_shares r i = Some sh \<Longrightarrow> marks_kept r (put_share r i (sh\<lparr>sh_open_count := n\<rparr>))"
  by (rule put_share_marks) simp_all

lemma fm_open_registered_marks: "fm_open_from_share_and_register env i md r = Some (a, r') \<Longrightarrow> marks_kept r r'"
  by (auto simp: fm_open_from_share_and_register_def lock_defs bind_eq_Some_conv Let_def split: option.splits if_splits
      dest!: open_locked_marks list_info_marks elim!: marks_kept_trans intro!: put_count_marks)

lemma put_locked_marks:
  "rg_shares r i = Some sh \<Longrightarrow> sh_internal sh' = sh_internal sh \<Longrightarrow> (sh_delete_on_close sh \<Longrightarrow> sh_delete_on_close sh')
    \<Longrightarrow> marks_kept r (put_share (r\<lparr>THR_LOCK_fastmem := b\<rparr>) i sh')"
  using put_share_marks [of "r\<lparr>THR_LOCK_fastmem := b\<rparr>" i sh sh'] by simp

lemma fm_close_marks: "fm_close r h = Some r' \<Longrightarrow> marks_kept r r'"
  by (auto simp: fm_close_def lock_defs bind_eq_Some_conv Let_def split: if_splits
      dest!: fm_free_marks elim!: marks_kept_trans [rotated] intro!: put_locked_marks)

lemma fm_release_marks: "fm_release_share r i b = Some r' \<Longrightarrow> marks_kept r r'"
  by (auto simp: fm_release_share_def lock_defs bind_eq_Some_conv Let_def split: if_splits
      dest!: fm_free_marks elim!: marks_kept_trans [rotated] intro!: put_locked_marks)

lemma fm_delete_table_marks: "fm_delete_table r nm = Some (e, r') \<Longrightarrow> marks_kept r r'"
  by (auto simp: fm_delete_table_def lock_defs bind_eq_Some_conv split: option.splits if_splits dest!: fm_try_free_marks)

lemma fm_drop_table_marks: "fm_drop_table r h = Some r' \<Longrightarrow> marks_kept r r'"
  by (auto simp: fm_drop_table_def lock_defs bind_eq_Some_conv split: if_splits dest!: fm_try_free_marks)

lemma fm_rename_marks: "fm_rename env r nm nm' = Some (e, r') \<Longrightarrow> marks_kept r r'"
  by (auto simp: fm_rename_def lock_defs my_malloc_def bind_eq_Some_conv put_share_def Let_def marks_kept_def split: option.splits if_splits)

lemma create_lookup_marks: "create_lookup nm b r = Some (f, r') \<Longrightarrow> marks_kept r r'"
  by (auto simp: create_lookup_def lock_defs bind_eq_Some_conv split: option.splits if_splits dest!: fm_free_marks)

lemma create_err_marks: "create_err r b sh = Some (e, a, c, r') \<Longrightarrow> marks_kept r r'"
  by (auto simp: create_err_def lock_defs bind_eq_Some_conv Let_def split: option.splits if_splits)

lemma fm_create_marks:
  assumes "fm_create env nm ci pin r = Some (e, a, c, r')"
  shows "marks_kept r r'"
proof -
  obtain f r1 where lu: "create_lookup nm (ci_internal_table ci) r = Some (f, r1)"
    using assms by (cases "create_lookup nm (ci_internal_table ci) r") (auto simp: fm_create_unfold)
  have "marks_kept r1 r'"
  proof (cases f)
    case None
    let ?r2 = "snd (my_malloc env r1)" and ?r3 = "snd (my_malloc env (snd (my_malloc env r1)))"
    have m: "marks_kept r1 ?r2" "marks_kept r1 ?r3" by (simp_all add: my_malloc_def marks_kept_same)
    from None assms lu consider (err) sh where "create_err ?r2 (ci_internal_table ci) sh = Some (e, a, c, r')"
      | (err2) sh where "create_err ?r3 (ci_internal_table ci) sh = Some (e, a, c, r')"
      | (new) sh where "rg_next r' = rg_next ?r3 + 1" "rg_shares r' = (rg_shares ?r3)(rg_next ?r3 \<mapsto> sh)"
      by (auto simp: fm_create_unfold case_prod_unfold Let_def put_share_def fm_share_list_add_def mysql_mutex_unlock_def split: if_splits)
    then show ?thesis
    proof cases
      case (new sh)
      have "marks_kept ?r3 r'" by (rule marks_kept_upd [OF _ new(2)]) (simp_all add: new(1))
      with m(2) show ?thesis by (rule marks_kept_trans)
    qed (use m create_err_marks marks_kept_trans in blast)+
  next
    case (Some i)
    then obtain sh where i: "rg_shares r1 i = Some sh" using assms lu by (auto simp: fm_create_unfold bind_eq_Some_conv)
    have "r' = (put_share r1 i (sh\<lparr>sh_open_count := sh_open_count sh + (if pin then 1 else 0)\<rparr>))\<lparr>THR_LOCK_fastmem := False\<rparr>"
      using fm_create_listed [OF lu [unfolded Some] i, of env pin] assms by simp
    then show ?thesis by (simp add: put_share_marks [OF i])
  qed
  with create_lookup_marks [OF lu] show ?thesis by (rule marks_kept_trans)
qed

lemma reg_step_marks: "reg_step env (r, pins) (r', pins') \<Longrightarrow> marks_kept r r'"
  by (erule reg_step.cases)
    (auto simp: fm_open_from_share_def intro: fm_create_marks fm_open_marks fm_open_registered_marks open_locked_marks fm_close_marks
      fm_release_marks fm_delete_table_marks fm_drop_table_marks fm_rename_marks put_share_marks)

lemma reg_steps_marks: "(reg_step env)\<^sup>*\<^sup>* s s' \<Longrightarrow> marks_kept (fst s) (fst s')"
proof (induction rule: rtranclp_induct)
  case (step y z)
  then show ?case using reg_step_marks [of env "fst y" "snd y" "fst z" "snd z"] by (auto intro: marks_kept_trans)
qed simp

text \<open>In a consistent registry a marked share lives exactly as long as something refers to it.\<close>

lemma marked_share_lives:
  assumes ok: "reg_ok r pins" and m: "\<And>sh. rg_shares r i = Some sh \<Longrightarrow> \<not> sh_internal sh \<and> sh_delete_on_close sh"
  shows "rg_shares r i \<noteq> None \<longleftrightarrow> handles r i \<noteq> {} \<or> pins i \<noteq> 0" "i \<in> set (fm_share_list r) \<longleftrightarrow> rg_shares r i \<noteq> None"
proof -
  have inv: "reg_inv {} r pins" using ok by (simp add: reg_ok_def)
  note d = reg_invD [OF inv]
  show "i \<in> set (fm_share_list r) \<longleftrightarrow> rg_shares r i \<noteq> None" using d(6) m by auto
  have "rg_shares r i \<noteq> None" if "handles r i \<noteq> {} \<or> pins i \<noteq> 0"
    using that d(7,8) by (fastforce simp: handles_def)
  moreover have "handles r i \<noteq> {} \<or> pins i \<noteq> 0" if s: "rg_shares r i = Some sh" for sh
    using d(10,11) [OF s] m [OF s] by (auto simp: counted_share_def owned_share_def)
  ultimately show "rg_shares r i \<noteq> None \<longleftrightarrow> handles r i \<noteq> {} \<or> pins i \<noteq> 0" by blast
qed

section \<open>Properties of the registry\<close>

text \<open>
  C8: Whatever sessions create, open, close, drop, rename and release, and whenever an allocation of
  the server fails, the registry stays consistent: the mutex is free between calls; the open count
  of a share is the number of its handles and pins; no handle points to a freed share; the list
  holds exactly the shares that are not internal, each once; the open list of a share holds exactly
  its listed handles; and the blocks in use are two per share and one per handle, so nothing leaks
  and nothing is freed twice.
\<close>

theorem registry_consistent:
  assumes "\<forall>n < 2. \<forall>z. alloc (fm_core_ops env) n z" "(reg_step env)\<^sup>*\<^sup>* (empty_registry, \<lambda>_. 0) (r, pins)"
  shows "\<not> THR_LOCK_fastmem r
    \<and> (\<forall>i sh. rg_shares r i = Some sh \<longrightarrow> sh_open_count sh = card (handles r i) + (if sh_internal sh then 0 else pins i)
         \<and> distinct (sh_open_list sh) \<and> set (sh_open_list sh) = {h. \<exists>info. rg_infos r h = Some info \<and> inf_s info = i \<and> open_listed info})
    \<and> (\<forall>h info. rg_infos r h = Some info \<longrightarrow> rg_shares r (inf_s info) \<noteq> None)
    \<and> distinct (fm_share_list r) \<and> set (fm_share_list r) = {i. \<exists>sh. rg_shares r i = Some sh \<and> \<not> sh_internal sh}
    \<and> rg_live r = 2 * int (card (dom (rg_shares r))) + int (card (dom (rg_infos r)))"
proof -
  have "reg_ok r pins" using reg_steps_ok [OF assms] empty_registry_ok by simp
  then have inv: "reg_inv {} r pins" and lk: "\<not> THR_LOCK_fastmem r" by (simp_all add: reg_ok_def)
  note d = reg_invD [OF inv]
  have c: "\<forall>i sh. rg_shares r i = Some sh \<longrightarrow> sh_open_count sh = card (handles r i) + (if sh_internal sh then 0 else pins i)
      \<and> distinct (sh_open_list sh) \<and> set (sh_open_list sh) = {h. \<exists>info. rg_infos r h = Some info \<and> inf_s info = i \<and> open_listed info}"
    using d(10) unfolding counted_share_def listed_def by blast
  have h: "\<forall>h info. rg_infos r h = Some info \<longrightarrow> rg_shares r (inf_s info) \<noteq> None" using d(7) by blast
  show ?thesis by (intro conjI lk c h d(5,6,12))
qed

text \<open>
  C23: No call on a consistent registry gets stuck or touches a freed object: creating, opening, dropping and renaming always
  return, closing and dropping do for every open handle, and opening and releasing a share do for every reference the caller
  holds. This includes the paths on which an allocation of the server fails, and an allocation of the core other than
  the first two of a share, its chunk array and its key array.
\<close>

theorem registry_calls_return:
  assumes al: "\<forall>n < 2. \<forall>z. alloc (fm_core_ops env) n z" and ok: "reg_ok r pins"
  shows "fm_create env nm ci pin r \<noteq> None \<and> fm_open env nm md r \<noteq> None \<and> fm_delete_table r nm \<noteq> None \<and> fm_rename env r nm new_name \<noteq> None
    \<and> (\<forall>h info. rg_infos r h = Some info \<longrightarrow> fm_close r h \<noteq> None \<and> fm_drop_table r h \<noteq> None)
    \<and> (\<forall>i sh. 0 < pins i \<longrightarrow> rg_shares r i = Some sh \<longrightarrow> fm_release_share r i (sh_internal sh) \<noteq> None
         \<and> (if sh_internal sh then fm_open_from_share env i md r else fm_open_from_share_and_register env i md r) \<noteq> None)"
proof (intro conjI allI impI)
  show "fm_create env nm ci pin r \<noteq> None" by (rule fm_create_eq [OF ok al, of nm ci pin]) auto
  show "fm_open env nm md r \<noteq> None" using fm_open_eq [OF ok, of env nm md] by auto
  show "fm_delete_table r nm \<noteq> None" using fm_delete_table_eq [OF ok, of nm] by auto
  show "fm_rename env r nm new_name \<noteq> None" using fm_rename_eq [OF ok, of env nm new_name] by auto
  fix h info assume h: "rg_infos r h = Some info"
  then obtain sh where "rg_shares r (inf_s info) = Some sh" using reg_ok_handle [OF ok, of h] by auto
  from fm_close_eq [OF ok h this] fm_drop_table_eq [OF ok h this] show "fm_close r h \<noteq> None" "fm_drop_table r h \<noteq> None" by auto
next
  fix i sh assume p: "0 < pins i" and i: "rg_shares r i = Some sh"
  from fm_release_share_eq [OF ok p i] show "fm_release_share r i (sh_internal sh) \<noteq> None" by auto
  show "(if sh_internal sh then fm_open_from_share env i md r else fm_open_from_share_and_register env i md r) \<noteq> None"
    using fm_open_pinned_eq [OF ok p i, of env md] fm_open_internal_eq [OF ok p i, of env md] by auto
qed

text \<open>
  C24: Without memory for its chunk array a table with keys is not created, and the error exit of \<open>fm_create\<close> does not
  return either: it frees the core of the share, whose key array is still a null pointer, and reads the entry of the first key.
\<close>

theorem create_without_memory_undefined:
  assumes ok: "reg_ok r pins" and nm: "\<forall>i sh. rg_shares r i = Some sh \<longrightarrow> sh_internal sh \<or> sh_name sh \<noteq> nm"
    and m: "env_malloc env (rg_mallocs r)" and oom: "\<And>z. \<not> alloc (fm_core_ops env) 0 z" and keys: "0 < ci_keys ci"
  shows "fm_create env nm ci pin r = None"
proof (rule create_lookup_eq [OF ok, of nm "ci_internal_table ci"], goal_cases)
  case (1 f r1)
  have "f = None" using 1(9) nm by blast
  moreover have "my_malloc env r1 = (True, r1\<lparr>rg_mallocs := rg_mallocs r1 + 1, rg_live := rg_live r1 + 1\<rparr>)"
    using m 1(7) by (simp add: my_malloc_def)
  ultimately show ?case using 1(1) new_share_no_chunks [OF oom keys, where nm = nm]
    by (simp add: fm_create_unfold create_err_def freeable_def Let_def)
qed

text \<open>
  C25: Dropping an open table keeps it alive for its handles. The drop marks the share and touches nothing else. From then
  on, in every state that any calls of any sessions lead to, the share exists and is listed exactly as long as it has a
  handle or a pin: it is freed by the call that takes the last one away, neither before nor later, and its address is never
  used again.
\<close>

theorem drop_frees_at_last_close:
  assumes al: "\<forall>n < 2. \<forall>z. alloc (fm_core_ops env) n z" and ok: "reg_ok r pins"
    and h: "rg_infos r h = Some info" "rg_shares r (inf_s info) = Some sh" "\<not> sh_internal sh"
  shows "\<exists>r1. fm_drop_table r h = Some r1 \<and> rg_shares r1 = (rg_shares r)(inf_s info \<mapsto> sh\<lparr>sh_delete_on_close := True\<rparr>)
    \<and> rg_infos r1 = rg_infos r
    \<and> (\<forall>r2 pins2. (reg_step env)\<^sup>*\<^sup>* (r1, pins) (r2, pins2) \<longrightarrow>
         (rg_shares r2 (inf_s info) \<noteq> None \<longleftrightarrow> handles r2 (inf_s info) \<noteq> {} \<or> pins2 (inf_s info) \<noteq> 0)
         \<and> (inf_s info \<in> set (fm_share_list r2) \<longleftrightarrow> rg_shares r2 (inf_s info) \<noteq> None))"
proof -
  let ?i = "inf_s info"
  obtain r1 where r1: "fm_drop_table r h = Some r1" "reg_ok r1 pins" "rg_infos r1 = rg_infos r"
    "rg_shares r1 = (rg_shares r)(?i \<mapsto> sh\<lparr>sh_delete_on_close := True\<rparr>)" using fm_drop_table_eq [OF ok h(1,2)] by blast
  have "?i < rg_next r1" by (rule reg_invD(3) [of "{}" r1 pins ?i "sh\<lparr>sh_delete_on_close := True\<rparr>"]) (use r1 in \<open>simp_all add: reg_ok_def\<close>)
  then have m: "\<not> sh_internal s \<and> sh_delete_on_close s" if "marks_kept r1 r2" "rg_shares r2 ?i = Some s" for r2 s
  proof -
    from that \<open>?i < rg_next r1\<close> obtain s1 where "rg_shares r1 ?i = Some s1" "sh_internal s = sh_internal s1"
      "sh_delete_on_close s1 \<longrightarrow> sh_delete_on_close s" unfolding marks_kept_def by (metis not_less)
    then show ?thesis using h(3) r1(4) by auto
  qed
  have "(rg_shares r2 ?i \<noteq> None \<longleftrightarrow> handles r2 ?i \<noteq> {} \<or> pins2 ?i \<noteq> 0) \<and> (?i \<in> set (fm_share_list r2) \<longleftrightarrow> rg_shares r2 ?i \<noteq> None)"
    if run: "(reg_step env)\<^sup>*\<^sup>* (r1, pins) (r2, pins2)" for r2 pins2
  proof -
    have k: "marks_kept r1 r2" "reg_ok r2 pins2" using reg_steps_marks [OF run] reg_steps_ok [OF al run] r1(2) by simp_all
    show ?thesis using marked_share_lives [OF k(2) m [OF k(1)]] by blast
  qed
  with r1 show ?thesis by blast
qed

section \<open>A registry with one open table\<close>

lemma demo_create:
  obtains ci r0 i r where "fm_prepare_create_info demo_env demo_TABLE False empty_registry = Some (HA_OK, Some ci, r0)"
    "fm_create demo_env ''t'' ci False empty_registry = Some (HA_OK, Some i, True, r)" "reg_ok r (\<lambda>_. 0)" "rg_infos r = Map.empty"
    "rg_shares r i = Some ((new_share demo_env ''t'' ci)\<lparr>sh_open_count := 0\<rparr>)" "\<not> ci_internal_table ci"
proof -
  have "table_supported demo_TABLE" by (simp add: table_supported_def demo_TABLE_def)
  moreover have "env_malloc demo_env (rg_mallocs empty_registry)" by (simp add: demo_env_def)
  ultimately obtain ci r0 where p: "fm_prepare_create_info demo_env demo_TABLE False empty_registry = Some (HA_OK, Some ci, r0)"
    "ci_max_records ci = estimate_max_records demo_TABLE (max (max_heap_table_size demo_env) 8)" "\<not> ci_internal_table ci"
    by (rule fm_prepare_create_info_supported [of _ _ _ False]) (rule that, auto)
  have al: "alloc (fm_core_ops demo_env) n z" "env_malloc demo_env n" for n z by (simp_all add: demo_env_def)
  have "ci_max_records ci \<in> {1, 2}" using estimate_bounds [of demo_TABLE "max (max_heap_table_size demo_env) 8"] p(2) by (auto simp: demo_TABLE_def)
  then have c: "has_chunks (sh_core (new_share demo_env ''t'' ci))"
    using al by (auto simp: new_share_def fm_core_init_share_def zero_share_def core_alloc_def Let_def init_keys_eq u32_of_def)
  have al2: "\<forall>n < 2. \<forall>z. alloc (fm_core_ops demo_env) n z" using al by simp
  show thesis
  proof (rule fm_create_fresh [OF empty_registry_ok al2 al(2) c, where pin = False], goal_cases)
    case (2 i sh r)
    then show thesis using p by (intro that [of ci r0 i r]) (simp_all add: empty_registry_def fun_upd_idem)
  qed (simp add: empty_registry_def)
qed

lemma fm_open_found:
  assumes ok: "reg_ok r pins" and m: "\<And>n. env_malloc env n" and i: "rg_shares r i = Some sh" "\<not> sh_internal sh" "sh_name sh = nm"
  shows "\<exists>h r'. fm_open env nm md r = Some (Some h, r')"
proof -
  let ?r0 = "r\<lparr>THR_LOCK_fastmem := True\<rparr>"
  have inv: "reg_inv {} ?r0 pins" and lk: "mysql_mutex_lock r = Some ?r0" using ok by (simp_all add: reg_ok_def mysql_mutex_lock_def)
  from inv show ?thesis
  proof (cases rule: find_named_share_cases [where nm = nm])
    case none
    then show ?thesis using i by simp
  next
    case (found j s)
    then show ?thesis using m lk
      by (simp add: fm_open_def fm_open_from_share_locked_def my_malloc_def list_info_def put_share_def put_info_def Let_def)
  qed
qed

lemma demo_open:
  obtains h info sh r where "rg_infos r h = Some info" "rg_shares r (inf_s info) = Some sh" "\<not> sh_internal sh" "reg_ok r (\<lambda>_. 0)" "handles r (inf_s info) = {h}"
proof (rule demo_create, goal_cases)
  case (1 ci r0 i r)
  have m: "env_malloc demo_env n" for n by (simp add: demo_env_def)
  let ?sh = "(new_share demo_env ''t'' ci)\<lparr>sh_open_count := 0\<rparr>"
  have "\<not> sh_internal ?sh" "sh_name ?sh = ''t''" using 1(7) by simp_all
  from fm_open_found [OF 1(4) m 1(6) this, of 0] obtain h r' where o: "fm_open demo_env ''t'' 0 r = Some (Some h, r')" by blast
  then obtain info j sh where j: "reg_ok r' (\<lambda>_. 0)" "rg_infos r' = (rg_infos r)(h \<mapsto> info)" "inf_s info = j" "rg_shares r j = Some sh" "\<not> sh_internal sh"
    "rg_shares r' = (rg_shares r)(j \<mapsto> sh\<lparr>sh_open_count := sh_open_count sh + 1, sh_open_list := h # sh_open_list sh\<rparr>)"
    using fm_open_eq [OF 1(4), of demo_env "''t''" 0] by auto
  have "handles r' j = {h}" using j(2,3) 1(5) by (auto simp: handles_def)
  then show thesis using j
    by (intro 1(1) [of r' h info "sh\<lparr>sh_open_count := sh_open_count sh + 1, sh_open_list := h # sh_open_list sh\<rparr>"]) simp_all
qed

theorem registry_consistent_witness:
  "\<exists>r i. (reg_step demo_env)\<^sup>*\<^sup>* (empty_registry, \<lambda>_. 0) (r, \<lambda>_. 0) \<and> rg_shares r i \<noteq> None \<and> \<not> THR_LOCK_fastmem r \<and> i \<in> set (fm_share_list r)"
proof (rule demo_create, goal_cases)
  case (1 ci r0 i r)
  have "reg_step demo_env (empty_registry, \<lambda>_. 0) (r, (\<lambda>_. 0)(i := (\<lambda>_. 0) i + (if ci_internal_table ci \<or> False then 1 else 0)))"
    by (rule reg_step.create [OF 1(2)])
  then have s: "(reg_step demo_env)\<^sup>*\<^sup>* (empty_registry, \<lambda>_. 0) (r, \<lambda>_. 0)" using 1(6) by (simp add: fun_upd_idem r_into_rtranclp)
  have "\<forall>n < 2. \<forall>z. alloc (fm_core_ops demo_env) n z" by (simp add: demo_env_def)
  note w = registry_consistent [OF this s]
  have "\<not> sh_internal ((new_share demo_env ''t'' ci)\<lparr>sh_open_count := 0\<rparr>)" using 1(6) by simp
  then show ?case using w s 1(5) by blast
qed

theorem registry_calls_return_witness:
  "\<exists>r h info. rg_infos r h = Some info \<and> reg_ok r (\<lambda>_. 0) \<and> fm_close r h \<noteq> None"
proof (rule demo_open, goal_cases)
  case (1 h info sh r)
  have al: "\<forall>n < 2. \<forall>z. alloc (fm_core_ops demo_env) n z" by (simp add: demo_env_def)
  from registry_calls_return [OF al 1(4)] 1(1,4) show ?case by blast
qed

theorem create_without_memory_undefined_witness:
  "\<exists>env ci. (\<forall>z. \<not> alloc (fm_core_ops env) 0 z) \<and> fm_create env ''t'' ci False empty_registry = None"
proof -
  let ?env = "demo_env\<lparr>fm_core_ops := \<lparr>alloc = \<lambda>_ _. False\<rparr>\<rparr>"
  obtain ci r where "fm_prepare_create_info demo_env demo_TABLE False empty_registry = Some (HA_OK, Some ci, r)" "length (ci_keydef ci) = 1"
    by (rule demo_prepare)
  then have k: "0 < ci_keys ci" using fm_prepare_create_info_OK(1,2) by fastforce
  have "fm_create ?env ''t'' ci False empty_registry = None"
    by (rule create_without_memory_undefined [OF empty_registry_ok _ _ _ k]) (simp_all add: empty_registry_def demo_env_def)
  moreover have "\<forall>z. \<not> alloc (fm_core_ops ?env) 0 z" by simp
  ultimately show ?thesis by blast
qed

theorem drop_frees_at_last_close_witness:
  "\<exists>r h info r1 r2. rg_infos r h = Some info \<and> rg_shares r (inf_s info) \<noteq> None \<and> fm_drop_table r h = Some r1
     \<and> rg_shares r1 (inf_s info) \<noteq> None \<and> fm_close r1 h = Some r2 \<and> rg_shares r2 (inf_s info) = None"
proof (rule demo_open, goal_cases)
  case (1 h info sh r)
  have al: "\<forall>n < 2. \<forall>z. alloc (fm_core_ops demo_env) n z" by (simp add: demo_env_def)
  let ?i = "inf_s info" and ?sh = "sh\<lparr>sh_delete_on_close := True\<rparr>"
  from drop_frees_at_last_close [OF al 1(4,1-3)] obtain r1 where r1: "fm_drop_table r h = Some r1"
    "rg_shares r1 = (rg_shares r)(?i \<mapsto> ?sh)" "rg_infos r1 = rg_infos r"
    "\<And>r2 pins2. (reg_step demo_env)\<^sup>*\<^sup>* (r1, \<lambda>_. 0) (r2, pins2) \<Longrightarrow> rg_shares r2 ?i \<noteq> None \<longleftrightarrow> handles r2 ?i \<noteq> {} \<or> pins2 ?i \<noteq> 0"
    by auto
  have "reg_ok r1 (\<lambda>_. 0)" using fm_drop_table_eq [OF 1(4,1,2)] r1(1) by auto
  moreover have h1: "rg_infos r1 h = Some info" "rg_shares r1 ?i = Some ?sh" using 1 r1 by simp_all
  ultimately obtain r2 where r2: "fm_close r1 h = Some r2" "rg_infos r2 = (rg_infos r1)(h := None)" using fm_close_eq by blast
  have "(reg_step demo_env)\<^sup>*\<^sup>* (r1, \<lambda>_. 0) (r2, \<lambda>_. 0)" using reg_step.close [OF _ r2(1)] h1(1) by blast
  moreover have "handles r2 ?i = {}" using 1(5) r1(3) r2(2) by (auto simp: handles_def)
  ultimately have "rg_shares r2 ?i = None" using r1(4) by blast
  with 1 r1 h1 r2 show ?case by (intro exI [of _ r] exI [of _ h] exI [of _ info] exI [of _ r1] exI [of _ r2]) simp
qed

end
