(* ===== verification/Ha_Open.thy ===== *)
theory Ha_Open
  imports Ha_Session Fm_Registry
begin

text \<open>
  From the registry to a session: what \<open>ha_fastmem::open\<close> (\<open>src/ha_fastmem.cc\<close>) leaves behind. The call
  runs through three components (the preparation of the keys, the registry of shares, the core's new
  table), and its result is the state a session of \<open>Ha_Session\<close> starts from.
\<close>

section \<open>A new table is ready for use\<close>

text \<open>The keys of a \<open>TABLE\<close> are prepared in a block that lives until the share has its own copy.\<close>

definition shift_live :: "int \<Rightarrow> fm_registry \<Rightarrow> fm_registry" where
  "shift_live k r = r\<lparr>rg_live := rg_live r + k\<rparr>"

lemma shift_live_fields [simp]:
  "rg_shares (shift_live k r) = rg_shares r" "fm_share_list (shift_live k r) = fm_share_list r" "rg_next (shift_live k r) = rg_next r"
  "THR_LOCK_fastmem (shift_live k r) = THR_LOCK_fastmem r" "my_free (shift_live k r) = shift_live k (my_free r)"
  "mysql_mutex_unlock (shift_live k r) = shift_live k (mysql_mutex_unlock r)"
  "mysql_mutex_lock (shift_live k r) = map_option (shift_live k) (mysql_mutex_lock r)"
  "put_share (shift_live k r) i sh = shift_live k (put_share r i sh)" "(shift_live k r)\<lparr>rg_next := n\<rparr> = shift_live k (r\<lparr>rg_next := n\<rparr>)"
  "fm_share_list_add (shift_live k r) i = shift_live k (fm_share_list_add r i)"
  "my_malloc env (shift_live k r) = apsnd (shift_live k) (my_malloc env r)"
  by (simp_all add: shift_live_def my_free_def mysql_mutex_unlock_def mysql_mutex_lock_def put_share_def fm_share_list_add_def my_malloc_def)

lemma find_named_share_shift [simp]: "fm_find_named_share (shift_live k r) nm = fm_find_named_share r nm"
proof -
  have "find_share_loop (shift_live k r) nm is = find_share_loop r nm is" for "is" by (induction "is") (auto split: bind_split)
  then show ?thesis by (simp add: fm_find_named_share_def)
qed

lemma fm_free_shift [simp]: "fm_free (shift_live k r) i = map_option (shift_live k) (fm_free r i)"
  by (auto simp: fm_free_def Let_def my_free_def shift_live_def fm_share_list_remove_def split: option.split bind_splits)

lemma create_lookup_shift: "create_lookup nm internal (shift_live k r) = map_option (apsnd (shift_live k)) (create_lookup nm internal r)"
  by (auto simp: create_lookup_def split: option.split bind_splits)

lemma create_err_shift [simp]:
  "create_err (shift_live k r) internal sh = map_option (\<lambda>(rc, a, c, r'). (rc, a, c, shift_live k r')) (create_err r internal sh)"
  by (cases sh) (auto simp: create_err_def Let_def split: bind_splits)

lemma fm_create_shift:
  "fm_create env nm ci pin (shift_live k r) = map_option (\<lambda>(rc, a, c, r'). (rc, a, c, shift_live k r')) (fm_create env nm ci pin r)"
  unfolding fm_create_unfold create_lookup_shift
  by (cases "create_lookup nm (ci_internal_table ci) r")
    (auto simp: Let_def case_prod_unfold split: option.split bind_splits)

text \<open>The auto-increment fields play no part in the invariant of the rows.\<close>

lemma auto_key_frame [simp]:
  "rows (s\<lparr>auto_key := a\<rparr>) = rows s" "held (s\<lparr>auto_key := a\<rparr>) = held s"
  "rows (s\<lparr>auto_key_type := t\<rparr>) = rows s" "held (s\<lparr>auto_key_type := t\<rparr>) = held s"
  by (simp_all add: rows_def active_def held_def fun_eq_iff)

lemma table_auto_key [simp]: "table (s\<lparr>auto_key := a\<rparr>) = table s" "table (s\<lparr>auto_key_type := t\<rparr>) = table s"
proof -
  have "index_of s' = index_of s" "uniq s' = uniq s" "counted s' = counted s" "layout s' = layout s" "steady s' = steady s"
    "free_list s' = free_list s" "indexed s' = indexed s" if "s' = s\<lparr>auto_key := a\<rparr> \<or> s' = s\<lparr>auto_key_type := t\<rparr>" for s'
    using that by (elim disjE; simp add: index_of_def uniq_def counted_def layout_def steady_def keys_ready_def locks_free_def quiet_def
        free_list_def indexed_def chains_def total_slots_def active_def rows_def fun_eq_iff)+
  then show "table (s\<lparr>auto_key := a\<rparr>) = table s" "table (s\<lparr>auto_key_type := t\<rparr>) = table s"
    by (simp_all add: table_def body_def active_def rows_def)
qed

lemma auto_key_of_cases:
  "fst (auto_key_of t) \<noteq> 0 \<Longrightarrow> fst (auto_key_of t) - 1 < length (t_key_info t) \<and> k_parts (t_key_info t ! (fst (auto_key_of t) - 1)) \<noteq> []"
  by (auto simp: auto_key_of_def Let_def split: if_splits)

lemma new_share_ready:
  assumes p: "fm_prepare_create_info env tbl internal r = Some (HA_OK, Some ci, r')" and parts: "\<forall>k \<in> set (t_key_info tbl). key_parts_ok env k"
    and n: "length (t_key_info tbl) \<le> FM_MAX_CHANGED_KEYS" and al: "\<And>n z. alloc (fm_core_ops env) n z"
    and m: "0 < ci_max_records ci" "ci_max_records ci \<le> 2 ^ 31 - FM_CHUNK_SIZE" and ak: "ci_auto_key ci = fst (auto_key_of tbl)"
    and core: "core = fm_key_ops_init (env_server env) (ci_keydef ci) (sh_core (new_share env nm ci))"
    and sh: "sh_core sh = core" "sh_keydef sh = ci_keydef ci"
  shows "share_ok sh" "rows core = Map.empty" "\<not> held core i" "has_chunks (sh_core (new_share env nm ci))"
proof -
  note c = fm_prepare_create_info_OK [OF p]
  let ?kd = "map (\<lambda>kd. (fm_key_ops (env_server env) kd, HA_NOSAME \<in> kd_flag kd)) (ci_keydef ci)"
  let ?nb = "of_nat (bucket_loop (ci_max_records ci) 1024) :: u32"
  let ?core = "wire_keys (fm_core_init_share (fm_core_ops env) (ci_reclength ci) (length ?kd) (ci_max_records ci) ?nb) ?kd"
  have contract: "contract_ok (fm_key_ops (env_server env) kd)" if hkd: "kd \<in> set (ci_keydef ci)" for kd
  proof -
    obtain k where k: "k < length (t_key_info tbl)" "kd = ci_keydef ci ! k" using hkd c(1) by (metis in_set_conv_nth)
    have "key_parts_ok env (t_key_info tbl ! k)" using parts k(1) by simp
    from prepared_seg_sound [OF this, of kd] c(4) [OF k(1), folded k(2)] show ?thesis
      by (intro sound_keydef.contract_ok_keydef sound_keydef.intro) auto
  qed
  have kl: "length ?kd \<le> FM_MAX_CHANGED_KEYS" "\<forall>x \<in> set ?kd. contract_ok (fst x)" using n c(1) contract by auto
  note it = init_table [OF al m kl refl, of "ci_reclength ci" ?nb]
  have t: "table ?core" "rows ?core = Map.empty" "\<And>i. \<not> held ?core i" by (rule it)+
  have mr: "u32_of (ci_max_records ci) = ci_max_records ci" using m(2) by (simp add: u32_of_def)
  have e: "core = ?core\<lparr>auto_key := ci_auto_key ci, auto_key_type := ci_auto_key_type ci, auto_inc := ci_auto_increment ci\<rparr>"
    using c(1,2) by (simp add: core fm_key_ops_init_def new_share_def Let_def wire_keys_def mr)
  show "rows core = Map.empty" "\<not> held core i" using t by (simp_all add: e)
  have k: "keys core = length (ci_keydef ci)" using init_share_eq(2) [OF al m refl, of "ci_reclength ci" "length ?kd" ?nb] by (simp add: e wire_keys_def)
  have "auto_key core \<noteq> 0 \<longrightarrow> auto_key core - 1 < length (ci_keydef ci) \<and> kd_seg (ci_keydef ci ! (auto_key core - 1)) \<noteq> []"
    using auto_key_of_cases [of tbl] c(1,4) ak by (auto simp: e)
  then show "share_ok sh" using t(1) k by (simp add: share_ok_def sh e)
  show "has_chunks (sh_core (new_share env nm ci))" using init_share_shape(4) [OF refl] al by (simp add: new_share_def Let_def)
qed

lemma fresh_pins: "reg_ok r pins \<Longrightarrow> rg_shares r i = None \<Longrightarrow> pins i = 0"
  unfolding reg_ok_def reg_inv_def by (metis gr0I)

lemma open_finish_eq:
  assumes ok: "reg_ok r pins" and h: "rg_infos r h = Some info" "rg_shares r (inf_s info) = Some sh"
    and t: "sh' = sh\<lparr>sh_core := fm_key_ops_init (env_server env) (sh_keydef sh) (sh_core sh)\<rparr>" "table (sh_core sh')"
  shows "open_finish env ha (Some h) r = Some (True, ha\<lparr>ha_file := Some h\<rparr>, put_share r (inf_s info) sh')"
    "reg_ok (put_share r (inf_s info) sh') pins"
proof -
  show "open_finish env ha (Some h) r = Some (True, ha\<lparr>ha_file := Some h\<rparr>, put_share r (inf_s info) sh')"
    using h by (simp add: open_finish_def t(1) Let_def)
  have inv: "reg_inv {} r pins" "\<not> THR_LOCK_fastmem r" using ok by (simp_all add: reg_ok_def)
  have c: "counted_share r pins (inf_s info) sh" "owned_share r pins (inf_s info) sh" using reg_invD(10,11) [OF inv(1) h(2)] by simp_all
  have "reg_inv {} (put_share r (inf_s info) sh') (pins(inf_s info := pins (inf_s info)))"
    by (rule reg_inv_put_share [OF inv(1) h(2)])
      (use c table_freeable [OF t(2)] in \<open>auto simp: t(1) counted_share_def owned_share_def split: if_splits\<close>)
  then show "reg_ok (put_share r (inf_s info) sh') pins" using inv(2) by (simp add: reg_ok_def put_share_def)
qed

lemma new_share_pin [simp]: "new_share env nm (ci\<lparr>ci_pin_share := p\<rparr>) = new_share env nm ci"
  by (simp add: new_share_def)

lemma shift_live_malloc: "r\<lparr>rg_mallocs := n, rg_live := rg_live r + 1\<rparr> = shift_live 1 (r\<lparr>rg_mallocs := n\<rparr>)"
  by (simp add: shift_live_def)

lemma my_free_shift: "shift_live 1 (my_free r) = r"
  by (simp add: my_free_def shift_live_def)

lemma open_new_ready:
  assumes sup: "table_supported tbl" and parts: "\<forall>k \<in> set (t_key_info tbl). key_parts_ok env k"
    and n: "length (t_key_info tbl) \<le> FM_MAX_CHANGED_KEYS"
    and mr: "estimate_max_records tbl (max (max_heap_table_size env) 8) \<le> 2 ^ 31 - FM_CHUNK_SIZE"
    and al: "\<And>n z. alloc (fm_core_ops env) n z" and m: "\<And>n. env_malloc env n"
    and ok: "reg_ok r pins" and nm: "\<forall>i sh. rg_shares r i = Some sh \<longrightarrow> sh_internal sh \<or> sh_name sh \<noteq> nm"
  obtains h i sh info r' where
    "open_new env tbl nm md False ha r = Some (True, ha\<lparr>internal_share := i, implicit_emptied := True, ha_file := Some h\<rparr>, r')"
    "rg_infos r' h = Some info" "inf_s info = i" "current_slot info = -1" "lastinx info = -1" "rg_shares r' i = Some sh"
    "share_ok sh" "rows (sh_core sh) = Map.empty" "\<forall>j. \<not> held (sh_core sh) j" "reg_ok r' pins" "rg_shares r i = None"
proof -
  obtain ci where prep: "fm_prepare_create_info env tbl False r = Some (HA_OK, Some ci, r\<lparr>rg_mallocs := rg_mallocs r + 1, rg_live := rg_live r + 1\<rparr>)"
    and ci: "ci_max_records ci = estimate_max_records tbl (max (max_heap_table_size env) 8)" "ci_internal_table ci = False"
      "ci_auto_key ci = fst (auto_key_of tbl)"
    by (rule fm_prepare_create_info_supported [OF sup m])
  let ?ci = "ci\<lparr>ci_pin_share := True\<rparr>" and ?r1 = "r\<lparr>rg_mallocs := rg_mallocs r + 1\<rparr>" and ?new = "new_share env nm ci"
  let ?core = "fm_key_ops_init (env_server env) (ci_keydef ci) (sh_core ?new)"
  have mrpos: "0 < ci_max_records ci" by (simp add: ci estimate_max_records_def Let_def)
  have mrle: "ci_max_records ci \<le> 2 ^ 31 - FM_CHUNK_SIZE" using mr ci by simp
  note ready = new_share_ready [OF prep parts n al mrpos mrle ci(3) refl]
  have c: "has_chunks (sh_core (new_share env nm ?ci))" using ready(4) [of "?new\<lparr>sh_core := ?core\<rparr>" nm] by (simp add: new_share_def Let_def)
  have ok1: "reg_ok ?r1 pins" using ok by (simp add: reg_ok_def)
  obtain i sh r2 where cr: "fm_create env nm ?ci True ?r1 = Some (HA_OK, Some i, True, r2)" "reg_ok r2 (pins(i := 1))"
      "rg_shares ?r1 i = None" "rg_shares r2 i = Some sh" "sh = ?new\<lparr>sh_open_count := 1\<rparr>"
    by (rule fm_create_fresh [OF ok1 _ m c, of True]) (use nm ci(2) al in auto)
  have p0: "pins i = 0" using fresh_pins [OF ok1 cr(3)] .
  have pi: "0 < (pins(i := 1)) i" by simp
  have "\<not> sh_internal sh" using ci(2) by (simp add: cr(5))
  from fm_open_pinned_eq [OF cr(2) pi cr(4) this, of env md] obtain a r3 where
    op: "fm_open_from_share_and_register env i md r2 = Some (a, r3)" "reg_ok r3 (if a = None then pins(i := 1) else (pins(i := 1))(i := (pins(i := 1)) i - 1))"
      "\<forall>h. a = Some h \<longrightarrow> (\<exists>info. rg_infos r3 = (rg_infos r2)(h \<mapsto> info) \<and> info = (fresh_info env i sh md)\<lparr>open_listed := True\<rparr>
          \<and> rg_shares r3 = (rg_shares r2)(i \<mapsto> sh\<lparr>sh_open_list := h # sh_open_list sh\<rparr>))" by blast
  have "a \<noteq> None"
    using op(1) cr(4) m by (auto simp: fm_open_from_share_and_register_def fm_open_from_share_locked_def my_malloc_def Let_def bind_eq_Some_conv)
  then obtain h where h: "a = Some h" by blast
  define info where "info = (fresh_info env i sh md)\<lparr>open_listed := True\<rparr>"
  define sh1 where "sh1 = sh\<lparr>sh_open_list := h # sh_open_list sh\<rparr>"
  define sh2 where "sh2 = sh1\<lparr>sh_core := fm_key_ops_init (env_server env) (sh_keydef sh1) (sh_core sh1)\<rparr>"
  have r3: "reg_ok r3 pins" "rg_infos r3 h = Some info" "rg_shares r3 (inf_s info) = Some sh1"
    using op(2,3) h p0 by (auto simp: info_def sh1_def fresh_info_def fun_upd_idem)
  have sh2: "sh_core sh2 = ?core" "sh_keydef sh2 = ci_keydef ci"
    by (simp_all add: sh2_def sh1_def cr(5) new_share_def Let_def)
  note rd = ready(1-3) [OF sh2]
  have "table (sh_core sh2)" using rd(1) by (simp add: share_ok_def)
  note fin = open_finish_eq [OF r3 sh2_def this]
  have run: "open_new env tbl nm md False ha r = open_finish env (ha\<lparr>internal_share := i, implicit_emptied := True\<rparr>) (Some h) r3"
    using prep cr(1) op(1) h unfolding shift_live_malloc
    by (simp add: open_new_def fm_create_shift my_free_shift Let_def)
  show thesis
    by (rule that [of h i "put_share r3 (inf_s info) sh2" info sh2])
      (use fin rd sh2 r3 cr(3) in \<open>simp_all add: run info_def fresh_info_def put_share_def\<close>)
qed

lemma fm_open_unknown:
  assumes ok: "reg_ok r pins" and nm: "\<forall>i sh. rg_shares r i = Some sh \<longrightarrow> sh_internal sh \<or> sh_name sh \<noteq> nm"
  shows "fm_open env nm md r = Some (None, r\<lparr>my_errno := ENOENT\<rparr>)"
proof -
  have lk: "\<not> THR_LOCK_fastmem r" "reg_inv {} (r\<lparr>THR_LOCK_fastmem := True\<rparr>) pins" using ok by (simp_all add: reg_ok_def)
  from lk(2) show ?thesis
  proof (cases rule: find_named_share_cases [where nm = nm])
    case none
    then show ?thesis using lk(1) by (cases r) (simp add: fm_open_def mysql_mutex_lock_def mysql_mutex_unlock_def)
  qed (use nm in auto)
qed

text \<open>
  Wiring the callbacks touches neither the rows nor the locks of the slots, and doing it twice is doing it once.
\<close>

lemma fm_key_ops_init_frame [simp]:
  "rows (fm_key_ops_init sv kds core) = rows core" "gen_of (fm_key_ops_init sv kds core) = gen_of core"
  "held (fm_key_ops_init sv kds core) = held core" "records (fm_key_ops_init sv kds core) = records core"
  "view (fm_key_ops_init sv kds core) = view core"
  by (simp_all add: fm_key_ops_init_def wire_keys_def rows_def gen_of_def active_def held_def view_def fun_eq_iff)

lemma fm_key_ops_init_idem: "fm_key_ops_init sv kds (fm_key_ops_init sv kds core) = fm_key_ops_init sv kds core"
  by (rule FM_SHARE_CORE.equality) (simp_all add: fm_key_ops_init_def wire_keys_def list_eq_iff_nth_eq)

text \<open>Opening a table by the name of a share that is in the list.\<close>

definition joined :: "server \<Rightarrow> FM_SHARE \<Rightarrow> address \<Rightarrow> FM_SHARE" where
  "joined sv sh h = sh\<lparr>sh_open_count := sh_open_count sh + 1, sh_open_list := h # sh_open_list sh,
     sh_core := fm_key_ops_init sv (sh_keydef sh) (sh_core sh)\<rparr>"

lemma open_joins:
  assumes ok: "reg_ok r pins" and m: "\<And>n. env_malloc env n"
    and i: "rg_shares r i = Some sh" "\<not> sh_internal sh" "sh_name sh = nm"
    and one: "\<forall>j sh'. rg_shares r j = Some sh' \<longrightarrow> \<not> sh_internal sh' \<longrightarrow> sh_name sh' = nm \<longrightarrow> j = i"
    and t: "table (fm_key_ops_init (env_server env) (sh_keydef sh) (sh_core sh))"
  shows "\<exists>h info r'. ha_open env tbl nm md False ha r = Some (True, ha\<lparr>internal_table := False, ha_file := Some h\<rparr>, r')
    \<and> rg_infos r h = None \<and> rg_infos r' = (rg_infos r)(h \<mapsto> info) \<and> inf_s info = i \<and> reg_ok r' pins
    \<and> rg_shares r' = (rg_shares r)(i \<mapsto> joined (env_server env) sh h)"
proof -
  let ?sh = "\<lambda>h. sh\<lparr>sh_open_count := sh_open_count sh + 1, sh_open_list := h # sh_open_list sh\<rparr>"
  from fm_open_found [OF ok m i, of md] obtain h r' where o: "fm_open env nm md r = Some (Some h, r')" by blast
  with fm_open_eq [OF ok, of env nm md] obtain info j sj where j: "rg_infos r' = (rg_infos r)(h \<mapsto> info)" "inf_s info = j"
    "rg_shares r j = Some sj" "\<not> sh_internal sj" "sh_name sj = nm" "reg_ok r' pins" "rg_infos r h = None"
    "rg_shares r' = (rg_shares r)(j \<mapsto> sj\<lparr>sh_open_count := sh_open_count sj + 1, sh_open_list := h # sh_open_list sj\<rparr>)" by auto
  have "j = i" "sj = sh" using one j(3-5) i(1) by auto
  note e = j(6,1,7,2,8) [unfolded this]
  have h: "rg_infos r' h = Some info" "rg_shares r' (inf_s info) = Some (?sh h)" using e by simp_all
  have n: "joined (env_server env) sh h = (?sh h)\<lparr>sh_core := fm_key_ops_init (env_server env) (sh_keydef (?sh h)) (sh_core (?sh h))\<rparr>"
    by (simp add: joined_def)
  note f = open_finish_eq [OF e(1) h n]
  have "table (sh_core (joined (env_server env) sh h))" using t by (simp add: joined_def)
  note f = f [OF this]
  have "rg_shares (put_share r' i (joined (env_server env) sh h)) = (rg_shares r)(i \<mapsto> joined (env_server env) sh h)"
    "rg_infos (put_share r' i (joined (env_server env) sh h)) = (rg_infos r)(h \<mapsto> info)"
    using e(5,2) by (simp_all add: put_share_def)
  then show ?thesis using o f e(3,4)
    by (intro exI [of _ h] exI [of _ info] exI [of _ "put_share r' i (joined (env_server env) sh h)"]) (auto simp: ha_open_def Let_def)
qed

text \<open>A share whose callbacks are wired already only counts and lists the handle.\<close>

lemma joined_wired:
  "fm_key_ops_init sv (sh_keydef sh) (sh_core sh) = sh_core sh
    \<Longrightarrow> joined sv sh h = sh\<lparr>sh_open_count := sh_open_count sh + 1, sh_open_list := h # sh_open_list sh\<rparr>"
  by (simp add: joined_def)

section \<open>An example registry\<close>

text \<open>A registry with one table as \<open>fm_create\<close> leaves it: not yet opened, its callbacks not yet wired.\<close>

definition demo_FM_SHARE :: FM_SHARE where
  "demo_FM_SHARE = \<lparr>sh_name = ''t'', sh_core = fm_core_init_share \<lparr>alloc = \<lambda>_ _. True\<rparr> 2 1 2 16, sh_keydef = [binary_keydef binary_charset 0 1],
     sh_max_key_length = 1, sh_open_count = 0, sh_delete_on_close = False, sh_internal = False, sh_create_time = 0, sh_open_list = []\<rparr>"

definition demo_registry :: fm_registry where
  "demo_registry = \<lparr>rg_shares = [0 \<mapsto> demo_FM_SHARE], rg_infos = Map.empty, fm_share_list = [0], THR_LOCK_fastmem = False,
     my_errno = HA_OK, rg_mallocs = 0, rg_live = 2, rg_next = 1\<rparr>"

lemma demo_FM_SHARE_table: "table (fm_key_ops_init (env_server demo_env) (sh_keydef demo_FM_SHARE) (sh_core demo_FM_SHARE))"
  using init_table(1) [of "\<lparr>alloc = \<lambda>_ _. True\<rparr>" 2 "[(fm_key_ops little_server (binary_keydef binary_charset 0 1), HA_NOSAME \<in> kd_flag (binary_keydef binary_charset 0 1))]"
      "fm_key_ops_init little_server [binary_keydef binary_charset 0 1] (sh_core demo_FM_SHARE)" 2 16] fixed_key.contract_ok_keydef
  by (simp add: demo_FM_SHARE_def demo_env_def fm_key_ops_init_def FM_MAX_CHANGED_KEYS_def)

lemma demo_registry_ok: "reg_ok demo_registry (\<lambda>_. 0)"
proof -
  have "freeable (sh_core demo_FM_SHARE)" by (rule freeableI) (use init_share_shape [OF refl] in \<open>simp_all add: demo_FM_SHARE_def\<close>)
  then show ?thesis
    by (simp add: reg_ok_def reg_inv_def demo_registry_def counted_share_def owned_share_def handles_def listed_def)
      (simp add: demo_FM_SHARE_def)
qed

end
