(* ===== verification/Ha_Plugin.thy ===== *)
theory Ha_Plugin
  imports Ha_Open
begin

text \<open>
  What the engine tells the server and how the server makes handlers (\<open>src/ha_fastmem.cc\<close>): \<open>fastmem_init\<close> and the
  \<open>handlerton\<close> it fills, \<open>fastmem_create_handler\<close>, \<open>ha_fastmem::clone\<close>, and the cost model of the optimizer.

  \<open>get_new_handler\<close> and \<open>handler::ha_open\<close> belong to the server and are parameters: the first makes a handler by the
  \<open>create\<close> of the \<open>handlerton\<close>, the second runs the \<open>open\<close> of the handler and does its own bookkeeping after it. Costs
  are doubles in the code and real numbers here, so rounding is left out; the arithmetic on row counts before the
  conversion keeps its 64 bits.
\<close>

section \<open>Costs\<close>

definition HEAP_ROW_NEXT_FIND_COST :: real where
  "HEAP_ROW_NEXT_FIND_COST = 80166 / 10 ^ 10"

definition HEAP_LOOKUP_COST :: real where
  "HEAP_LOOKUP_COST = 16097 / 10 ^ 8"

record OPTIMIZER_COSTS =
  disk_read_cost :: real
  disk_read_ratio :: real
  key_next_find_cost :: real
  key_copy_cost :: real
  row_copy_cost :: real
  row_lookup_cost :: real
  row_next_find_cost :: real
  key_lookup_cost :: real
  index_block_copy_cost :: real

definition fastmem_update_optimizer_costs :: "OPTIMIZER_COSTS \<Rightarrow> OPTIMIZER_COSTS" where
  "fastmem_update_optimizer_costs costs = costs\<lparr>disk_read_cost := 0, disk_read_ratio := 0, key_next_find_cost := 0, key_copy_cost := 0,
     row_copy_cost := 2334 / 10 ^ 9, row_lookup_cost := 0, row_next_find_cost := HEAP_ROW_NEXT_FIND_COST, key_lookup_cost := 0,
     index_block_copy_cost := 0\<rparr>"

record IO_AND_CPU_COST =
  io :: real
  cpu :: real

definition scan_time :: "ha_stats \<Rightarrow> IO_AND_CPU_COST" where
  "scan_time stats = \<lparr>io = 0, cpu = real_of_int (st_deleted stats) * HEAP_ROW_NEXT_FIND_COST\<rparr>"

definition keyread_time :: "u64 \<Rightarrow> u64 \<Rightarrow> IO_AND_CPU_COST" where
  "keyread_time ranges rws = \<lparr>io = 0, cpu = real (unat ranges) * HEAP_LOOKUP_COST + real (unat (rws - ranges)) * HEAP_ROW_NEXT_FIND_COST\<rparr>"

definition rnd_pos_time :: "u64 \<Rightarrow> IO_AND_CPU_COST" where
  "rnd_pos_time rws = \<lparr>io = 0, cpu = 0\<rparr>"

section \<open>The plugin\<close>

datatype hton_flag = HTON_CAN_RECREATE

record handlerton =
  hton_create :: ha_fastmem
  hton_drop_table :: "fm_registry \<Rightarrow> string \<Rightarrow> (drop_result \<times> fm_registry) option"
  hton_update_optimizer_costs :: "OPTIMIZER_COSTS \<Rightarrow> OPTIMIZER_COSTS"
  hton_flags :: "hton_flag set"

definition fastmem_create_handler :: ha_fastmem where
  "fastmem_create_handler = ha_fastmem_init"

definition fastmem_init :: "handlerton \<Rightarrow> fm_registry \<Rightarrow> handlerton \<times> fm_registry" where
  "fastmem_init p r =
     (p\<lparr>hton_create := fastmem_create_handler, hton_drop_table := fastmem_drop_table,
        hton_update_optimizer_costs := fastmem_update_optimizer_costs, hton_flags := {HTON_CAN_RECREATE}\<rparr>,
      r\<lparr>THR_LOCK_fastmem := False\<rparr>)"

section \<open>Clones\<close>

type_synonym open_call = "ha_fastmem \<Rightarrow> fm_registry \<Rightarrow> (bool \<times> ha_fastmem \<times> fm_registry) option"

text \<open>The calls of the server: a new handler (or none, when memory is short), and the wrapper of \<open>open\<close>.\<close>

record server_calls =
  get_new_handler :: "handlerton \<Rightarrow> ha_fastmem option"
  handler_ha_open :: "open_call \<Rightarrow> open_call"

definition clone :: "server_calls \<Rightarrow> handlerton \<Rightarrow> engine_env \<Rightarrow> TABLE \<Rightarrow> nat \<Rightarrow> ha_fastmem \<Rightarrow> fm_registry
    \<Rightarrow> (ha_fastmem option \<times> fm_registry) option" where
  "clone sc ht env tbl db_stat ha r =
     (case get_new_handler sc ht of
        None \<Rightarrow> Some (None, r)
      | Some new_handler \<Rightarrow> do {
          h \<leftarrow> ha_file ha;
          info \<leftarrow> rg_infos r h;
          sh \<leftarrow> rg_shares r (inf_s info);
          (ok, new1, r1) \<leftarrow> handler_ha_open sc (ha_open env tbl (sh_name sh) db_stat False) new_handler r;
          Some (if ok then Some new1 else None, r1) })"

text \<open>
  What the engine relies on: with memory, a new handler is what \<open>create\<close> makes, and the wrapper returns the result of
  an \<open>open\<close> that succeeds.
\<close>

definition server_ok :: "server_calls \<Rightarrow> bool" where
  "server_ok sc \<longleftrightarrow> (\<forall>ht. get_new_handler sc ht = Some (hton_create ht))
    \<and> (\<forall>op ha r ha' r'. op ha r = Some (True, ha', r') \<longrightarrow> handler_ha_open sc op ha r = Some (True, ha', r'))"

text \<open>A server without failures, and the \<open>handlerton\<close> before the plugin is loaded.\<close>

definition plain_server :: server_calls where
  "plain_server = \<lparr>get_new_handler = \<lambda>ht. Some (hton_create ht), handler_ha_open = \<lambda>op. op\<rparr>"

definition blank_handlerton :: handlerton where
  "blank_handlerton = \<lparr>hton_create = ha_fastmem_init, hton_drop_table = \<lambda>_ _. None, hton_update_optimizer_costs = id, hton_flags = {}\<rparr>"

lemma fastmem_init_create [simp]: "hton_create (fst (fastmem_init p r)) = ha_fastmem_init"
  by (simp add: fastmem_init_def fastmem_create_handler_def)

lemma clone_opens:
  assumes sc: "server_ok sc" and ht: "ht = fst (fastmem_init p0 r0)"
    and h: "ha_file ha = Some h" "rg_infos r h = Some info" "rg_shares r (inf_s info) = Some sh"
    and op: "ha_open env tbl (sh_name sh) md False ha_fastmem_init r = Some (True, ha', r')"
  shows "clone sc ht env tbl md ha r = Some (Some ha', r')"
proof -
  have "handler_ha_open sc (ha_open env tbl (sh_name sh) md False) ha_fastmem_init r = Some (True, ha', r')"
    using sc op by (simp add: server_ok_def)
  then show ?thesis using sc h by (simp add: clone_def ht server_ok_def)
qed

text \<open>
  C27: A clone of a handler on a named table is a second handle on the same share: it counts and lists one handle more,
  its rows, keys and locks are the same, the handle of the original and every other share and handle are untouched, and the
  new handler holds no row lock.
\<close>

theorem clone_joins_share:
  assumes sc: "server_ok sc" and ht: "ht = fst (fastmem_init p0 r0)"
    and ha: "ha_file ha = Some h0" "rg_infos r h0 = Some info0" "inf_s info0 = i"
    and ok: "reg_ok r pins" and m: "\<And>n. env_malloc env n"
    and i: "rg_shares r i = Some sh" "\<not> sh_internal sh"
    and one: "\<forall>j sh'. rg_shares r j = Some sh' \<longrightarrow> \<not> sh_internal sh' \<longrightarrow> sh_name sh' = sh_name sh \<longrightarrow> j = i"
    and t: "table (sh_core sh)" "fm_key_ops_init (env_server env) (sh_keydef sh) (sh_core sh) = sh_core sh"
  shows "\<exists>nh h info r'. clone sc ht env tbl md ha r = Some (Some nh, r') \<and> ha_file nh = Some h \<and> \<not> row_locked nh \<and> \<not> internal_table nh
    \<and> h \<noteq> h0 \<and> rg_infos r' = (rg_infos r)(h \<mapsto> info) \<and> inf_s info = i \<and> reg_ok r' pins
    \<and> rg_shares r' = (rg_shares r)(i \<mapsto> sh\<lparr>sh_open_count := sh_open_count sh + 1, sh_open_list := h # sh_open_list sh\<rparr>)"
proof -
  have w: "table (fm_key_ops_init (env_server env) (sh_keydef sh) (sh_core sh))" using t by simp
  from open_joins [OF ok m i refl one w, of tbl md ha_fastmem_init, unfolded joined_wired [OF t(2)]] obtain h info r' where
    o: "ha_open env tbl (sh_name sh) md False ha_fastmem_init r = Some (True, ha_fastmem_init\<lparr>internal_table := False, ha_file := Some h\<rparr>, r')"
      "rg_infos r h = None" "rg_infos r' = (rg_infos r)(h \<mapsto> info)" "inf_s info = i" "reg_ok r' pins"
      "rg_shares r' = (rg_shares r)(i \<mapsto> sh\<lparr>sh_open_count := sh_open_count sh + 1, sh_open_list := h # sh_open_list sh\<rparr>)" by blast
  have "rg_shares r (inf_s info0) = Some sh" using ha(3) i(1) by simp
  note c = clone_opens [OF sc ht ha(1,2) this o(1)]
  have "h \<noteq> h0" using o(2) ha(2) by auto
  with c o(3-6) show ?thesis
    by (intro exI [of _ "ha_fastmem_init\<lparr>internal_table := False, ha_file := Some h\<rparr>"] exI [of _ h] exI [of _ info] exI [of _ r'])
      (simp add: ha_fastmem_init_def)
qed

theorem clone_joins_share_witness:
  "\<exists>ha h0 r nh h r'. ha_open demo_env demo_TABLE ''t'' 0 False ha_fastmem_init demo_registry = Some (True, ha, r) \<and> ha_file ha = Some h0
    \<and> clone plain_server (fst (fastmem_init blank_handlerton empty_registry)) demo_env demo_TABLE 0 ha r = Some (Some nh, r')
    \<and> ha_file nh = Some h \<and> h \<noteq> h0 \<and> (\<exists>sh. rg_shares r' = [0 \<mapsto> sh] \<and> sh_open_count sh = 2 \<and> sh_open_list sh = [h, h0])"
proof -
  have i: "rg_shares demo_registry 0 = Some demo_FM_SHARE" "\<not> sh_internal demo_FM_SHARE" "sh_name demo_FM_SHARE = ''t''"
    "\<forall>j sh'. rg_shares demo_registry j = Some sh' \<longrightarrow> \<not> sh_internal sh' \<longrightarrow> sh_name sh' = ''t'' \<longrightarrow> j = 0"
    by (simp_all add: demo_registry_def demo_FM_SHARE_def)
  have m: "env_malloc demo_env n" for n by (simp add: demo_env_def)
  let ?sh = "joined (env_server demo_env) demo_FM_SHARE" and ?ha = "\<lambda>h. ha_fastmem_init\<lparr>internal_table := False, ha_file := Some h\<rparr>"
  have c: "sh_open_count demo_FM_SHARE = 0" "sh_open_list demo_FM_SHARE = []" "rg_shares demo_registry = [0 \<mapsto> demo_FM_SHARE]"
    by (simp_all add: demo_FM_SHARE_def demo_registry_def)
  from open_joins [OF demo_registry_ok m i demo_FM_SHARE_table, of demo_TABLE 0 ha_fastmem_init] c obtain h0 info0 r where
    o: "ha_open demo_env demo_TABLE ''t'' 0 False ha_fastmem_init demo_registry = Some (True, ?ha h0, r)"
      "rg_infos r h0 = Some info0" "inf_s info0 = 0" "reg_ok r (\<lambda>_. 0)" "rg_shares r = [0 \<mapsto> ?sh h0]"
    by auto
  have s: "server_ok plain_server" by (simp add: server_ok_def plain_server_def)
  have r: "ha_file (?ha h0) = Some h0" "rg_shares r 0 = Some (?sh h0)" "\<not> sh_internal (?sh h0)"
    "\<forall>j sh'. rg_shares r j = Some sh' \<longrightarrow> \<not> sh_internal sh' \<longrightarrow> sh_name sh' = sh_name (?sh h0) \<longrightarrow> j = 0"
    using o(5) i(2) by (simp_all add: joined_def)
  have t: "table (sh_core (?sh h0))" "fm_key_ops_init (env_server demo_env) (sh_keydef (?sh h0)) (sh_core (?sh h0)) = sh_core (?sh h0)"
    using demo_FM_SHARE_table fm_key_ops_init_idem by (simp_all add: joined_def)
  have n: "sh_open_count (?sh h0) = 1" "sh_open_list (?sh h0) = [h0]" using c by (simp_all add: joined_def)
  from clone_joins_share [OF s refl r(1) o(2,3,4) m r(2-4) t, of blank_handlerton empty_registry demo_TABLE 0] o(1,5) r(1) n show ?thesis
    by fastforce
qed

text \<open>
  The clone of an internal temporary table is not the same table: \<open>clone\<close> opens by name, and internal shares are not in
  the list of names. The result is a new, empty table under the name of the internal one.
\<close>

theorem clone_internal_is_other_table:
  assumes sc: "server_ok sc" and ht: "ht = fst (fastmem_init p0 r0)"
    and ha: "ha_file ha = Some h0" "rg_infos r h0 = Some info0" "rg_shares r (inf_s info0) = Some sh0" "sh_internal sh0"
    and tbl: "table_supported tbl" "\<forall>k \<in> set (t_key_info tbl). key_parts_ok env k" "length (t_key_info tbl) \<le> FM_MAX_CHANGED_KEYS"
      "estimate_max_records tbl (max (max_heap_table_size env) 8) \<le> 2 ^ 31 - FM_CHUNK_SIZE"
    and mem: "\<And>n z. alloc (fm_core_ops env) n z" "\<And>n. env_malloc env n"
    and ok: "reg_ok r pins" and nm: "\<forall>i sh. rg_shares r i = Some sh \<longrightarrow> sh_internal sh \<or> sh_name sh \<noteq> sh_name sh0"
  shows "\<exists>nh h info sh r'. clone sc ht env tbl md ha r = Some (Some nh, r') \<and> ha_file nh = Some h \<and> rg_infos r' h = Some info
    \<and> inf_s info \<noteq> inf_s info0 \<and> rg_shares r' (inf_s info) = Some sh \<and> rows (sh_core sh) = Map.empty"
proof -
  let ?ha = "ha_fastmem_init\<lparr>internal_table := False\<rparr>" and ?r = "r\<lparr>my_errno := ENOENT\<rparr>"
  have r: "reg_ok ?r pins" "\<forall>i sh. rg_shares ?r i = Some sh \<longrightarrow> sh_internal sh \<or> sh_name sh \<noteq> sh_name sh0" using ok nm by (simp_all add: reg_ok_def)
  show ?thesis
  proof (rule open_new_ready [OF tbl mem r, of md ?ha], goal_cases)
    case (1 h i sh info r')
    let ?nh = "?ha\<lparr>internal_share := i, implicit_emptied := True, ha_file := Some h\<rparr>"
    have "ha_open env tbl (sh_name sh0) md False ha_fastmem_init r = Some (True, ?nh, r')"
      using 1 by (simp add: ha_open_def Let_def fm_open_unknown [OF ok nm])
    note c = clone_opens [OF sc ht ha(1-3) this]
    have "i \<noteq> inf_s info0" using 1 ha(3) by auto
    with c 1 show ?case
      by (intro exI [of _ ?nh] exI [of _ h] exI [of _ info] exI [of _ sh] exI [of _ r']) simp
  qed
qed

section \<open>Estimates\<close>

text \<open>The cost of a key read grows with the rows it reads, as long as there are at least as many rows as ranges.\<close>

lemma keyread_time_mono:
  assumes "ranges \<le> a" "a \<le> b"
  shows "cpu (keyread_time ranges a) \<le> cpu (keyread_time ranges b)"
proof -
  have "unat (a - ranges) \<le> unat (b - ranges)" using assms by (simp add: unat_sub word_le_nat_alt)
  then have "real (unat (a - ranges)) \<le> real (unat (b - ranges))" by (rule of_nat_mono)
  then show ?thesis by (simp add: keyread_time_def HEAP_ROW_NEXT_FIND_COST_def)
qed

text \<open>
  With fewer rows than ranges the difference wraps around, and the estimate is above \<open>10\<^sup>1\<^sup>4\<close> for any number of ranges below
  \<open>2\<^sup>3\<^sup>2\<close>, more than the cost of reading \<open>2\<^sup>6\<^sup>0\<close> rows.
\<close>

theorem keyread_time_wraps:
  assumes "rws < ranges" "unat ranges < 2 ^ 32"
  shows "cpu (keyread_time ranges rws) > 10 ^ 14"
proof -
  have "unat rws < unat ranges" using assms(1) by (simp add: word_less_nat_alt)
  then have "unat (rws - ranges) = unat rws + 2 ^ 64 - unat ranges" by (simp add: unat_sub_if')
  then have "2 ^ 64 - 2 ^ 32 \<le> unat (rws - ranges)" using assms(2) by simp
  then have "real (2 ^ 64 - 2 ^ 32) \<le> real (unat (rws - ranges))" by (rule of_nat_mono)
  moreover have "0 \<le> real (unat ranges) * HEAP_LOOKUP_COST" by (rule mult_nonneg_nonneg [OF of_nat_0_le_iff]) (simp add: HEAP_LOOKUP_COST_def)
  ultimately show ?thesis by (simp add: keyread_time_def HEAP_ROW_NEXT_FIND_COST_def)
qed

end
