(* ===== verification/Fm_Seqlock.thy ===== *)
theory Fm_Seqlock
  imports Fm_Core
begin

text \<open>
  The seqlock of a row slot under interleaving (\<open>src/fm_core.h\<close>): the reader loop of
  \<open>fm_core_read_row\<close> (lines 367 to 388) against the writers of \<open>fm_core_write_image\<close> (lines 680
  to 686) and against the recycling of the slot by a delete (lines 962 to 987) and an insert (lines 638, 639 and 671).

  Each atomic access and each byte of a \<open>memcpy\<close> is a step of its own, and steps of the reader and
  of writers interleave freely; memory is sequentially consistent. Writers of one slot exclude each
  other by \<open>wlock\<close>, so one writer position describes all of them, each in turn; a reader writes
  nothing shared, so one reader stands for all of them. \<open>q_expect\<close> is the generation the reader checks, if it does.

  Four components only record history: \<open>q_count\<close> counts the increments of the sequence counter, \<open>q_pub\<close> is the image that was
  complete at each even count, and \<open>q_from\<close> and \<open>q_to\<close> are the counts when the reader last entered its loop and when it
  left it with an image.
\<close>

section \<open>Reader and writers\<close>

datatype writer_pc = WIdle | WLocked image | WCopy image nat | WUnlock

datatype reader_pc = RIdle | RGen | RActive | RCopy u32 image | RDone image | RGone

datatype recycler_pc = CIdle | CMarked | CDeleted | CFree | CCopy image nat

record seq_state =
  q_state :: slot_state
  q_gen :: u32
  q_seq :: u32
  q_data :: image
  q_writer :: writer_pc
  q_recycler :: recycler_pc
  q_expect :: "u32 option"
  q_reader :: reader_pc
  q_count :: nat
  q_pub :: "nat \<Rightarrow> image"
  q_from :: nat
  q_to :: nat

inductive write_step :: "seq_state \<Rightarrow> seq_state \<Rightarrow> bool" where
  w_lock: "q_writer c = WIdle \<Longrightarrow> q_state c = FM_SLOT_ACTIVE \<Longrightarrow> length rec = length (q_data c) \<Longrightarrow>
    write_step c (c\<lparr>q_writer := WLocked rec\<rparr>)"
| w_odd: "q_writer c = WLocked rec \<Longrightarrow>
    write_step c (c\<lparr>q_seq := q_seq c + 1, q_count := q_count c + 1, q_writer := WCopy rec 0\<rparr>)"
| w_copy: "q_writer c = WCopy rec k \<Longrightarrow> k < length (q_data c) \<Longrightarrow>
    write_step c (c\<lparr>q_data := (q_data c)[k := rec ! k], q_writer := WCopy rec (k + 1)\<rparr>)"
| w_even: "q_writer c = WCopy rec k \<Longrightarrow> k = length (q_data c) \<Longrightarrow>
    write_step c (c\<lparr>q_seq := q_seq c + 1, q_count := q_count c + 1, q_pub := (q_pub c)(q_count c + 1 := rec), q_writer := WUnlock\<rparr>)"
| w_unlock: "q_writer c = WUnlock \<Longrightarrow> write_step c (c\<lparr>q_writer := WIdle\<rparr>)"

inductive read_step :: "seq_state \<Rightarrow> seq_state \<Rightarrow> bool" where
  r_state: "q_reader c = RIdle \<Longrightarrow> q_state c = FM_SLOT_ACTIVE \<Longrightarrow>
    read_step c (c\<lparr>q_reader := RGen, q_from := q_count c\<rparr>)"
| r_deleted: "q_reader c = RIdle \<Longrightarrow> q_state c \<noteq> FM_SLOT_ACTIVE \<Longrightarrow> read_step c (c\<lparr>q_reader := RGone\<rparr>)"
| r_gen: "q_reader c = RGen \<Longrightarrow> q_expect c = None \<or> q_expect c = Some (q_gen c) \<Longrightarrow> read_step c (c\<lparr>q_reader := RActive\<rparr>)"
| r_stale: "q_reader c = RGen \<Longrightarrow> q_expect c = Some g \<Longrightarrow> g \<noteq> q_gen c \<Longrightarrow> read_step c (c\<lparr>q_reader := RGone\<rparr>)"
| r_odd: "q_reader c = RActive \<Longrightarrow> odd (q_seq c) \<Longrightarrow> read_step c (c\<lparr>q_reader := RIdle\<rparr>)"
| r_even: "q_reader c = RActive \<Longrightarrow> even (q_seq c) \<Longrightarrow> read_step c (c\<lparr>q_reader := RCopy (q_seq c) []\<rparr>)"
| r_copy: "q_reader c = RCopy s1 buf \<Longrightarrow> length buf < length (q_data c) \<Longrightarrow>
    read_step c (c\<lparr>q_reader := RCopy s1 (buf @ [q_data c ! length buf])\<rparr>)"
| r_retry: "q_reader c = RCopy s1 buf \<Longrightarrow> length buf = length (q_data c) \<Longrightarrow> q_seq c \<noteq> s1 \<Longrightarrow>
    read_step c (c\<lparr>q_reader := RIdle\<rparr>)"
| r_ok: "q_reader c = RCopy s1 buf \<Longrightarrow> length buf = length (q_data c) \<Longrightarrow> q_seq c = s1 \<Longrightarrow>
    read_step c (c\<lparr>q_reader := RDone buf, q_to := q_count c\<rparr>)"

definition seq_step :: "seq_state \<Rightarrow> seq_state \<Rightarrow> bool" where
  "seq_step c c' \<longleftrightarrow> write_step c c' \<or> read_step c c'"

text \<open>Recycling: the delete marks the slot under its lock, takes it out of use, raises the generation and frees it;
  an insert that is given the slot copies its image without the seqlock and makes it active again.\<close>

inductive recycle_step :: "seq_state \<Rightarrow> seq_state \<Rightarrow> bool" where
  d_mark: "q_recycler c = CIdle \<Longrightarrow> q_state c = FM_SLOT_ACTIVE \<Longrightarrow> q_writer c = WIdle \<Longrightarrow>
    recycle_step c (c\<lparr>q_state := FM_SLOT_DELETING, q_recycler := CMarked\<rparr>)"
| d_delete: "q_recycler c = CMarked \<Longrightarrow> recycle_step c (c\<lparr>q_state := FM_SLOT_DELETED, q_recycler := CDeleted\<rparr>)"
| d_gen: "q_recycler c = CDeleted \<Longrightarrow> recycle_step c (c\<lparr>q_gen := q_gen c + 1, q_recycler := CFree\<rparr>)"
| i_alloc: "q_recycler c = CFree \<Longrightarrow> length rec = length (q_data c) \<Longrightarrow> recycle_step c (c\<lparr>q_recycler := CCopy rec 0\<rparr>)"
| i_copy: "q_recycler c = CCopy rec k \<Longrightarrow> k < length (q_data c) \<Longrightarrow>
    recycle_step c (c\<lparr>q_data := (q_data c)[k := rec ! k], q_recycler := CCopy rec (k + 1)\<rparr>)"
| i_state: "q_recycler c = CCopy rec k \<Longrightarrow> k = length (q_data c) \<Longrightarrow>
    recycle_step c (c\<lparr>q_state := FM_SLOT_ACTIVE, q_pub := (q_pub c)(q_count c := rec), q_recycler := CIdle\<rparr>)"

section \<open>The invariant of the protocol\<close>

definition writer_inv :: "seq_state \<Rightarrow> bool" where
  "writer_inv c \<longleftrightarrow> q_seq c = of_nat (q_count c) \<and> (case q_writer c of
     WCopy rec k \<Rightarrow> odd (q_count c) \<and> length rec = length (q_data c) \<and> k \<le> length (q_data c) \<and> take k (q_data c) = take k rec
   | WLocked rec \<Rightarrow> even (q_count c) \<and> q_data c = q_pub c (q_count c) \<and> length rec = length (q_data c)
   | _ \<Rightarrow> even (q_count c) \<and> q_data c = q_pub c (q_count c))"

text \<open>What a reader has copied since it loaded the count \<open>n\<close>, as long as the count is still \<open>n\<close>; and what it returned,
  if the counter did not come round in one pass of its loop.\<close>

definition reader_inv :: "seq_state \<Rightarrow> bool" where
  "reader_inv c \<longleftrightarrow> (case q_reader c of
     RGen \<Rightarrow> q_from c \<le> q_count c
   | RActive \<Rightarrow> q_from c \<le> q_count c
   | RCopy s1 buf \<Rightarrow> \<exists>n \<le> q_count c. q_from c \<le> n \<and> even n \<and> s1 = of_nat n \<and> (q_count c = n \<longrightarrow> buf = take (length buf) (q_pub c n))
   | RDone buf \<Rightarrow> q_to c \<le> q_count c \<and> (q_to c < q_from c + 2 ^ 32 \<longrightarrow> (\<exists>n \<le> q_to c. q_from c \<le> n \<and> even n \<and> buf = q_pub c n))
   | _ \<Rightarrow> True)"

definition pub_inv :: "seq_state \<Rightarrow> bool" where
  "pub_inv c \<longleftrightarrow> (\<forall>n \<le> q_count c. even n \<longrightarrow> length (q_pub c n) = length (q_data c))"

definition seq_inv :: "seq_state \<Rightarrow> bool" where
  "seq_inv c \<longleftrightarrow> writer_inv c \<and> reader_inv c \<and> pub_inv c"

lemma pub_inv_other:
  "q_count c' = q_count c \<Longrightarrow> q_pub c' = q_pub c \<Longrightarrow> length (q_data c') = length (q_data c) \<Longrightarrow> pub_inv c' = pub_inv c"
  unfolding pub_inv_def by presburger

lemma even_of_nat_u32 [simp]: "even (of_nat n :: u32) \<longleftrightarrow> even n"
  by (simp add: even_of_nat_iff)

text \<open>Counts that differ by less than \<open>2\<^sup>3\<^sup>2\<close> and agree as 32-bit words are equal.\<close>

lemma same_count:
  assumes "n \<le> m" "m < n + 2 ^ 32" "(of_nat m :: u32) = of_nat n"
  shows "m = n"
proof -
  have "m mod 2 ^ 32 = n mod 2 ^ 32" using arg_cong [OF assms(3), of unat] by (simp add: unat_of_nat)
  then have "(m - n) mod 2 ^ 32 = 0" using assms(1) by (metis mod_eq_dvd_iff_nat dvd_eq_mod_eq_0)
  moreover have "m - n < 2 ^ 32" using assms(1,2) by (simp add: less_diff_conv2)
  ultimately show ?thesis using assms(1) by simp
qed

text \<open>A writer that moves the count keeps what a reader knows: the count never comes back.\<close>

lemma reader_inv_bump:
  assumes "reader_inv c" "\<forall>n \<le> q_count c. q_pub c' n = q_pub c n"
    and "q_reader c' = q_reader c" "q_from c' = q_from c" "q_to c' = q_to c" "q_count c' = Suc (q_count c)"
  shows "reader_inv c'"
proof (cases "q_reader c")
  case (RCopy s1 buf)
  then obtain n where "n \<le> q_count c" "q_from c \<le> n" "even n" "s1 = of_nat n" using assms(1) by (auto simp: reader_inv_def)
  then show ?thesis using RCopy assms(3-6) by (auto simp: reader_inv_def intro!: exI [of _ n])
next
  case (RDone buf)
  then have d: "q_to c \<le> q_count c" "q_to c < q_from c + 2 ^ 32 \<longrightarrow> (\<exists>n \<le> q_to c. q_from c \<le> n \<and> even n \<and> buf = q_pub c n)"
    using assms(1) by (simp_all add: reader_inv_def)
  have "\<exists>n \<le> q_to c. q_from c \<le> n \<and> even n \<and> buf = q_pub c' n" if "q_to c < q_from c + 2 ^ 32"
  proof -
    from d(2) that obtain n where "n \<le> q_to c" "q_from c \<le> n" "even n" "buf = q_pub c n" by blast
    then show ?thesis using assms(2) d(1) by (intro exI [of _ n]) simp
  qed
  then show ?thesis using RDone assms(3-6) d(1) by (simp add: reader_inv_def)
qed (use assms in \<open>simp_all add: reader_inv_def\<close>)

lemma reader_inv_other:
  "q_reader c' = q_reader c \<Longrightarrow> q_from c' = q_from c \<Longrightarrow> q_to c' = q_to c \<Longrightarrow> q_count c' = q_count c \<Longrightarrow> q_pub c' = q_pub c
    \<Longrightarrow> reader_inv c' = reader_inv c"
  unfolding reader_inv_def by presburger

lemma write_step_inv: "write_step c c' \<Longrightarrow> seq_inv c \<Longrightarrow> seq_inv c'"
proof (induction rule: write_step.induct)
  case (w_lock c rec)
  then show ?case using reader_inv_other [of "c\<lparr>q_writer := WLocked rec\<rparr>" c] pub_inv_other [of "c\<lparr>q_writer := WLocked rec\<rparr>" c] by (simp add: seq_inv_def writer_inv_def)
next
  case (w_odd c rec)
  let ?c = "c\<lparr>q_seq := q_seq c + 1, q_count := q_count c + 1, q_writer := WCopy rec 0\<rparr>"
  have "reader_inv ?c" by (rule reader_inv_bump [of c], insert w_odd, simp_all add: seq_inv_def)
  moreover have "writer_inv ?c" using w_odd unfolding seq_inv_def writer_inv_def by simp
  moreover have "even (q_count c)" using w_odd unfolding seq_inv_def writer_inv_def by simp
  ultimately show ?case using w_odd(2) unfolding seq_inv_def pub_inv_def by (simp add: le_Suc_eq)
next
  case (w_copy c rec k)
  let ?c = "c\<lparr>q_data := (q_data c)[k := rec ! k], q_writer := WCopy rec (k + 1)\<rparr>"
  have w: "q_seq c = of_nat (q_count c)" "odd (q_count c)" "length rec = length (q_data c)" "take k (q_data c) = take k rec"
    using w_copy unfolding seq_inv_def writer_inv_def by simp_all
  have "take (Suc k) ((q_data c)[k := rec ! k]) = take (Suc k) rec"
    using w(3,4) w_copy(2) by (simp add: take_Suc_conv_app_nth take_update_swap list_update_append)
  then have "writer_inv ?c" using w(1-3) w_copy(2) by (simp add: writer_inv_def)
  moreover have "reader_inv ?c" using w_copy(3) reader_inv_other [of ?c c] by (simp add: seq_inv_def)
  ultimately show ?case using w_copy(3) pub_inv_other [of ?c c] by (simp add: seq_inv_def)
next
  case (w_even c rec k)
  let ?c = "c\<lparr>q_seq := q_seq c + 1, q_count := q_count c + 1, q_pub := (q_pub c)(q_count c + 1 := rec), q_writer := WUnlock\<rparr>"
  have w: "q_seq c = of_nat (q_count c)" "odd (q_count c)" "length rec = length (q_data c)" "take k (q_data c) = take k rec"
    using w_even unfolding seq_inv_def writer_inv_def by simp_all
  have "reader_inv ?c" by (rule reader_inv_bump [of c], insert w_even, simp_all add: seq_inv_def)
  moreover have d: "q_data c = rec" using w(3,4) w_even(2) by (metis order_refl take_all)
  then have "writer_inv ?c" using w(1,2) by (simp add: writer_inv_def)
  ultimately show ?case using w_even(3) w(2) d unfolding seq_inv_def pub_inv_def by (simp add: le_Suc_eq)
next
  case (w_unlock c)
  then show ?case using reader_inv_other [of "c\<lparr>q_writer := WIdle\<rparr>" c] pub_inv_other [of "c\<lparr>q_writer := WIdle\<rparr>" c] by (simp add: seq_inv_def writer_inv_def)
qed

lemma seq_inv_even:
  assumes "seq_inv c" "even (q_count c)"
  shows "q_data c = q_pub c (q_count c)"
  using assms by (auto simp: seq_inv_def writer_inv_def split: writer_pc.splits)

lemma reader_frame [simp]:
  "writer_inv (c\<lparr>q_reader := r\<rparr>) = writer_inv c" "pub_inv (c\<lparr>q_reader := r\<rparr>) = pub_inv c"
  "writer_inv (c\<lparr>q_from := n\<rparr>) = writer_inv c" "pub_inv (c\<lparr>q_from := n\<rparr>) = pub_inv c"
  "writer_inv (c\<lparr>q_to := n\<rparr>) = writer_inv c" "pub_inv (c\<lparr>q_to := n\<rparr>) = pub_inv c"
  by (simp_all add: pub_inv_def writer_inv_def split: writer_pc.splits)

lemma read_step_inv: "read_step c c' \<Longrightarrow> seq_inv c \<Longrightarrow> seq_inv c'"
proof (induction rule: read_step.induct)
  case (r_even c)
  then have "q_seq c = of_nat (q_count c)" by (simp add: seq_inv_def writer_inv_def)
  with r_even show ?case by (auto simp: seq_inv_def reader_inv_def intro!: exI [of _ "q_count c"])
next
  case (r_copy c s1 buf)
  then obtain n where n: "n \<le> q_count c" "even n" "s1 = of_nat n" "q_count c = n \<longrightarrow> buf = take (length buf) (q_pub c n)" "q_from c \<le> n"
    by (auto simp: seq_inv_def reader_inv_def)
  have "buf @ [q_data c ! length buf] = take (Suc (length buf)) (q_pub c n)" if "q_count c = n"
  proof -
    have "q_data c = q_pub c n" using seq_inv_even [OF r_copy(3)] n(2) that by simp
    then show ?thesis using n(4) that r_copy(2) by (metis take_Suc_conv_app_nth)
  qed
  with n r_copy show ?case by (auto simp: seq_inv_def reader_inv_def intro!: exI [of _ n])
next
  case (r_ok c s1 buf)
  then obtain n where n: "n \<le> q_count c" "even n" "s1 = of_nat n" "q_count c = n \<longrightarrow> buf = take (length buf) (q_pub c n)" "q_from c \<le> n"
    by (auto simp: seq_inv_def reader_inv_def)
  have "(of_nat (q_count c) :: u32) = of_nat n" using r_ok(3,4) n(3) by (simp add: seq_inv_def writer_inv_def)
  then have e: "q_count c = n" if "q_count c < q_from c + 2 ^ 32" using same_count [OF n(1)] that n(5) by simp
  have "length (q_pub c n) = length (q_data c)" using r_ok.prems(1) n(1,2) by (auto simp: seq_inv_def pub_inv_def)
  then have "buf = q_pub c n" if "q_count c < q_from c + 2 ^ 32" using n(4) e [OF that] r_ok(2) by simp
  with n r_ok show ?case by (auto simp: seq_inv_def reader_inv_def intro!: exI [of _ n])
qed (auto simp: seq_inv_def reader_inv_def)

lemma seq_run_inv: "seq_step\<^sup>*\<^sup>* c c' \<Longrightarrow> seq_inv c \<Longrightarrow> seq_inv c'"
  by (induction rule: rtranclp_induct) (auto simp: seq_step_def intro: write_step_inv read_step_inv)

section \<open>Properties\<close>

text \<open>A slot that holds the image \<open>img\<close>, with nobody working on it; the reader expects the generation \<open>e\<close>, if any.\<close>

definition seq_start :: "u32 option \<Rightarrow> image \<Rightarrow> seq_state" where
  "seq_start e img = \<lparr>q_state = FM_SLOT_ACTIVE, q_gen = 0, q_seq = 0, q_data = img, q_writer = WIdle, q_recycler = CIdle, q_expect = e,
     q_reader = RIdle, q_count = 0, q_pub = (\<lambda>_. img), q_from = 0, q_to = 0\<rparr>"

lemma seq_start_inv: "seq_inv (seq_start e img)"
  by (simp add: seq_start_def seq_inv_def writer_inv_def reader_inv_def pub_inv_def)

text \<open>
  C13: No torn reads under updates: whatever the interleaving of a reader with updates of the row,
  an image the reader returns is one complete image, published at some
  even sequence count \<open>n\<close> that was current between the start of the successful pass of the loop and its end:
  the read is atomic. The counter has 32 bits: fewer than \<open>2\<^sup>3\<^sup>1\<close> updates may run during that pass; there is no bound on
  the updates before and after it.
\<close>

theorem seqlock_read_not_torn:
  assumes "seq_step\<^sup>*\<^sup>* (seq_start e img) c" "q_reader c = RDone buf" "q_to c < q_from c + 2 ^ 32"
  shows "\<exists>n. q_from c \<le> n \<and> n \<le> q_to c \<and> even n \<and> buf = q_pub c n"
  using seq_run_inv [OF assms(1) seq_start_inv] assms(2,3) by (auto simp: seq_inv_def reader_inv_def)

lemma rtrancl_step: "P\<^sup>*\<^sup>* a b \<Longrightarrow> P b c \<Longrightarrow> P\<^sup>*\<^sup>* a c"
  by (rule rtranclp.rtrancl_into_rtrancl)

theorem seqlock_read_not_torn_witness:
  "\<exists>c. seq_step\<^sup>*\<^sup>* (seq_start None [5]) c \<and> q_reader c = RDone [5] \<and> (\<exists>n. q_from c \<le> n \<and> n \<le> q_to c \<and> even n \<and> [5] = q_pub c n)"
proof -
  let ?c0 = "seq_start None [5]" let ?c1 = "?c0\<lparr>q_reader := RGen\<rparr>" let ?c2 = "?c0\<lparr>q_reader := RActive\<rparr>"
  let ?c3 = "?c0\<lparr>q_reader := RCopy 0 []\<rparr>" let ?c4 = "?c0\<lparr>q_reader := RCopy 0 [5]\<rparr>" let ?c5 = "?c0\<lparr>q_reader := RDone [5]\<rparr>"
  have "seq_step ?c0 ?c1" using r_state [of ?c0] by (simp add: seq_step_def seq_start_def)
  then have "seq_step\<^sup>*\<^sup>* ?c0 ?c1" by (rule r_into_rtranclp)
  moreover have "seq_step ?c1 ?c2" using r_gen [of ?c1] by (simp add: seq_step_def seq_start_def)
  ultimately have "seq_step\<^sup>*\<^sup>* ?c0 ?c2" by (rule rtrancl_step)
  moreover have "seq_step ?c2 ?c3" using r_even [of ?c2] by (simp add: seq_step_def seq_start_def)
  ultimately have "seq_step\<^sup>*\<^sup>* ?c0 ?c3" by (rule rtrancl_step)
  moreover have "seq_step ?c3 ?c4" using r_copy [of ?c3 0 "[]"] by (simp add: seq_step_def seq_start_def)
  ultimately have "seq_step\<^sup>*\<^sup>* ?c0 ?c4" by (rule rtrancl_step)
  moreover have "seq_step ?c4 ?c5" using r_ok [of ?c4 0 "[5]"] by (simp add: seq_step_def seq_start_def)
  ultimately have r: "seq_step\<^sup>*\<^sup>* ?c0 ?c5" by (rule rtrancl_step)
  from seqlock_read_not_torn [OF r] r show ?thesis by (intro exI [of _ ?c5]) (auto simp: seq_start_def)
qed

text \<open>
  C37: The seqlock does not protect a reader against recycling: when the row is deleted and the slot is
  filled by an insert while a reader copies, the reader can return bytes of both rows, an image that
  was never published. Checking the generation (\<open>chk\<close>) does not help, for the check comes before the copy.
\<close>

theorem recycled_slot_read_torn:
  "\<exists>c. (\<lambda>a b. seq_step a b \<or> recycle_step a b)\<^sup>*\<^sup>* (seq_start (if chk then Some 0 else None) [0, 0]) c \<and> q_reader c = RDone [0, 1]
     \<and> q_state c = FM_SLOT_ACTIVE \<and> (\<forall>n. q_pub c n \<in> {[0, 0], [1, 1]})"
proof -
  let ?R = "\<lambda>a b. seq_step a b \<or> recycle_step a b"
  let ?c0 = "seq_start (if chk then Some 0 else None) [0, 0]" let ?c1 = "?c0\<lparr>q_reader := RGen\<rparr>" let ?c1' = "?c0\<lparr>q_reader := RActive\<rparr>"
  let ?c2 = "?c0\<lparr>q_reader := RCopy 0 []\<rparr>" let ?c3 = "?c0\<lparr>q_reader := RCopy 0 [0]\<rparr>"
  let ?d1 = "?c3\<lparr>q_state := FM_SLOT_DELETING, q_recycler := CMarked\<rparr>" let ?d2 = "?c3\<lparr>q_state := FM_SLOT_DELETED, q_recycler := CDeleted\<rparr>"
  let ?d3 = "?c3\<lparr>q_state := FM_SLOT_DELETED, q_gen := 1, q_recycler := CFree\<rparr>" let ?i0 = "?d3\<lparr>q_recycler := CCopy [1, 1] 0\<rparr>"
  let ?i1 = "?d3\<lparr>q_data := [1, 0], q_recycler := CCopy [1, 1] 1\<rparr>" let ?i2 = "?d3\<lparr>q_data := [1, 1], q_recycler := CCopy [1, 1] 2\<rparr>"
  let ?i3 = "?i2\<lparr>q_state := FM_SLOT_ACTIVE, q_pub := (q_pub ?i2)(0 := [1, 1]), q_recycler := CIdle\<rparr>"
  let ?c8 = "?i3\<lparr>q_reader := RCopy 0 [0, 1]\<rparr>" let ?c9 = "?i3\<lparr>q_reader := RDone [0, 1]\<rparr>"
  have "?R ?c0 ?c1" using r_state [of ?c0] by (simp add: seq_step_def seq_start_def)
  then have "?R\<^sup>*\<^sup>* ?c0 ?c1" by (rule r_into_rtranclp)
  moreover have "?R ?c1 ?c1'" using r_gen [of ?c1] by (simp add: seq_step_def seq_start_def)
  ultimately have "?R\<^sup>*\<^sup>* ?c0 ?c1'" by (rule rtrancl_step)
  moreover have "?R ?c1' ?c2" using r_even [of ?c1'] by (simp add: seq_step_def seq_start_def)
  ultimately have "?R\<^sup>*\<^sup>* ?c0 ?c2" by (rule rtrancl_step)
  moreover have "?R ?c2 ?c3" using r_copy [of ?c2 0 "[]"] by (simp add: seq_step_def seq_start_def)
  ultimately have "?R\<^sup>*\<^sup>* ?c0 ?c3" by (rule rtrancl_step)
  moreover have "?R ?c3 ?d1" using d_mark [of ?c3] by (simp add: seq_start_def)
  ultimately have "?R\<^sup>*\<^sup>* ?c0 ?d1" by (rule rtrancl_step)
  moreover have "?R ?d1 ?d2" using d_delete [of ?d1] by (simp add: seq_start_def)
  ultimately have "?R\<^sup>*\<^sup>* ?c0 ?d2" by (rule rtrancl_step)
  moreover have "?R ?d2 ?d3" using d_gen [of ?d2] by (simp add: seq_start_def)
  ultimately have "?R\<^sup>*\<^sup>* ?c0 ?d3" by (rule rtrancl_step)
  moreover have "?R ?d3 ?i0" using i_alloc [of ?d3 "[1, 1]"] by (simp add: seq_start_def)
  ultimately have "?R\<^sup>*\<^sup>* ?c0 ?i0" by (rule rtrancl_step)
  moreover have "?R ?i0 ?i1" using i_copy [of ?i0 "[1, 1]" 0] by (simp add: seq_start_def)
  ultimately have "?R\<^sup>*\<^sup>* ?c0 ?i1" by (rule rtrancl_step)
  moreover have "?R ?i1 ?i2" using i_copy [of ?i1 "[1, 1]" 1] by (simp add: seq_start_def numeral_2_eq_2)
  ultimately have "?R\<^sup>*\<^sup>* ?c0 ?i2" by (rule rtrancl_step)
  moreover have "?R ?i2 ?i3" using i_state [of ?i2 "[1, 1]" 2] by (simp add: seq_start_def)
  ultimately have "?R\<^sup>*\<^sup>* ?c0 ?i3" by (rule rtrancl_step)
  moreover have "?R ?i3 ?c8" using r_copy [of ?i3 0 "[0]"] by (simp add: seq_step_def seq_start_def)
  ultimately have "?R\<^sup>*\<^sup>* ?c0 ?c8" by (rule rtrancl_step)
  moreover have "?R ?c8 ?c9" using r_ok [of ?c8 0 "[0, 1]"] by (simp add: seq_step_def seq_start_def)
  ultimately have "?R\<^sup>*\<^sup>* ?c0 ?c9" by (rule rtrancl_step)
  then show ?thesis by (intro exI [of _ ?c9]) (auto simp: seq_start_def)
qed

end
