(* ===== verification/Fm_Deadlock.thy ===== *)
theory Fm_Deadlock
  imports Fm_Lockset
begin

text \<open>
  The locks of concurrent sessions (\<open>src/fm_core.h\<close>, \<open>src/ha_fastmem.cc\<close>). A call of the core takes the
  structure mutex, bucket locks and slot locks in a fixed order; a handler holds the lock of a row
  from the read of the row to its update or delete. Here each call is the list of its acquisitions and
  releases, on every path the code has, and threads interleave these lists: an acquisition waits while
  the lock is taken.

  A lock hierarchy rules out a deadlock: if every thread acquires upwards in one order, then from every
  reachable state all threads can finish. The handler's calls have such an order (slot, structure
  mutex, buckets by key and number), except \<open>delete_all_rows\<close>, which takes slot locks under the
  structure mutex: with a concurrent delete it can block for ever.
\<close>

section \<open>Interleaved locking\<close>

datatype 'l lock_act = Acq 'l | Rel 'l

type_synonym 'l lock_state = "('l \<Rightarrow> nat option) \<times> (nat \<Rightarrow> 'l lock_act list)"

inductive lock_step :: "'l lock_state \<Rightarrow> 'l lock_state \<Rightarrow> bool" where
  acquire: "todo t = Acq l # as \<Longrightarrow> owner l = None \<Longrightarrow> lock_step (owner, todo) (owner(l \<mapsto> t), todo(t := as))"
| release: "todo t = Rel l # as \<Longrightarrow> lock_step (owner, todo) (owner(l := None), todo(t := as))"

inductive_cases lock_stepE: "lock_step (owner, todo) st"

fun after :: "'l set \<Rightarrow> 'l lock_act list \<Rightarrow> 'l set" where
  "after H [] = H"
| "after H (Acq l # as) = after (insert l H) as"
| "after H (Rel l # as) = after (H - {l}) as"

text \<open>Every acquisition is above the locks held, every release is of a lock held.\<close>

fun ascending :: "('l \<Rightarrow> 'l \<Rightarrow> bool) \<Rightarrow> 'l set \<Rightarrow> 'l lock_act list \<Rightarrow> bool" where
  "ascending below H [] \<longleftrightarrow> True"
| "ascending below H (Acq l # as) \<longleftrightarrow> (\<forall>h \<in> H. below h l) \<and> ascending below (insert l H) as"
| "ascending below H (Rel l # as) \<longleftrightarrow> l \<in> H \<and> ascending below (H - {l}) as"

lemma after_append [simp]: "after H (as @ bs) = after (after H as) bs"
  by (induction H as rule: after.induct) auto

lemma ascending_append [simp]:
  "ascending below H (as @ bs) \<longleftrightarrow> ascending below H as \<and> ascending below (after H as) bs"
  by (induction below H as rule: ascending.induct) auto

definition holds :: "('l \<Rightarrow> nat option) \<Rightarrow> nat \<Rightarrow> 'l set" where
  "holds owner t = {l. owner l = Some t}"

locale lock_hierarchy =
  fixes below :: "'l \<Rightarrow> 'l \<Rightarrow> bool"
  assumes trans: "transp below" and asym: "asymp below"
begin

definition ordered :: "'l lock_state \<Rightarrow> bool" where
  "ordered st \<longleftrightarrow> (\<forall>t. ascending below (holds (fst st) t) (snd st t) \<and> after (holds (fst st) t) (snd st t) = {})"

lemma ordered_step: "lock_step st st' \<Longrightarrow> ordered st \<Longrightarrow> ordered st'"
proof (induction rule: lock_step.induct)
  case (acquire todo t l as owner)
  have "holds (owner(l \<mapsto> t)) u = (if u = t then insert l (holds owner t) else holds owner u)" for u
    using acquire(2) by (auto simp: holds_def)
  moreover have "ascending below (holds owner t) (Acq l # as)" "after (holds owner t) (Acq l # as) = {}"
    using acquire(1,3) unfolding ordered_def by (metis fst_conv snd_conv)+
  ultimately show ?case using acquire(3) by (simp add: ordered_def)
next
  case (release todo t l as owner)
  have a: "ascending below (holds owner t) (Rel l # as)" "after (holds owner t) (Rel l # as) = {}"
    using release unfolding ordered_def by (metis fst_conv snd_conv)+
  then have "holds (owner(l := None)) u = (if u = t then holds owner t - {l} else holds owner u)" for u
    by (auto simp: holds_def)
  then show ?case using a release(2) by (simp add: ordered_def)
qed

lemma blocked_owner:
  assumes "ordered (owner, todo)" "owner l = Some t" and wait: "\<forall>a as. todo t = a # as \<longrightarrow> (\<exists>l. a = Acq l)"
  shows "\<exists>l' as. todo t = Acq l' # as \<and> below l l'"
proof -
  have l: "l \<in> holds owner t" using assms(2) by (simp add: holds_def)
  have o: "ascending below (holds owner t) (todo t)" "after (holds owner t) (todo t) = {}"
    using assms(1) by (simp_all add: ordered_def)
  then obtain l' as where "todo t = Acq l' # as" using wait l by (cases "todo t") auto
  then show ?thesis using o(1) l by auto
qed

lemma progress:
  assumes o: "ordered (owner, todo)" and fin: "finite {t. todo t \<noteq> []}" and ne: "todo t0 \<noteq> []"
  shows "\<exists>st. lock_step (owner, todo) st"
proof (rule ccontr)
  assume stuck: "\<nexists>st. lock_step (owner, todo) st"
  have w: "\<exists>l u. a = Acq l \<and> owner l = Some u" if "todo t = a # as" for t a as
  proof (cases a)
    case (Acq l)
    then show ?thesis using stuck lock_step.acquire [of todo t l as owner] that by (cases "owner l") auto
  next
    case (Rel l)
    then show ?thesis using stuck lock_step.release [of todo t l as owner] that by auto
  qed
  define W where "W = {l. \<exists>t as. todo t = Acq l # as}"
  have "W \<subseteq> (\<lambda>t. case hd (todo t) of Acq l \<Rightarrow> l | Rel l \<Rightarrow> l) ` {t. todo t \<noteq> []}"
  proof
    fix l assume "l \<in> W"
    then obtain t as where "todo t = Acq l # as" unfolding W_def by blast
    then show "l \<in> (\<lambda>t. case hd (todo t) of Acq l \<Rightarrow> l | Rel l \<Rightarrow> l) ` {t. todo t \<noteq> []}"
      by (intro image_eqI [of _ _ t]) simp_all
  qed
  then have "finite W" by (rule finite_subset) (use fin in simp)
  moreover obtain a as where "todo t0 = a # as" using ne by (cases "todo t0") auto
  then have "W \<noteq> {}" using w unfolding W_def by blast
  ultimately obtain m where m: "m \<in> W" "\<forall>x \<in> W. x \<noteq> m \<longrightarrow> \<not> below m x"
    using Finite_Set.bex_max_element [of W below] trans asym transp_on_subset asymp_on_subset by (metis subset_UNIV)
  then obtain u where "owner m = Some u" using w unfolding W_def by blast
  from blocked_owner [OF o this] w obtain l' as where l': "todo u = Acq l' # as" "below m l'" by blast
  then have "l' \<in> W" "l' \<noteq> m" using asym unfolding W_def by (auto dest: asympD)
  then show False using m(2) l'(2) by blast
qed

lemma finishes:
  assumes "ordered (owner, todo)" "finite T" "\<forall>t. t \<notin> T \<longrightarrow> todo t = []"
  shows "lock_step\<^sup>*\<^sup>* (owner, todo) (\<lambda>_. None, \<lambda>_. [])"
  using assms
proof (induction "\<Sum>t \<in> T. length (todo t)" arbitrary: owner todo rule: less_induct)
  case less
  show ?case
  proof (cases "\<exists>t. todo t \<noteq> []")
    case False
    then have t: "todo = (\<lambda>_. [])" by auto
    have "owner l = None" for l
      using less.prems(1) unfolding t ordered_def holds_def by (cases "owner l") auto
    then have "owner = (\<lambda>_. None)" by auto
    then show ?thesis using t by simp
  next
    case True
    then obtain t0 where t0: "todo t0 \<noteq> []" by blast
    have "finite {t. todo t \<noteq> []}" by (rule finite_subset [OF _ less.prems(2)]) (use less.prems(3) in blast)
    from progress [OF less.prems(1) this t0] obtain owner' todo' where st: "lock_step (owner, todo) (owner', todo')" by auto
    then obtain t a as where t: "todo t = a # as" "todo' = todo(t := as)" by (auto elim: lock_stepE)
    then have tT: "t \<in> T" using less.prems(3) by auto
    have "(\<Sum>t \<in> T. length (todo' t)) < (\<Sum>t \<in> T. length (todo t))"
      by (rule sum_strict_mono_ex1) (use less.prems(2) t tT in auto)
    moreover have "\<forall>t. t \<notin> T \<longrightarrow> todo' t = []" using less.prems(3) t by auto
    ultimately have "lock_step\<^sup>*\<^sup>* (owner', todo') (\<lambda>_. None, \<lambda>_. [])"
      using less.hyps ordered_step [OF st less.prems(1)] less.prems(2) by blast
    then show ?thesis using st by (rule converse_rtranclp_into_rtranclp [rotated])
  qed
qed

lemma reachable_finishes:
  assumes "lock_step\<^sup>*\<^sup>* (\<lambda>_. None, prog) st" "finite T" "\<forall>t. t \<notin> T \<longrightarrow> prog t = []"
    and asc: "\<And>t. ascending below {} (prog t)" "\<And>t. after {} (prog t) = {}"
  shows "lock_step\<^sup>*\<^sup>* st (\<lambda>_. None, \<lambda>_. [])"
proof -
  have "ordered (\<lambda>_. None, prog)" using asc by (simp add: ordered_def holds_def)
  from assms(1) this assms(3) have "ordered st \<and> (\<forall>t. t \<notin> T \<longrightarrow> snd st t = [])"
  proof (induction rule: rtranclp_induct)
    case (step y z)
    then show ?case using ordered_step [OF step.hyps(2)] by (cases y) (auto elim!: lock_stepE)
  qed simp
  then show ?thesis using finishes [OF _ assms(2)] by (cases st) auto
qed

end

section \<open>The locks of the engine\<close>

datatype fm_lock = Struct | Bucket nat u32 | Slot slot_id

type_synonym acts = "fm_lock lock_act list"

definition visit :: "fm_lock \<Rightarrow> acts" where
  "visit l = [Acq l, Rel l]"

definition visits :: "fm_lock list \<Rightarrow> acts" where
  "visits ls = concat (map visit ls)"

text \<open>The bucket of each key for one image, in the order of the keys.\<close>

definition key_locks :: "u32 list \<Rightarrow> fm_lock list" where
  "key_locks bs = map (\<lambda>(k, b). Bucket k b) (enumerate 0 bs)"

text \<open>The lock set of a key-changing update, as the sort leaves it and the lock loop walks it.\<close>

definition bucket_locks :: "FMB list \<Rightarrow> fm_lock list" where
  "bucket_locks ls = map (\<lambda>(k, b). Bucket (unat k) b) (lock_order (sort_locks ls))"

subsection \<open>Calls of the core\<close>

text \<open>How a call ends: no slot, a duplicate on key \<open>k\<close>, a row that is gone, or success.\<close>

datatype insert_end = NoSlot | DupAt nat | Linked

definition insert_locks :: "u32 list \<Rightarrow> insert_end \<Rightarrow> acts" where
  "insert_locks bs e = (case e of
     NoSlot \<Rightarrow> visit Struct
   | DupAt k \<Rightarrow> Acq Struct # visits (take (k + 1) (key_locks bs)) @ visits (rev (take k (key_locks bs))) @ [Rel Struct]
   | Linked \<Rightarrow> Acq Struct # visits (key_locks bs) @ [Rel Struct])"

definition update_locked_locks :: "FMB list option \<Rightarrow> acts" where
  "update_locked_locks lockset = (case lockset of
     None \<Rightarrow> []
   | Some ls \<Rightarrow> map Acq (bucket_locks ls) @ map Rel (rev (bucket_locks ls)))"

definition delete_locked_locks :: "u32 list option \<Rightarrow> acts" where
  "delete_locked_locks bs' = (case bs' of
     None \<Rightarrow> []
   | Some bs \<Rightarrow> visits (key_locks bs) @ visit Struct)"

definition clear_locks :: "nat list \<Rightarrow> nat \<Rightarrow> acts" where
  "clear_locks nbs n =
     Acq Struct # visits (concat (map (\<lambda>(k, m). map (\<lambda>b. Bucket k (of_nat b)) [0 ..< m]) (enumerate 0 nbs)))
       @ visits (map (\<lambda>i. Slot (int i)) [0 ..< n]) @ [Rel Struct]"

subsection \<open>Calls of a handler\<close>

text \<open>
  The calls of a handler in a write statement, by what they do to locks. A read by key looks its row up in a
  bucket first, still under the lock of the row that was read before; a scan or a position needs no bucket (\<open>None\<close>).
  A read that finds slot \<open>i\<close> takes its row lock, moving the lock if the handler holds another one (\<open>TakeRow\<close>);
  one that finds nothing keeps what the handler holds (\<open>MissRow\<close>). \<open>DropRow\<close> stands for
  the calls that only release (a row that is gone when it is read again, the start of a scan, reset, the end of the
  statement).
\<close>

datatype ha_act = TakeRow "(nat \<times> u32) option" slot_id | MissRow "(nat \<times> u32) option" | DropRow | WriteAct "u32 list" insert_end
  | UpdateAct slot_id "FMB list option" | DeleteAct slot_id "u32 list option"

definition unlock_row :: "slot_id option \<Rightarrow> acts" where
  "unlock_row h = (case h of None \<Rightarrow> [] | Some j \<Rightarrow> [Rel (Slot j)])"

definition lock_row :: "slot_id option \<Rightarrow> slot_id \<Rightarrow> acts" where
  "lock_row h i = (if h = Some i then [] else unlock_row h @ [Acq (Slot i)])"

definition lookup_locks :: "(nat \<times> u32) option \<Rightarrow> acts" where
  "lookup_locks kb = (case kb of None \<Rightarrow> [] | Some (k, b) \<Rightarrow> visit (Bucket k b))"

fun ha_locks :: "slot_id option \<Rightarrow> ha_act \<Rightarrow> acts \<times> slot_id option" where
  "ha_locks h (TakeRow kb i) = (lookup_locks kb @ lock_row h i, Some i)"
| "ha_locks h (MissRow kb) = (lookup_locks kb, h)"
| "ha_locks h DropRow = (unlock_row h, None)"
| "ha_locks h (WriteAct bs e) = (insert_locks bs e, h)"
| "ha_locks h (UpdateAct i ls) =
     (if h = None \<or> h = Some i then lock_row h i @ update_locked_locks ls @ [Rel (Slot i)] else unlock_row h, None)"
| "ha_locks h (DeleteAct i bs) =
     (if h = None \<or> h = Some i then lock_row h i @ delete_locked_locks bs @ [Rel (Slot i)] else unlock_row h, None)"

text \<open>The statement ends with \<open>external_lock\<close>, which releases the row that is still locked.\<close>

primrec session_locks :: "slot_id option \<Rightarrow> ha_act list \<Rightarrow> acts" where
  "session_locks h [] = unlock_row h"
| "session_locks h (a # as) = fst (ha_locks h a) @ session_locks (snd (ha_locks h a)) as"

definition sessions :: "ha_act list list \<Rightarrow> nat \<Rightarrow> acts" where
  "sessions ss t = (if t < length ss then session_locks None (ss ! t) else [])"

section \<open>The order of the handler's locks\<close>

fun below :: "fm_lock \<Rightarrow> fm_lock \<Rightarrow> bool" where
  "below (Slot i) l \<longleftrightarrow> (case l of Slot j \<Rightarrow> False | _ \<Rightarrow> True)"
| "below Struct l \<longleftrightarrow> (case l of Bucket k b \<Rightarrow> True | _ \<Rightarrow> False)"
| "below (Bucket k b) l \<longleftrightarrow> (case l of Bucket k' b' \<Rightarrow> k < k' \<or> k = k' \<and> b < b' | _ \<Rightarrow> False)"

interpretation row_order: lock_hierarchy below
proof
  show "transp below"
  proof (rule transpI)
    fix x y z assume "below x y" "below y z"
    then show "below x z" by (cases x; cases y; cases z) auto
  qed
  show "asymp below"
  proof (rule asympI)
    fix x y assume "below x y"
    then show "\<not> below y x" by (cases x; cases y) auto
  qed
qed

lemma ascending_visits:
  "\<forall>l \<in> set ls. l \<notin> H \<and> (\<forall>h \<in> H. below h l) \<Longrightarrow> ascending below H (visits ls) \<and> after H (visits ls) = H"
  by (induction ls) (auto simp: visits_def visit_def)

lemma sorted_acquire:
  "sorted_wrt below ls \<Longrightarrow> \<forall>l \<in> set ls. \<forall>h \<in> H. below h l \<Longrightarrow>
    ascending below H (map Acq ls) \<and> after H (map Acq ls) = H \<union> set ls"
  by (induction ls arbitrary: H) auto

lemma release_all:
  "distinct ls \<Longrightarrow> set ls \<subseteq> H \<Longrightarrow> ascending below H (map Rel ls) \<and> after H (map Rel ls) = H - set ls"
proof (induction ls arbitrary: H)
  case (Cons l ls)
  then have "set ls \<subseteq> H - {l}" by auto
  with Cons show ?case by auto
qed simp

lemma pack_fmb_below: "pack_fmb v < pack_fmb w \<Longrightarrow> below (Bucket (unat (fst v)) (snd v)) (Bucket (unat (fst w)) (snd w))"
proof -
  assume "pack_fmb v < pack_fmb w"
  then have lt: "unat (fst v) * 2 ^ 32 + unat (snd v) < unat (fst w) * 2 ^ 32 + unat (snd w)"
    by (cases v; cases w) (simp add: unat_pack_fmb word_less_nat_alt del: unsigned_less)
  have "unat (snd v) < 2 ^ 32" "unat (snd w) < 2 ^ 32" using unsigned_less [of "snd v"] unsigned_less [of "snd w"] by simp_all
  with lt show ?thesis by (simp add: word_less_nat_alt) linarith
qed

lemma bucket_locks_sorted: "sorted_wrt below (bucket_locks ls)"
proof -
  have "sorted_wrt (\<lambda>v w. below (Bucket (unat (fst v)) (snd v)) (Bucket (unat (fst w)) (snd w))) (lock_order (sort_locks ls))"
    by (rule sorted_wrt_mono_rel [OF _ lock_order_ascending]) (rule pack_fmb_below)
  then show ?thesis by (simp add: bucket_locks_def sorted_wrt_map case_prod_unfold)
qed

lemma bucket_locks_distinct: "distinct (bucket_locks ls)"
  using lock_order_distinct by (auto simp: bucket_locks_def distinct_map inj_on_def word_unat_eq_iff)

lemma bucket_lock_set: "l \<in> set (bucket_locks ls) \<Longrightarrow> \<exists>k b. l = Bucket k b" "l \<in> set (key_locks bs) \<Longrightarrow> \<exists>k b. l = Bucket k b"
  by (auto simp: bucket_locks_def key_locks_def)

definition row_held :: "slot_id option \<Rightarrow> fm_lock set" where
  "row_held h = Slot ` set_option h"

lemma row_held_simps [simp]: "row_held None = {}" "row_held (Some i) = {Slot i}"
  by (simp_all add: row_held_def)

definition acts_ok :: "slot_id option \<Rightarrow> acts \<Rightarrow> slot_id option \<Rightarrow> bool" where
  "acts_ok h as h' \<longleftrightarrow> ascending below (row_held h) as \<and> after (row_held h) as = row_held h'"

lemma acts_ok_append: "acts_ok h as h' \<Longrightarrow> acts_ok h' bs h'' \<Longrightarrow> acts_ok h (as @ bs) h''"
  by (simp add: acts_ok_def)

lemma unlock_row_ok: "acts_ok h (unlock_row h) None"
  by (cases h) (simp_all add: acts_ok_def unlock_row_def)

lemma lock_row_ok: "acts_ok h (lock_row h i) (Some i)"
  by (cases h) (simp_all add: acts_ok_def unlock_row_def lock_row_def)

lemma lookup_ok: "acts_ok h (lookup_locks kb) h"
  by (cases kb; cases h) (auto simp: acts_ok_def lookup_locks_def visit_def row_held_def)

lemma update_locked_ok: "acts_ok h (update_locked_locks ls) h"
proof (cases ls)
  case None
  then show ?thesis by (simp add: acts_ok_def update_locked_locks_def)
next
  case (Some l)
  have "\<forall>x \<in> set (bucket_locks l). \<forall>y \<in> row_held h. below y x" using bucket_lock_set(1) by (fastforce simp: row_held_def)
  then have a: "ascending below (row_held h) (map Acq (bucket_locks l))"
    "after (row_held h) (map Acq (bucket_locks l)) = row_held h \<union> set (bucket_locks l)"
    using sorted_acquire [OF bucket_locks_sorted] by blast+
  have "set (rev (bucket_locks l)) \<subseteq> row_held h \<union> set (bucket_locks l)" by simp
  moreover have "(row_held h \<union> set (bucket_locks l)) - set (rev (bucket_locks l)) = row_held h"
    using bucket_lock_set(1) by (fastforce simp: row_held_def)
  ultimately show ?thesis
    using a release_all [of "rev (bucket_locks l)" "row_held h \<union> set (bucket_locks l)"] bucket_locks_distinct
    by (simp add: acts_ok_def update_locked_locks_def Some)
qed

lemma key_visits: "set ls \<subseteq> set (key_locks bs) \<Longrightarrow> H \<subseteq> insert Struct (row_held h) \<Longrightarrow>
    ascending below H (visits ls) \<and> after H (visits ls) = H"
  by (rule ascending_visits) (use bucket_lock_set(2) in \<open>fastforce simp: row_held_def\<close>)

lemma delete_locked_ok: "acts_ok h (delete_locked_locks bs) h"
proof (cases bs)
  case None
  then show ?thesis by (simp add: acts_ok_def delete_locked_locks_def)
next
  case (Some b)
  have "ascending below (row_held h) (visit Struct) \<and> after (row_held h) (visit Struct) = row_held h"
    by (auto simp: visit_def row_held_def)
  then show ?thesis using key_visits [of "key_locks b" b "row_held h" h]
    by (simp add: acts_ok_def delete_locked_locks_def Some subset_insertI)
qed

lemma insert_ok: "acts_ok h (insert_locks bs e) h"
proof -
  let ?H = "insert Struct (row_held h)"
  have s: "ascending below (row_held h) [Acq Struct]" "after (row_held h) [Acq Struct] = ?H"
    "ascending below ?H [Rel Struct]" "after ?H [Rel Struct] = row_held h" by (auto simp: row_held_def)
  have v: "ascending below ?H (visits ls) \<and> after ?H (visits ls) = ?H" if "set ls \<subseteq> set (key_locks bs)" for ls
    by (rule key_visits [where bs = bs and h = h]) (use that in simp_all)
  have t: "set (take n (key_locks bs)) \<subseteq> set (key_locks bs)" for n by (rule set_take_subset)
  show ?thesis
    using s v [OF subset_refl] v [OF t] v [of "rev (take _ (key_locks bs))"] t
    by (cases e) (auto simp: acts_ok_def insert_locks_def visit_def)
qed

lemma ha_locks_ok: "acts_ok h (fst (ha_locks h a)) (snd (ha_locks h a))"
proof -
  have r: "acts_ok (Some i) [Rel (Slot i)] None" for i by (simp add: acts_ok_def)
  show ?thesis
    by (cases a) (auto intro!: unlock_row_ok lookup_ok acts_ok_append [OF lookup_ok lock_row_ok] insert_ok
        acts_ok_append [OF lock_row_ok acts_ok_append [OF update_locked_ok r]]
        acts_ok_append [OF lock_row_ok acts_ok_append [OF delete_locked_ok r]])
qed

lemma session_locks_ok: "acts_ok h (session_locks h as) None"
  by (induction as arbitrary: h) (auto intro: unlock_row_ok acts_ok_append [OF ha_locks_ok])

text \<open>
  C17: Concurrent write statements never deadlock on the locks of the engine. Whatever a finite number
  of sessions do (reading rows for update by key, scan or position, inserting, updating with or without a change of
  keys, deleting, on every path of these calls) and however they have been interleaved so far, there is a
  way to run all of them to their end, and then every lock is free.
\<close>

theorem write_sessions_deadlock_free:
  assumes "lock_step\<^sup>*\<^sup>* (\<lambda>_. None, sessions ss) st"
  shows "lock_step\<^sup>*\<^sup>* st (\<lambda>_. None, \<lambda>_. [])"
proof (rule row_order.reachable_finishes [OF assms, of "{..< length ss}"])
  show "ascending below {} (sessions ss t)" "after {} (sessions ss t) = {}" for t
    using session_locks_ok [of None "ss ! t"] by (simp_all add: sessions_def acts_ok_def)
qed (simp_all add: sessions_def)

theorem write_sessions_deadlock_free_witness:
  "\<exists>st. lock_step\<^sup>*\<^sup>* (\<lambda>_. None, sessions [[TakeRow (Some (0, 0)) 0, UpdateAct 0 (Some [(0, 1), (0, 0)])], [WriteAct [1] Linked]]) st
     \<and> fst st Struct = Some 1 \<and> fst st (Slot 0) = Some 0 \<and> lock_step\<^sup>*\<^sup>* st (\<lambda>_. None, \<lambda>_. [])"
proof -
  define p where "p = sessions [[TakeRow (Some (0, 0)) 0, UpdateAct 0 (Some [(0, 1), (0, 0)])], [WriteAct [1] Linked]]"
  obtain as where p: "p 0 = Acq (Bucket 0 0) # Rel (Bucket 0 0) # Acq (Slot 0) # as" "p 1 = Acq Struct # tl (p 1)"
    by (simp add: p_def sessions_def lookup_locks_def visit_def lock_row_def unlock_row_def insert_locks_def)
  define st2 where "st2 = ([Slot 0 \<mapsto> 0 :: nat, Struct \<mapsto> 1], p(0 := as, 1 := tl (p 1)))"
  have s1: "lock_step (\<lambda>_. None, p) ([Bucket 0 0 \<mapsto> 0], p(0 := Rel (Bucket 0 0) # Acq (Slot 0) # as))"
    by (rule lock_step.acquire) (use p(1) in simp_all)
  have s2: "lock_step ([Bucket 0 0 \<mapsto> 0], p(0 := Rel (Bucket 0 0) # Acq (Slot 0) # as)) (\<lambda>_. None, p(0 := Acq (Slot 0) # as))"
    using lock_step.release [of "p(0 := Rel (Bucket 0 0) # Acq (Slot 0) # as)" 0 "Bucket 0 0" "Acq (Slot 0) # as" "[Bucket 0 0 \<mapsto> 0]"]
    by (simp add: fun_upd_idem)
  have s3: "lock_step (\<lambda>_. None, p(0 := Acq (Slot 0) # as)) ([Slot 0 \<mapsto> 0], p(0 := as))"
    using lock_step.acquire [of "p(0 := Acq (Slot 0) # as)" 0 "Slot 0" as "\<lambda>_. None"] by simp
  have s4: "lock_step ([Slot 0 \<mapsto> 0], p(0 := as)) st2"
    unfolding st2_def by (rule lock_step.acquire [where l = Struct]) (use p(2) in simp_all)
  from s1 s2 s3 s4 have r: "lock_step\<^sup>*\<^sup>* (\<lambda>_. None, p) st2" by (meson converse_rtranclp_into_rtranclp r_into_rtranclp)
  have "fst st2 Struct = Some 1 \<and> fst st2 (Slot 0) = Some 0" by (simp add: st2_def)
  with r write_sessions_deadlock_free [OF r [unfolded p_def]] show ?thesis unfolding p_def by blast
qed

section \<open>Emptying the table\<close>

lemma run_visits:
  assumes "todo t = visits ls @ rest" "\<forall>l \<in> set ls. owner l = None"
  shows "lock_step\<^sup>*\<^sup>* (owner, todo) (owner, todo(t := rest))"
  using assms
proof (induction ls arbitrary: todo)
  case Nil
  then have "todo(t := rest) = todo" by (simp add: visits_def fun_upd_idem)
  then show ?case by simp
next
  case (Cons l ls)
  let ?t1 = "todo(t := Rel l # visits ls @ rest)" and ?t2 = "todo(t := visits ls @ rest)"
  have "lock_step (owner, todo) (owner(l \<mapsto> t), ?t1)"
    by (rule lock_step.acquire) (use Cons.prems in \<open>simp_all add: visits_def visit_def\<close>)
  moreover from lock_step.release [of ?t1 t l "visits ls @ rest" "owner(l \<mapsto> t)"] have "lock_step (owner(l \<mapsto> t), ?t1) (owner, ?t2)"
    using Cons.prems(2) by (simp add: fun_upd_idem)
  moreover have "lock_step\<^sup>*\<^sup>* (owner, ?t2) (owner, ?t2(t := rest))" by (rule Cons.IH) (use Cons.prems in simp_all)
  ultimately show ?case unfolding fun_upd_upd by (meson converse_rtranclp_into_rtranclp)
qed

lemma run_acquire: "todo t = Acq l # as \<Longrightarrow> owner l = None \<Longrightarrow> lock_step\<^sup>*\<^sup>* (owner, todo) (owner(l \<mapsto> t), todo(t := as))"
  by (intro r_into_rtranclp lock_step.acquire)

definition threads :: "acts \<Rightarrow> acts \<Rightarrow> nat \<Rightarrow> acts" where
  "threads a b t = (if t = 0 then a else if t = 1 then b else [])"

lemma threads_simps [simp]: "threads a b 0 = a" "threads a b (Suc 0) = b" "(threads a b)(0 := x) = threads x b"
    "(threads a b)(Suc 0 := y) = threads a y"
  by (auto simp: threads_def)

text \<open>
  C36: Emptying a table can deadlock with the delete of any of its rows. The delete holds the lock of
  its row while it takes the structure mutex to recycle the slot; \<open>fm_core_clear\<close> holds the structure
  mutex while it takes the lock of every slot. For every slot of the table the two can reach a state in
  which neither can go on.
\<close>

theorem delete_all_rows_deadlock:
  assumes "i < n"
  shows "\<exists>owner todo. lock_step\<^sup>*\<^sup>* (\<lambda>_. None, threads (session_locks None [TakeRow kb (int i), DeleteAct (int i) (Some bs)]) (clear_locks nbs n))
      (owner, todo) \<and> owner (Slot (int i)) = Some 0 \<and> owner Struct = Some 1 \<and> todo 0 \<noteq> [] \<and> todo 1 \<noteq> []
    \<and> (\<nexists>st. lock_step (owner, todo) st)"
proof -
  let ?B = "concat (map (\<lambda>(k, m). map (\<lambda>b. Bucket k (of_nat b)) [0 ..< m]) (enumerate 0 nbs))"
  let ?S = "\<lambda>xs. visits (map (\<lambda>i. Slot (int i)) xs)"
  let ?d2 = "visit Struct @ [Rel (Slot (int i))]" and ?c1 = "Acq (Slot (int i)) # Rel (Slot (int i)) # ?S [Suc i ..< n] @ [Rel Struct]"
  define d where "d = session_locks None [TakeRow kb (int i), DeleteAct (int i) (Some bs)]"
  define c where "c = clear_locks nbs n"
  have d: "d = lookup_locks kb @ Acq (Slot (int i)) # visits (key_locks bs) @ ?d2"
    by (simp add: d_def lock_row_def unlock_row_def delete_locked_locks_def)
  have lk: "lookup_locks kb = visits (case kb of None \<Rightarrow> [] | Some (k, b) \<Rightarrow> [Bucket k b])"
    by (cases kb) (auto simp: lookup_locks_def visits_def)
  have "[0 ..< n] = [0 ..< i] @ i # [Suc i ..< n]"
    using upt_add_eq_append [of 0 i "n - i"] upt_conv_Cons [of i n] assms by simp
  then have c: "c = Acq Struct # visits ?B @ ?S [0 ..< i] @ ?c1"
    by (simp add: c_def clear_locks_def visits_def visit_def)
  let ?o1 = "[Slot (int i) \<mapsto> 0]" and ?o2 = "[Slot (int i) \<mapsto> 0, Struct \<mapsto> 1] :: fm_lock \<rightharpoonup> nat"
  have free: "\<forall>l \<in> set ?B. ?o2 l = None" "\<forall>l \<in> set (map (\<lambda>i. Slot (int i)) [0 ..< i]). ?o2 l = None" by auto
  have r0: "lock_step\<^sup>*\<^sup>* (\<lambda>_. None, threads d c) (\<lambda>_. None, threads (Acq (Slot (int i)) # visits (key_locks bs) @ ?d2) c)"
    using run_visits [of "threads d c" 0 _ "Acq (Slot (int i)) # visits (key_locks bs) @ ?d2" "\<lambda>_. None"] d lk by simp
  have "lock_step\<^sup>*\<^sup>* (\<lambda>_. None, threads (Acq (Slot (int i)) # visits (key_locks bs) @ ?d2) c) (?o1, threads (visits (key_locks bs) @ ?d2) c)"
    using run_acquire [of "threads (Acq (Slot (int i)) # visits (key_locks bs) @ ?d2) c" 0 "Slot (int i)" "visits (key_locks bs) @ ?d2" "\<lambda>_. None"] by simp
  then have r1: "lock_step\<^sup>*\<^sup>* (\<lambda>_. None, threads d c) (?o1, threads (visits (key_locks bs) @ ?d2) c)" by (rule rtranclp_trans [OF r0])
  have r2: "lock_step\<^sup>*\<^sup>* (?o1, threads (visits (key_locks bs) @ ?d2) c) (?o1, threads ?d2 c)"
    using run_visits [of "threads (visits (key_locks bs) @ ?d2) c" 0 "key_locks bs" ?d2 ?o1] bucket_lock_set(2) by fastforce
  have r3: "lock_step\<^sup>*\<^sup>* (?o1, threads ?d2 c) (?o2, threads ?d2 (visits ?B @ ?S [0 ..< i] @ ?c1))"
    using run_acquire [of "threads ?d2 c" 1 Struct "visits ?B @ ?S [0 ..< i] @ ?c1" ?o1] c by simp
  have r4: "lock_step\<^sup>*\<^sup>* (?o2, threads ?d2 (visits ?B @ ?S [0 ..< i] @ ?c1)) (?o2, threads ?d2 (?S [0 ..< i] @ ?c1))"
    using run_visits [of "threads ?d2 (visits ?B @ ?S [0 ..< i] @ ?c1)" 1 ?B "?S [0 ..< i] @ ?c1" ?o2, OF _ free(1)] by simp
  have r5: "lock_step\<^sup>*\<^sup>* (?o2, threads ?d2 (?S [0 ..< i] @ ?c1)) (?o2, threads ?d2 ?c1)"
    using run_visits [of "threads ?d2 (?S [0 ..< i] @ ?c1)" 1 "map (\<lambda>i. Slot (int i)) [0 ..< i]" ?c1 ?o2, OF _ free(2)] by simp
  have "lock_step\<^sup>*\<^sup>* (\<lambda>_. None, threads d c) (?o2, threads ?d2 ?c1)"
    by (rule rtranclp_trans [OF r1 rtranclp_trans [OF r2 rtranclp_trans [OF r3 rtranclp_trans [OF r4 r5]]]])
  moreover have "\<nexists>st. lock_step (?o2, threads ?d2 ?c1) st"
    by (auto simp: visit_def threads_def elim!: lock_stepE split: if_splits)
  ultimately show ?thesis unfolding d_def c_def
    by (intro exI [of _ ?o2] exI [of _ "threads ?d2 ?c1"]) (simp add: visit_def)
qed

theorem delete_all_rows_deadlock_witness:
  "\<exists>owner todo. lock_step\<^sup>*\<^sup>* (\<lambda>_. None, threads (session_locks None [TakeRow (Some (0, 5)) 1, DeleteAct 1 (Some [5])]) (clear_locks [16] 2))
      (owner, todo) \<and> todo 0 \<noteq> [] \<and> (\<nexists>st. lock_step (owner, todo) st)"
  using delete_all_rows_deadlock [of 1 2 "Some (0, 5)" "[5]" "[16]"] by auto

section \<open>The locks of the sequential model\<close>

fun run_act :: "fm_lock lock_act \<Rightarrow> FM_SHARE_CORE \<Rightarrow> FM_SHARE_CORE option" where
  "run_act (Acq Struct) s = lock_struct s"
| "run_act (Acq (Bucket k b)) s = lock_bucket s k b"
| "run_act (Acq (Slot i)) s = lock_slot s i"
| "run_act (Rel Struct) s = Some (unlock_struct s)"
| "run_act (Rel (Bucket k b)) s = unlock_bucket s k b"
| "run_act (Rel (Slot i)) s = unlock_slot s i"

primrec run_acts :: "acts \<Rightarrow> FM_SHARE_CORE \<Rightarrow> FM_SHARE_CORE option" where
  "run_acts [] s = Some s"
| "run_acts (a # as) s = do { s1 \<leftarrow> run_act a s; run_acts as s1 }"

lemma run_acts_append: "run_acts (as @ bs) s = do { s1 \<leftarrow> run_acts as s; run_acts bs s1 }"
  by (induction as arbitrary: s) (auto split: bind_splits)

text \<open>The lock loops of the key-changing update are these lists.\<close>

lemma lock_all_acts: "lock_all (sort_locks ls) s = run_acts (map Acq (bucket_locks ls)) s"
proof -
  have "lock_list vs s = run_acts (map Acq (map (\<lambda>(k, b). Bucket (unat k) b) vs)) s" for vs
    by (induction vs arbitrary: s) (auto simp: case_prod_unfold split: bind_splits)
  then show ?thesis by (simp add: lock_all_list bucket_locks_def)
qed

lemma unlock_all_acts: "unlock_all (sort_locks ls) s = run_acts (map Rel (rev (bucket_locks ls))) s"
proof -
  have "unlock_list vs s = run_acts (map Rel (map (\<lambda>(k, b). Bucket (unat k) b) vs)) s" for vs
    by (induction vs arbitrary: s) (auto simp: case_prod_unfold split: bind_splits)
  then show ?thesis by (simp add: unlock_all_list bucket_locks_def rev_map)
qed

end
