(* ===== verification/Fm_Interleave.thy ===== *)
theory Fm_Interleave
  imports Main "HOL-Library.Multiset"
begin

text \<open>
  Threads over a shared state. A thread is its local state; a step of one thread may change the
  shared state and its own. A pool of threads is a multiset, and \<open>interleave\<close> lets any of them move.

  \<open>thread_family\<close> is the interface for safety: an invariant of the shared state and the pool that every
  step of every thread keeps; \<open>counted_family\<close> is the same for an invariant that speaks of the number of
  steps. \<open>finite_threads\<close> adds what it takes to end: a number of steps that a
  thread has left, and that some thread can move as long as one has work.
\<close>

inductive interleave :: "('s \<Rightarrow> 't \<Rightarrow> 's \<Rightarrow> 't \<Rightarrow> bool) \<Rightarrow> 's \<times> 't multiset \<Rightarrow> 's \<times> 't multiset \<Rightarrow> bool"
  for step where
  moves: "step s t s' t' \<Longrightarrow> interleave step (s, add_mset t T) (s', add_mset t' T)"

inductive_cases interleaveE: "interleave step (s, T) (s', T')"

lemma moves_then:
  assumes "step s t s1 t1" "(interleave step)\<^sup>*\<^sup>* (s1, add_mset t1 T) p"
  shows "(interleave step)\<^sup>*\<^sup>* (s, add_mset t T) p"
  using moves [where step = step, OF assms(1), of T] assms(2) by (rule converse_rtranclp_into_rtranclp)

lemma all_move:
  "(\<And>t. t \<in># T \<Longrightarrow> step s t s (f t)) \<Longrightarrow> (interleave step ^^ size T) (s, T + X) (s, image_mset f T + X)"
proof (induction T arbitrary: X)
  case (add t T)
  have "interleave step (s, add_mset t T + X) (s, T + add_mset (f t) X)"
    using interleave.moves [of step s t s "f t" "T + X"] add.prems by simp
  moreover have "(interleave step ^^ size T) (s, T + add_mset (f t) X) (s, image_mset f T + add_mset (f t) X)"
    by (rule add.IH) (use add.prems in simp)
  ultimately show ?case using relpowp_Suc_I2 [of "interleave step"] by simp
qed simp

locale thread_family =
  fixes step :: "'s \<Rightarrow> 't \<Rightarrow> 's \<Rightarrow> 't \<Rightarrow> bool" and inv :: "'s \<times> 't multiset \<Rightarrow> bool"
  assumes keeps: "inv (s, add_mset t T) \<Longrightarrow> step s t s' t' \<Longrightarrow> inv (s', add_mset t' T)"
begin

lemma inv_step: "inv p \<Longrightarrow> interleave step p p' \<Longrightarrow> inv p'"
  by (auto elim!: interleave.cases intro: keeps)

lemma inv_reach: "(interleave step)\<^sup>*\<^sup>* p p' \<Longrightarrow> inv p \<Longrightarrow> inv p'"
  by (induction rule: rtranclp_induct) (auto intro: inv_step)

lemma inv_steps: "(interleave step ^^ n) p p' \<Longrightarrow> inv p \<Longrightarrow> inv p'"
  by (rule inv_reach [OF relpowp_imp_rtranclp])

end

text \<open>An invariant that may loosen with every step, for counters that grow.\<close>

locale counted_family =
  fixes step :: "'s \<Rightarrow> 't \<Rightarrow> 's \<Rightarrow> 't \<Rightarrow> bool" and inv :: "nat \<Rightarrow> 's \<times> 't multiset \<Rightarrow> bool"
  assumes keeps_count: "inv n (s, add_mset t T) \<Longrightarrow> step s t s' t' \<Longrightarrow> inv (Suc n) (s', add_mset t' T)"
begin

lemma inv_after: "(interleave step ^^ n) p p' \<Longrightarrow> inv 0 p \<Longrightarrow> inv n p'"
  by (induction n arbitrary: p') (auto elim!: interleave.cases intro: keeps_count)

end

sublocale thread_family \<subseteq> counted_family step "\<lambda>_. inv"
  by unfold_locales (rule keeps)

locale finite_threads = thread_family step inv
  for step :: "'s \<Rightarrow> 't \<Rightarrow> 's \<Rightarrow> 't \<Rightarrow> bool" and inv +
  fixes work :: "'s \<Rightarrow> 't \<Rightarrow> nat"
  assumes own_work: "inv (s, add_mset t T) \<Longrightarrow> step s t s' t' \<Longrightarrow> work s' t' < work s t"
    and other_work: "inv (s, add_mset t T) \<Longrightarrow> step s t s' t' \<Longrightarrow> work s' u = work s u"
    and progress: "inv (s, T) \<Longrightarrow> t \<in># T \<Longrightarrow> work s t \<noteq> 0 \<Longrightarrow> \<exists>u \<in># T. \<exists>s' u'. step s u s' u'"
begin

lemma work_step:
  assumes "inv p" "interleave step p p'"
  shows "sum_mset (image_mset (work (fst p')) (snd p')) < sum_mset (image_mset (work (fst p)) (snd p))"
  using assms(2)
proof cases
  case (moves s t s' t' T)
  then have "inv (s, add_mset t T)" using assms(1) by simp
  with moves(3) have "work s' t' < work s t" "work s' = work s" using own_work other_work by blast+
  then show ?thesis by (simp add: moves(1,2))
qed

lemma run_bounded:
  "(interleave step ^^ n) p p' \<Longrightarrow> inv p \<Longrightarrow>
    n + sum_mset (image_mset (work (fst p')) (snd p')) \<le> sum_mset (image_mset (work (fst p)) (snd p))"
proof (induction n arbitrary: p')
  case (Suc n)
  then obtain q where q: "(interleave step ^^ n) p q" "interleave step q p'" by auto
  then have "inv q" using inv_steps Suc.prems(2) by blast
  from work_step [OF this q(2)] Suc.IH [OF q(1) Suc.prems(2)] show ?case by simp
qed simp

lemma stuck_finished:
  assumes "inv (s, T)" "\<And>p. \<not> interleave step (s, T) p" "t \<in># T"
  shows "work s t = 0"
proof (rule ccontr)
  assume "work s t \<noteq> 0"
  with progress [OF assms(1,3)] obtain u s' u' where "u \<in># T" "step s u s' u'" by blast
  then have "interleave step (s, T) (s', add_mset u' (T - {#u#}))" using moves [of step s u s' u' "T - {#u#}"] by simp
  with assms(2) show False by blast
qed

end

end
