(* ===== verification/Fm_Threads.thy ===== *)
theory Fm_Threads
  imports Fm_Store Fm_Interleave
begin

text \<open>
  The write operations of the core (\<open>src/fm_core.h\<close>, lines 622 to 1079) run by several threads.

  A call is cut into its sections: the stretches of code that one lock protects, or that touch only
  what the call owns. An insert takes the structure mutex, allocates and fills its slot; then links
  one key after the other, each under its bucket lock; then publishes the row and gives the mutex
  back, or unlinks the keys again. A delete marks its row under the lock of the slot, unlinks its keys
  one by one, raises the generation, and recycles the slot under the structure mutex. Updates and
  clear are one section here. A pool of threads is a multiset of program points, and a step of the
  pool is a section of one of them. A section that must wait for a lock has no step.
\<close>

section \<open>Program points and sections\<close>

datatype thread =
    Insert (new_row: image)
  | Ins_Link image slot_id nat
  | Ins_Undo image slot_id nat
  | Update slot_id u32 image image
  | Delete slot_id u32
  | Del_Unlink slot_id image nat
  | Del_Free slot_id
  | Clear
  | Returned fm_rc "slot_id option" "int option"

text \<open>\<open>Ins_Link rec idx k\<close> and \<open>Del_Unlink idx scratch k\<close> are in the loop over the keys, before key \<open>k\<close>;
  \<open>Ins_Undo rec idx k\<close> is in the loop \<open>while (k-- > 0)\<close>, whose counter ends at \<open>2\<^sup>3\<^sup>2 - 1\<close>.\<close>

fun thread_step :: "FM_SHARE_CORE \<Rightarrow> thread \<Rightarrow> (FM_SHARE_CORE \<times> thread) option" where
  "thread_step s (Insert rec) = do {
     s0 \<leftarrow> lock_struct s;
     (idx, s1) \<leftarrow> fm_core_alloc_slot s0;
     if idx = FM_NULL_SLOT
     then (let s2 = unlock_struct s1 in
       Some (s2, Returned (if chunk_cnt s2 \<ge> chunk_cap s2 then FM_ERR_FULL else FM_ERR_NOMEM) None None))
     else do { s2 \<leftarrow> copy_image s1 idx rec; Some (s2, Ins_Link rec idx 0) } }"
| "thread_step s (Ins_Link rec idx k) =
     (if k < keys s then do {
        (dup, s1) \<leftarrow> insert_keys [k] s rec idx;
        Some (s1, if dup = None then Ins_Link rec idx (k + 1) else Ins_Undo rec idx k) }
      else do {
        sl \<leftarrow> fm_slot s idx;
        let s1 = put_slot s idx (sl\<lparr>sl_state := FM_SLOT_ACTIVE\<rparr>);
        let s2 = s1\<lparr>records := records s1 + 1\<rparr>;
        Some (unlock_struct s2, Returned FM_ERR_OK (Some idx) None) })"
| "thread_step s (Ins_Undo rec idx 0) = do {
     s1 \<leftarrow> fm_core_free_slot s idx;
     Some (unlock_struct s1, Returned FM_ERR_DUP_KEY None (Some (sint (0 - 1 :: u32) + 1))) }"
| "thread_step s (Ins_Undo rec idx (Suc k)) = do {
     s1 \<leftarrow> unlink_keys [k] s rec idx;
     Some (s1, Ins_Undo rec idx k) }"
| "thread_step s (Update idx g old_rec new_rec) = do {
     (rc, errkey, s1) \<leftarrow> fm_core_update_row s idx g old_rec new_rec;
     Some (s1, Returned rc None errkey) }"
| "thread_step s (Delete idx g) = do {
     s1 \<leftarrow> lock_slot s idx;
     sl \<leftarrow> fm_slot s1 idx;
     if slot_gone sl g then do { s2 \<leftarrow> unlock_slot s1 idx; Some (s2, Returned FM_ERR_DELETED None None) }
     else do {
       let s2 = put_slot s1 idx (sl\<lparr>sl_state := FM_SLOT_DELETING\<rparr>);
       s3 \<leftarrow> unlock_slot s2 idx;
       Some (s3, Del_Unlink idx (take (reclength s) (sl_data sl)) 0) } }"
| "thread_step s (Del_Unlink idx scratch k) =
     (if k < keys s then do {
        s1 \<leftarrow> unlink_keys [k] s scratch idx;
        Some (s1, Del_Unlink idx scratch (k + 1)) }
      else do {
        sl \<leftarrow> fm_slot s idx;
        let s1 = put_slot s idx (sl\<lparr>sl_state := FM_SLOT_DELETED, sl_gen := sl_gen sl + 1\<rparr>);
        Some (s1\<lparr>records := records s1 - 1\<rparr>, Del_Free idx) })"
| "thread_step s (Del_Free idx) = do {
     s1 \<leftarrow> lock_struct s;
     s2 \<leftarrow> fm_core_free_slot s1 idx;
     Some (unlock_struct s2, Returned FM_ERR_OK None None) }"
| "thread_step s Clear = do {
     s1 \<leftarrow> fm_core_clear s;
     Some (s1, Returned FM_ERR_OK None None) }"
| "thread_step s (Returned rc out errkey) = None"

type_synonym thread_pool = "FM_SHARE_CORE \<times> thread multiset"

definition section_step :: "FM_SHARE_CORE \<Rightarrow> thread \<Rightarrow> FM_SHARE_CORE \<Rightarrow> thread \<Rightarrow> bool" where
  "section_step s t s' t' \<longleftrightarrow> thread_step s t = Some (s', t')"

abbreviation pool_step :: "thread_pool \<Rightarrow> thread_pool \<Rightarrow> bool" where
  "pool_step \<equiv> interleave section_step"

section \<open>The sections of a call, run without interruption, are the call\<close>

lemma insert_keys_append: "insert_keys (ks @ ls) s rec i = do {
    (dup, s1) \<leftarrow> insert_keys ks s rec i; if dup = None then insert_keys ls s1 rec i else Some (dup, s1) }"
  by (induction ks arbitrary: s) (auto intro!: Option.bind_cong split: prod.splits)

lemma unlink_keys_append: "unlink_keys (ks @ ls) s rec i = do { s1 \<leftarrow> unlink_keys ks s rec i; unlink_keys ls s1 rec i }"
  by (induction ks arbitrary: s) (simp_all add: case_prod_unfold)

lemma put_key_next_keys [simp]: "keys (put_key_next s k i v) = keys s"
  by (simp add: put_key_next_def)

lemma unlink_loop_keys:
  assumes "unlink_loop s k idx l = Some y"
  shows "keys (snd y) = keys s"
proof (rule unlink_loop.raw_induct [where P = "\<lambda>s k idx l y. keys (snd y) = keys s", OF _ assms])
  fix f and s' :: FM_SHARE_CORE and k idx l and y :: "fm_rc \<times> FM_SHARE_CORE"
  assume IH: "\<And>s k idx l y. f s k idx l = Some y \<Longrightarrow> keys (snd y) = keys s"
    and run: "do { cur \<leftarrow> read_link s' k l;
        if cur = FM_NULL_SLOT then Some (FM_ERR_NOT_FOUND, s')
        else if cur = idx then do { nx \<leftarrow> fm_key_next s' k idx; Some (FM_ERR_OK, write_link s' k l nx) }
        else f s' k idx (LinkNext cur) } = Some y"
  from run obtain cur where "cur = FM_NULL_SLOT \<and> y = (FM_ERR_NOT_FOUND, s') \<or> (\<exists>nx. y = (FM_ERR_OK, write_link s' k l nx))
    \<or> f s' k idx (LinkNext cur) = Some y" by (auto simp: bind_eq_Some_conv split: if_splits)
  then show "keys (snd y) = keys s'" by (cases l) (auto simp: write_link_def dest: IH)
qed

lemma lock_bucket_keys: "lock_bucket s k b = Some s' \<Longrightarrow> keys s' = keys s" "unlock_bucket s k b = Some s' \<Longrightarrow> keys s' = keys s"
  by (auto simp: lock_bucket_def unlock_bucket_def bind_eq_Some_conv)

lemma insert_keys_keys: "insert_keys [k] s rec i = Some (dup, s1) \<Longrightarrow> keys s1 = keys s \<and> (dup = None \<or> dup = Some k)"
  by (auto simp: bind_eq_Some_conv fm_core_chain_link_def Let_def dest!: lock_bucket_keys split: if_splits)

lemma unlink_keys_keys: "unlink_keys [k] s rec i = Some s1 \<Longrightarrow> keys s1 = keys s"
  by (auto simp: bind_eq_Some_conv fm_core_chain_unlink_def dest!: lock_bucket_keys unlink_loop_keys split: prod.splits)

lemma section_then:
  "thread_step s t = Some (s1, t1) \<Longrightarrow> pool_step\<^sup>*\<^sup>* (s1, add_mset t1 T) p \<Longrightarrow> pool_step\<^sup>*\<^sup>* (s, add_mset t T) p"
  by (rule moves_then) (simp_all add: section_step_def)

lemma links_alone:
  assumes "insert_keys [k ..< keys s] s rec i = Some (dup, s1)" "k \<le> keys s"
  shows "pool_step\<^sup>*\<^sup>* (s, add_mset (Ins_Link rec i k) T)
    (s1, add_mset (case dup of None \<Rightarrow> Ins_Link rec i (keys s1) | Some k \<Rightarrow> Ins_Undo rec i k) T)"
  using assms
proof (induction "keys s - k" arbitrary: k s)
  case 0
  then show ?case by simp
next
  case (Suc n)
  have k: "k < keys s" "[k ..< keys s] = [k] @ [Suc k ..< keys s]" using Suc.hyps(2) by (simp_all add: upt_rec)
  obtain d s2 where d: "insert_keys [k] s rec i = Some (d, s2)"
    "(if d = None then insert_keys [Suc k ..< keys s] s2 rec i else Some (d, s2)) = Some (dup, s1)"
    using Suc.prems(1) unfolding k(2) insert_keys_append by (auto simp: bind_eq_Some_conv simp del: insert_keys.simps)
  note kp = insert_keys_keys [OF d(1)]
  show ?case
  proof (cases d)
    case None
    have "thread_step s (Ins_Link rec i k) = Some (s2, Ins_Link rec i (Suc k))" using k(1) d(1) None by (simp del: insert_keys.simps)
    moreover have "n = keys s2 - Suc k" "insert_keys [Suc k ..< keys s2] s2 rec i = Some (dup, s1)" "Suc k \<le> keys s2"
      using kp Suc.hyps(2) d(2) None k(1) by auto
    ultimately show ?thesis by (rule section_then [OF _ Suc.hyps(1)])
  next
    case (Some j)
    then have "thread_step s (Ins_Link rec i k) = Some (s2, Ins_Undo rec i k)" using k(1) d(1) by (simp del: insert_keys.simps)
    then show ?thesis by (rule section_then) (use Some kp d(2) in auto)
  qed
qed

lemma undo_alone:
  "rollback_keys k s rec i = Some (s1, e) \<Longrightarrow> pool_step\<^sup>*\<^sup>* (s, add_mset (Ins_Undo rec i k) T) (s1, add_mset (Ins_Undo rec i 0) T) \<and> e = 0 - 1"
proof (induction k arbitrary: s)
  case (Suc k)
  obtain s2 where s2: "unlink_keys [k] s rec i = Some s2" "rollback_keys k s2 rec i = Some (s1, e)"
    using Suc.prems by (auto simp: bind_eq_Some_conv)
  have "thread_step s (Ins_Undo rec i (Suc k)) = Some (s2, Ins_Undo rec i k)" using s2(1) by (simp del: unlink_keys.simps)
  with Suc.IH [OF s2(2)] show ?case by (blast intro: section_then)
qed simp

lemma unlinks_alone:
  assumes "unlink_keys [k ..< keys s] s rec i = Some s1" "k \<le> keys s"
  shows "pool_step\<^sup>*\<^sup>* (s, add_mset (Del_Unlink i rec k) T) (s1, add_mset (Del_Unlink i rec (keys s1)) T)"
  using assms
proof (induction "keys s - k" arbitrary: k s)
  case 0
  then show ?case by simp
next
  case (Suc n)
  have k: "k < keys s" "[k ..< keys s] = [k] @ [Suc k ..< keys s]" using Suc.hyps(2) by (simp_all add: upt_rec)
  obtain s2 where s2: "unlink_keys [k] s rec i = Some s2" "unlink_keys [Suc k ..< keys s] s2 rec i = Some s1"
    using Suc.prems(1) unfolding k(2) unlink_keys_append by (auto simp: bind_eq_Some_conv simp del: unlink_keys.simps)
  have "thread_step s (Del_Unlink i rec k) = Some (s2, Del_Unlink i rec (Suc k))" using k(1) s2(1) by (simp del: unlink_keys.simps)
  moreover have "n = keys s2 - Suc k" "unlink_keys [Suc k ..< keys s2] s2 rec i = Some s1" "Suc k \<le> keys s2"
    using unlink_keys_keys [OF s2(1)] Suc.hyps(2) s2(2) k(1) by auto
  ultimately show ?case by (rule section_then [OF _ Suc.hyps(1)])
qed

lemma insert_alone:
  assumes "fm_core_insert_row s rec = Some (rc, out, errkey, s')"
  shows "pool_step\<^sup>*\<^sup>* (s, add_mset (Insert rec) T) (s', add_mset (Returned rc out errkey) T)"
proof -
  obtain s0 idx s1 where s1: "lock_struct s = Some s0" "fm_core_alloc_slot s0 = Some (idx, s1)"
    using assms by (auto simp: fm_core_insert_row_def bind_eq_Some_conv)
  show ?thesis
  proof (cases "idx = FM_NULL_SLOT")
    case True
    then have "thread_step s (Insert rec) = Some (s', Returned rc out errkey)"
      using assms s1 by (auto simp: fm_core_insert_row_def Let_def)
    then show ?thesis by (rule section_then) simp
  next
    case False
    obtain s2 dup s3 where s3: "copy_image s1 idx rec = Some s2" "insert_keys [0 ..< keys s2] s2 rec idx = Some (dup, s3)"
      using assms s1 False by (auto simp: fm_core_insert_row_def bind_eq_Some_conv)
    have "thread_step s (Insert rec) = Some (s2, Ins_Link rec idx 0)" using s1 s3(1) False by simp
    moreover note links_alone [OF s3(2), of T]
    moreover have "pool_step\<^sup>*\<^sup>* (s3, add_mset (case dup of None \<Rightarrow> Ins_Link rec idx (keys s3) | Some k \<Rightarrow> Ins_Undo rec idx k) T)
      (s', add_mset (Returned rc out errkey) T)"
    proof (cases dup)
      case None
      then have "thread_step s3 (Ins_Link rec idx (keys s3)) = Some (s', Returned rc out errkey)"
        using assms s1 s3 False by (auto simp: fm_core_insert_row_def bind_eq_Some_conv Let_def)
      then show ?thesis using None by (auto intro: section_then)
    next
      case (Some k)
      then obtain s4 e s5 where s5: "rollback_keys k s3 rec idx = Some (s4, e)" "fm_core_free_slot s4 idx = Some s5"
        "rc = FM_ERR_DUP_KEY" "out = None" "errkey = Some (sint e + 1)" "s' = unlock_struct s5"
        using assms s1 s3 False by (auto simp: fm_core_insert_row_def bind_eq_Some_conv Let_def)
      note u = undo_alone [OF s5(1), of T]
      have "thread_step s4 (Ins_Undo rec idx 0) = Some (s', Returned rc out errkey)" using s5 u by simp
      from section_then [OF this rtranclp.rtrancl_refl] u show ?thesis using Some by (auto intro: rtranclp_trans)
    qed
    ultimately show ?thesis by (auto intro: section_then rtranclp_trans)
  qed
qed

lemma delete_alone:
  assumes "fm_core_delete_row s idx g = Some (rc, s')"
  shows "pool_step\<^sup>*\<^sup>* (s, add_mset (Delete idx g) T) (s', add_mset (Returned rc None None) T)"
proof -
  obtain s1 sl where s1: "lock_slot s idx = Some s1" "fm_slot s1 idx = Some sl"
    using assms by (auto simp: fm_core_delete_row_def bind_eq_Some_conv)
  show ?thesis
  proof (cases "slot_gone sl g")
    case True
    then have "thread_step s (Delete idx g) = Some (s', Returned rc None None)"
      using assms s1 by (auto simp: fm_core_delete_row_def bind_eq_Some_conv)
    then show ?thesis by (rule section_then) simp
  next
    case False
    let ?s2 = "put_slot s1 idx (sl\<lparr>sl_state := FM_SLOT_DELETING\<rparr>)"
    obtain s3 where s3: "unlock_slot ?s2 idx = Some s3" "delete_tail s3 idx = Some s'" "rc = FM_ERR_OK"
      using assms s1 False by (auto simp: fm_core_delete_row_def bind_eq_Some_conv Let_def)
    have hs: "has_slot (chunks s) idx" "has_slot (chunks s1) idx"
      using lock_slot_SomeD [OF s1(1)] by simp_all
    have sl3: "fm_slot s3 idx = Some (sl\<lparr>sl_state := FM_SLOT_DELETING, sl_wlock := False\<rparr>)" "reclength s3 = reclength s"
      using s3(1) s1(1) hs by (auto simp: unlock_slot_def lock_slot_def bind_eq_Some_conv put_slot_views spin_unlock_def)
    let ?scr = "take (reclength s) (sl_data sl)"
    have "thread_step s (Delete idx g) = Some (s3, Del_Unlink idx ?scr 0)" using s1 s3(1) False by (simp add: Let_def)
    moreover obtain s4 where s4: "unlink_keys [0 ..< keys s3] s3 ?scr idx = Some s4"
      using s3(2) sl3 by (auto simp: delete_tail_def bind_eq_Some_conv Let_def)
    moreover note unlinks_alone [OF s4, of T]
    moreover obtain s5 s6 where s5: "thread_step s4 (Del_Unlink idx ?scr (keys s4)) = Some (s5, Del_Free idx)"
      "thread_step s5 (Del_Free idx) = Some (s', Returned rc None None)"
      using s3(2,3) sl3 s4 by (auto simp: delete_tail_def bind_eq_Some_conv Let_def)
    moreover have "pool_step\<^sup>*\<^sup>* (s4, add_mset (Del_Unlink idx ?scr (keys s4)) T) (s', add_mset (Returned rc None None) T)"
      by (rule section_then [OF s5(1) section_then [OF s5(2)]]) simp
    ultimately show ?thesis by (auto intro: section_then rtranclp_trans)
  qed
qed

end
