(* ===== verification/Fm_Pool.thy ===== *)
theory Fm_Pool
  imports Fm_Threads
begin

text \<open>
  A pool of writers (\<open>Fm_Threads\<close>) keeps the table well formed whatever the schedule: the invariant of a
  pool, that every section keeps it, and that a section leaves the abstract table (\<open>row_table\<close>) as it is
  or makes one of its steps. Two locales are interpreted on the sections of the core: \<open>refines\<close>
  (the pool implements the abstract table) and \<open>finite_threads\<close> (every schedule ends).
\<close>

section \<open>The invariant of a pool\<close>

text \<open>
  Between two sections no slot lock and no bucket lock is taken; the structure mutex belongs to at
  most one insert. The slots of the calls that are under way belong to their threads: they are neither
  rows nor free, and the chains they are in follow from the program point.
\<close>

fun owns :: "thread \<Rightarrow> slot_id multiset" where
  "owns (Ins_Link rec i k) = {#i#}"
| "owns (Ins_Undo rec i k) = {#i#}"
| "owns (Del_Unlink i scratch k) = {#i#}"
| "owns (Del_Free i) = {#i#}"
| "owns _ = {#}"

fun deletes :: "thread \<Rightarrow> slot_id multiset" where
  "deletes (Del_Unlink i scratch k) = {#i#}"
| "deletes _ = {#}"

fun has_mutex :: "thread \<Rightarrow> bool" where
  "has_mutex (Ins_Link rec i k) = True"
| "has_mutex (Ins_Undo rec i k) = True"
| "has_mutex _ = False"

fun will_delete :: "thread \<Rightarrow> bool" where
  "will_delete (Delete i g) = True"
| "will_delete _ = False"

definition owned :: "thread multiset \<Rightarrow> slot_id multiset" where
  "owned T = sum_mset (image_mset owns T)"

definition deleted :: "thread multiset \<Rightarrow> slot_id multiset" where
  "deleted T = sum_mset (image_mset deletes T)"

abbreviation holders :: "thread multiset \<Rightarrow> nat" where
  "holders T \<equiv> size (filter_mset has_mutex T)"

abbreviation todo :: "thread multiset \<Rightarrow> nat" where
  "todo T \<equiv> size (filter_mset will_delete T)"

text \<open>The abstract table of a pool: a row that is being deleted has the generation it will get.\<close>

definition pool_gen :: "FM_SHARE_CORE \<Rightarrow> thread multiset \<Rightarrow> slot_id \<Rightarrow> u32" where
  "pool_gen s T i = gen_of s i + of_nat (count (deleted T) i)"

definition pool_view :: "thread_pool \<Rightarrow> row_table" where
  "pool_view p = (rows (fst p), pool_gen (fst p) (snd p))"

text \<open>
  The position \<open>(i, g)\<close> an update was given: the slot is \<open>m\<close> deletes further, fewer than it takes to
  come round to \<open>g\<close>, and as long as it is none, the row has the key of the image the update started from.
\<close>

definition position :: "FM_SHARE_CORE \<Rightarrow> (slot_id \<Rightarrow> u32) \<Rightarrow> nat \<Rightarrow> slot_id \<Rightarrow> u32 \<Rightarrow> image \<Rightarrow> bool" where
  "position s G n i g old_rec \<longleftrightarrow> (\<exists>m. G i = g + of_nat m \<and> m + n < 2 ^ 32
     \<and> (m = 0 \<longrightarrow> (\<exists>cur. rows s i = Some cur \<and> same_keys s cur old_rec)))"

fun thread_ok :: "FM_SHARE_CORE \<Rightarrow> index_map \<Rightarrow> (slot_id \<Rightarrow> u32) \<Rightarrow> nat \<Rightarrow> thread \<Rightarrow> bool" where
  "thread_ok s M G n (Insert rec) \<longleftrightarrow> length rec = reclength s"
| "thread_ok s M G n (Ins_Link rec i k) \<longleftrightarrow> length rec = reclength s \<and> sl_data (slot_of (chunks s) i) = rec \<and> k \<le> keys s
     \<and> (\<forall>j < k. \<not> dup_row s rec j) \<and> (\<forall>j < keys s. M j i = (if j < k then Some (bucket_of (keydef s ! j) rec) else None))"
| "thread_ok s M G n (Ins_Undo rec i k) \<longleftrightarrow> k \<le> keys s
     \<and> (\<forall>j < keys s. M j i = (if j < k then Some (bucket_of (keydef s ! j) rec) else None))"
| "thread_ok s M G n (Update i g old_rec new_rec) \<longleftrightarrow> has_slot (chunks s) i \<and> length new_rec = reclength s
     \<and> same_keys s old_rec new_rec \<and> position s G n i g old_rec"
| "thread_ok s M G n (Delete i g) \<longleftrightarrow> has_slot (chunks s) i"
| "thread_ok s M G n (Del_Unlink i scratch k) \<longleftrightarrow> k \<le> keys s
     \<and> (\<forall>j < keys s. M j i = (if k \<le> j then Some (bucket_of (keydef s ! j) scratch) else None))"
| "thread_ok s M G n (Del_Free i) \<longleftrightarrow> (\<forall>j < keys s. M j i = None)"
| "thread_ok s M G n Clear \<longleftrightarrow> False"
| "thread_ok s M G n (Returned rc out errkey) \<longleftrightarrow> True"

definition pool :: "FM_SHARE_CORE \<Rightarrow> thread multiset \<Rightarrow> index_map \<Rightarrow> slot_id list \<Rightarrow> bool" where
  "pool s T M F \<longleftrightarrow> body s M (set_mset (owned T)) F \<and> (\<forall>i. count (owned T) i \<le> 1) \<and> (\<forall>i. \<not> held s i)
     \<and> (\<forall>k < keys s. \<forall>i. i \<notin># owned T \<longrightarrow> M k i = index_of s k i)
     \<and> (\<forall>t \<in># T. thread_ok s M (pool_gen s T) (todo T) t)
     \<and> holders T = (if struct_mutex s then 1 else 0)
     \<and> records s = int (card {i. active s i}) + int (size (deleted T))"

definition pool_inv :: "thread_pool \<Rightarrow> bool" where
  "pool_inv p \<longleftrightarrow> (\<exists>M F. pool (fst p) (snd p) M F)"

lemma owned_simps [simp]: "owned {#} = {#}" "owned (add_mset t T) = owns t + owned T"
  "deleted {#} = {#}" "deleted (add_mset t T) = deletes t + deleted T"
  by (simp_all add: owned_def deleted_def)

lemma count_one_disjoint:
  assumes "count (A + B) i \<le> 1" "i \<in># B"
  shows "i \<notin># A"
proof
  assume "i \<in># A"
  then have "0 < count A i" "0 < count B i" using assms(2) by (simp_all only: count_greater_zero_iff)
  then show False using assms(1) unfolding count_union by linarith
qed

lemma static_keys:
  assumes "static s' = static s" "k < length (keydef s)"
  shows "rec_cmp (keydef s' ! k) = rec_cmp (keydef s ! k)" "bucket_of (keydef s' ! k) = bucket_of (keydef s ! k)"
    "null_key (keydef s' ! k) = null_key (keydef s ! k)" "kc_unique (keydef s' ! k) = kc_unique (keydef s ! k)"
proof -
  have e: "map (\<lambda>kc. (kc_ops kc, kc_unique kc, kc_nbuckets kc)) (keydef s') = map (\<lambda>kc. (kc_ops kc, kc_unique kc, kc_nbuckets kc)) (keydef s)"
    using assms(1) by (simp add: static_def)
  then have "length (keydef s') = length (keydef s)" using map_eq_imp_length_eq by blast
  then have "kc_ops (keydef s' ! k) = kc_ops (keydef s ! k) \<and> kc_unique (keydef s' ! k) = kc_unique (keydef s ! k)
      \<and> kc_nbuckets (keydef s' ! k) = kc_nbuckets (keydef s ! k)"
    using arg_cong [OF e, of "\<lambda>l. l ! k"] assms(2) by simp
  then show "rec_cmp (keydef s' ! k) = rec_cmp (keydef s ! k)" "bucket_of (keydef s' ! k) = bucket_of (keydef s ! k)"
    "null_key (keydef s' ! k) = null_key (keydef s ! k)" "kc_unique (keydef s' ! k) = kc_unique (keydef s ! k)"
    by (simp_all add: rec_cmp_def bucket_of_def null_key_def rec_hash_def fm_bucket_def fun_eq_iff)
qed

text \<open>What a section of another thread must leave alone.\<close>

lemma thread_ok_frame:
  assumes ok: "thread_ok s M G n t" and kr: "keys_ready s" and st: "static s' = static s"
    and hs: "\<And>i. has_slot (chunks s) i \<Longrightarrow> has_slot (chunks s') i"
    and own: "\<And>i. i \<in># owns t \<Longrightarrow> sl_data (slot_of (chunks s') i) = sl_data (slot_of (chunks s) i) \<and> (\<forall>k < keys s. M' k i = M k i)"
    and dup: "\<And>rec k. has_mutex t \<Longrightarrow> k < keys s \<Longrightarrow> dup_row s' rec k \<Longrightarrow> dup_row s rec k"
    and pos: "\<And>i g old_rec. position s G n i g old_rec \<Longrightarrow> position s' G' n' i g old_rec"
  shows "thread_ok s' M' G' n' t"
proof -
  have k: "keys s' = keys s" "reclength s' = reclength s" using st by (simp_all add: static_def)
  have len: "keys s = length (keydef s)" using kr by (simp add: keys_ready_def)
  note parts = static_keys [OF st, folded len]
  have same: "same_keys s' a b \<longleftrightarrow> same_keys s a b" for a b by (simp add: same_keys_def k parts)
  show ?thesis
    using ok own dup pos hs by (cases t) (auto simp: k parts same)
qed

lemma pool_next:
  assumes p: "pool s (add_mset t T) M F" and b: "body s' M' (set_mset (owns t' + owned T)) F'" and st: "static s' = static s"
    and hs: "\<And>i. has_slot (chunks s) i \<Longrightarrow> has_slot (chunks s') i"
    and own: "\<And>i. i \<in># owned T \<Longrightarrow> sl_data (slot_of (chunks s') i) = sl_data (slot_of (chunks s) i) \<and> (\<forall>k < keys s. M' k i = M k i)"
    and one: "\<And>i. count (owns t' + owned T) i \<le> 1" and held: "\<And>i. \<not> held s' i"
    and ix: "\<And>k i. k < keys s \<Longrightarrow> i \<notin># owns t' + owned T \<Longrightarrow> M' k i = index_of s' k i"
    and mine: "thread_ok s' M' (pool_gen s' (add_mset t' T)) (todo (add_mset t' T)) t'"
    and dup: "\<And>rec k. holders T \<noteq> 0 \<Longrightarrow> k < keys s \<Longrightarrow> dup_row s' rec k \<Longrightarrow> dup_row s rec k"
    and pos: "\<And>i g old_rec. position s (pool_gen s (add_mset t T)) (todo (add_mset t T)) i g old_rec
      \<Longrightarrow> position s' (pool_gen s' (add_mset t' T)) (todo (add_mset t' T)) i g old_rec"
    and mx: "(if has_mutex t' then 1 else 0) + holders T = (if struct_mutex s' then 1 else 0)"
    and rc: "records s' = int (card {i. active s' i}) + int (size (deletes t' + deleted T))"
  shows "pool s' (add_mset t' T) M' F'"
proof -
  have k: "keys s' = keys s" using st by (simp add: static_def)
  have kr: "keys_ready s" using p bodyD(6) by (auto simp: pool_def)
  have "thread_ok s' M' (pool_gen s' (add_mset t' T)) (todo (add_mset t' T)) u" if u: "u \<in># T" for u
  proof (rule thread_ok_frame [OF _ kr st hs _ _ pos])
    show "thread_ok s M (pool_gen s (add_mset t T)) (todo (add_mset t T)) u" using p u by (simp add: pool_def)
    have "owns u \<subseteq># owned T" using u by (auto simp: owned_def dest!: multi_member_split)
    then show "sl_data (slot_of (chunks s') i) = sl_data (slot_of (chunks s) i) \<and> (\<forall>k < keys s. M' k i = M k i)" if "i \<in># owns u" for i
      using own that by (meson mset_subset_eqD)
    show "dup_row s rec k" if "has_mutex u" "k < keys s" "dup_row s' rec k" for rec k
    proof (rule dup [OF _ that(2,3)])
      show "holders T \<noteq> 0" using u that(1) by auto
    qed
  qed
  moreover have "holders (add_mset t' T) = (if struct_mutex s' then 1 else 0)" using mx by (cases "has_mutex t'") auto
  ultimately show ?thesis using b one held ix mine rc by (auto simp: pool_def k)
qed

text \<open>Sections that change neither the rows nor their generations.\<close>

definition same_view :: "FM_SHARE_CORE \<Rightarrow> FM_SHARE_CORE \<Rightarrow> bool" where
  "same_view s s' \<longleftrightarrow> rows s' = rows s \<and> active s' = active s \<and> held s' = held s \<and> gen_of s' = gen_of s \<and> static s' = static s
     \<and> records s' = records s \<and> (\<forall>i. has_slot (chunks s) i \<longrightarrow> has_slot (chunks s') i)"

lemma same_view_keys:
  assumes "static s' = static s" "keys_ready s"
  shows "same_keys s' = same_keys s" "rows s' = rows s \<Longrightarrow> k < keys s \<Longrightarrow> index_of s' k = index_of s k"
    "rows s' = rows s \<Longrightarrow> k < keys s \<Longrightarrow> dup_row s' rec k = dup_row s rec k"
proof -
  have k: "keys s' = keys s" and len: "keys s = length (keydef s)" using assms by (simp_all add: static_def keys_ready_def)
  note parts = static_keys [OF assms(1), folded len]
  show "same_keys s' = same_keys s" by (auto simp: same_keys_def k parts fun_eq_iff)
  show "rows s' = rows s \<Longrightarrow> k < keys s \<Longrightarrow> index_of s' k = index_of s k" by (simp add: index_of_def parts fun_eq_iff)
  show "rows s' = rows s \<Longrightarrow> k < keys s \<Longrightarrow> dup_row s' rec k = dup_row s rec k" by (simp add: dup_row_def parts)
qed

lemma pool_next_same:
  assumes p: "pool s (add_mset t T) M F" and v: "same_view s s'" and b: "body s' M' (set_mset (owns t' + owned T)) F'"
    and own: "\<And>i. i \<in># owned T \<Longrightarrow> sl_data (slot_of (chunks s') i) = sl_data (slot_of (chunks s) i)"
    and one: "\<And>i. count (owns t' + owned T) i \<le> 1"
    and M': "\<And>k i. k < keys s \<Longrightarrow> i \<notin># owns t' \<Longrightarrow> M' k i = M k i" and left: "\<And>k i. k < keys s \<Longrightarrow> i \<in># owns t \<Longrightarrow> i \<notin># owns t' \<Longrightarrow> M k i = None"
    and mine: "thread_ok s' M' (pool_gen s (add_mset t T)) (todo (add_mset t' T)) t'"
    and td: "deletes t' = deletes t" "\<not> will_delete t'"
    and mx: "(if has_mutex t' then 1 else 0) + holders T = (if struct_mutex s' then 1 else 0)"
  shows "pool s' (add_mset t' T) M' F' \<and> pool_view (s', add_mset t' T) = pool_view (s, add_mset t T) \<and> static s' = static s"
proof (intro conjI)
  have b0: "body s M (set_mset (owned (add_mset t T))) F" using p by (simp add: pool_def)
  note v' = v [unfolded same_view_def] and sv = same_view_keys [OF _ bodyD(6) [OF b0]]
  have st: "static s' = static s" using v' by simp
  have pg: "pool_gen s' (add_mset t' T) = pool_gen s (add_mset t T)" using v' td by (simp add: pool_gen_def fun_eq_iff)
  have none: "rows s i = None" if "i \<in># owned (add_mset t T)" for i
    using bodyD(10) [OF b0, of i] that by (simp add: rows_eq_None_iff)
  show "pool s' (add_mset t' T) M' F'"
  proof (rule pool_next [OF p b st])
    show "M' k i = index_of s' k i" if k: "k < keys s" "i \<notin># owns t' + owned T" for k i
    proof (cases "i \<in># owns t")
      case True
      then show ?thesis using that M' [of k i] left [of k i] none [of i] sv(2) [OF st _ k(1)] v' by (auto simp: index_of_def)
    next
      case False
      then have "M k i = index_of s k i" using p k by (auto simp: pool_def)
      then show ?thesis using that M' [of k i] sv(2) [OF st _ k(1)] v' by auto
    qed
    show "position s' (pool_gen s' (add_mset t' T)) (todo (add_mset t' T)) i g old_rec"
      if "position s (pool_gen s (add_mset t T)) (todo (add_mset t T)) i g old_rec" for i g old_rec
      using that v' td sv(1) [OF st] unfolding pg position_def by (auto split: if_splits)
    show "sl_data (slot_of (chunks s') i) = sl_data (slot_of (chunks s) i) \<and> (\<forall>k < keys s. M' k i = M k i)" if i: "i \<in># owned T" for i
    proof -
      have "i \<notin># owns t'" by (rule count_one_disjoint [OF one i])
      then show ?thesis using own [OF i] M' by blast
    qed
    show "thread_ok s' M' (pool_gen s' (add_mset t' T)) (todo (add_mset t' T)) t'" using mine pg by simp
    show "records s' = int (card {i. active s' i}) + int (size (deletes t' + deleted T))" using p v' td(1) by (simp add: pool_def)
    show "\<not> held s' i" for i using p v' by (simp add: pool_def)
    show "dup_row s rec k" if "k < keys s" "dup_row s' rec k" for rec k using that sv(3) [OF st] v' by simp
  qed (use v' one mx in auto)
  show "pool_view (s', add_mset t' T) = pool_view (s, add_mset t T)" using v' pg by (simp add: pool_view_def)
  show "static s' = static s" by (rule st)
qed

section \<open>Every section keeps the invariant\<close>

lemma poolD:
  assumes "pool s T M F"
  shows "body s M (set_mset (owned T)) F" "count (owned T) i \<le> 1" "\<not> held s i"
    "k < keys s \<Longrightarrow> i \<notin># owned T \<Longrightarrow> M k i = index_of s k i" "t \<in># T \<Longrightarrow> thread_ok s M (pool_gen s T) (todo T) t"
    "holders T = (if struct_mutex s then 1 else 0)" "records s = int (card {i. active s i}) + int (size (deleted T))"
    "k < keys s \<Longrightarrow> covers s M k"
proof -
  show b: "body s M (set_mset (owned T)) F" and M: "k < keys s \<Longrightarrow> i \<notin># owned T \<Longrightarrow> M k i = index_of s k i" for k i
    using assms by (auto simp: pool_def)
  show "count (owned T) i \<le> 1" "\<not> held s i" "t \<in># T \<Longrightarrow> thread_ok s M (pool_gen s T) (todo T) t"
    "holders T = (if struct_mutex s then 1 else 0)" "records s = int (card {i. active s i}) + int (size (deleted T))"
    using assms by (auto simp: pool_def)
  have "i \<notin># owned T" if "rows s i = Some r" for i r
    using bodyD(10) [OF b, of i] that rows_eq_None_iff [of s i] by fastforce
  then show "k < keys s \<Longrightarrow> covers s M k" using M by (auto simp: covers_def index_of_def)
qed

text \<open>What a section does to the rows, and to the generations they have in the abstract table.\<close>

fun section_rows :: "FM_SHARE_CORE \<Rightarrow> thread \<Rightarrow> slot_id \<rightharpoonup> image" where
  "section_rows s (Ins_Link rec i k) = (if k < keys s then rows s else (rows s)(i \<mapsto> rec))"
| "section_rows s (Update i g old_rec new_rec) = (if rows s i = None \<or> gen_of s i \<noteq> g then rows s else (rows s)(i \<mapsto> new_rec))"
| "section_rows s (Delete i g) = (if rows s i = None \<or> gen_of s i \<noteq> g then rows s else (rows s)(i := None))"
| "section_rows s t = rows s"

fun section_gens :: "FM_SHARE_CORE \<Rightarrow> thread \<Rightarrow> (slot_id \<Rightarrow> u32) \<Rightarrow> slot_id \<Rightarrow> u32" where
  "section_gens s (Delete i g) G = (if rows s i = None \<or> gen_of s i \<noteq> g then G else G(i := G i + 1))"
| "section_gens s t G = G"

abbreviation advances :: "FM_SHARE_CORE \<Rightarrow> thread \<Rightarrow> thread multiset \<Rightarrow> bool" where
  "advances s t T \<equiv> \<exists>s' t'. thread_step s t = Some (s', t') \<and> pool_inv (s', add_mset t' T)
     \<and> table_step (pool_view (s, add_mset t T)) (pool_view (s', add_mset t' T)) \<and> static s' = static s
     \<and> rows s' = section_rows s t \<and> pool_gen s' (add_mset t' T) = section_gens s t (pool_gen s (add_mset t T))"

lemma table_step_refl: "table_step v v"
  by (cases v) (simp add: skip)

lemma advances_same:
  assumes "thread_step s t = Some (s', t')" "pool s' (add_mset t' T) M' F' \<and> pool_view (s', add_mset t' T) = pool_view (s, add_mset t T) \<and> static s' = static s"
    and "section_rows s t = rows s" "section_gens s t = id"
  shows "advances s t T"
  using assms table_step_refl by (auto simp: pool_inv_def pool_view_def)

lemma same_table_view: "same_table (s\<lparr>struct_mutex := l\<rparr>) s' \<Longrightarrow> same_view s s'"
  by (simp add: same_table_def same_view_def)

lemma same_rows_view': "same_rows s s' \<Longrightarrow> same_view s s'"
  by (simp add: same_rows_def same_view_def)

lemma advances_Insert:
  assumes p: "pool s (add_mset (Insert rec) T) M F" and mx: "\<not> struct_mutex s"
  shows "advances s (Insert rec) T"
proof -
  let ?s0 = "s\<lparr>struct_mutex := True\<rparr>"
  note d = poolD [OF p, simplified]
  have len: "length rec = reclength s" using poolD(5) [OF p, of "Insert rec"] by simp
  have l: "lock_struct s = Some ?s0" using mx by (simp add: lock_struct_def spin_lock_def)
  have h0: "holders T = 0" using d(6) mx by simp
  have "body ?s0 M (set_mset (owned T)) F" using d(1) by simp
  then show ?thesis
  proof (cases rule: body_alloc)
    case (none m)
    let ?s' = "s\<lparr>struct_mutex := False, allocs := m\<rparr>"
    have e: "thread_step s (Insert rec)
        = Some (?s', Returned (if chunk_cnt s \<ge> chunk_cap s then FM_ERR_FULL else FM_ERR_NOMEM) None None)"
      using none(1) l by (simp add: unlock_struct_def spin_unlock_def Let_def)
    show ?thesis
      by (rule advances_same [OF e pool_next_same [OF p]]) (use d h0 in \<open>auto simp: same_view_def fun_eq_iff\<close>)
  next
    case (slot i s1 F1)
    let ?sl = "slot_of (chunks s1) i"
    let ?s2 = "put_slot s1 i (?sl\<lparr>sl_data := take (reclength s1) rec\<rparr>)"
    note st1 = slot(4) [unfolded same_table_def, simplified] and d1 = bodyD [OF slot(3)]
    have hs: "has_slot (chunks s1) i" "\<not> active s1 i" using d1(8,10) by auto
    have c2: "copy_image s1 i rec = Some ?s2" using hs(1) len st1 by (simp add: copy_image_def fm_slot_eq)
    have na: "sl_state ?sl \<noteq> FM_SLOT_ACTIVE" "even (sl_seq ?sl)" using hs d1(5) by (simp_all add: active_def quiet_def)
    have b2: "body ?s2 M (insert i (set_mset (owned T))) F1" and st2: "same_table s1 ?s2"
      using put_owned [OF slot(3), of i "?sl\<lparr>sl_data := take (reclength s1) rec\<rparr>"] na by auto
    have e: "thread_step s (Insert rec) = Some (?s2, Ins_Link rec i 0)" using slot(1,2) l c2 by simp
    have st: "same_table ?s0 ?s2" by (rule same_table_trans [OF slot(4) st2])
    note st' = st [unfolded same_table_def, simplified]
    have ni: "i \<notin># owned T" using slot(5) by simp
    have Mi: "\<forall>k < keys s. M k i = None" using d(4) [of _ i] ni hs(2) st1 by (auto simp: index_of_def rows_eq_None_iff)
    have dat: "sl_data (slot_of (chunks ?s2) j) = sl_data (slot_of (chunks s) j)" if "j \<in># owned T" for j
      using slot(6) bodyD(8) [OF d(1), of j] that ni put_slot_views(1) [OF hs(1)] by auto
    have dati: "sl_data (slot_of (chunks ?s2) i) = rec" using put_slot_views(1) [OF hs(1)] len st1 by simp
    show ?thesis
    proof (rule advances_same [OF e pool_next_same [OF p same_table_view [OF st]]])
      show "count (owns (Ins_Link rec i 0) + owned T) j \<le> 1" for j using d(2) [of j] ni by (auto simp: not_in_iff)
      show "body ?s2 M (set_mset (owns (Ins_Link rec i 0) + owned T)) F1" using b2 by simp
    qed (use dat dati len st' h0 Mi in \<open>auto simp: fun_eq_iff\<close>)
  qed
qed

lemma pool_mine: "pool s (add_mset t T) M F \<Longrightarrow> thread_ok s M (pool_gen s (add_mset t T)) (todo (add_mset t T)) t"
  by (rule poolD(5)) simp_all

lemma owned_slot:
  assumes p: "pool s (add_mset t T) M F" and t: "owns t = {#i#}"
  shows "has_slot (chunks s) i" "\<not> active s i" "rows s i = None" "i \<notin># owned T" "body s M (insert i (set_mset (owned T))) F"
    "even (sl_seq (slot_of (chunks s) i))"
proof -
  note d = poolD(1,2) [OF p]
  show b: "body s M (insert i (set_mset (owned T))) F" using d(1) t by simp
  then show "has_slot (chunks s) i" "\<not> active s i" using bodyD(8,10) [OF b, of i] by auto
  then show "rows s i = None" "even (sl_seq (slot_of (chunks s) i))" using bodyD(5) [OF b] by (simp_all add: rows_eq_None_iff quiet_def)
  have "count ({#i#} + owned T) i \<le> 1" using d(2) [of i] t by simp
  then show "i \<notin># owned T" using count_one_disjoint [of "{#i#}" "owned T" i] by auto
qed

text \<open>Sections that only change the chains of a slot the thread owns.\<close>

lemma advances_links:
  assumes p: "pool s (add_mset t T) M F" and t: "owns t = {#i#}" "owns t' = {#i#}" "deletes t' = deletes t"
    "\<not> will_delete t'" "has_mutex t' = has_mutex t"
    and e: "thread_step s t = Some (s', t')" and l: "links_changed s s'" "indexed s' M'"
    and M': "\<And>k j. k < keys s \<Longrightarrow> j \<noteq> i \<Longrightarrow> M' k j = M k j"
    and mine: "thread_ok s M' (pool_gen s (add_mset t T)) (todo T) t'" and rw: "section_rows s t = rows s"
  shows "advances s t T"
proof -
  note d = poolD [OF p] and o = owned_slot [OF p t(1)] and sr = links_changed_same_rows [OF l(1)]
  have sl: "slot_of (chunks s') = slot_of (chunks s)" using links_changedD(1) [OF l(1)] by simp
  have b: "body s' M' (set_mset (owns t' + owned T)) F" using body_links [OF o(5) l] t(2) by simp
  have ok: "thread_ok s' M' (pool_gen s (add_mset t T)) (todo (add_mset t' T)) t'"
  proof (rule thread_ok_frame [OF mine bodyD(6) [OF o(5)]])
    show "position s' (pool_gen s (add_mset t T)) (todo (add_mset t' T)) j g old_rec"
      if "position s (pool_gen s (add_mset t T)) (todo T) j g old_rec" for j g old_rec
      using that t(4) sr same_view_keys(1) [OF _ bodyD(6) [OF o(5)], of s'] by (simp add: position_def same_rows_def)
  qed (use sr sl in \<open>auto simp: same_rows_def\<close>)
  have mx: "(if has_mutex t' then 1 else 0) + holders T = (if struct_mutex s' then 1 else 0)"
    using d(6) t(5) sr by (cases "has_mutex t") (auto simp: same_rows_def split: if_splits)
  have one: "count (owns t' + owned T) j \<le> 1" for j using d(2) [of j] t by simp
  have gn: "section_gens s t = id" using t(1) by (cases t) (simp_all add: fun_eq_iff)
  show ?thesis
    by (rule advances_same [OF e pool_next_same [OF p same_rows_view' [OF sr] b _ one _ _ ok t(3,4) mx] rw gn]) (use sl M' t in auto)
qed

lemma advances_Ins_Link:
  assumes p: "pool s (add_mset (Ins_Link rec i k) T) M F" and k: "k < keys s"
  shows "advances s (Ins_Link rec i k) T"
proof -
  note d = poolD [OF p] and o = owned_slot [OF p owns.simps(1)]
  note ok = pool_mine [OF p, simplified]
  have "\<forall>j \<in> set [k]. j < keys s \<and> M j i = None \<and> covers s M j" using k ok d(8) by auto
  from insert_keys_eq [OF bodyD(2,3) [OF o(5)] _ this o(1), of rec] obtain s' where
    s': "insert_keys [k] s rec i = Some (find (dup_row s rec) [k], s')" "links_changed s s'"
      "indexed s' (link_at M (set (takeWhile (\<lambda>k. \<not> dup_row s rec k) [k])) (\<lambda>k. bucket_of (keydef s ! k) rec) i)" by auto
  show ?thesis
  proof (cases "dup_row s rec k")
    case True
    then have e: "thread_step s (Ins_Link rec i k) = Some (s', Ins_Undo rec i k)" using s'(1) k by (simp del: insert_keys.simps)
    from s'(3) True have ix: "indexed s' M" by (simp add: link_at_def)
    show ?thesis by (rule advances_links [OF p _ _ _ _ _ e s'(2) ix]) (use ok k in auto)
  next
    case False
    let ?M = "link_at M {k} (\<lambda>k. bucket_of (keydef s ! k) rec) i"
    have e: "thread_step s (Ins_Link rec i k) = Some (s', Ins_Link rec i (Suc k))" using s'(1) k False by (simp del: insert_keys.simps)
    have ix: "indexed s' ?M" using s'(3) False by simp
    show ?thesis
      by (rule advances_links [OF p _ _ _ _ _ e s'(2) ix]) (use ok k False in \<open>auto simp: link_at_def less_Suc_eq\<close>)
  qed
qed

lemma advances_Ins_Undo:
  assumes p: "pool s (add_mset (Ins_Undo rec i (Suc k)) T) M F"
  shows "advances s (Ins_Undo rec i (Suc k)) T"
proof -
  note d = poolD [OF p] and o = owned_slot [OF p owns.simps(2)]
  note ok = pool_mine [OF p, simplified]
  have "\<forall>j \<in> set [k]. j < keys s \<and> M j i = Some (bucket_of (keydef s ! j) rec)" using ok by auto
  from unlink_keys_eq [OF bodyD(2,3) [OF o(5)] _ this] obtain s' where
    s': "unlink_keys [k] s rec i = Some s'" "links_changed s s'" "indexed s' (unlink_at M {k} i)" by auto
  have e: "thread_step s (Ins_Undo rec i (Suc k)) = Some (s', Ins_Undo rec i k)" using s'(1) by (simp del: unlink_keys.simps)
  show ?thesis
    by (rule advances_links [OF p _ _ _ _ _ e s'(2,3)]) (use ok in \<open>auto simp: unlink_at_def less_Suc_eq\<close>)
qed

lemma advances_Del_Unlink:
  assumes p: "pool s (add_mset (Del_Unlink i scr k) T) M F" and k: "k < keys s"
  shows "advances s (Del_Unlink i scr k) T"
proof -
  note d = poolD [OF p] and o = owned_slot [OF p owns.simps(3)]
  note ok = pool_mine [OF p, simplified]
  have "\<forall>j \<in> set [k]. j < keys s \<and> M j i = Some (bucket_of (keydef s ! j) scr)" using ok k by auto
  from unlink_keys_eq [OF bodyD(2,3) [OF o(5)] _ this] obtain s' where
    s': "unlink_keys [k] s scr i = Some s'" "links_changed s s'" "indexed s' (unlink_at M {k} i)" by auto
  have e: "thread_step s (Del_Unlink i scr k) = Some (s', Del_Unlink i scr (Suc k))" using s'(1) k by (simp del: unlink_keys.simps)
  show ?thesis
    by (rule advances_links [OF p _ _ _ _ _ e s'(2,3)]) (use ok k in \<open>auto simp: unlink_at_def\<close>)
qed

text \<open>Sections that give the slot back.\<close>

lemma advances_free:
  assumes p: "pool s (add_mset t T) M F" and t: "owns t = {#i#}" "deletes t = {#}"
    and M: "\<And>k. k < keys s \<Longrightarrow> M k i = None" and mx: "holders T = 0" and rw: "section_rows s t = rows s"
    and e: "thread_step s t = do { s1 \<leftarrow> fm_core_free_slot (s\<lparr>struct_mutex := True\<rparr>) i; Some (unlock_struct s1, Returned rc None ek) }"
  shows "advances s t T"
proof -
  note d = poolD [OF p] and o = owned_slot [OF p t(1)]
  have "body (s\<lparr>struct_mutex := True\<rparr>) M (insert i (set_mset (owned T))) F" using o(5) by simp
  from body_free_slot [OF this, of i] o(4) obtain s1 where s1: "fm_core_free_slot (s\<lparr>struct_mutex := True\<rparr>) i = Some s1"
    "body s1 M (set_mset (owned T)) (i # F)" "same_table (s\<lparr>struct_mutex := True\<rparr>) s1" by auto
  let ?s = "s1\<lparr>struct_mutex := False\<rparr>"
  have run: "thread_step s t = Some (?s, Returned rc None ek)" using e s1(1) by (simp add: unlock_struct_def spin_unlock_def)
  have v: "same_view s ?s" using s1(3) by (simp add: same_table_def same_view_def)
  have b: "body ?s M (set_mset (owns (Returned rc None ek) + owned T)) (i # F)" using s1(2) by simp
  have sl: "s1 = (put_slot (s\<lparr>struct_mutex := True\<rparr>) i ((slot_of (chunks s) i)\<lparr>sl_free_next := free_head s\<rparr>))\<lparr>free_head := i\<rparr>"
    using s1(1) o(1) by (simp add: fm_core_free_slot_def fm_slot_eq)
  have dat: "sl_data (slot_of (chunks ?s) j) = sl_data (slot_of (chunks s) j)" for j
    using o(1) by (simp add: sl put_slot_def)
  have one: "count (owned T) j \<le> 1" for j using d(2) [of j] t(1) by (simp split: if_splits)
  have gn: "section_gens s t = id" using t(1) by (cases t) (simp_all add: fun_eq_iff)
  show ?thesis
    by (rule advances_same [OF run pool_next_same [OF p v b] rw gn]) (use one M t mx dat in auto)
qed

lemma advances_Ins_Undo_0:
  assumes p: "pool s (add_mset (Ins_Undo rec i 0) T) M F"
  shows "advances s (Ins_Undo rec i 0) T"
proof (rule advances_free [OF p])
  have mx: "struct_mutex s" "holders T = 0" using poolD(6) [OF p] by (auto split: if_splits)
  have same: "s\<lparr>struct_mutex := True\<rparr> = s" using mx(1) by (cases s) simp
  show "holders T = 0" by (rule mx(2))
  show "thread_step s (Ins_Undo rec i 0) = do { s1 \<leftarrow> fm_core_free_slot (s\<lparr>struct_mutex := True\<rparr>) i;
      Some (unlock_struct s1, Returned FM_ERR_DUP_KEY None (Some (sint (0 - 1 :: u32) + 1))) }" unfolding same by simp
qed (use pool_mine [OF p] in simp_all)

lemma advances_Del_Free:
  assumes p: "pool s (add_mset (Del_Free i) T) M F" and mx: "\<not> struct_mutex s"
  shows "advances s (Del_Free i) T"
proof (rule advances_free [OF p])
  show "holders T = 0" using poolD(6) [OF p] mx by (auto split: if_splits)
  show "thread_step s (Del_Free i) = do { s1 \<leftarrow> fm_core_free_slot (s\<lparr>struct_mutex := True\<rparr>) i;
      Some (unlock_struct s1, Returned FM_ERR_OK None None) }"
    using mx by (simp add: lock_struct_def spin_lock_def)
qed (use pool_mine [OF p] in simp_all)


text \<open>The section that publishes a row.\<close>

lemma advances_publish:
  assumes p: "pool s (add_mset (Ins_Link rec i (keys s)) T) M F"
  shows "advances s (Ins_Link rec i (keys s)) T"
proof -
  note d = poolD [OF p] and o = owned_slot [OF p owns.simps(1)]
  note ok = pool_mine [OF p, simplified]
  let ?v = "(slot_of (chunks s) i)\<lparr>sl_state := FM_SLOT_ACTIVE\<rparr>" and ?t = "Returned FM_ERR_OK (Some i) None"
  let ?s1 = "put_slot s i ?v"
  let ?s' = "?s1\<lparr>records := records s + 1, struct_mutex := False\<rparr>"
  have e: "thread_step s (Ins_Link rec i (keys s)) = Some (?s', ?t)"
    using o(1) by (simp add: fm_slot_eq Let_def unlock_struct_def spin_unlock_def)
  have h0: "holders T = 0" using d(6) by (simp split: if_splits)
  have img: "take (reclength s) (sl_data ?v) = rec" "reclength s \<le> length (sl_data ?v)" using ok by auto
  have "may_put s i rec" using ok by (auto simp: may_put_def dup_row_def)
  moreover have "i \<notin> set F" using bodyD(12) [OF o(5)] by auto
  ultimately have "body ?s1 M (set_mset (owned T)) F"
    using body_put_slot [OF o(5) o(1), of ?v] img o(4,6) by simp
  then have b: "body ?s' M (set_mset (owns ?t + owned T)) F" by (simp add: body_def uniq_def)
  have v: "rows ?s' = (rows s)(i \<mapsto> rec)" "active ?s' = (active s)(i := True)" "held ?s' = held s" "gen_of ?s' = gen_of s"
    using put_slot_views(2,3) [OF o(1), of ?v] put_slot_keeps [OF o(1), of ?v] img by auto
  have gen: "pool_gen ?s' (add_mset ?t T) = pool_gen s (add_mset (Ins_Link rec i (keys s)) T)"
    using v(4) by (simp add: pool_gen_def fun_eq_iff)
  have "pool ?s' (add_mset ?t T) M F"
  proof (rule pool_next [OF p b])
    show "position ?s' (pool_gen ?s' (add_mset ?t T)) (todo (add_mset ?t T)) j g old_rec"
      if "position s (pool_gen s (add_mset (Ins_Link rec i (keys s)) T)) (todo (add_mset (Ins_Link rec i (keys s)) T)) j g old_rec" for j g old_rec
      using that o(3) unfolding gen position_def v(1) by (auto simp: same_keys_def)
    show "M k j = index_of ?s' k j" if "k < keys s" "j \<notin># owns ?t + owned T" for k j
      using that d(4) [of k j] ok v(1) by (auto simp: index_of_def)
    show "records ?s' = int (card {j. active ?s' j}) + int (size (deletes ?t + deleted T))"
    proof -
      have "{j. active ?s' j} = insert i {j. active s j}" using v(2) by auto
      then show ?thesis using d(7) o(2) finite_active [OF bodyD(1) [OF o(5)]] by simp
    qed
    show "count (owns ?t + owned T) j \<le> 1" for j using d(2) [of j] by (simp split: if_splits)
  qed (use d(3) v(3) h0 o(1) put_slot_views(1) [OF o(1)] in auto)
  moreover have "table_step (pool_view (s, add_mset (Ins_Link rec i (keys s)) T)) (pool_view (?s', add_mset ?t T))"
    using o(3) unfolding pool_view_def fst_conv snd_conv gen v(1) by (intro put) simp
  moreover have "rows ?s' = section_rows s (Ins_Link rec i (keys s))" using v(1) by simp
  ultimately show ?thesis using e gen by (auto simp: pool_inv_def)
qed

text \<open>The two sections in which a delete changes the table.\<close>

lemma advances_mark:
  assumes p: "pool s (add_mset (Del_Unlink i scr (keys s)) T) M F"
  shows "advances s (Del_Unlink i scr (keys s)) T"
proof -
  note d = poolD [OF p] and o = owned_slot [OF p owns.simps(3)]
  note ok = pool_mine [OF p, simplified]
  let ?sl = "slot_of (chunks s) i"
  let ?v = "?sl\<lparr>sl_state := FM_SLOT_DELETED, sl_gen := sl_gen ?sl + 1\<rparr>"
  let ?s1 = "put_slot s i ?v"
  let ?s' = "?s1\<lparr>records := records s - 1\<rparr>"
  have e: "thread_step s (Del_Unlink i scr (keys s)) = Some (?s', Del_Free i)"
    using o(1) by (simp add: fm_slot_eq Let_def)
  have "body ?s1 M (insert i (set_mset (owned T))) F" using put_owned(1) [OF o(5), of i ?v] o(6) by simp
  then have b: "body ?s' M (set_mset (owns (Del_Free i) + owned T)) F" by simp
  have v: "rows ?s' = rows s" "active ?s' = active s" "held ?s' = held s" "gen_of ?s' = (gen_of s)(i := gen_of s i + 1)"
    using put_slot_views(2,3,5) [OF o(1), of ?v] put_slot_keeps [OF o(1), of ?v] o(1-3) by (auto simp: gen_of_def fun_upd_idem_iff)
  have gen: "pool_gen ?s' (add_mset (Del_Free i) T) = pool_gen s (add_mset (Del_Unlink i scr (keys s)) T)"
    unfolding pool_gen_def v(4) by (auto simp: fun_eq_iff)
  have "pool ?s' (add_mset (Del_Free i) T) M F"
  proof (rule pool_next [OF p b])
    show "position ?s' (pool_gen ?s' (add_mset (Del_Free i) T)) (todo (add_mset (Del_Free i) T)) j g old_rec"
      if "position s (pool_gen s (add_mset (Del_Unlink i scr (keys s)) T)) (todo (add_mset (Del_Unlink i scr (keys s)) T)) j g old_rec" for j g old_rec
      using that unfolding gen position_def v(1) by (auto simp: same_keys_def)
    show "M k j = index_of ?s' k j" if "k < keys s" "j \<notin># owns (Del_Free i) + owned T" for k j
      using that d(4) [of k j] v(1) by (auto simp: index_of_def)
    show "dup_row s rec k" if "dup_row ?s' rec k" for rec k using that v(1) by (simp add: dup_row_def)
    show "records ?s' = int (card {j. active ?s' j}) + int (size (deletes (Del_Free i) + deleted T))" using d(7) v(2) by simp
    show "count (owns (Del_Free i) + owned T) j \<le> 1" for j using d(2) [of j] by simp
    show "(if has_mutex (Del_Free i) then 1 else 0) + holders T = (if struct_mutex ?s' then 1 else 0)" using d(6) by simp
    show "thread_ok ?s' M (pool_gen ?s' (add_mset (Del_Free i) T)) (todo (add_mset (Del_Free i) T)) (Del_Free i)" using ok by simp
  qed (use d(3) v(3) o(1,4) put_slot_views(1) [OF o(1)] in auto)
  moreover have "pool_view (?s', add_mset (Del_Free i) T) = pool_view (s, add_mset (Del_Unlink i scr (keys s)) T)"
    unfolding pool_view_def fst_conv snd_conv gen v(1) ..
  moreover have "static ?s' = static s" by simp
  ultimately show ?thesis using advances_same [OF e] by (simp add: fun_eq_iff)
qed

lemma dup_row_subset:
  assumes "keys s' = keys s" "keydef s' = keydef s" "\<And>i r. rows s' i = Some r \<Longrightarrow> rows s i = Some r"
  shows "dup_row s' rec k \<Longrightarrow> dup_row s rec k"
  using assms by (auto simp: dup_row_def)

lemma advances_Delete:
  assumes p: "pool s (add_mset (Delete i g) T) M F"
  shows "advances s (Delete i g) T"
proof -
  note d = poolD [OF p, simplified]
  have i: "has_slot (chunks s) i" using pool_mine [OF p] by simp
  let ?sl = "slot_of (chunks s) i"
  let ?l = "put_slot s i (?sl\<lparr>sl_wlock := True\<rparr>)"
  have w: "\<not> sl_wlock ?sl" using d(3) [of i] i by (simp add: held_def)
  note enter = lock_slot_eq [OF i d(3)] put_slot_views(6) [OF i, of "?sl\<lparr>sl_wlock := True\<rparr>"]
  show ?thesis
  proof (cases "slot_gone ?sl g")
    case True
    have "unlock_slot ?l i = Some s" using unlock_put_slot [OF i w] put_slot_same [OF i refl] by simp
    then have e: "thread_step s (Delete i g) = Some (s, Returned FM_ERR_DELETED None None)"
      using True enter by (simp add: slot_gone_def)
    show ?thesis by (rule advances_same [OF e pool_next_same [OF p]])
        (use d True slot_gone_iff [OF i] in \<open>auto simp: same_view_def fun_eq_iff\<close>)
  next
    case False
    then obtain r where r: "rows s i = Some r" and g: "gen_of s i = g" using slot_gone_iff [OF i] by auto
    have a: "active s i" using r by (auto simp: rows_def split: if_splits)
    then have ni: "i \<notin># owned T" "i \<notin> set F" using bodyD(10,11) [OF d(1), of i] by auto
    let ?v = "?sl\<lparr>sl_state := FM_SLOT_DELETING\<rparr>" and ?t = "Del_Unlink i r 0"
    let ?s' = "put_slot s i ?v"
    have v': "?sl\<lparr>sl_wlock := True, sl_state := FM_SLOT_DELETING\<rparr> = ?v\<lparr>sl_wlock := True\<rparr>" by (cases ?sl) simp
    have u: "unlock_slot (put_slot ?l i (?sl\<lparr>sl_wlock := True, sl_state := FM_SLOT_DELETING\<rparr>)) i = Some ?s'"
      using unlock_put_slot [OF i, of ?v] w unfolding v' by (simp add: put_slot_views(7) [OF i])
    have e: "thread_step s (Delete i g) = Some (?s', ?t)"
      using False u enter r a by (simp add: Let_def slot_gone_def rows_def)
    have ev: "even (sl_seq ?sl)" using bodyD(5) [OF d(1)] i by (simp add: quiet_def)
    have b: "body ?s' M (set_mset (owns ?t + owned T)) F" using body_put_slot [OF d(1) i ni(2), of ?v] ev by simp
    have v: "rows ?s' = (rows s)(i := None)" "active ?s' = (active s)(i := False)" "held ?s' = held s" "gen_of ?s' = gen_of s"
      using put_slot_views(2,3) [OF i, of ?v] put_slot_keeps [OF i, of ?v] by auto
    have gen: "pool_gen ?s' (add_mset ?t T) = (pool_gen s (add_mset (Delete i g) T))(i := pool_gen s (add_mset (Delete i g) T) i + 1)"
      unfolding pool_gen_def v(4) by (auto simp: fun_eq_iff)
    have "pool ?s' (add_mset ?t T) M F"
    proof (rule pool_next [OF p b])
      show "position ?s' (pool_gen ?s' (add_mset ?t T)) (todo (add_mset ?t T)) j g' old_rec"
        if "position s (pool_gen s (add_mset (Delete i g) T)) (todo (add_mset (Delete i g) T)) j g' old_rec" for j g' old_rec
      proof -
        from that obtain m where m: "pool_gen s (add_mset (Delete i g) T) j = g' + of_nat m" "m + Suc (todo T) < 2 ^ 32"
          "m = 0 \<longrightarrow> (\<exists>cur. rows s j = Some cur \<and> same_keys s cur old_rec)" by (auto simp: position_def)
        show ?thesis unfolding position_def gen v(1)
          by (rule exI [of _ "if j = i then Suc m else m"]) (use m in \<open>auto simp: same_keys_def\<close>)
      qed
      show "M k j = index_of ?s' k j" if "k < keys s" "j \<notin># owns ?t + owned T" for k j
        using that d(4) [of k j] v(1) by (auto simp: index_of_def)
      show "dup_row s rec k" if "dup_row ?s' rec k" for rec k
        using that v(1) by (intro dup_row_subset [of ?s' s rec k]) (auto split: if_splits)
      show "records ?s' = int (card {j. active ?s' j}) + int (size (deletes ?t + deleted T))"
      proof -
        have "{j. active ?s' j} = {j. active s j} - {i}" using v(2) by auto
        moreover have "0 < card {j. active s j}" using a finite_active [OF bodyD(1) [OF d(1)]] by (auto simp: card_gt_0_iff)
        ultimately show ?thesis using d(7) a finite_active [OF bodyD(1) [OF d(1)]] by (simp add: of_nat_diff)
      qed
      show "count (owns ?t + owned T) j \<le> 1" for j using d(2) [of j] ni(1) by (auto simp: not_in_iff)
      show "(if has_mutex ?t then 1 else 0) + holders T = (if struct_mutex ?s' then 1 else 0)" using d(6) by simp
      show "thread_ok ?s' M (pool_gen ?s' (add_mset ?t T)) (todo (add_mset ?t T)) ?t"
        using d(4) [of _ i] ni(1) r by (auto simp: index_of_def)
    qed (use d(3) v(3) i ni(1) put_slot_views(1) [OF i] in auto)
    moreover have "table_step (pool_view (s, add_mset (Delete i g) T)) (pool_view (?s', add_mset ?t T))"
      using r unfolding pool_view_def fst_conv snd_conv gen v(1) by (intro remove) simp
    moreover have "rows ?s' = section_rows s (Delete i g)" using v(1) r g by simp
    moreover have "pool_gen ?s' (add_mset ?t T) = section_gens s (Delete i g) (pool_gen s (add_mset (Delete i g) T))" unfolding gen using r g by simp
    ultimately show ?thesis using e by (auto simp: pool_inv_def)
  qed
qed

text \<open>An update that keeps the keys.\<close>

lemma changed_of_nil: "changed_of s old_rec new_rec = [] \<longleftrightarrow> same_keys s old_rec new_rec"
  by (auto simp: changed_of_def same_keys_def filter_empty_conv)

lemma ex_row_upd:
  assumes "m i = Some a" "P a = P b"
  shows "(\<exists>j r. (m(i \<mapsto> b)) j = Some r \<and> P r) \<longleftrightarrow> (\<exists>j r. m j = Some r \<and> P r)"
proof
  assume "\<exists>j r. (m(i \<mapsto> b)) j = Some r \<and> P r"
  then show "\<exists>j r. m j = Some r \<and> P r" using assms by (auto split: if_splits)
next
  assume "\<exists>j r. m j = Some r \<and> P r"
  then obtain j r where j: "m j = Some r" "P r" by blast
  show "\<exists>j r. (m(i \<mapsto> b)) j = Some r \<and> P r"
    by (rule exI [of _ j], rule exI [of _ "if j = i then b else r"]) (use assms j in auto)
qed

lemma same_keys_row:
  assumes kr: "keys_ready s" and c: "rows s i = Some cur" "same_keys s cur new_rec" and s': "keys s' = keys s" "keydef s' = keydef s"
    "rows s' = (rows s)(i \<mapsto> new_rec)"
  shows "k < keys s \<Longrightarrow> index_of s' k = index_of s k" "k < keys s \<Longrightarrow> dup_row s' rec k = dup_row s rec k" "same_keys s' = same_keys s"
    "same_keys s cur old_rec = same_keys s new_rec old_rec"
proof -
  have ready: "rec_cmp (keydef s ! k) cur new_rec = 0" "bucket_of (keydef s ! k) cur = bucket_of (keydef s ! k) new_rec"
    "rec_cmp (keydef s ! k) cur x = 0 \<longleftrightarrow> rec_cmp (keydef s ! k) new_rec x = 0" if "k < keys s" for k x
  proof -
    show c': "rec_cmp (keydef s ! k) cur new_rec = 0" using c(2) that by (simp add: same_keys_def)
    show "bucket_of (keydef s ! k) cur = bucket_of (keydef s ! k) new_rec" "rec_cmp (keydef s ! k) cur x = 0 \<longleftrightarrow> rec_cmp (keydef s ! k) new_rec x = 0"
      using key_readyD(10,12) [OF keys_readyD(1) [OF kr that] c'] by auto
  qed
  show "index_of s' k = index_of s k" if k: "k < keys s" using c(1) ready(2) [OF k] by (simp add: index_of_def s' fun_eq_iff)
  show "dup_row s' rec k = dup_row s rec k" if k: "k < keys s"
    unfolding dup_row_def s'
      ex_row_upd [where m = "rows s" and i = i and a = cur and b = new_rec and P = "\<lambda>r. rec_cmp (keydef s ! k) r rec = 0", OF c(1) ready(3) [OF k]] ..
  show "same_keys s' = same_keys s" by (simp add: same_keys_def s' fun_eq_iff)
  show "same_keys s cur old_rec = same_keys s new_rec old_rec" using ready(3) by (simp add: same_keys_def)
qed

lemma same_keys_trans: "keys_ready s \<Longrightarrow> same_keys s a b \<Longrightarrow> same_keys s b c \<Longrightarrow> same_keys s a c"
  unfolding same_keys_def using key_readyD(12) keys_readyD(1) by metis

lemma advances_Update:
  assumes p: "pool s (add_mset (Update i g old_rec new_rec) T) M F"
  shows "advances s (Update i g old_rec new_rec) T"
proof -
  let ?u = "Update i g old_rec new_rec" and ?sl = "slot_of (chunks s) i"
  note d = poolD [OF p, simplified] and ok = pool_mine [OF p, simplified]
  have i: "has_slot (chunks s) i" and len: "length new_rec = reclength s" and same: "same_keys s old_rec new_rec" using ok by auto
  have kr: "keys_ready s" by (rule bodyD(6) [OF d(1)])
  have nil: "changed_of s old_rec new_rec = []" using same by (simp add: changed_of_nil)
  note run = update_row_in_place [OF kr i d(3) len nil, of g]
  show ?thesis
  proof (cases "slot_gone ?sl g")
    case True
    then have e: "thread_step s ?u = Some (s, Returned FM_ERR_DELETED None None)" using run by simp
    show ?thesis by (rule advances_same [OF e pool_next_same [OF p]])
        (use d True slot_gone_iff [OF i] in \<open>auto simp: same_view_def fun_eq_iff\<close>)
  next
    case False
    then obtain cur where c: "rows s i = Some cur" "gen_of s i = g" using slot_gone_iff [OF i] by auto
    have a: "active s i" using c(1) by (auto simp: rows_def split: if_splits)
    then have ni: "i \<notin># owned T" "i \<notin> set F" using bodyD(10,11) [OF d(1), of i] by auto
    let ?v = "rewritten ?sl new_rec" and ?t = "Returned FM_ERR_OK None None"
    let ?s' = "put_slot s i ?v"
    have e: "thread_step s ?u = Some (?s', ?t)" using run False by simp
    have sub: "deleted T \<subseteq># owned T" unfolding deleted_def owned_def
    proof (induction T)
      case (add t T)
      have "deletes t \<subseteq># owns t" by (cases t) auto
      with add show ?case by (simp add: subset_mset.add_mono)
    qed simp
    then have "i \<notin># deleted T" using ni(1) mset_subset_eqD [OF sub, of i] by blast
    then have "pool_gen s (add_mset ?u T) i = g" using c(2) by (simp add: pool_gen_def not_in_iff)
    moreover obtain m where "pool_gen s (add_mset ?u T) i = g + of_nat m" "m + todo T < 2 ^ 32"
      "m = 0 \<longrightarrow> (\<exists>cur. rows s i = Some cur \<and> same_keys s cur old_rec)" using ok by (auto simp: position_def)
    ultimately have so: "same_keys s cur old_rec"
      using c(1) of_nat_inverse [of m "0 :: u32"] by (auto simp: of_nat_eq_0_iff) 
    from same_keys_trans [OF kr so same] have sk: "same_keys s cur new_rec" .
    have st: "sl_state ?sl = FM_SLOT_ACTIVE" using a by (simp add: active_def)
    have v: "rows ?s' = (rows s)(i \<mapsto> new_rec)" "active ?s' = active s" "held ?s' = held s" "gen_of ?s' = gen_of s"
      using put_slot_views(2,3) [OF i, of ?v] put_slot_keeps [OF i, of ?v] len st a by (auto simp: fun_upd_idem_iff)
    note same_row = same_keys_row [OF kr c(1) sk _ _ v(1), simplified]
    have ev: "even (sl_seq ?sl + 1 + 1)" using bodyD(5) [OF d(1)] i by (auto simp: quiet_def intro!: even_add_two_steps)
    have "may_put s i new_rec" by (rule update_may_put [OF d(1) c(1) so]) (simp add: nil)
    then have b: "body ?s' M (set_mset (owns ?t + owned T)) F"
      using body_put_slot [OF d(1) i ni(2), of ?v] ev st len ni(1) by simp
    have gen: "pool_gen ?s' (add_mset ?t T) = pool_gen s (add_mset ?u T)" unfolding pool_gen_def v(4) by simp
    have "pool ?s' (add_mset ?t T) M F"
    proof (rule pool_next [OF p b])
      show "position ?s' (pool_gen ?s' (add_mset ?t T)) (todo (add_mset ?t T)) j g' old'"
        if "position s (pool_gen s (add_mset ?u T)) (todo (add_mset ?u T)) j g' old'" for j g' old'
      proof -
        from that obtain m where m: "pool_gen s (add_mset ?u T) j = g' + of_nat m" "m + todo T < 2 ^ 32"
          "m = 0 \<longrightarrow> (\<exists>cur. rows s j = Some cur \<and> same_keys s cur old')" by (auto simp: position_def)
        show ?thesis unfolding position_def gen v(1) by (rule exI [of _ m]) (use m c(1) same_row(3,4) in auto)
      qed
      show "M k j = index_of ?s' k j" if "k < keys s" "j \<notin># owns ?t + owned T" for k j
        using that d(4) [of k j] same_row(1) by simp
    qed (use d i v same_row put_slot_views(1) [OF i] ni(1) in auto)
    moreover have "table_step (pool_view (s, add_mset ?u T)) (pool_view (?s', add_mset ?t T))"
      using c(1) unfolding pool_view_def fst_conv snd_conv gen v(1) by (intro change) simp
    moreover have "rows ?s' = section_rows s ?u" using v(1) c by simp
    ultimately show ?thesis using e gen by (auto simp: pool_inv_def)
  qed
qed

section \<open>Pools of writers\<close>

text \<open>A thread that has work and does not wait for the structure mutex can move.\<close>

lemma pool_advances:
  assumes inv: "pool_inv (s, add_mset t T)" and t: "\<And>rc out ek. t \<noteq> Returned rc out ek"
    and mx: "struct_mutex s \<Longrightarrow> (\<forall>rec. t \<noteq> Insert rec) \<and> (\<forall>i. t \<noteq> Del_Free i)"
  shows "advances s t T"
proof -
  obtain M F where p: "pool s (add_mset t T) M F" using inv by (auto simp: pool_inv_def)
  have ok: "thread_ok s M (pool_gen s (add_mset t T)) (todo (add_mset t T)) t" by (rule pool_mine [OF p])
  show ?thesis
  proof (cases t)
    case (Insert rec)
    then show ?thesis using advances_Insert [of s rec T M F] p mx by auto
  next
    case (Ins_Link rec i k)
    then have "k \<le> keys s" using ok by simp
    then show ?thesis using advances_Ins_Link [of s rec i k T M F] advances_publish [of s rec i T M F] p Ins_Link by (cases "k < keys s") auto
  next
    case (Ins_Undo rec i k)
    then show ?thesis using advances_Ins_Undo [of s rec i _ T M F] advances_Ins_Undo_0 [of s rec i T M F] p by (cases k) auto
  next
    case (Update i g old_rec new_rec)
    then show ?thesis using advances_Update [of s i g old_rec new_rec T M F] p by simp
  next
    case (Delete i g)
    then show ?thesis using advances_Delete [of s i g T M F] p by simp
  next
    case (Del_Unlink i scr k)
    then have "k \<le> keys s" using ok by simp
    then show ?thesis using advances_Del_Unlink [of s i scr k T M F] advances_mark [of s i scr T M F] p Del_Unlink by (cases "k < keys s") auto
  next
    case (Del_Free i)
    then show ?thesis using advances_Del_Free [of s i T M F] p mx by auto
  qed (use ok t in auto)
qed

lemma pool_section:
  assumes inv: "pool_inv (s, add_mset t T)" and e: "thread_step s t = Some (s', t')"
  shows "pool_inv (s', add_mset t' T) \<and> table_step (pool_view (s, add_mset t T)) (pool_view (s', add_mset t' T)) \<and> static s' = static s
    \<and> rows s' = section_rows s t \<and> pool_gen s' (add_mset t' T) = section_gens s t (pool_gen s (add_mset t T))"
proof -
  have "t \<noteq> Returned rc out ek" for rc out ek using e by auto
  moreover have "struct_mutex s \<Longrightarrow> (\<forall>rec. t \<noteq> Insert rec) \<and> (\<forall>i. t \<noteq> Del_Free i)"
    using e by (auto simp: lock_struct_def spin_lock_def)
  ultimately show ?thesis using pool_advances [OF inv] e by auto
qed

text \<open>How many sections a call has left at most.\<close>

fun sections_left :: "FM_SHARE_CORE \<Rightarrow> thread \<Rightarrow> nat" where
  "sections_left s (Insert rec) = 2 * keys s + 3"
| "sections_left s (Ins_Link rec i k) = (keys s - k) + keys s + 2"
| "sections_left s (Ins_Undo rec i k) = k + 1"
| "sections_left s (Update i g old_rec new_rec) = 1"
| "sections_left s (Delete i g) = keys s + 3"
| "sections_left s (Del_Unlink i scratch k) = (keys s - k) + 2"
| "sections_left s (Del_Free i) = 1"
| "sections_left s Clear = 1"
| "sections_left s (Returned rc out errkey) = 0"

lemma sections_left_less:
  assumes "thread_step s t = Some (s', t')" "keys s' = keys s" "\<And>rec i k. t = Ins_Link rec i k \<Longrightarrow> k \<le> keys s"
  shows "sections_left s' t' < sections_left s t"
  using assms by (cases "(s, t)" rule: thread_step.cases) (auto simp: bind_eq_Some_conv Let_def simp del: insert_keys.simps unlink_keys.simps split: if_splits)

lemma pool_progress:
  assumes inv: "pool_inv (s, T)" and t: "t \<in># T" "sections_left s t \<noteq> 0"
  shows "\<exists>u \<in># T. \<exists>s' u'. section_step s u s' u'"
proof -
  have moves: "\<exists>u \<in># T. \<exists>s' u'. section_step s u s' u'"
    if u: "u \<in># T" "sections_left s u \<noteq> 0" "struct_mutex s \<Longrightarrow> (\<forall>rec. u \<noteq> Insert rec) \<and> (\<forall>i. u \<noteq> Del_Free i)" for u
  proof -
    obtain T' where T: "T = add_mset u T'" using multi_member_split [OF u(1)] by blast
    have "u \<noteq> Returned rc out ek" for rc out ek using u(2) by auto
    with pool_advances [of s u T'] inv u(3) T show ?thesis by (auto simp: section_step_def)
  qed
  show ?thesis
  proof (cases "struct_mutex s")
    case True
    then have "holders T = 1" using inv by (auto simp: pool_inv_def pool_def)
    then obtain u where "u \<in># filter_mset has_mutex T" by (metis One_nat_def nat.distinct(1) size_eq_Suc_imp_elem)
    then have "u \<in># T" "has_mutex u" by auto
    moreover from this(2) have "sections_left s u \<noteq> 0 \<and> (\<forall>rec. u \<noteq> Insert rec) \<and> (\<forall>i. u \<noteq> Del_Free i)" by (cases u) auto
    ultimately show ?thesis using moves by blast
  next
    case False
    then show ?thesis using moves [of t] t by blast
  qed
qed


interpretation linear: refines pool_step table_step pool_inv pool_view
proof
  fix p p'
  assume inv: "pool_inv p" and "pool_step p p'"
  from this(2) have "pool_inv p' \<and> table_step (pool_view p) (pool_view p')"
  proof cases
    case (moves s t s' t' T)
    then show ?thesis using pool_section [of s t T s' t'] inv by (simp add: section_step_def)
  qed
  then show "pool_inv p'" "table_step (pool_view p) (pool_view p')" by blast+
qed

interpretation writers: finite_threads section_step pool_inv sections_left
proof
  fix s t T s' t' and u :: thread
  assume inv: "pool_inv (s, add_mset t T)" and "section_step s t s' t'"
  then have e: "thread_step s t = Some (s', t')" by (simp add: section_step_def)
  note sec = pool_section [OF inv e]
  then have k: "keys s' = keys s" by (simp add: static_def)
  show "pool_inv (s', add_mset t' T)" using sec by blast
  show "sections_left s' u = sections_left s u" using k by (cases u) auto
  have "thread_ok s M G n t \<Longrightarrow> t = Ins_Link rec i k \<Longrightarrow> k \<le> keys s" for M G n rec i k by auto
  then show "sections_left s' t' < sections_left s t"
    using inv by (intro sections_left_less [OF e k]) (auto simp: pool_inv_def dest: pool_mine)
qed (rule pool_progress)

text \<open>
  The calls a pool may start with: inserts, deletes, and updates at the position of a row that keep
  its keys.
\<close>

fun call_ok :: "FM_SHARE_CORE \<Rightarrow> thread \<Rightarrow> bool" where
  "call_ok s (Insert rec) \<longleftrightarrow> length rec = reclength s"
| "call_ok s (Update i g old_rec new_rec) \<longleftrightarrow> length new_rec = reclength s \<and> same_keys s old_rec new_rec \<and> gen_of s i = g
     \<and> (case rows s i of None \<Rightarrow> False | Some cur \<Rightarrow> same_keys s cur old_rec)"
| "call_ok s (Delete i g) \<longleftrightarrow> has_slot (chunks s) i"
| "call_ok s _ \<longleftrightarrow> False"

definition returned :: "thread \<Rightarrow> bool" where
  "returned t \<longleftrightarrow> (\<exists>rc out errkey. t = Returned rc out errkey)"

lemma calls_own_nothing:
  assumes "\<forall>t \<in># T. call_ok s t \<or> returned t"
  shows "owned T = {#}" "deleted T = {#}" "holders T = 0"
proof -
  have "owns t = {#} \<and> deletes t = {#} \<and> \<not> has_mutex t" if "t \<in># T" for t
    using assms that by (cases t) (auto simp: returned_def)
  then show "owned T = {#}" "deleted T = {#}" "holders T = 0" by (auto simp: owned_def deleted_def image_mset_is_empty_iff sum_mset_0_iff)
qed

lemma pool_start:
  assumes t: "table s" and nh: "\<forall>i. \<not> held s i" and T: "\<forall>t \<in># T. call_ok s t" "size T < 2 ^ 32"
  shows "pool_inv (s, T)" "pool_view (s, T) = view s"
proof -
  obtain F where b: "body s (index_of s) {} F" "counted s" "\<not> struct_mutex s" using t by (auto simp: table_def)
  have e: "owned T = {#}" "deleted T = {#}" "holders T = 0" using calls_own_nothing [of T s] T(1) by auto
  have g: "pool_gen s T = gen_of s" using e by (simp add: pool_gen_def fun_eq_iff)
  have n: "todo T < 2 ^ 32" using T(2) size_filter_mset_lesseq [of will_delete T] by (rule order.strict_trans1 [rotated])
  have "thread_ok s (index_of s) (gen_of s) (todo T) t" if "t \<in># T" for t
  proof -
    have "call_ok s t" using T(1) that by blast
    then show ?thesis
    proof (cases t)
      case (Update i g old_rec new_rec)
      then obtain cur where "rows s i = Some cur" "same_keys s cur old_rec" "gen_of s i = g"
        using \<open>call_ok s t\<close> by (auto split: option.splits)
      moreover from this(1) have "has_slot (chunks s) i" by (auto simp: rows_def active_def split: if_splits)
      ultimately show ?thesis using Update \<open>call_ok s t\<close> n by (auto simp: position_def intro!: exI [of _ 0])
    qed auto
  qed
  then have "pool s T (index_of s) F" using b nh e g by (simp add: pool_def counted_def)
  then show "pool_inv (s, T)" by (auto simp: pool_inv_def)
  show "pool_view (s, T) = view s" by (simp add: pool_view_def view_def g)
qed

lemma pool_end:
  assumes inv: "pool_inv (s, T)" and T: "\<forall>t \<in># T. returned t"
  shows "table s" "\<not> held s i" "pool_view (s, T) = view s"
proof -
  have e: "owned T = {#}" "deleted T = {#}" "holders T = 0" using calls_own_nothing [of T s] T by auto
  obtain M F where p: "pool s T M F" using inv by (auto simp: pool_inv_def)
  note d = poolD [OF p, unfolded e, simplified]
  have "body s (index_of s) {} F" using d(1,4) body_cong_map [of s M "index_of s" "{}" F] by (auto simp: fun_eq_iff)
  then show "table s" using d(6,7) by (auto simp: table_def counted_def split: if_splits)
  show "\<not> held s i" by (rule d(3))
  show "pool_view (s, T) = view s" by (simp add: pool_view_def view_def pool_gen_def e fun_eq_iff)
qed

text \<open>A pool in which calls come and go: a call that has returned leaves it, an insert or a delete joins it.\<close>

lemma pool_leave: "pool_inv (s, add_mset (Returned rc out ek) T) \<Longrightarrow> pool_inv (s, T)"
  by (auto simp: pool_inv_def pool_def pool_gen_def [abs_def])

fun updates :: "thread \<Rightarrow> bool" where
  "updates (Update i g old_rec new_rec) = True"
| "updates _ = False"

lemma pool_join:
  assumes inv: "pool_inv (s, T)" and T: "\<forall>t \<in># T. \<not> updates t"
    and t: "(\<exists>rec. t = Insert rec \<and> length rec = reclength s) \<or> (\<exists>i g. t = Delete i g \<and> has_slot (chunks s) i)"
  shows "pool_inv (s, add_mset t T)"
proof -
  obtain M F where p: "pool s T M F" using inv by (auto simp: pool_inv_def)
  have e: "owns t = {#}" "deletes t = {#}" "\<not> has_mutex t" using t by auto
  have g: "pool_gen s (add_mset t T) = pool_gen s T" using e by (simp add: pool_gen_def fun_eq_iff)
  have "thread_ok s M (pool_gen s T) n u" if "u \<in># T" for u n
    using poolD(5) [OF p that] T that by (cases u) auto
  moreover have "thread_ok s M (pool_gen s T) n t" for n using t by auto
  ultimately have "pool s (add_mset t T) M F" using p e unfolding pool_def g by auto
  then show ?thesis by (auto simp: pool_inv_def)
qed

text \<open>An insert finds no slot only if every slot of the table is a row or belongs to a call.\<close>

lemma pool_room:
  assumes inv: "pool_inv (s, add_mset (Insert rec) T)" and al: "\<And>n z. alloc (ops s) n z"
    and room: "card {i. active s i} + size (owned T) < max_records s"
    and e: "thread_step s (Insert rec) = Some (s', t')"
  shows "\<exists>i. t' = Ins_Link rec i 0"
proof -
  let ?s0 = "s\<lparr>struct_mutex := True\<rparr>"
  obtain M F where p: "pool s (add_mset (Insert rec) T) M F" using inv by (auto simp: pool_inv_def)
  note d = poolD [OF p, simplified]
  have b: "body ?s0 M (set_mset (owned T)) F" using d(1) by simp
  note l = bodyD(1) [OF d(1)]
  have cnt: "chunk_cnt s < chunk_cap s" if F: "F = []"
  proof (rule ccontr)
    assume "\<not> chunk_cnt s < chunk_cap s"
    then have "max_records s \<le> total_slots s" using layout_full [OF l] l by (simp add: layout_def)
    then have "active s (int n) \<or> int n \<in># owned T" if "n < max_records s" for n
      using bodyD(13) [OF d(1), of "int n"] layout_has_slot [OF l, of "int n"] F that by auto
    then have "int ` {0 ..< max_records s} \<subseteq> {i. active s i} \<union> set_mset (owned T)" by fastforce
    from card_mono [OF _ this] finite_active [OF l] have "max_records s \<le> card ({i. active s i} \<union> set_mset (owned T))"
      by (simp add: card_image)
    also have "\<dots> \<le> card {i. active s i} + card (set_mset (owned T))" by (rule card_Un_le)
    also have "card (set_mset (owned T)) \<le> size (owned T)" 
      using size_mset_mono [OF mset_set_set_mset_msubset [of "owned T"]] by simp
    finally show False using room by simp
  qed
  have "i \<noteq> FM_NULL_SLOT" if r: "fm_core_alloc_slot ?s0 = Some (i, s1)" for i s1
    using b
  proof (cases rule: body_alloc)
    case (none m)
    have "layout ?s0" "free_list ?s0 F" using l bodyD(4) [OF d(1)] by auto
    from alloc_slot_ok [OF this] al cnt [OF none(2)] r show ?thesis by auto
  qed (use r in auto)
  then show ?thesis using e by (auto simp: lock_struct_def spin_lock_def bind_eq_Some_conv split: if_splits)
qed

text \<open>A lookup between two sections sees exactly the rows, whatever slots of running calls are in the chain.\<close>

lemma pool_find:
  assumes inv: "pool_inv (s, T)" and k: "key < keys s"
  obtains (none) buf' where "fm_core_find s key pk buf out = Some ((FM_ERR_NOT_FOUND, out, buf'), s)"
      "\<And>i r. rows s i = Some r \<Longrightarrow> probe_cmp (keydef s ! key) r pk \<noteq> 0"
  | (hit) i r where "fm_core_find s key pk buf out = Some ((FM_ERR_OK, i, r), s)" "rows s i = Some r"
      "probe_cmp (keydef s ! key) r pk = 0"
proof -
  obtain M F where p: "pool s T M F" using inv by (auto simp: pool_inv_def)
  note b = poolD(1) [OF p] and cov = poolD(8) [OF p k]
  note ready = key_readyD [OF keys_readyD(1) [OF bodyD(6) [OF b] k]]
  show thesis
  proof (rule chain_walk [OF bodyD(2,3) [OF b] k, of pk], goal_cases)
    case (1 xs)
    have xs: "i \<in> set xs" if "rows s i = Some r" "probe_cmp (keydef s ! key) r pk = 0" for i r
      using cov ready(13) [OF that(2)] that(1) by (simp add: 1(2) covers_def)
    obtain buf' where f: "fm_core_find s key pk buf out = Some (lookup_result s key pk xs out buf', s)" using 1(3) by blast
    show ?case
      by (cases rule: lookup_result_cases [of s key pk xs out buf']) (use none hit f xs in auto)
  qed
qed

lemma demo_insert_pool:
  obtains i s where "pool_step\<^sup>*\<^sup>* (demo_share, add_mset (Insert [7, 1]) T) (s, add_mset (Returned FM_ERR_OK (Some i) None) T)"
    "rows s = [i \<mapsto> [7, 1]]"
proof -
  obtain i s where s: "fm_core_insert_row demo_share [7, 1] = Some (FM_ERR_OK, Some i, None, s)" "rows s = [i \<mapsto> [7, 1]]"
    by (rule demo_first_row)
  show thesis by (rule that [OF insert_alone [OF s(1)] s(2)])
qed

text \<open>
  C3: Inserts, deletes and updates that keep the keys, of any number of threads and interleaved in any
  order at the granularity of their lock-protected sections, implement the same abstract table as
  one thread does: every section leaves the table as it is or makes one abstract step, and at no
  time do two rows agree on a unique key without null parts.
\<close>

theorem concurrent_writers_refine:
  assumes t: "table s" "\<forall>i. \<not> held s i" and T: "\<forall>t \<in># T. call_ok s t" "size T < 2 ^ 32"
    and run: "pool_step\<^sup>*\<^sup>* (s, T) (s', T')"
  shows "table_step\<^sup>*\<^sup>* (view s) (pool_view (s', T'))
    \<and> (\<forall>k < keys s'. kc_unique (keydef s' ! k) \<longrightarrow> (\<forall>i j r r'. i \<noteq> j \<longrightarrow> rows s' i = Some r \<longrightarrow> rows s' j = Some r'
       \<longrightarrow> \<not> null_key (keydef s' ! k) r \<longrightarrow> rec_cmp (keydef s' ! k) r r' \<noteq> 0))"
proof
  note start = pool_start [OF t T]
  show "table_step\<^sup>*\<^sup>* (view s) (pool_view (s', T'))" using linear.run_simulates [OF run start(1)] start(2) by simp
  have "pool_inv (s', T')" by (rule linear.inv_reach [OF run start(1)])
  then have "uniq s'" using bodyD(15) by (auto simp: pool_inv_def pool_def)
  then show "\<forall>k < keys s'. kc_unique (keydef s' ! k) \<longrightarrow> (\<forall>i j r r'. i \<noteq> j \<longrightarrow> rows s' i = Some r \<longrightarrow> rows s' j = Some r'
       \<longrightarrow> \<not> null_key (keydef s' ! k) r \<longrightarrow> rec_cmp (keydef s' ! k) r r' \<noteq> 0)" unfolding uniq_def by blast
qed

theorem concurrent_writers_refine_witness:
  "\<exists>s' T'. pool_step\<^sup>*\<^sup>* (demo_share, {#Insert [7, 1], Insert [8, 1]#}) (s', T') \<and> rows s' \<noteq> Map.empty
    \<and> table_step\<^sup>*\<^sup>* (view demo_share) (pool_view (s', T'))"
proof -
  obtain i s where s: "pool_step\<^sup>*\<^sup>* (demo_share, {#Insert [7, 1], Insert [8, 1]#}) (s, {#Returned FM_ERR_OK (Some i) None, Insert [8, 1]#})"
    "rows s = [i \<mapsto> [7, 1]]" by (rule demo_insert_pool)
  have "table_step\<^sup>*\<^sup>* (view demo_share) (pool_view (s, {#Returned FM_ERR_OK (Some i) None, Insert [8, 1]#}))"
    using concurrent_writers_refine [OF demo_share_table(1) _ _ _ s(1)] by (simp add: demo_share_table(3) demo_share_fields)
  with s show ?thesis by (metis map_upd_nonempty)
qed

text \<open>
  C11: Such a pool always comes to its end: no schedule is longer than the sum of the sections of the
  calls, and where no thread can move any more, every call has returned, no lock is taken and the
  share is a well-formed table again, one that the abstract table reaches.
\<close>

theorem concurrent_writers_finish:
  assumes t: "table s" "\<forall>i. \<not> held s i" and T: "\<forall>t \<in># T. call_ok s t" "size T < 2 ^ 32"
    and run: "(pool_step ^^ n) (s, T) (s', T')"
  shows "n \<le> (\<Sum>t \<in># T. sections_left s t)
    \<and> ((\<forall>p. \<not> pool_step (s', T') p) \<longrightarrow>
      (\<forall>t \<in># T'. returned t) \<and> table s' \<and> (\<forall>i. \<not> held s' i) \<and> table_step\<^sup>*\<^sup>* (view s) (view s'))"
proof (rule conjI [OF _ impI])
  note start = pool_start [OF t T]
  show "n \<le> (\<Sum>t \<in># T. sections_left s t)" using writers.run_bounded [OF run start(1)] by simp
  assume stuck: "\<forall>p. \<not> pool_step (s', T') p"
  have reach: "pool_step\<^sup>*\<^sup>* (s, T) (s', T')" by (rule relpowp_imp_rtranclp [OF run])
  have inv: "pool_inv (s', T')" by (rule linear.inv_reach [OF reach start(1)])
  have ret: "returned t" if "t \<in># T'" for t
    using writers.stuck_finished [OF inv _ that] stuck by (cases t) (auto simp: returned_def)
  note fin = pool_end [OF inv]
  show "(\<forall>t \<in># T'. returned t) \<and> table s' \<and> (\<forall>i. \<not> held s' i) \<and> table_step\<^sup>*\<^sup>* (view s) (view s')"
    using ret fin linear.run_simulates [OF reach start(1)] start(2) by auto
qed

theorem concurrent_writers_finish_witness:
  "\<exists>n s' T'. (pool_step ^^ n) (demo_share, {#Insert [7, 1]#}) (s', T') \<and> n \<le> sections_left demo_share (Insert [7, 1])
    \<and> table s' \<and> table_step\<^sup>*\<^sup>* (view demo_share) (view s')"
proof -
  obtain i s where s: "pool_step\<^sup>*\<^sup>* (demo_share, {#Insert [7, 1]#}) (s, {#Returned FM_ERR_OK (Some i) None#})" by (rule demo_insert_pool)
  then obtain n where n: "(pool_step ^^ n) (demo_share, {#Insert [7, 1]#}) (s, {#Returned FM_ERR_OK (Some i) None#})"
    by (blast dest: rtranclp_imp_relpowp)
  have "\<not> pool_step (s, {#Returned FM_ERR_OK (Some i) None#}) p" for p by (auto elim!: interleave.cases simp: section_step_def)
  with concurrent_writers_finish [OF demo_share_table(1) _ _ _ n] n show ?thesis
    by (intro exI [of _ n] exI [of _ s] exI) (simp add: demo_share_table(3) demo_share_fields)
qed

end
