(* ===== verification/Fm_Races.thy ===== *)
theory Fm_Races
  imports Fm_Pool
begin

text \<open>
  Two schedules of core calls (\<open>Fm_Threads\<close>) that the comments of \<open>src/fm_core.h\<close> rule out and the code
  allows: an insert and a key-changing update that both get the same unique key, and a delete and a
  clear that put one slot on the free list twice. Neither pair is a pool of \<open>Fm_Pool\<close>, whose updates keep
  the keys and which has no clear.
\<close>

section \<open>A unique key that two rows get\<close>

lemma pool_frame: "pool_step\<^sup>*\<^sup>* (s, T) (s', T') \<Longrightarrow> pool_step\<^sup>*\<^sup>* (s, add_mset u T) (s', add_mset u T')"
proof (induction "(s', T')" arbitrary: s' T' rule: rtranclp_induct)
  case (step q)
  obtain s1 T1 where q: "q = (s1, T1)" by (cases q)
  from step(2) [unfolded q] have "pool_step (s1, add_mset u T1) (s', add_mset u T')"
  proof cases
    case (moves t t' T2)
    then show ?thesis using interleave.moves [of section_step s1 t s' t' "add_mset u T2"] by (simp add: add_mset_commute)
  qed
  with step(3) [OF q] show ?case by auto
qed simp

lemma insert_linked_run:
  assumes t: "table s" and len: "length rec = reclength s" and room: "records s < int (max_records s)" "\<And>n z. alloc (ops s) n z"
    and nd: "\<forall>k < keys s. \<not> dup_row s rec k"
  obtains i s3 F1 where "pool_step\<^sup>*\<^sup>* (s, add_mset (Insert rec) T) (s3, add_mset (Ins_Link rec i (keys s3)) T)" "rows s i = None"
    "same_rows (s\<lparr>struct_mutex := True\<rparr>) s3" "sl_data (slot_of (chunks s3) i) = rec"
    "body s3 (link_at (index_of s) {0 ..< keys s} (\<lambda>k. bucket_of (keydef s ! k) rec) i) {i} F1"
proof -
  let ?s0 = "s\<lparr>struct_mutex := True\<rparr>"
  obtain F where b: "body s (index_of s) {} F" and mx: "\<not> struct_mutex s" using t by (auto simp: table_def)
  then have b0: "body ?s0 (index_of s) {} F" by simp
  have l: "lock_struct s = Some ?s0" using mx by (simp add: lock_struct_def spin_lock_def)
  from b0 show thesis
  proof (cases rule: body_alloc)
    case (none m)
    obtain j s' where "fm_core_insert_row s rec = Some (FM_ERR_OK, Some j, None, s')"
      using insert_row_room [OF t len room(2,1) nd] by blast
    then show thesis using none(1) l by (simp add: fm_core_insert_row_def Let_def)
  next
    case (slot i s1 F1)
    have f: "find (dup_row s rec) [0 ..< keys s] = None" "takeWhile (\<lambda>k. \<not> dup_row s rec k) [0 ..< keys s] = [0 ..< keys s]"
      using nd by (auto simp: find_None_iff intro!: takeWhile_eq_all_conv [THEN iffD2])
    have ks: "set [0 ..< keys s] = {0 ..< keys s}" by simp
    obtain s2 s3 where s3: "copy_image s1 i rec = Some s2" "keys s2 = keys s"
      "insert_keys [0 ..< keys s] s2 rec i = Some (None, s3)" "rows s i = None" "same_rows ?s0 s3"
      "body s3 (link_at (index_of s) {0 ..< keys s} (\<lambda>k. bucket_of (keydef s ! k) rec) i) {i} F1"
      "sl_data (slot_of (chunks s3) i) = rec"
    proof (rule insert_row_linked [OF t len slot(1-4)], goal_cases)
      case (1 s2 s3)
      note p = 1(2-7,9) [unfolded f ks]
      show ?case by (rule 1(1) [OF p])
    qed
    have "thread_step s (Insert rec) = Some (s2, Ins_Link rec i 0)" using l slot(1,2) s3(1) by simp
    note run = section_then [OF this links_alone [OF s3(3) [folded s3(2)], of T, simplified]]
    show thesis by (rule that [OF run s3(4,5,7,6)])
  qed
qed

lemma publish_run:
  assumes "has_slot (chunks s) j"
  shows "pool_step\<^sup>*\<^sup>* (s, add_mset (Ins_Link rec j (keys s)) T)
    ((put_slot s j ((slot_of (chunks s) j)\<lparr>sl_state := FM_SLOT_ACTIVE\<rparr>))\<lparr>records := records s + 1, struct_mutex := False\<rparr>,
      add_mset (Returned FM_ERR_OK (Some j) None) T)"
  by (rule section_then [OF _ rtranclp.rtrancl_refl]) (use assms in \<open>simp add: fm_slot_eq Let_def unlock_struct_def spin_unlock_def\<close>)

lemma shared_key:
  assumes st: "static s' = static s" and kr: "keys_ready s"
    and k: "k < keys s" "kc_unique (keydef s ! k)" "\<not> null_key (keydef s ! k) r" "rec_cmp (keydef s ! k) r r' = 0"
    and rw: "rows s' i = Some r" "rows s' j = Some r'" "i \<noteq> j"
  shows "\<not> uniq s'"
proof -
  have "k < keys s'" "k < length (keydef s)" using st kr k(1) by (simp_all add: static_def keys_ready_def)
  with rw k show ?thesis unfolding uniq_def static_keys [OF st \<open>k < length (keydef s)\<close>, symmetric] by blast
qed

text \<open>
  C33: An insert and an update race for a unique key, and both win: the insert has linked its row into
  all chains but not published it, so the duplicate check of an update that moves a row to the same
  key does not see it. Both calls return OK and the table holds two rows with one unique key. This is so
  for every table with room, every row, and every two new images with the same key that no row has.
\<close>

theorem insert_races_update:
  assumes t: "table s" "\<forall>i. \<not> held s i" and room: "records s < int (max_records s)" "\<And>n z. alloc (ops s) n z"
    and row: "rows s i = Some cur" and len: "length rec = reclength s" "length new_rec = reclength s"
    and nd: "\<forall>k < keys s. \<not> dup_row s rec k \<and> \<not> dup_row s new_rec k"
    and k: "k < keys s" "kc_unique (keydef s ! k)" "\<not> null_key (keydef s ! k) rec" "rec_cmp (keydef s ! k) rec new_rec = 0"
  shows "\<exists>j s'. pool_step\<^sup>*\<^sup>* (s, {#Insert rec, Update i (gen_of s i) cur new_rec#})
      (s', {#Returned FM_ERR_OK (Some j) None, Returned FM_ERR_OK None None#})
    \<and> i \<noteq> j \<and> rows s' i = Some new_rec \<and> rows s' j = Some rec \<and> \<not> uniq s'"
proof -
  let ?u = "Update i (gen_of s i) cur new_rec"
  have nd1: "\<forall>k < keys s. \<not> dup_row s rec k" using nd by blast
  obtain j s3 F1 where s3: "pool_step\<^sup>*\<^sup>* (s, {#Insert rec, ?u#}) (s3, {#Ins_Link rec j (keys s3), ?u#})" "rows s j = None"
    "same_rows (s\<lparr>struct_mutex := True\<rparr>) s3" "sl_data (slot_of (chunks s3) j) = rec"
    "body s3 (link_at (index_of s) {0 ..< keys s} (\<lambda>k. bucket_of (keydef s ! k) rec) j) {j} F1"
    by (rule insert_linked_run [OF t(1) len(1) room nd1, of "{#?u#}"])
  let ?M = "link_at (index_of s) {0 ..< keys s} (\<lambda>k. bucket_of (keydef s ! k) rec) j"
  note e3 = s3(3) [unfolded same_rows_def, simplified]
  have ij: "i \<noteq> j" using row s3(2) by auto
  have i: "has_slot (chunks s3) i" using row e3 by (auto simp: rows_def active_def split: if_splits)
  have j: "has_slot (chunks s3) j" by (rule bodyD(8) [OF s3(5)]) simp
  have cov: "\<forall>k < keys s3. covers s3 ?M k" using e3 s3(2) by (auto simp: covers_def link_at_def index_of_def)
  obtain F where kr: "keys_ready s" using t(1) bodyD(6) by (auto simp: table_def)
  note ready = key_readyD [OF keys_readyD(1) [OF kr k(1)]]
  have "rec_cmp (keydef s ! k) cur new_rec \<noteq> 0"
  proof
    assume "rec_cmp (keydef s ! k) cur new_rec = 0"
    then have "rec_cmp (keydef s ! k) cur rec = 0" using ready(12) [of cur new_rec rec] ready(9) [OF k(4)] by blast
    then have "dup_row s rec k" using k row by (auto simp: dup_row_def)
    then show False using nd k(1) by blast
  qed
  then have ne: "changed_of s3 cur new_rec \<noteq> []" using k(1) e3 by (auto simp: changed_of_def filter_empty_conv)
  have same: "same_keys s3 cur cur" using bodyD(6) [OF s3(5)] by (simp add: same_keys_def key_readyD(8) keys_readyD(1))
  have none: "find (dup_row s3 new_rec) (changed_of s3 cur new_rec) = None" using nd e3 by (auto simp: find_None_iff changed_of_def)
  have ng: "\<not> slot_gone (slot_of (chunks s3) i) (gen_of s i)" using slot_gone_iff [OF i] row e3 by simp
  have pre: "\<not> held s3 i" "length new_rec = reclength s3" "\<And>c. rows s3 i = Some c \<Longrightarrow> same_keys s3 c cur"
    using t(2) e3 len(2) row same by auto
  obtain s6 where s6: "fm_core_update_row s3 i (gen_of s i) cur new_rec = Some (FM_ERR_OK, None, s6)"
    "links_changed (put_slot s3 i (rewritten (slot_of (chunks s3) i) new_rec)) s6"
  proof (rule update_row_key_change [OF s3(5) cov i pre ne, of "gen_of s i"], goal_cases)
    case (4 s6)
    show ?case by (rule 4(1) [OF 4(4,5)])
  qed (use none ng in simp_all)
  let ?s6 = "put_slot s3 i (rewritten (slot_of (chunks s3) i) new_rec)"
  note l6 = links_changedD [OF s6(2)] links_changed_same_rows [OF s6(2), unfolded same_rows_def, simplified]
  have j6: "has_slot (chunks s6) j" "sl_data (slot_of (chunks s6) j) = rec" "keys s6 = keys s3"
    using l6 j ij s3(4) put_slot_views(1) [OF i] by simp_all
  have st: "sl_state (slot_of (chunks s3) i) = FM_SLOT_ACTIVE" using ng by (simp add: slot_gone_def)
  have r6: "rows s6 i = Some new_rec" using l6 put_slot_views(3) [OF i, of "rewritten (slot_of (chunks s3) i) new_rec"] st len(2) e3 by simp
  have mid: "pool_step (s3, {#Ins_Link rec j (keys s3), ?u#}) (s6, {#Ins_Link rec j (keys s6), Returned FM_ERR_OK None None#})"
    using interleave.moves [of section_step s3 ?u s6 "Returned FM_ERR_OK None None" "{#Ins_Link rec j (keys s3)#}"] s6(1) j6(3)
    by (simp add: section_step_def add_mset_commute)
  note pub = publish_run [OF j6(1), of rec "{#Returned FM_ERR_OK None None#}"]
  let ?s' = "(put_slot s6 j ((slot_of (chunks s6) j)\<lparr>sl_state := FM_SLOT_ACTIVE\<rparr>))\<lparr>records := records s6 + 1, struct_mutex := False\<rparr>"
  have run: "pool_step\<^sup>*\<^sup>* (s, {#Insert rec, ?u#}) (?s', {#Returned FM_ERR_OK (Some j) None, Returned FM_ERR_OK None None#})"
    by (rule rtranclp_trans [OF s3(1) converse_rtranclp_into_rtranclp [OF mid pub]])
  have rw: "rows ?s' i = Some new_rec" "rows ?s' j = Some rec"
    using put_slot_views(3) [OF j6(1), of "(slot_of (chunks s6) j)\<lparr>sl_state := FM_SLOT_ACTIVE\<rparr>"] r6 j6(2) ij len(1) l6 e3 by auto
  have "static s3 = static s" "static s6 = static ?s6" using e3 relocked_static [OF s6(2) [unfolded links_changed_relocked]] by blast+
  then have "static ?s' = static s" by simp
  from shared_key [OF this kr k rw(2,1)] ij have "\<not> uniq ?s'" by blast
  with run ij rw show ?thesis by blast
qed

theorem insert_races_update_witness:
  "\<exists>s i j s'. table s \<and> rows s i = Some [7, 1]
    \<and> pool_step\<^sup>*\<^sup>* (s, {#Insert [8, 1], Update i (gen_of s i) [7, 1] [8, 2]#}) (s', {#Returned FM_ERR_OK (Some j) None, Returned FM_ERR_OK None None#})
    \<and> rows s' i = Some [8, 2] \<and> rows s' j = Some [8, 1] \<and> \<not> uniq s'"
proof -
  obtain i s where s: "table s" "rows s = [i \<mapsto> [7, 1]]" "\<forall>j. \<not> held s j" "records s = 1" "static s = static demo_share"
    by (rule demo_first_row)
  have f: "reclength s = 2" "keys s = 1" "max_records s = 2" "ops s = ops demo_share"
    using s(5) demo_share_fields by (simp_all add: static_def)
  have kd: "kc_ops (keydef s ! 0) = byte_key" "kc_unique (keydef s ! 0)"
    using s(5) demo_share_keydef by (auto simp: static_def)
  have cmp: "rec_cmp (keydef s ! 0) a b = (if hd (a @ [0]) = hd (b @ [0]) then 0 else 1)" "\<not> null_key (keydef s ! 0) a" for a b
    by (simp_all add: rec_cmp_def null_key_def kd byte_key_def)
  have row: "rows s i = Some [7, 1]" by (simp add: s(2))
  have al: "alloc (ops s) n z" for n z using f(4) demo_share_fields(5) by simp
  have "\<exists>j s'. pool_step\<^sup>*\<^sup>* (s, {#Insert [8, 1], Update i (gen_of s i) [7, 1] [8, 2]#})
      (s', {#Returned FM_ERR_OK (Some j) None, Returned FM_ERR_OK None None#})
    \<and> i \<noteq> j \<and> rows s' i = Some [8, 2] \<and> rows s' j = Some [8, 1] \<and> \<not> uniq s'"
    by (rule insert_races_update [OF s(1,3) _ al row, where k = 0]) (use f s(2,4) cmp kd in \<open>auto simp: dup_row_def split: if_splits\<close>)
  with s(1) row show ?thesis by blast
qed

section \<open>A slot that is free twice\<close>

text \<open>Slots handed out one after the other.\<close>

primrec alloc_slots :: "nat \<Rightarrow> FM_SHARE_CORE \<Rightarrow> (slot_id list \<times> FM_SHARE_CORE) option" where
  "alloc_slots 0 s = Some ([], s)"
| "alloc_slots (Suc n) s = do {
     (i, s1) \<leftarrow> fm_core_alloc_slot s;
     (is, s2) \<leftarrow> alloc_slots n s1;
     Some (i # is, s2) }"

text \<open>\<open>follows f h xs e\<close>: the links \<open>f\<close> lead from \<open>h\<close> over \<open>xs\<close> to \<open>e\<close>.\<close>

primrec follows :: "(slot_id \<Rightarrow> slot_id) \<Rightarrow> slot_id \<Rightarrow> slot_id list \<Rightarrow> slot_id \<Rightarrow> bool" where
  "follows f h [] e \<longleftrightarrow> h = e"
| "follows f h (x # xs) e \<longleftrightarrow> h = x \<and> x \<noteq> FM_NULL_SLOT \<and> follows f (f x) xs e"

lemma linked_follows: "linked f h (xs @ x # ys) \<Longrightarrow> follows f h xs x \<and> x \<noteq> FM_NULL_SLOT"
  by (induction xs arbitrary: h) auto

lemma follows_append: "follows f h (xs @ ys) e \<longleftrightarrow> (\<exists>m. follows f h xs m \<and> follows f m ys e)"
  by (induction xs arbitrary: h) auto

lemma follows_upd: "x \<notin> set xs \<Longrightarrow> follows (f(x := v)) h xs e = follows f h xs e"
  by (induction xs arbitrary: h) auto

lemma alloc_follows:
  assumes "follows (\<lambda>i. sl_free_next (slot_of (chunks s) i)) (free_head s) xs e" "\<forall>i \<in> set xs. has_slot (chunks s) i"
  shows "alloc_slots (length xs) s = Some (xs, s\<lparr>free_head := e\<rparr>)"
  using assms
proof (induction xs arbitrary: s)
  case (Cons x xs)
  let ?s1 = "s\<lparr>free_head := sl_free_next (slot_of (chunks s) x)\<rparr>"
  have "fm_core_alloc_slot s = Some (x, ?s1)" using Cons.prems by (auto simp: fm_core_alloc_slot_def fm_slot_eq)
  moreover have "alloc_slots (length xs) ?s1 = Some (xs, ?s1\<lparr>free_head := e\<rparr>)" using Cons.IH [of ?s1] Cons.prems by simp
  ultimately show ?case by simp
qed simp

lemma freed_twice:
  assumes F: "free_list s (rev (map int [0 ..< n]))" and i: "has_slot (chunks s) i" "i \<in> int ` {0 ..< n}"
    and s1: "fm_core_free_slot s i = Some s1" and s': "s' = unlock_struct s1"
  shows "\<exists>n is s''. alloc_slots n s' = Some (is, s'') \<and> \<not> distinct is"
proof -
  let ?f = "\<lambda>j. sl_free_next (slot_of (chunks s) j)"
  have "i \<in> set (rev (map int [0 ..< n]))" using i(2) by auto
  then obtain as bs where e: "rev (map int [0 ..< n]) = as @ i # bs" by (meson split_list)
  have ni: "i \<notin> set as" using free_list_distinct [OF F] unfolding e by simp
  have w: "follows ?f (free_head s) as i" "i \<noteq> FM_NULL_SLOT" using F linked_follows unfolding e free_list_def by blast+
  have s'_eq: "s' = (put_slot s i ((slot_of (chunks s) i)\<lparr>sl_free_next := free_head s\<rparr>))\<lparr>free_head := i, struct_mutex := False\<rparr>"
    using s1 s' i(1) by (auto simp: fm_core_free_slot_def fm_slot_eq unlock_struct_def spin_unlock_def)
  have f': "(\<lambda>j. sl_free_next (slot_of (chunks s') j)) = ?f(i := free_head s)" and h': "free_head s' = i"
    using put_slot_views(1) [OF i(1)] by (auto simp: s'_eq fun_eq_iff)
  have "follows (?f(i := free_head s)) i (i # as @ [i]) (free_head s)" using w follows_upd [OF ni] by (simp add: follows_append)
  moreover have "\<forall>j \<in> set (i # as @ [i]). has_slot (chunks s') j" using F i(1) unfolding e s'_eq free_list_def by auto
  ultimately have "alloc_slots (length (i # as @ [i])) s' = Some (i # as @ [i], s'\<lparr>free_head := free_head s\<rparr>)"
    by (intro alloc_follows) (simp_all only: f' h')
  moreover have "\<not> distinct (i # as @ [i])" by simp
  ultimately show ?thesis by blast
qed

lemma unlinks_run:
  assumes "pool_inv (s, {#Del_Unlink i scr k#})" "k \<le> keys s"
  shows "\<exists>s'. pool_step\<^sup>*\<^sup>* (s, {#Del_Unlink i scr k#}) (s', {#Del_Free i#}) \<and> pool_inv (s', {#Del_Free i#})"
  using assms
proof (induction "keys s - k" arbitrary: s k)
  case 0
  then have "\<not> k < keys s" by simp
  with pool_advances [OF 0(2)] obtain s' where "thread_step s (Del_Unlink i scr k) = Some (s', Del_Free i)" "pool_inv (s', {#Del_Free i#})"
    by (auto simp: bind_eq_Some_conv Let_def)
  with section_then [OF this(1) rtranclp.rtrancl_refl] show ?case by blast
next
  case (Suc n)
  then have k: "k < keys s" by simp
  with pool_advances [OF Suc(3)] obtain s' where s': "thread_step s (Del_Unlink i scr k) = Some (s', Del_Unlink i scr (k + 1))"
    "pool_inv (s', {#Del_Unlink i scr (k + 1)#})" "static s' = static s"
    by (auto simp: bind_eq_Some_conv Let_def)
  have "n = keys s' - (k + 1)" "k + 1 \<le> keys s'" using s'(3) Suc.hyps(2) k by (simp_all add: static_def)
  from Suc.hyps(1) [OF this(1) s'(2) this(2)] obtain s2 where "pool_step\<^sup>*\<^sup>* (s', {#Del_Unlink i scr (k + 1)#}) (s2, {#Del_Free i#})"
    "pool_inv (s2, {#Del_Free i#})" by blast
  with section_then [OF s'(1) this(1)] show ?case by blast
qed

lemma delete_run:
  assumes t: "table s" "\<forall>i. \<not> held s i" and row: "rows s i = Some r"
  obtains s' where "pool_step\<^sup>*\<^sup>* (s, {#Delete i (gen_of s i)#}) (s', {#Del_Free i#})" "pool_inv (s', {#Del_Free i#})"
proof -
  let ?d = "Delete i (gen_of s i)"
  have i: "has_slot (chunks s) i" using row by (auto simp: rows_def active_def split: if_splits)
  have inv: "pool_inv (s, {#?d#})" using pool_start(1) [OF t, of "{#?d#}"] i by simp
  have "\<not> slot_gone (slot_of (chunks s) i) (gen_of s i)" using slot_gone_iff [OF i] row by simp
  then have ng: "sl_state (slot_of (chunks s) i) = FM_SLOT_ACTIVE" "sl_gen (slot_of (chunks s) i) = gen_of s i" by (simp_all add: slot_gone_def)
  from pool_advances [OF inv] obtain s1 t1 where s1: "thread_step s ?d = Some (s1, t1)" "pool_inv (s1, {#t1#})" "static s1 = static s" by auto
  from s1(1) obtain scr where t1: "t1 = Del_Unlink i scr 0"
    using lock_slot_eq [OF i] t(2) i ng by (auto simp: bind_eq_Some_conv Let_def slot_gone_def put_slot_views split: if_splits)
  from unlinks_run [OF s1(2) [unfolded t1]] obtain s2 where "pool_step\<^sup>*\<^sup>* (s1, {#t1#}) (s2, {#Del_Free i#})" "pool_inv (s2, {#Del_Free i#})"
    unfolding t1 by blast
  with section_then [OF s1(1) this(1)] that show thesis by blast
qed

text \<open>
  C34: A delete and a clear race, and a slot becomes free twice: when the clear runs between the two
  locked parts of the delete, it puts the slot of the dying row on the new free list, and the delete
  then pushes it once more. The list is a cycle, and the allocator hands out the slot to two inserts. This is so for every
  row of every table.
\<close>

theorem delete_races_clear:
  assumes t: "table s" "\<forall>i. \<not> held s i" and row: "rows s i = Some r"
  shows "\<exists>s'. pool_step\<^sup>*\<^sup>* (s, {#Delete i (gen_of s i), Clear#}) (s', {#Returned FM_ERR_OK None None, Returned FM_ERR_OK None None#})
    \<and> (\<exists>n is s''. alloc_slots n s' = Some (is, s'') \<and> \<not> distinct is)"
proof -
  let ?ok = "Returned FM_ERR_OK None None"
  obtain s1 where s1: "pool_step\<^sup>*\<^sup>* (s, {#Delete i (gen_of s i)#}) (s1, {#Del_Free i#})" "pool_inv (s1, {#Del_Free i#})"
    by (rule delete_run [OF assms])
  obtain M F where p: "pool s1 {#Del_Free i#} M F" using s1(2) by (auto simp: pool_inv_def)
  note d = poolD [OF p] and b = poolD(1) [OF p]
  have mx: "\<not> struct_mutex s1" using d(6) by (simp split: if_splits)
  have i: "has_slot (chunks s1) i" by (rule bodyD(8) [OF b]) simp
  have "0 \<le> i" "i < int (total_slots s1)" using i unfolding layout_has_slot [OF bodyD(1) [OF b]] by blast+
  then have in_range: "i \<in> int ` {0 ..< total_slots s1}" by (intro image_eqI [of _ _ "nat i"]) auto
  from clear_body_eq [OF b mx d(3)] obtain s2 where s2: "fm_core_clear s1 = Some s2" "table s2"
    "free_list s2 (rev (map int [0 ..< total_slots s1]))" "has_slot (chunks s2) = has_slot (chunks s1)" by blast
  have mx2: "\<not> struct_mutex s2" using s2(2) by (auto simp: table_def)
  let ?l = "s2\<lparr>struct_mutex := True\<rparr>"
  have i2: "has_slot (chunks ?l) i" using i s2(4) by simp
  obtain s3 where s3: "fm_core_free_slot ?l i = Some s3" using i2 by (auto simp: fm_core_free_slot_def fm_slot_eq)
  have "free_list ?l (rev (map int [0 ..< total_slots s1]))" using s2(3) by (simp add: free_list_def)
  from freed_twice [OF this i2 in_range s3 refl] have "\<exists>n is s''. alloc_slots n (unlock_struct s3) = Some (is, s'') \<and> \<not> distinct is" .
  moreover have "pool_step\<^sup>*\<^sup>* (s, {#Delete i (gen_of s i), Clear#}) (unlock_struct s3, {#?ok, ?ok#})"
  proof -
    have "pool_step\<^sup>*\<^sup>* (s, {#Delete i (gen_of s i), Clear#}) (s1, {#Clear, Del_Free i#})"
      using pool_frame [OF s1(1), of Clear] by (simp add: add_mset_commute)
    moreover have "pool_step\<^sup>*\<^sup>* (s1, {#Clear, Del_Free i#}) (s2, {#Del_Free i, ?ok#})"
      using section_then [of s1 Clear s2 ?ok "{#Del_Free i#}"] s2(1) by (simp add: add_mset_commute)
    moreover have "pool_step\<^sup>*\<^sup>* (s2, {#Del_Free i, ?ok#}) (unlock_struct s3, {#?ok, ?ok#})"
      using section_then [of s2 "Del_Free i" "unlock_struct s3" ?ok "{#?ok#}"] s3 mx2 by (simp add: lock_struct_def spin_lock_def)
    ultimately show ?thesis by (meson rtranclp_trans)
  qed
  ultimately show ?thesis by blast
qed

theorem delete_races_clear_witness:
  "\<exists>s i s'. rows s i = Some [7, 1]
    \<and> pool_step\<^sup>*\<^sup>* (s, {#Delete i (gen_of s i), Clear#}) (s', {#Returned FM_ERR_OK None None, Returned FM_ERR_OK None None#})
    \<and> (\<exists>n is s''. alloc_slots n s' = Some (is, s'') \<and> \<not> distinct is)"
proof -
  obtain i s where s: "table s" "rows s = [i \<mapsto> [7, 1]]" "\<forall>j. \<not> held s j" by (rule demo_first_row)
  have row: "rows s i = Some [7, 1]" by (simp add: s(2))
  show ?thesis using delete_races_clear [OF s(1,3) row] row by blast
qed

end
