(* ===== verification/Fm_Test.thy ===== *)
theory Fm_Test
  imports Fm_Registry Fm_Data
begin

text \<open>
  The standalone tests of the core (\<open>src/standalone-test/main.cpp\<close>) that run in one thread: the key
  callbacks they wire, \<open>test_stale_pos\<close> and \<open>test_multikey\<close>. The tests are clients of the core: that they
  pass follows from the lemmas on the core's operations, not from running them. The tests that run threads are
  in \<open>Fm_Test_Torn\<close> and \<open>Fm_Test_Unique\<close>.
\<close>

section \<open>Records and keys of the tests\<close>

text \<open>\<open>std::int64_t\<close> in memory on a little-endian machine; \<open>Rec\<close> is two of them.\<close>

definition le64 :: "u64 \<Rightarrow> image" where
  "le64 w = le32 (ucast w) @ le32 (ucast (drop_bit 32 w))"

definition of_le64 :: "image \<Rightarrow> u64" where
  "of_le64 b = ucast (of_le32 (take 4 b)) OR push_bit 32 (ucast (of_le32 (take 4 (drop 4 b))))"

definition Rec :: "u64 \<Rightarrow> u64 \<Rightarrow> image" where
  "Rec k v = le64 k @ le64 v"

definition rec_k :: "image \<Rightarrow> u64" where
  "rec_k r = of_le64 r"

definition rec_v :: "image \<Rightarrow> u64" where
  "rec_v r = of_le64 (drop 8 r)"

definition fnv_step :: "u64 \<Rightarrow> u8 \<Rightarrow> u64" where
  "fnv_step h b = (h XOR ucast b) * 1099511628211"

definition hk0_hash_key :: "image \<Rightarrow> u32" where
  "hk0_hash_key pk = (let h = foldl fnv_step 1469598103934665603 (map (byte_at pk) [0 ..< 8]) in ucast (h XOR drop_bit 32 h))"

definition hk0_hash_rec :: "image \<Rightarrow> u32" where
  "hk0_hash_rec rec = (let k = rec_k rec; h = foldl fnv_step 1469598103934665603 (le64 k) in ucast (h XOR drop_bit 32 h))"

definition hk0_cmp_rec_rec :: "image \<Rightarrow> image \<Rightarrow> int" where
  "hk0_cmp_rec_rec a b = (if rec_k a = rec_k b then 0 else 1)"

definition hk0_cmp_rec_key :: "image \<Rightarrow> image \<Rightarrow> int" where
  "hk0_cmp_rec_key rec pk = (if rec_k rec = of_le64 pk then 0 else 1)"

definition hk1_hash_rec :: "image \<Rightarrow> u32" where
  "hk1_hash_rec rec = ucast (rec_k rec AND 3)"

definition hk1_hash_key :: "image \<Rightarrow> u32" where
  "hk1_hash_key pk = ucast (of_le64 pk AND 3)"

definition hk1_cmp_rec_rec :: "image \<Rightarrow> image \<Rightarrow> int" where
  "hk1_cmp_rec_rec a b = (if rec_k a AND 3 = rec_k b AND 3 then 0 else 1)"

definition hk1_cmp_rec_key :: "image \<Rightarrow> image \<Rightarrow> int" where
  "hk1_cmp_rec_key rec pk = (if rec_k rec AND 3 = of_le64 pk AND 3 then 0 else 1)"

definition hk0_ops :: FM_KEY_OPS where
  "hk0_ops = \<lparr>hash_rec = Some hk0_hash_rec, hash_key = Some hk0_hash_key, cmp_rec_rec = Some hk0_cmp_rec_rec,
     cmp_rec_key = Some hk0_cmp_rec_key, has_null_part = Some (\<lambda>_. 0)\<rparr>"

definition hk1_ops :: FM_KEY_OPS where
  "hk1_ops = \<lparr>hash_rec = Some hk1_hash_rec, hash_key = Some hk1_hash_key, cmp_rec_rec = Some hk1_cmp_rec_rec,
     cmp_rec_key = Some hk1_cmp_rec_key, has_null_part = Some (\<lambda>_. 0)\<rparr>"

lemma length_le64 [simp]: "length (le64 w) = 8"
  by (simp add: le64_def)

lemma of_le64_le64 [simp]: "of_le64 (le64 w) = w"
proof -
  have "bit (of_le64 (le64 w)) n = bit w n" if "n < 64" for n
    using that by (auto simp: of_le64_def le64_def of_le32_le32 bit_or_iff bit_push_bit_iff bit_ucast_iff bit_drop_bit_eq)
  then show ?thesis by (intro bit_word_eqI) simp
qed

lemma of_le64_append [simp]: "of_le64 (le64 w @ x) = w"
proof -
  have "of_le64 (le64 w @ x) = of_le64 (le64 w)" by (simp add: of_le64_def le64_def)
  then show ?thesis by simp
qed

lemma Rec_simps [simp]: "length (Rec k v) = 16" "rec_k (Rec k v) = k" "rec_v (Rec k v) = v"
  by (simp_all add: Rec_def rec_k_def rec_v_def)

lemma le32_of_le32: "le32 (of_le32 b) = map (byte_at b) [0 ..< 4]"
proof -
  have out: "\<not> bit (w :: u8) (8 + n)" "\<not> bit (w :: u8) (16 + n)" "\<not> bit (w :: u8) (24 + n)" for w n
    using bit_imp_le_length [of w] by fastforce+
  have "bit (of_le32 b) n = bit (byte_at b 0) n" "bit (of_le32 b) (8 + n) = bit (byte_at b 1) n"
    "bit (of_le32 b) (16 + n) = bit (byte_at b 2) n" "bit (of_le32 b) (24 + n) = bit (byte_at b 3) n" if "n < 8" for n
    unfolding of_le32_def bit_or_iff bit_push_bit_iff bit_ucast_iff using that out by simp_all
  then have "ucast (of_le32 b) = byte_at b 0" "ucast (drop_bit 8 (of_le32 b)) = byte_at b 1"
    "ucast (drop_bit 16 (of_le32 b)) = byte_at b 2" "ucast (drop_bit 24 (of_le32 b)) = byte_at b 3"
    by (auto intro!: bit_word_eqI simp: bit_ucast_iff bit_drop_bit_eq)
  moreover have "[0 ..< 4] = [0, 1, 2, 3 :: nat]" by (simp add: upt_rec)
  ultimately show ?thesis by (simp add: le32_def)
qed

lemma le64_of_le64: "le64 (of_le64 b) = map (byte_at b) [0 ..< 8]"
proof -
  let ?l = "of_le32 (take 4 b)" and ?h = "of_le32 (take 4 (drop 4 b))"
  have "bit (ucast (of_le64 b) :: u32) n = bit ?l n" "bit (ucast (drop_bit 32 (of_le64 b)) :: u32) n = bit ?h n" if "n < 32" for n
    using that by (auto simp: of_le64_def bit_or_iff bit_push_bit_iff bit_ucast_iff bit_drop_bit_eq dest: bit_imp_le_length)
  then have e: "ucast (of_le64 b) = ?l" "ucast (drop_bit 32 (of_le64 b)) = ?h" by (auto intro!: bit_word_eqI)
  show ?thesis unfolding le64_def e le32_of_le32 by (rule nth_equalityI) (auto simp: nth_append byte_at_def)
qed

lemma hk0_contract: "contract_ok hk0_ops"
  unfolding contract_ok_def hk0_ops_def
  by unfold_locales (auto simp: hk0_hash_rec_def hk0_hash_key_def hk0_cmp_rec_rec_def hk0_cmp_rec_key_def Let_def le64_of_le64 split: if_splits)

lemma hk1_contract: "contract_ok hk1_ops"
  unfolding contract_ok_def hk1_ops_def
  by unfold_locales (auto simp: hk1_hash_rec_def hk1_hash_key_def hk1_cmp_rec_rec_def hk1_cmp_rec_key_def split: if_splits)

section \<open>The tests\<close>

text \<open>
  A test returns the number of its failed checks; a check on an out-of-range slot is undefined. The
  allocator \<open>o'\<close> stands for \<open>malloc\<close>, \<open>junk\<close> for the contents of a buffer that is not initialised.
\<close>

definition CHECK :: "bool \<Rightarrow> nat" where
  "CHECK c = (if c then 0 else 1)"

definition test_gen_of :: "FM_SHARE_CORE \<Rightarrow> slot_id \<Rightarrow> u32 option" where
  "test_gen_of s idx = map_option sl_gen (fm_slot s idx)"

definition test_stale_pos :: "FM_SHARE_CORE_OPS \<Rightarrow> image \<Rightarrow> nat option" where
  "test_stale_pos o' junk = do {
     let s0 = fm_core_init_share o' 16 0 (2 ^ 20) 64;
     (rc1, ia, ek1, s1) \<leftarrow> fm_core_insert_row s0 (Rec 1 10);
     (rc2, ib, ek2, s2) \<leftarrow> fm_core_insert_row s1 (Rec 2 20);
     a \<leftarrow> ia;
     ga \<leftarrow> test_gen_of s2 a;
     (rc3, s3) \<leftarrow> fm_core_delete_row s2 a ga;
     (rc4, ic, ek4, s4) \<leftarrow> fm_core_insert_row s3 (Rec 3 30);
     c \<leftarrow> ic;
     (rc5, buf5) \<leftarrow> fm_core_read_row s4 a True ga junk;
     (rc6, ek6, s6) \<leftarrow> fm_core_update_row s4 a ga (Rec 3 30) (Rec 3 31);
     (rc7, s7) \<leftarrow> fm_core_delete_row s6 a ga;
     gc \<leftarrow> test_gen_of s7 c;
     (rc8, buf8) \<leftarrow> fm_core_read_row s7 c True gc buf5;
     s8 \<leftarrow> fm_core_free_share s7;
     Some (CHECK (rc1 = FM_ERR_OK) + CHECK (rc2 = FM_ERR_OK) + CHECK (rc3 = FM_ERR_OK) + CHECK (rc4 = FM_ERR_OK) + CHECK (c = a)
       + CHECK (rc5 = FM_ERR_DELETED) + CHECK (rc6 = FM_ERR_DELETED) + CHECK (rc7 = FM_ERR_DELETED)
       + CHECK (rc8 = FM_ERR_OK) + CHECK (rec_k buf8 = 3 \<and> rec_v buf8 = 30)) }"

text \<open>The loops of \<open>test_multikey\<close>, each over its counter.\<close>

primrec insert_all :: "nat list \<Rightarrow> FM_SHARE_CORE \<Rightarrow> (nat \<times> FM_SHARE_CORE) option" where
  "insert_all [] s = Some (0, s)"
| "insert_all (i # is) s = do {
     (rc, idx, ek, s1) \<leftarrow> fm_core_insert_row s (Rec (of_nat i) (of_nat i * 2));
     (n, s2) \<leftarrow> insert_all is s1;
     Some (CHECK (rc = FM_ERR_OK) + n, s2) }"

partial_function (option) count_next ::
  "FM_SHARE_CORE \<Rightarrow> image \<Rightarrow> slot_id \<Rightarrow> image \<Rightarrow> nat \<Rightarrow> (nat \<times> FM_SHARE_CORE) option" where
  "count_next s pk cur buf seen = do {
     ((rc, idx, buf1), s1) \<leftarrow> fm_core_find_next s 1 pk cur buf cur;
     if rc = FM_ERR_OK then count_next s1 pk idx buf1 (seen + 1) else Some (seen, s1) }"

definition count_key :: "FM_SHARE_CORE \<Rightarrow> image \<Rightarrow> image \<Rightarrow> (nat \<times> FM_SHARE_CORE) option" where
  "count_key s pk junk = do {
     ((rc, idx, buf), s1) \<leftarrow> fm_core_find s 1 pk junk (-1);
     if rc = FM_ERR_OK then count_next s1 pk idx buf 1 else Some (0, s1) }"

function expect_loop :: "nat \<Rightarrow> nat \<Rightarrow> nat" where
  "expect_loop i n = (if i < n then 1 + expect_loop (i + 4) n else 0)"
  by pat_completeness auto
termination
  by (relation "measure (\<lambda>(i, n). n - i)") auto

declare expect_loop.simps [simp del]

primrec count_all :: "nat list \<Rightarrow> nat \<Rightarrow> image \<Rightarrow> FM_SHARE_CORE \<Rightarrow> (nat \<times> FM_SHARE_CORE) option" where
  "count_all [] n junk s = Some (0, s)"
| "count_all (b # bs) n junk s = do {
     (seen, s1) \<leftarrow> count_key s (le64 (of_nat b)) junk;
     (m, s2) \<leftarrow> count_all bs n junk s1;
     Some (CHECK (seen = expect_loop b n) + m, s2) }"

primrec move_all :: "nat list \<Rightarrow> nat \<Rightarrow> image \<Rightarrow> FM_SHARE_CORE \<Rightarrow> (nat \<times> FM_SHARE_CORE) option" where
  "move_all [] n junk s = Some (0, s)"
| "move_all (i # is) n junk s = do {
     let oldk = of_nat i;
     let pk0 = le64 oldk;
     ((rc1, idx, buf), s1) \<leftarrow> fm_core_find s 0 pk0 junk (-1);
     g \<leftarrow> test_gen_of s1 idx;
     (rc2, ek, s2) \<leftarrow> fm_core_update_row s1 idx g buf (Rec (oldk + of_nat n) (rec_v buf + 1));
     ((rc3, idx3, buf3), s3) \<leftarrow> fm_core_find s2 0 pk0 buf idx;
     (m, s4) \<leftarrow> move_all is n junk s3;
     Some (CHECK (rc1 = FM_ERR_OK) + CHECK (rc2 = FM_ERR_OK) + CHECK (rc3 = FM_ERR_NOT_FOUND) + m, s4) }"

primrec find_all :: "nat list \<Rightarrow> nat \<Rightarrow> image \<Rightarrow> FM_SHARE_CORE \<Rightarrow> (nat \<times> FM_SHARE_CORE) option" where
  "find_all [] n junk s = Some (0, s)"
| "find_all (i # is) n junk s = do {
     ((rc, idx, buf), s1) \<leftarrow> fm_core_find s 0 (le64 (of_nat i + of_nat n)) junk (-1);
     (m, s2) \<leftarrow> find_all is n junk s1;
     Some (CHECK (rc = FM_ERR_OK) + CHECK (rec_v buf = of_nat i * 2 + 1) + m, s2) }"

definition multikey_share :: "FM_SHARE_CORE_OPS \<Rightarrow> FM_SHARE_CORE" where
  "multikey_share o' = wire_keys (fm_core_init_share o' 16 2 (2 ^ 16) 64) [(hk0_ops, True), (hk1_ops, False)]"

definition test_multikey :: "FM_SHARE_CORE_OPS \<Rightarrow> image \<Rightarrow> nat option" where
  "test_multikey o' junk = do {
     (n1, s1) \<leftarrow> insert_all [0 ..< 1000] (multikey_share o');
     (n2, s2) \<leftarrow> count_all [0 ..< 4] 1000 junk s1;
     (n3, s3) \<leftarrow> move_all [0 ..< 200] 1000 junk s2;
     (n4, s4) \<leftarrow> find_all [0 ..< 200] 1000 junk s3;
     s5 \<leftarrow> fm_core_free_share s4;
     Some (n1 + n2 + n3 + n4) }"

section \<open>A table of records\<close>

text \<open>The share of \<open>test_multikey\<close> holds one record for each key value in \<open>K\<close>, in slot \<open>f k\<close> and with value \<open>V k\<close>.\<close>

definition stores :: "FM_SHARE_CORE_OPS \<Rightarrow> FM_SHARE_CORE \<Rightarrow> nat set \<Rightarrow> (nat \<Rightarrow> slot_id) \<Rightarrow> (nat \<Rightarrow> u64) \<Rightarrow> bool" where
  "stores o' s K f V \<longleftrightarrow> table s \<and> (\<forall>i. \<not> held s i) \<and> static s = static (multikey_share o') \<and> (\<forall>n z. alloc o' n z)
     \<and> records s = int (card K) \<and> K \<subseteq> {..< 2 ^ 12} \<and> inj_on f K
     \<and> (\<forall>i r. rows s i = Some r \<longleftrightarrow> (\<exists>k \<in> K. i = f k \<and> r = Rec (of_nat k) (V k)))"

lemma multikey_share_eq:
  assumes al: "\<And>n z. alloc o' n z"
  shows "table (multikey_share o')" "rows (multikey_share o') = Map.empty" "\<not> held (multikey_share o') i"
    "keys (multikey_share o') = 2" "reclength (multikey_share o') = 16" "max_records (multikey_share o') = 2 ^ 16"
    "records (multikey_share o') = 0" "ops (multikey_share o') = o'"
    "map (\<lambda>kc. (kc_ops kc, kc_unique kc)) (keydef (multikey_share o')) = [(hk0_ops, True), (hk1_ops, False)]"
proof -
  have m: "(0 :: nat) < 2 ^ 16" "(2 ^ 16 :: nat) \<le> 2 ^ 31 - FM_CHUNK_SIZE" by (simp_all add: FM_CHUNK_SIZE_def)
  have k: "length [(hk0_ops, True), (hk1_ops, False)] \<le> FM_MAX_CHANGED_KEYS" "\<forall>x \<in> set [(hk0_ops, True), (hk1_ops, False)]. contract_ok (fst x)"
    using hk0_contract hk1_contract by (simp_all add: FM_MAX_CHANGED_KEYS_def)
  have d: "multikey_share o' = wire_keys (fm_core_init_share o' 16 (length [(hk0_ops, True), (hk1_ops, False)]) (2 ^ 16) 64)
      [(hk0_ops, True), (hk1_ops, False)]" by (simp add: multikey_share_def numeral_2_eq_2)
  show "table (multikey_share o')" "rows (multikey_share o') = Map.empty" "\<not> held (multikey_share o') i"
    using init_table [OF al m k d] by blast+
  note e = init_share_eq [OF al m refl, of 16 2 64]
  show "keys (multikey_share o') = 2" "reclength (multikey_share o') = 16" "max_records (multikey_share o') = 2 ^ 16"
    "records (multikey_share o') = 0" using e by (simp_all add: multikey_share_def wire_keys_def)
  show "map (\<lambda>kc. (kc_ops kc, kc_unique kc)) (keydef (multikey_share o')) = [(hk0_ops, True), (hk1_ops, False)]"
    using e(1) by (simp add: multikey_share_def wire_keys_def numeral_2_eq_2)
  show "ops (multikey_share o') = o'"
    using al by (simp add: multikey_share_def wire_keys_def fm_core_init_share_def zero_share_def core_alloc_def Let_def init_keys_eq)
qed

lemma stores_init: "(\<And>n z. alloc o' n z) \<Longrightarrow> stores o' (multikey_share o') {} f V"
  by (simp add: stores_def multikey_share_eq)

lemma storesD:
  assumes st: "stores o' s K f V"
  shows "table s" "\<not> held s i" "keys s = 2" "reclength s = 16" "max_records s = 2 ^ 16" "alloc (ops s) n z" "records s = int (card K)"
    "kc_ops (keydef s ! 0) = hk0_ops" "kc_ops (keydef s ! 1) = hk1_ops" "kc_unique (keydef s ! 0)" "\<not> kc_unique (keydef s ! 1)"
    "finite K" "card K \<le> 2 ^ 12"
proof -
  have al: "alloc o' n z" for n z using st by (simp add: stores_def)
  note m = multikey_share_eq [OF al]
  have e: "static s = static (multikey_share o')" and K: "K \<subseteq> {..< 2 ^ 12}" using st by (simp_all add: stores_def)
  show "table s" "\<not> held s i" "records s = int (card K)" using st by (simp_all add: stores_def)
  show "keys s = 2" "reclength s = 16" "max_records s = 2 ^ 16" "alloc (ops s) n z" using e m(4-6,8) al by (simp_all add: static_def)
  have "map (\<lambda>kc. (kc_ops kc, kc_unique kc)) (keydef s) = [(hk0_ops, True), (hk1_ops, False)]"
    using arg_cong [OF e, of "\<lambda>st. map (\<lambda>(a, b, c). (a, b)) (snd (snd (snd (snd (snd st)))))"] m(9)
    by (simp add: static_def comp_def)
  then show "kc_ops (keydef s ! 0) = hk0_ops" "kc_ops (keydef s ! 1) = hk1_ops" "kc_unique (keydef s ! 0)" "\<not> kc_unique (keydef s ! 1)"
    by auto
  show "finite K" "card K \<le> 2 ^ 12" using K finite_subset [OF K] card_mono [OF _ K] by auto
qed

lemma of_nat_small: "k < 2 ^ 12 \<Longrightarrow> k' < 2 ^ 12 \<Longrightarrow> (of_nat k :: u64) = of_nat k' \<longleftrightarrow> k = k'"
  by (simp add: word_of_nat_eq_iff take_bit_nat_eq_self)

lemma stores_rows: "stores o' s K f V \<Longrightarrow> rows s i = Some r \<longleftrightarrow> (\<exists>k \<in> K. i = f k \<and> r = Rec (of_nat k) (V k))"
  by (simp add: stores_def)

lemma hk_cmp [simp]:
  "kc_ops kc = hk0_ops \<Longrightarrow> probe_cmp kc r (le64 x) = 0 \<longleftrightarrow> rec_k r = x" "kc_ops kc = hk1_ops \<Longrightarrow> probe_cmp kc r (le64 x) = 0 \<longleftrightarrow> rec_k r AND 3 = x AND 3"
  "kc_ops kc = hk0_ops \<Longrightarrow> rec_cmp kc r r' = 0 \<longleftrightarrow> rec_k r = rec_k r'" "kc_ops kc = hk0_ops \<Longrightarrow> \<not> null_key kc r" "kc_ops kc = hk1_ops \<Longrightarrow> \<not> null_key kc r"
  by (simp_all add: probe_cmp_def rec_cmp_def null_key_def hk0_ops_def hk1_ops_def hk0_cmp_rec_key_def hk1_cmp_rec_key_def hk0_cmp_rec_rec_def)

lemma stores_dup_row:
  assumes st: "stores o' s K f V" and k: "k < 2 ^ 12" "k \<notin> K" and n: "n < 2"
  shows "\<not> dup_row s (Rec (of_nat k) v) n"
proof (cases "n = 0")
  case True
  have "K \<subseteq> {..< 2 ^ 12}" using st by (simp add: stores_def)
  then show ?thesis
    using True storesD(8) [OF st] k of_nat_small by (auto simp: dup_row_def stores_rows [OF st])
next
  case False
  then show ?thesis using n storesD(11) [OF st] by (simp add: dup_row_def less_2_cases_iff)
qed

lemma stores_insert:
  assumes st: "stores o' s K f V" and k: "k < 2 ^ 12" "k \<notin> K"
  shows "\<exists>i s'. fm_core_insert_row s (Rec (of_nat k) v) = Some (FM_ERR_OK, Some i, None, s') \<and> stores o' s' (insert k K) (f(k := i)) (V(k := v))"
proof -
  note d = storesD [OF st]
  have len: "length (Rec (of_nat k) v) = reclength s" and room: "records s < int (max_records s)" using d(4,5,7,13) by simp_all
  have nd: "\<forall>n < keys s. \<not> dup_row s (Rec (of_nat k) v) n" using stores_dup_row [OF st k] d(3) by simp
  from d(1) len d(6) room nd show ?thesis
  proof (rule insert_row_room, goal_cases)
    case (1 i s')
    have i: "\<forall>k' \<in> K. f k' \<noteq> i" using 1(3) stores_rows [OF st, of i] by (metis option.distinct(1))
    have "inj_on f K" using st by (simp add: stores_def)
    then have "inj_on (f(k := i)) (insert k K)" using k(2) i by (auto simp: inj_on_def)
    moreover have "rows s' j = Some r \<longleftrightarrow> (\<exists>k' \<in> insert k K. j = (f(k := i)) k' \<and> r = Rec (of_nat k') ((V(k := v)) k'))" for j r
      using 1(4) stores_rows [OF st, of j r] k(2) i by (auto split: if_splits)
    ultimately have "stores o' s' (insert k K) (f(k := i)) (V(k := v))"
      using 1 st k d(12) by (simp add: stores_def)
    with 1(1) show ?case by blast
  qed
qed

lemma stores_find:
  assumes st: "stores o' s K f V" and k: "k < 2 ^ 12"
  shows "\<exists>buf'. fm_core_find s 0 (le64 (of_nat k)) buf out
    = Some (if k \<in> K then (FM_ERR_OK, f k, Rec (of_nat k) (V k)) else (FM_ERR_NOT_FOUND, out, buf'), s)"
proof -
  note d = storesD [OF st]
  have K: "K \<subseteq> {..< 2 ^ 12}" using st by (simp add: stores_def)
  have "{i. \<exists>r. rows s i = Some r \<and> probe_cmp (keydef s ! 0) r (le64 (of_nat k)) = 0} = (if k \<in> K then {f k} else {})"
    using d(8) K k of_nat_small by (auto simp: stores_rows [OF st])
  moreover have "0 < keys s" using d(3) by simp
  ultimately obtain ys where ys: "distinct ys" "set ys = (if k \<in> K then {f k} else {})"
    "\<exists>buf'. fm_core_find s 0 (le64 (of_nat k)) buf out = Some (if ys = [] then (FM_ERR_NOT_FOUND, out, buf') else (FM_ERR_OK, hd ys, the (rows s (hd ys))), s)"
    using lookup_enumerates [OF d(1), of 0 "le64 (of_nat k)"] by auto
  show ?thesis
  proof (cases "k \<in> K")
    case True
    then have "hd ys = f k" "ys \<noteq> []" using ys(2) by (cases ys; simp)+
    moreover have "rows s (f k) = Some (Rec (of_nat k) (V k))" using stores_rows [OF st] True by blast
    ultimately show ?thesis using ys(3) True by simp
  qed (use ys in simp)
qed

lemma count_next_enum:
  assumes "j < length ys"
    and "\<And>j buf out. j < length ys \<Longrightarrow> \<exists>buf'. fm_core_find_next s 1 pk (ys ! j) buf out =
        Some (if j + 1 < length ys then (FM_ERR_OK, ys ! (j + 1), the (rows s (ys ! (j + 1)))) else (FM_ERR_NOT_FOUND, out, buf'), s)"
  shows "count_next s pk (ys ! j) buf (j + 1) = Some (length ys, s)"
  using assms(1)
proof (induction "length ys - j" arbitrary: j buf rule: less_induct)
  case less
  obtain buf' where f: "fm_core_find_next s 1 pk (ys ! j) buf (ys ! j) =
        Some (if j + 1 < length ys then (FM_ERR_OK, ys ! (j + 1), the (rows s (ys ! (j + 1)))) else (FM_ERR_NOT_FOUND, ys ! j, buf'), s)"
    using assms(2) [OF less.prems] by blast
  show ?case
  proof (cases "j + 1 < length ys")
    case True
    with less.hyps [of "j + 1" "the (rows s (ys ! (j + 1)))"] show ?thesis using f by (subst count_next.simps) simp
  next
    case False
    then show ?thesis using f less.prems by (subst count_next.simps) auto
  qed
qed

lemma count_key_enum:
  assumes t: "table s" "1 < keys s"
  shows "count_key s pk junk = Some (card {i. \<exists>r. rows s i = Some r \<and> probe_cmp (keydef s ! 1) r pk = 0}, s)"
proof -
  obtain ys where ys: "distinct ys" "set ys = {i. \<exists>r. rows s i = Some r \<and> probe_cmp (keydef s ! 1) r pk = 0}"
    "\<exists>buf'. fm_core_find s 1 pk junk (-1) = Some (if ys = [] then (FM_ERR_NOT_FOUND, -1, buf') else (FM_ERR_OK, hd ys, the (rows s (hd ys))), s)"
    "\<forall>j buf out. j < length ys \<longrightarrow> (\<exists>buf'. fm_core_find_next s 1 pk (ys ! j) buf out =
        Some (if j + 1 < length ys then (FM_ERR_OK, ys ! (j + 1), the (rows s (ys ! (j + 1)))) else (FM_ERR_NOT_FOUND, out, buf'), s))"
    using lookup_enumerates [OF t, of pk] by blast
  have c: "card (set ys) = length ys" using distinct_card [OF ys(1)] .
  show ?thesis
  proof (cases "ys = []")
    case True
    then show ?thesis using ys(3) c unfolding ys(2) [symmetric] by (auto simp: count_key_def)
  next
    case False
    then have "count_next s pk (hd ys) buf 1 = Some (length ys, s)" for buf
      using count_next_enum [of 0 ys s pk buf] ys(4) by (simp add: hd_conv_nth)
    then show ?thesis using ys(3) False c unfolding ys(2) [symmetric] by (auto simp: count_key_def)
  qed
qed

lemma stores_cong: "stores o' s K f V \<Longrightarrow> (\<And>k. k \<in> K \<Longrightarrow> V k = V' k) \<Longrightarrow> stores o' s K f V'"
  unfolding stores_def by auto

lemma insert_all_ok:
  assumes "stores o' s {..< a} f (\<lambda>k. of_nat k * 2)" "a \<le> b" "b \<le> 2 ^ 12"
  shows "\<exists>s' f'. insert_all [a ..< b] s = Some (0, s') \<and> stores o' s' {..< b} f' (\<lambda>k. of_nat k * 2)"
  using assms
proof (induction "b - a" arbitrary: a s f)
  case 0
  then show ?case by auto
next
  case (Suc m)
  then have ab: "[a ..< b] = a # [a + 1 ..< b]" "a < 2 ^ 12" by (simp_all add: upt_conv_Cons)
  obtain i s1 where i: "fm_core_insert_row s (Rec (of_nat a) (of_nat a * 2)) = Some (FM_ERR_OK, Some i, None, s1)"
    "stores o' s1 (insert a {..< a}) (f(a := i)) ((\<lambda>k. of_nat k * 2)(a := of_nat a * 2))"
    using stores_insert [OF Suc.prems(1) ab(2), of "of_nat a * 2"] by auto
  have "stores o' s1 {..< a + 1} (f(a := i)) (\<lambda>k. of_nat k * 2)"
    using stores_cong [OF i(2), of "\<lambda>k. of_nat k * 2"] by (simp add: lessThan_Suc)
  from Suc.hyps(1) [OF _ this] Suc obtain s' f' where "insert_all [a + 1 ..< b] s1 = Some (0, s')" "stores o' s' {..< b} f' (\<lambda>k. of_nat k * 2)"
    by fastforce
  with i(1) ab(1) show ?case by (simp add: CHECK_def) blast
qed

lemma expect_loop_eq: "expect_loop i n = card {k. i \<le> k \<and> k < n \<and> k mod 4 = i mod 4}"
proof (induction i n rule: expect_loop.induct)
  case (1 i n)
  show ?case
  proof (cases "i < n")
    case True
    let ?S = "\<lambda>i. {k. i \<le> k \<and> k < n \<and> k mod 4 = i mod 4}"
    have "k = i \<or> i + 4 \<le> k" if "i \<le> k" "k mod 4 = i mod 4" for k using that by presburger
    then have "?S i = insert i (?S (i + 4))" using True by auto
    moreover have "finite (?S (i + 4))" by simp
    ultimately show ?thesis using 1 [OF True] True by (subst expect_loop.simps) simp
  next
    case False
    then show ?thesis by (subst expect_loop.simps) auto
  qed
qed

lemma and_3: "k < 2 ^ 12 \<Longrightarrow> b < 4 \<Longrightarrow> (of_nat k :: u64) AND 3 = of_nat b AND 3 \<longleftrightarrow> k mod 4 = b"
proof -
  assume k: "k < 2 ^ 12" and b: "b < 4"
  have "(of_nat m :: u64) AND 3 = of_nat (m mod 4)" for m
  proof -
    have "(of_nat m :: u64) AND 3 = take_bit 2 (of_nat m)" by (simp add: take_bit_eq_mask mask_eq_exp_minus_1)
    also have "\<dots> = of_nat (take_bit 2 m)" by (rule take_bit_of_nat)
    finally show ?thesis by (simp add: take_bit_eq_mod)
  qed
  moreover have "k mod 4 < 2 ^ 12" "b mod 4 < 2 ^ 12" using b by simp_all
  ultimately show ?thesis using b of_nat_small [of "k mod 4" "b mod 4"] by simp
qed

lemma count_key_ok:
  assumes st: "stores o' s {..< n} f V" and b: "b < 4"
  shows "count_key s (le64 (of_nat b)) junk = Some (expect_loop b n, s)"
proof -
  note d = storesD [OF st]
  have n: "k < 2 ^ 12" if "k < n" for k using st that by (auto simp: stores_def)
  have inj: "inj_on f {..< n}" using st by (simp add: stores_def)
  let ?A = "{k. b \<le> k \<and> k < n \<and> k mod 4 = b mod 4}"
  have A: "?A = {k. k < n \<and> k mod 4 = b}" using b by (auto intro: order_trans [OF _ mod_less_eq_dividend])
  have "(\<exists>r. rows s i = Some r \<and> probe_cmp (keydef s ! 1) r (le64 (of_nat b)) = 0) \<longleftrightarrow> (\<exists>k < n. i = f k \<and> k mod 4 = b)" for i
  proof -
    have "(\<exists>r. rows s i = Some r \<and> probe_cmp (keydef s ! 1) r (le64 (of_nat b)) = 0)
        \<longleftrightarrow> (\<exists>k < n. i = f k \<and> (of_nat k :: u64) AND 3 = of_nat b AND 3)"
      using d(9) by (auto simp: stores_rows [OF st])
    then show ?thesis using n and_3 [OF _ b] by blast
  qed
  then have "{i. \<exists>r. rows s i = Some r \<and> probe_cmp (keydef s ! 1) r (le64 (of_nat b)) = 0} = f ` ?A"
    unfolding A by blast
  moreover have "card (f ` ?A) = card ?A" by (rule card_image) (rule inj_on_subset [OF inj], auto)
  ultimately show ?thesis using count_key_enum [OF d(1), of "le64 (of_nat b)" junk] d(3) unfolding expect_loop_eq by (simp only: one_less_numeral_iff semiring_norm)
qed

lemma count_all_ok:
  "stores o' s {..< n} f V \<Longrightarrow> \<forall>b \<in> set bs. b < 4 \<Longrightarrow> count_all bs n junk s = Some (0, s)"
  by (induction bs) (simp_all add: count_key_ok CHECK_def)

lemma test_gen_of_eq: "has_slot (chunks s) i \<Longrightarrow> test_gen_of s i = Some (gen_of s i)"
  by (simp add: test_gen_of_def fm_slot_eq gen_of_def)

lemma stores_gen:
  assumes st: "stores o' s K f V" and k: "k \<in> K"
  shows "test_gen_of s (f k) = Some (gen_of s (f k))" "has_slot (chunks s) (f k)" "rows s (f k) = Some (Rec (of_nat k) (V k))"
proof -
  show r: "rows s (f k) = Some (Rec (of_nat k) (V k))" using stores_rows [OF st] k by blast
  then show h: "has_slot (chunks s) (f k)" using rows_eq_None_iff [of s "f k"] by (auto simp: active_def)
  then show "test_gen_of s (f k) = Some (gen_of s (f k))" by (rule test_gen_of_eq)
qed

lemma stores_move:
  assumes st: "stores o' s K f V" and k: "k \<in> K" "k' < 2 ^ 12" "k' \<notin> K"
  shows "\<exists>s'. fm_core_update_row s (f k) (gen_of s (f k)) (Rec (of_nat k) (V k)) (Rec (of_nat k') v) = Some (FM_ERR_OK, None, s')
    \<and> stores o' s' (insert k' (K - {k})) (f(k' := f k)) (V(k' := v))"
proof -
  note d = storesD [OF st] and g = stores_gen [OF st k(1)]
  have len: "length (Rec (of_nat k') v) = reclength s" using d(4) by simp
  have old: "same_keys s cur (Rec (of_nat k) (V k))" if "rows s (f k) = Some cur" for cur
    using stored_row [OF d(1) g(3)] that g(3) by simp
  have nd: "find (dup_row s (Rec (of_nat k') v)) (changed_of s (Rec (of_nat k) (V k)) (Rec (of_nat k') v)) = None"
    using stores_dup_row [OF st k(2,3)] d(3) by (auto simp: find_None_iff changed_of_def)
  have nh: "\<not> held s (f k)" using d(2) .
  show ?thesis
  proof (rule update_row_cases [OF d(1) g(2) nh len old, where g = "gen_of s (f k)"], goal_cases)
    case ok: (4 s')
    have inj: "inj_on f K" using st by (simp add: stores_def)
    have inj': "inj_on (f(k' := f k)) (insert k' (K - {k}))" using inj k by (auto simp: inj_on_def)
    have "rows s' j = Some r \<longleftrightarrow> (\<exists>x \<in> insert k' (K - {k}). j = (f(k' := f k)) x \<and> r = Rec (of_nat x) ((V(k' := v)) x))" for j r
    proof (cases "j = f k")
      case True
      then show ?thesis using ok(6) inj k by (auto simp: inj_on_def)
    next
      case False
      then show ?thesis using ok(6) stores_rows [OF st, of j r] k by auto
    qed
    moreover have "card (insert k' (K - {k})) = card K" using card.remove [OF d(12) k(1)] d(12) k by simp
    ultimately have "stores o' s' (insert k' (K - {k})) (f(k' := f k)) (V(k' := v))"
      using ok st k inj' by (auto simp: stores_def)
    with ok(4) show ?thesis by blast
  qed (use g nd in auto)
qed

text \<open>The state of the key moves: the keys below \<open>i\<close> have been moved up by \<open>n\<close>.\<close>

definition moved :: "nat \<Rightarrow> nat \<Rightarrow> nat set" where
  "moved n i = {i ..< n} \<union> {n ..< n + i}"

definition moved_value :: "nat \<Rightarrow> nat \<Rightarrow> u64" where
  "moved_value n k = (if k < n then of_nat k * 2 else of_nat (k - n) * 2 + 1)"

lemma moved_step: "i < n \<Longrightarrow> insert (i + n) (moved n i - {i}) = moved n (i + 1)"
  by (auto simp: moved_def)

lemma move_all_ok:
  assumes "stores o' s (moved n i) f (moved_value n)" "i \<le> m" "m \<le> n" "n + m \<le> 2 ^ 12"
  shows "\<exists>s' f'. move_all [i ..< m] n junk s = Some (0, s') \<and> stores o' s' (moved n m) f' (moved_value n)"
  using assms
proof (induction "m - i" arbitrary: i s f)
  case 0
  then show ?case by auto
next
  case (Suc d)
  then have im: "[i ..< m] = i # [i + 1 ..< m]" "i < n" "i < 2 ^ 12" "i + n < 2 ^ 12" by (simp_all add: upt_conv_Cons)
  have i: "i \<in> moved n i" "i + n \<notin> moved n i" using im(2) by (auto simp: moved_def)
  have v: "moved_value n i = of_nat i * 2" using im(2) by (simp add: moved_value_def)
  note st = Suc.prems(1)
  have f1: "fm_core_find s 0 (le64 (of_nat i)) junk (-1) = Some ((FM_ERR_OK, f i, Rec (of_nat i) (of_nat i * 2)), s)"
    using stores_find [OF st im(3), of junk "-1"] i v by simp
  obtain s1 where u: "fm_core_update_row s (f i) (gen_of s (f i)) (Rec (of_nat i) (of_nat i * 2)) (Rec (of_nat i + of_nat n) (of_nat i * 2 + 1))
      = Some (FM_ERR_OK, None, s1)"
    and st1: "stores o' s1 (moved n (i + 1)) (f(i + n := f i)) ((moved_value n)(i + n := of_nat i * 2 + 1))"
    using stores_move [OF st i(1) im(4) i(2), of "of_nat i * 2 + 1"] v moved_step [OF im(2)] by auto
  have st1': "stores o' s1 (moved n (i + 1)) (f(i + n := f i)) (moved_value n)"
    by (rule stores_cong [OF st1]) (simp add: moved_value_def)
  have "i \<notin> moved n (i + 1)" using im(2) by (auto simp: moved_def)
  then obtain b3 where f2: "fm_core_find s1 0 (le64 (of_nat i)) (Rec (of_nat i) (of_nat i * 2)) (f i) = Some ((FM_ERR_NOT_FOUND, f i, b3), s1)"
    using stores_find [OF st1' im(3), of "Rec (of_nat i) (of_nat i * 2)" "f i"] by auto
  obtain s' f' where r: "move_all [i + 1 ..< m] n junk s1 = Some (0, s')" "stores o' s' (moved n m) f' (moved_value n)"
    using Suc.hyps(1) [OF _ st1'] Suc.hyps(2) Suc.prems by fastforce
  have "move_all [i ..< m] n junk s = Some (0, s')"
    unfolding im(1) using f1 u f2 r(1) stores_gen(1) [OF st i(1)] by (simp add: Let_def CHECK_def)
  with r(2) show ?case by blast
qed

lemma find_all_ok:
  assumes st: "stores o' s (moved n m) f (moved_value n)" and n: "n + m \<le> 2 ^ 12"
  shows "\<forall>i \<in> set is. i < m \<Longrightarrow> find_all is n junk s = Some (0, s)"
proof (induction "is")
  case (Cons i "is")
  then have i: "i + n < 2 ^ 12" "i + n \<in> moved n m" using n by (auto simp: moved_def)
  have "fm_core_find s 0 (le64 (of_nat i + of_nat n)) junk (-1) = Some ((FM_ERR_OK, f (i + n), Rec (of_nat i + of_nat n) (of_nat i * 2 + 1)), s)"
    using stores_find [OF st i(1), of junk "-1"] i(2) by (simp add: moved_value_def)
  with Cons show ?case by (simp add: CHECK_def)
qed simp

lemma test_multikey_ok:
  assumes al: "\<And>n z. alloc o' n z"
  shows "test_multikey o' junk = Some 0"
proof -
  have "stores o' (multikey_share o') {..< 0} (\<lambda>_. 0) (\<lambda>k. of_nat k * 2)" using stores_init [OF al] by simp
  from insert_all_ok [OF this, of 1000] obtain s1 f1 where s1: "insert_all [0 ..< 1000] (multikey_share o') = Some (0, s1)"
    "stores o' s1 {..< 1000} f1 (\<lambda>k. of_nat k * 2)" by auto
  have s2: "count_all [0 ..< 4] 1000 junk s1 = Some (0, s1)" by (rule count_all_ok [OF s1(2)]) simp
  have "moved 1000 0 = {..< 1000}" by (auto simp: moved_def)
  then have "stores o' s1 (moved 1000 0) f1 (moved_value 1000)"
    using stores_cong [OF s1(2), of "moved_value 1000"] by (simp add: moved_value_def)
  from move_all_ok [OF this, of 200 junk] obtain s3 f3 where s3: "move_all [0 ..< 200] 1000 junk s1 = Some (0, s3)"
    "stores o' s3 (moved 1000 200) f3 (moved_value 1000)" by auto
  have s4: "find_all [0 ..< 200] 1000 junk s3 = Some (0, s3)" by (rule find_all_ok [OF s3(2)]) simp_all
  obtain s5 where "fm_core_free_share s3 = Some s5" using table_freeable [OF storesD(1) [OF s3(2)]] by (auto simp: freeable_def)
  then show ?thesis unfolding test_multikey_def by (simp only: s1(1) s2 s3(1) s4 bind.simps prod.case) simp
qed

section \<open>Slots are recycled last in, first out\<close>

definition plain :: "FM_SHARE_CORE \<Rightarrow> bool" where
  "plain s \<longleftrightarrow> table s \<and> (\<forall>i. \<not> held s i) \<and> (\<forall>n z. alloc (ops s) n z) \<and> keys s = 0 \<and> reclength s = 16 \<and> max_records s = 2 ^ 20"

lemma plain_init:
  assumes al: "\<And>n z. alloc o' n z"
  defines "s0 \<equiv> fm_core_init_share o' 16 0 (2 ^ 20) 64"
  shows "plain s0" "rows s0 = Map.empty" "records s0 = 0"
proof -
  have m: "(0 :: nat) < 2 ^ 20" "(2 ^ 20 :: nat) \<le> 2 ^ 31 - FM_CHUNK_SIZE" by (simp_all add: FM_CHUNK_SIZE_def)
  note e = init_share_eq [OF al m refl, of 16 0 64]
  have "wire_keys s0 [] = s0" using e(1) by (simp add: wire_keys_def s0_def)
  then have d: "s0 = wire_keys (fm_core_init_share o' 16 (length ([] :: (FM_KEY_OPS \<times> bool) list)) (2 ^ 20) 64) []" by (simp add: s0_def)
  have "table s0" "\<not> held s0 i" "rows s0 = Map.empty" for i using init_table [OF al m _ _ d] by simp_all
  moreover have "ops s0 = o'"
    using al by (simp add: s0_def fm_core_init_share_def zero_share_def core_alloc_def Let_def init_keys_eq)
  moreover have "keys s0 = 0" "reclength s0 = 16" "max_records s0 = 2 ^ 20" "records s0 = 0" using e(2-4,9) by (simp_all add: s0_def)
  ultimately show "plain s0" "rows s0 = Map.empty" "records s0 = 0" using al by (simp_all add: plain_def)
qed

lemma plain_insert:
  assumes p: "plain s" and r: "records s < 2 ^ 20"
  obtains i s' where "fm_core_insert_row s (Rec k v) = Some (FM_ERR_OK, Some i, None, s')" "plain s'" "rows s i = None"
    "rows s' = (rows s)(i \<mapsto> Rec k v)" "gen_of s' = gen_of s" "records s' = records s + 1"
    "\<forall>j. has_slot (chunks s) j \<longrightarrow> has_slot (chunks s') j"
proof (rule insert_row_room [of s "Rec k v"], goal_cases)
  case (6 i s')
  then have "plain s'" using p by (auto simp: plain_def static_def)
  with 6 show thesis by (intro that [of i s']) simp_all
qed (use assms in \<open>simp_all add: plain_def\<close>)

lemma test_stale_pos_ok:
  assumes al: "\<And>n z. alloc o' n z"
  shows "test_stale_pos o' junk = Some 0"
proof -
  note i0 = plain_init [OF al]
  let ?s0 = "fm_core_init_share o' 16 0 (2 ^ 20) 64"
  obtain a s1 where s1: "fm_core_insert_row ?s0 (Rec 1 10) = Some (FM_ERR_OK, Some a, None, s1)" "plain s1"
    "rows s1 = (rows ?s0)(a \<mapsto> Rec 1 10)" "records s1 = 1"
    by (rule plain_insert [OF i0(1), of 1 10]) (use i0(3) in simp_all)
  obtain b s2 where s2: "fm_core_insert_row s1 (Rec 2 20) = Some (FM_ERR_OK, Some b, None, s2)" "plain s2"
    "rows s1 b = None" "rows s2 = (rows s1)(b \<mapsto> Rec 2 20)" "records s2 = 2"
    by (rule plain_insert [OF s1(2), of 2 20]) (use s1(4) in simp_all)
  have ra: "rows s2 a = Some (Rec 1 10)" using s1(3) s2(3,4) by auto
  then have ha: "has_slot (chunks s2) a" using rows_eq_None_iff [of s2 a] by (auto simp: active_def)
  have ga: "test_gen_of s2 a = Some (gen_of s2 a)" using ha by (rule test_gen_of_eq)
  have t2: "table s2" "\<not> held s2 a" using s2(2) by (simp_all add: plain_def)
  let ?g = "gen_of s2 a"
  obtain s3 where s3: "fm_core_delete_row s2 a ?g = Some (FM_ERR_OK, s3)" "plain s3" "gen_of s3 a = ?g + 1" "records s3 = 1"
      "has_slot (chunks s3) a"
  proof (rule delete_row_cases [OF t2(1) ha t2(2), where g = ?g], goal_cases)
    case (2 s')
    then have "plain s'" using s2(2) by (auto simp: plain_def static_def)
    with 2 show thesis using s2(5) ha by (intro that [of s']) simp_all
  qed (use ra in auto)
  obtain c s4 where s4: "fm_core_insert_row s3 (Rec 3 30) = Some (FM_ERR_OK, Some c, None, s4)" "plain s4"
    "rows s4 = (rows s3)(c \<mapsto> Rec 3 30)" "gen_of s4 = gen_of s3" "\<forall>j. has_slot (chunks s3) j \<longrightarrow> has_slot (chunks s4) j"
    by (rule plain_insert [OF s3(2), of 3 30]) (use s3(4) in simp_all)
  have "a \<noteq> FM_NULL_SLOT" using ha by auto
  then have ca: "c = a" using insert_row_free_head [OF s4(1)] delete_row_free_head [OF s3(1)] by simp
  have h4: "has_slot (chunks s4) a" and g4: "gen_of s4 a = ?g + 1" "gen_of s4 a \<noteq> ?g" and r4: "rows s4 a = Some (Rec 3 30)"
    using s3(3,5) s4(3-5) ca by auto
  have t4: "table s4" "\<not> held s4 a" "reclength s4 = 16" using s4(2) by (simp_all add: plain_def)
  have rd: "fm_core_read_row s a True ?g buf = Some (FM_ERR_DELETED, buf)" "fm_core_read_row s a True (gen_of s4 a) buf = Some (FM_ERR_OK, Rec 3 30)"
    if q: "table s" "has_slot (chunks s) a" "gen_of s = gen_of s4" "rows s = rows s4" for s buf
  proof -
    obtain F where "body s (index_of s) {} F" using q(1) by (auto simp: table_def)
    from read_row_gen [OF bodyD(5) [OF this] q(2), of _ buf] fun_cong [OF q(3), of a]
    show "fm_core_read_row s a True ?g buf = Some (FM_ERR_DELETED, buf)" "fm_core_read_row s a True (gen_of s4 a) buf = Some (FM_ERR_OK, Rec 3 30)"
      using q(2,4) g4(2) r4 unfolding gen_of_def [of s] by simp_all
  qed
  have len: "length (Rec 3 31) = reclength s4" using t4(3) by simp
  have old: "same_keys s4 cur (Rec 3 30)" if "rows s4 a = Some cur" for cur using that r4 stored_row [OF t4(1) r4] by simp
  obtain s6 where s6: "fm_core_update_row s4 a ?g (Rec 3 30) (Rec 3 31) = Some (FM_ERR_DELETED, None, s6)" "table s6" "same_rows s4 s6"
    by (rule update_row_cases [OF t4(1) h4 t4(2) len old, where g = ?g])
      (use s4(2) g4(2) in \<open>auto simp: plain_def changed_of_def\<close>)
  have e6: "gen_of s6 = gen_of s4" "rows s6 = rows s4" "\<not> held s6 a" using s6(3) t4(2) by (simp_all add: same_rows_def)
  have h6: "has_slot (chunks s6) a" using e6(2) r4 rows_eq_None_iff [of s6 a] by (auto simp: active_def)
  have s7: "fm_core_delete_row s6 a ?g = Some (FM_ERR_DELETED, s6)"
    by (rule delete_row_cases [OF s6(2) h6 e6(3), where g = ?g]) (use g4(2) e6(1) in auto)
  have gc: "test_gen_of s6 a = Some (gen_of s4 a)" using test_gen_of_eq [OF h6] e6(1) by simp
  obtain s8 where s8: "fm_core_free_share s6 = Some s8" using table_freeable [OF s6(2)] by (auto simp: freeable_def)
  note run = s1(1) s2(1) ga s3(1) s4(1) [unfolded ca] rd(1) [OF t4(1) h4 refl refl] s6(1) s7 gc rd(2) [OF s6(2) h6 e6(1,2)] s8
  show ?thesis unfolding test_stale_pos_def Let_def
    by (simp only: run bind.simps prod.case) (simp add: CHECK_def)
qed

section \<open>The tests pass\<close>

text \<open>
  The sequential tests of the core pass. With an allocator that does not fail, the test of stale
  positions and the test of two keys with 1000 rows (insert, count the rows of every value of the
  non-unique key, move 200 keys, look all of them up) run to their end without undefined behaviour, and
  none of their checks fails, whatever was in the buffers.
\<close>

theorem sequential_tests_pass:
  assumes "\<And>n z. alloc o' n z"
  shows "test_stale_pos o' junk = Some 0 \<and> test_multikey o' junk = Some 0"
  using test_stale_pos_ok [OF assms] test_multikey_ok [OF assms] by blast

theorem sequential_tests_pass_witness:
  "test_stale_pos \<lparr>alloc = \<lambda>_ _. True\<rparr> [] = Some 0 \<and> test_multikey \<lparr>alloc = \<lambda>_ _. True\<rparr> [] = Some 0"
  by (rule sequential_tests_pass) simp

end
