(* ===== verification/Fm_Test_Share.thy ===== *)
theory Fm_Test_Share
  imports Fm_Test
begin

text \<open>
  The shares of the threaded tests of the core (\<open>src/standalone-test/main.cpp\<close>): one unique key on the
  first eight bytes of the record. \<open>keyed_share\<close> is the interface that the tests use: the share holds a
  map from key values to a slot and a value, every call of the core at a known key does what a map
  would, and a scan visits every row once.
\<close>

section \<open>A share that holds a map\<close>

definition holds :: "(u64 \<Rightarrow> u64 \<Rightarrow> image) \<Rightarrow> FM_SHARE_CORE \<Rightarrow> FM_SHARE_CORE \<Rightarrow> (u64 \<rightharpoonup> slot_id \<times> u64) \<Rightarrow> bool" where
  "holds img sh s A \<longleftrightarrow> table s \<and> (\<forall>i. \<not> held s i) \<and> static s = static sh \<and> finite (dom A) \<and> records s = int (card (dom A))
     \<and> (\<forall>i r. rows s i = Some r \<longleftrightarrow> (\<exists>k v. A k = Some (i, v) \<and> r = img k v))"

locale keyed_share =
  fixes img :: "u64 \<Rightarrow> u64 \<Rightarrow> image" and sh :: FM_SHARE_CORE
  assumes key_of_img: "rec_k (img k v) = k" and img_length: "length (img k v) = reclength sh"
    and one_key: "keys sh = 1" and key_ops: "map (\<lambda>kc. (kc_ops kc, kc_unique kc)) (keydef sh) = [(hk0_ops, True)]"
    and alloc_ok: "alloc (ops sh) n z"
begin

lemma holds_static:
  assumes "holds img sh s A"
  shows "keys s = 1" "reclength s = reclength sh" "max_records s = max_records sh" "alloc (ops s) n z"
    "kc_ops (keydef s ! 0) = hk0_ops" "kc_unique (keydef s ! 0)" "table s" "\<not> held s i" "records s = int (card (dom A))"
proof -
  have e: "static s = static sh" using assms by (simp add: holds_def)
  show "keys s = 1" "reclength s = reclength sh" "max_records s = max_records sh" "alloc (ops s) n z"
    using e one_key alloc_ok by (simp_all add: static_def)
  have "map (\<lambda>kc. (kc_ops kc, kc_unique kc)) (keydef s) = [(hk0_ops, True)]"
    using arg_cong [OF e, of "\<lambda>st. map (\<lambda>(a, b, c). (a, b)) (snd (snd (snd (snd (snd st)))))"] key_ops
    by (simp add: static_def comp_def)
  then show "kc_ops (keydef s ! 0) = hk0_ops" "kc_unique (keydef s ! 0)" by auto
  show "table s" "\<not> held s i" "records s = int (card (dom A))" using assms by (simp_all add: holds_def)
qed

lemma holds_rows: "holds img sh s A \<Longrightarrow> rows s i = Some r \<longleftrightarrow> (\<exists>k v. A k = Some (i, v) \<and> r = img k v)"
  by (simp add: holds_def)

lemma holds_at: "holds img sh s A \<Longrightarrow> A k = Some (i, v) \<Longrightarrow> rows s i = Some (img k v)"
  by (auto simp: holds_rows)

lemma holds_slot: "holds img sh s A \<Longrightarrow> A k = Some (i, v) \<Longrightarrow> A k' = Some (i, v') \<Longrightarrow> k' = k"
  using holds_at [of s A k i v] holds_at [of s A k' i v'] key_of_img by (metis option.inject)

lemma holds_has_slot: "holds img sh s A \<Longrightarrow> A k = Some (i, v) \<Longrightarrow> has_slot (chunks s) i"
  using holds_at [of s A k i v] rows_eq_None_iff [of s i] by (auto simp: active_def)

lemma holds_same: "holds img sh s A \<Longrightarrow> table s' \<Longrightarrow> same_rows s s' \<Longrightarrow> holds img sh s' A"
  by (auto simp: holds_def same_rows_def)

lemma holds_upd:
  assumes h: "holds img sh s A" and A: "A k = None \<and> rows s i = None \<or> (\<exists>w. A k = Some (i, w))"
    and s': "table s'" "held s' = held s" "static s' = static s" "rows s' = (rows s)(i \<mapsto> img k v)"
    "records s' = records s + (if A k = None then 1 else 0)"
  shows "holds img sh s' (A(k \<mapsto> (i, v)))"
proof -
  have "rows s' j = Some r \<longleftrightarrow> (\<exists>k' v'. (A(k \<mapsto> (i, v))) k' = Some (j, v') \<and> r = img k' v')" for j r
  proof (cases "j = i")
    case True
    have "k' = k" if "A k' = Some (i, v')" for k' v'
      using A holds_at [OF h that] holds_slot [OF h _ that] by auto
    then show ?thesis using True s'(4) by (auto split: if_splits)
  next
    case False
    have "A k \<noteq> Some (j, v')" for v' using A False by auto
    then have "(A(k \<mapsto> (i, v))) k' = Some (j, v') \<longleftrightarrow> A k' = Some (j, v')" for k' v' using False by auto
    then show ?thesis using False s'(4) holds_rows [OF h, of j r] by simp
  qed
  moreover have "card (dom (A(k \<mapsto> (i, v)))) = card (dom A) + (if A k = None then 1 else 0)"
    using h by (auto simp: holds_def insert_absorb domIff)
  ultimately show ?thesis using h s'(1-3,5) unfolding holds_def by simp
qed

lemma holds_dup: "holds img sh s A \<Longrightarrow> (\<exists>n < keys s. dup_row s (img k v) n) \<longleftrightarrow> A k \<noteq> None"
  using holds_static(1,5,6) [of s A] key_of_img by (auto simp: dup_row_def holds_rows)

lemma insert_call:
  assumes h: "holds img sh s A" and room: "card (dom A) < max_records sh"
  obtains (new) i s' where "A k = None" "fm_core_insert_row s (img k v) = Some (FM_ERR_OK, Some i, None, s')"
      "holds img sh s' (A(k \<mapsto> (i, v)))" "gen_of s' = gen_of s"
  | (dup) ek s' where "A k \<noteq> None" "fm_core_insert_row s (img k v) = Some (FM_ERR_DUP_KEY, None, ek, s')"
      "holds img sh s' A" "gen_of s' = gen_of s"
proof -
  note d = holds_static [OF h]
  have len: "length (img k v) = reclength s" and rm: "records s < int (max_records s)" using d room img_length by simp_all
  show thesis
  proof (rule insert_row_room_cases [OF d(7) len d(4) rm], goal_cases)
    case (1 s')
    then show ?case using dup [OF _ 1(1) holds_same [OF h 1(2,3)]] holds_dup [OF h, of k v] by (simp add: same_rows_def)
  next
    case (2 i s')
    then have k: "A k = None" using holds_dup [OF h, of k v] by blast
    have "holds img sh s' (A(k \<mapsto> (i, v)))" by (rule holds_upd [OF h]) (use 2 k in simp_all)
    then show ?case by (rule new [OF k 2(1) _ 2(7)])
  qed
qed

lemma find_call:
  assumes h: "holds img sh s A"
  shows "\<exists>buf'. fm_core_find s 0 (le64 k) buf out =
    Some (case A k of None \<Rightarrow> (FM_ERR_NOT_FOUND, out, buf') | Some (i, v) \<Rightarrow> (FM_ERR_OK, i, img k v), s)"
proof -
  note d = holds_static [OF h]
  have e: "{i. \<exists>r. rows s i = Some r \<and> probe_cmp (keydef s ! 0) r (le64 k) = 0} = (case A k of None \<Rightarrow> {} | Some (i, v) \<Rightarrow> {i})"
    using d(5) key_of_img by (auto simp: holds_rows [OF h] split: option.splits)
  obtain ys where ys: "set ys = (case A k of None \<Rightarrow> {} | Some (i, v) \<Rightarrow> {i})"
    "\<exists>buf'. fm_core_find s 0 (le64 k) buf out = Some (if ys = [] then (FM_ERR_NOT_FOUND, out, buf') else (FM_ERR_OK, hd ys, the (rows s (hd ys))), s)"
    using lookup_enumerates [OF d(7), of 0 "le64 k"] d(1) unfolding e by auto
  show ?thesis
  proof (cases "A k")
    case (Some iv)
    obtain i v where iv: "iv = (i, v)" by (cases iv)
    then have "ys \<noteq> []" "hd ys = i" using ys(1) Some by (cases ys; simp)+
    with ys(2) holds_at [OF h, of k i v] Some iv show ?thesis by simp
  qed (use ys in simp)
qed

lemma gen_call: "holds img sh s A \<Longrightarrow> A k = Some (i, v) \<Longrightarrow> test_gen_of s i = Some (gen_of s i)"
  by (rule test_gen_of_eq [OF holds_has_slot])

lemma update_call:
  assumes h: "holds img sh s A" and k: "A k = Some (i, w)"
  obtains s' where "fm_core_update_row s i (gen_of s i) (img k u) (img k v) = Some (FM_ERR_OK, None, s')"
    "holds img sh s' (A(k \<mapsto> (i, v)))" "gen_of s' = gen_of s"
proof -
  note d = holds_static [OF h] and at = holds_at [OF h k]
  have ch: "changed_of s (img k u) (img k v) = []" using d(1,5) key_of_img by (simp add: changed_of_def filter_empty_conv)
  have len: "length (img k v) = reclength s" using img_length d(2) by simp
  have old: "same_keys s cur (img k u)" if "rows s i = Some cur" for cur
    using that at d(1,5) key_of_img [of k w] by (auto simp: same_keys_def key_of_img)
  show thesis
  proof (rule update_row_cases [OF d(7) holds_has_slot [OF h k] d(8) len old, where g = "gen_of s i"], goal_cases)
    case (4 s')
    have "holds img sh s' (A(k \<mapsto> (i, v)))" by (rule holds_upd [OF h]) (use 4 k in simp_all)
    then show ?case by (rule that [OF 4(4) _ 4(8)])
  qed (use at ch in auto)
qed

lemma delete_call:
  assumes h: "holds img sh s A" and k: "A k = Some (i, w)"
  obtains s' where "fm_core_delete_row s i (gen_of s i) = Some (FM_ERR_OK, s')" "holds img sh s' (A(k := None))"
proof -
  note d = holds_static [OF h] and at = holds_at [OF h k]
  show thesis
  proof (rule delete_row_cases [OF d(7) holds_has_slot [OF h k] d(8), where g = "gen_of s i"], goal_cases)
    case (2 s')
    have "rows s' j = Some r \<longleftrightarrow> (\<exists>k' v'. (A(k := None)) k' = Some (j, v') \<and> r = img k' v')" for j r
    proof (cases "j = i")
      case True
      then show ?thesis using 2(5) holds_slot [OF h k] by auto
    next
      case False
      then have "(A(k := None)) k' = Some (j, v') \<longleftrightarrow> A k' = Some (j, v')" for k' v' using k by auto
      then show ?thesis using False 2(5) holds_rows [OF h, of j r] by simp
    qed
    moreover have "card (dom A) = Suc (card (dom A - {k}))"
      using h k by (intro card.remove) (auto simp: holds_def)
    ultimately have "holds img sh s' (A(k := None))" using 2 h by (simp add: holds_def)
    then show ?case by (rule that [OF 2(3)])
  qed (use at in auto)
qed

lemma scan_call:
  assumes h: "holds img sh s A"
  obtains (row) k v pos' where "fm_core_scan_next s pos buf = Some (FM_ERR_OK, pos', img k v)" "A k = Some (int pos' - 1, v)"
      "pos < pos'" "pos' \<le> total_slots s" "\<And>k' i v'. A k' = Some (i, v') \<Longrightarrow> k' \<noteq> k \<Longrightarrow> i < int pos' \<longleftrightarrow> i < int pos"
  | (eof) pos' buf' where "fm_core_scan_next s pos buf = Some (FM_ERR_EOF, pos', buf')" "\<And>k i v. A k = Some (i, v) \<Longrightarrow> i < int pos"
proof -
  note d = holds_static [OF h]
  obtain F where b: "body s (index_of s) {} F" using d(7) by (auto simp: table_def)
  have bound: "0 \<le> i \<and> i < int (total_slots s)" if "A k = Some (i, v)" for k i v
    using holds_has_slot [OF h that] layout_has_slot [OF bodyD(1) [OF b]] by blast
  obtain rc pos' buf' where sc: "fm_core_scan_next s pos buf = Some (rc, pos', buf')"
    "rc = FM_ERR_OK \<and> pos < pos' \<and> rows s (int pos' - 1) = Some buf' \<and> (\<forall>i. pos \<le> i \<and> i + 1 < pos' \<longrightarrow> rows s (int i) = None)
      \<or> rc = FM_ERR_EOF \<and> (\<forall>i \<ge> pos. rows s (int i) = None)" using scan_next_correct [OF d(7), of pos buf] by blast
  have no: "i < int pos" if "A k = Some (i, v)" "rows s (int (nat i)) = None \<or> i < int pos" for k i v
    using holds_at [OF h that(1)] bound [OF that(1)] that(2) by auto
  from sc(2) show thesis
  proof (elim disjE conjE)
    assume ok: "rc = FM_ERR_OK" "pos < pos'" "rows s (int pos' - 1) = Some buf'"
      and gap: "\<forall>i. pos \<le> i \<and> i + 1 < pos' \<longrightarrow> rows s (int i) = None"
    obtain k v where k: "A k = Some (int pos' - 1, v)" "buf' = img k v" using ok(3) holds_rows [OF h] by blast
    show thesis
    proof (rule row)
      show "fm_core_scan_next s pos buf = Some (FM_ERR_OK, pos', img k v)" using sc(1) ok(1) k(2) by simp
      show "pos' \<le> total_slots s" using bound [OF k(1)] by simp
      show "i < int pos' \<longleftrightarrow> i < int pos" if a: "A k' = Some (i, v')" "k' \<noteq> k" for k' i v'
      proof
        assume "i < int pos'"
        moreover have "i \<noteq> int pos' - 1" using holds_slot [OF h k(1), of k' v'] a by auto
        ultimately show "i < int pos" using no [OF a(1)] gap [rule_format, of "nat i"] bound [OF a(1)] by linarith
      qed (use ok(2) in simp)
    qed (use k(1) ok(2) in simp_all)
  next
    assume "rc = FM_ERR_EOF" "\<forall>i \<ge> pos. rows s (int i) = None"
    then show thesis using eof [of pos' buf'] sc(1) no by (metis nat_le_iff not_le order_refl zle_int nat_int le_nat_iff bound)
  qed
qed

end

section \<open>The shares of the tests\<close>

definition keyed :: "FM_SHARE_CORE_OPS \<Rightarrow> nat \<Rightarrow> FM_SHARE_CORE" where
  "keyed o' n = wire_keys (fm_core_init_share o' n 1 (2 ^ 20) 64) [(hk0_ops, True)]"

abbreviation never_fails :: FM_SHARE_CORE_OPS where
  "never_fails \<equiv> \<lparr>alloc = \<lambda>_ _. True\<rparr>"

lemma never_failsI: "(\<And>n z. alloc o' n z) \<Longrightarrow> o' = never_fails"
  by (cases o') (simp add: fun_eq_iff)

lemma keyed_eq:
  shows "table (keyed never_fails n)" "rows (keyed never_fails n) = Map.empty" "\<not> held (keyed never_fails n) i"
    "keys (keyed never_fails n) = 1" "reclength (keyed never_fails n) = n" "max_records (keyed never_fails n) = 2 ^ 20"
    "records (keyed never_fails n) = 0" "alloc (ops (keyed never_fails n)) a z"
    "map (\<lambda>kc. (kc_ops kc, kc_unique kc)) (keydef (keyed never_fails n)) = [(hk0_ops, True)]"
proof -
  have m: "(0 :: nat) < 2 ^ 20" "(2 ^ 20 :: nat) \<le> 2 ^ 31 - FM_CHUNK_SIZE" by (simp_all add: FM_CHUNK_SIZE_def)
  have al: "alloc never_fails a z" for a z by simp
  have d: "keyed never_fails n = wire_keys (fm_core_init_share never_fails n (length [(hk0_ops, True)]) (2 ^ 20) 64) [(hk0_ops, True)]"
    by (simp add: keyed_def)
  show "table (keyed never_fails n)" "rows (keyed never_fails n) = Map.empty" "\<not> held (keyed never_fails n) i"
    using init_table [OF al m _ _ d] hk0_contract by (simp_all add: FM_MAX_CHANGED_KEYS_def)
  note e = init_share_eq [OF al m refl, of n 1 64]
  show "keys (keyed never_fails n) = 1" "reclength (keyed never_fails n) = n" "max_records (keyed never_fails n) = 2 ^ 20"
    "records (keyed never_fails n) = 0" "map (\<lambda>kc. (kc_ops kc, kc_unique kc)) (keydef (keyed never_fails n)) = [(hk0_ops, True)]"
    using e by (simp_all add: keyed_def wire_keys_def)
  show "alloc (ops (keyed never_fails n)) a z"
    by (simp add: keyed_def wire_keys_def fm_core_init_share_def zero_share_def core_alloc_def Let_def init_keys_eq)
qed

lemma keyed_holds: "holds img (keyed never_fails n) (keyed never_fails n) Map.empty"
  by (simp add: holds_def keyed_eq)

end
