(* ===== verification/Fm_Test_Unique.thy ===== *)
theory Fm_Test_Unique
  imports Fm_Test_Share Fm_Interleave "HOL-Library.AList"
begin

text \<open>
  Test B of \<open>src/standalone-test/main.cpp\<close>, \<open>test_unique_key\<close>: six threads insert, update and delete
  records with random keys from a small range and keep a shadow map under a mutex; the table is
  compared with the shadow map at the end. The threads are interleaved call by call: a step is one call of the
  core, or a stretch of the test's own code under its mutex. The random numbers are arbitrary.

  The invariant relates three views of the key set: what the table holds, what the shadow map will hold
  when the owner of the mutex is done, and the rows whose insert has returned but is not yet in the map.
\<close>

section \<open>The test\<close>

record test_b =
  b_core :: FM_SHARE_CORE
  b_stop :: bool
  b_live :: int
  b_mtx :: bool
  b_shadow :: "(u64 \<times> u64) list"
  b_dups :: nat
  b_fails :: nat

text \<open>Where a thread is; \<open>B_Sleep\<close> is the main thread until it stops the others.\<close>

datatype b_thread =
    B_Loop
  | B_Insert u64 u64
  | B_Inserted u64 u64 fm_rc
  | B_Update u64 u64
  | B_Upd_Find u64 u64 u64 image
  | B_Upd_Gen u64 u64 u64 image slot_id
  | B_Upd_Row u64 u64 u64 image slot_id u32
  | B_Upd_Done u64 u64 u64 fm_rc
  | B_Delete u64
  | B_Del_Find u64
  | B_Del_Gen u64 slot_id
  | B_Del_Row u64 slot_id u32
  | B_Del_Done u64 fm_rc
  | B_Sleep
  | B_Exit

definition b_has :: "test_b \<Rightarrow> u64 \<Rightarrow> bool" where
  "b_has \<sigma> k = (map_of (b_shadow \<sigma>) k \<noteq> None)"

definition b_erase :: "u64 \<Rightarrow> test_b \<Rightarrow> test_b" where
  "b_erase k \<sigma> = \<sigma>\<lparr>b_shadow := AList.delete k (b_shadow \<sigma>)\<rparr>"

definition b_fail :: "bool \<Rightarrow> test_b \<Rightarrow> test_b" where
  "b_fail c \<sigma> = \<sigma>\<lparr>b_fails := b_fails \<sigma> + CHECK c\<rparr>"

text \<open>The three stretches of code that end with the release of the mutex.\<close>

definition b_inserted :: "u64 \<Rightarrow> u64 \<Rightarrow> fm_rc \<Rightarrow> test_b \<Rightarrow> test_b" where
  "b_inserted k v rc \<sigma> =
     (if rc = FM_ERR_OK
      then (let \<sigma>1 = b_fail (\<not> b_has \<sigma> k) \<sigma> in \<sigma>1\<lparr>b_shadow := AList.update k v (b_shadow \<sigma>1), b_live := b_live \<sigma>1 + 1\<rparr>)
      else if rc = FM_ERR_DUP_KEY then (if b_has \<sigma> k then \<sigma> else \<sigma>\<lparr>b_dups := b_dups \<sigma> + 1\<rparr>)
      else b_fail False \<sigma>)"

definition b_updated :: "u64 \<Rightarrow> u64 \<Rightarrow> u64 \<Rightarrow> fm_rc \<Rightarrow> test_b \<Rightarrow> test_b" where
  "b_updated k v nk rcu \<sigma> =
     (if rcu = FM_ERR_OK
      then (let \<sigma>1 = b_erase k (b_fail (\<not> (nk \<noteq> k \<and> b_has \<sigma> nk)) \<sigma>) in \<sigma>1\<lparr>b_shadow := AList.update nk v (b_shadow \<sigma>1)\<rparr>)
      else if rcu = FM_ERR_DUP_KEY then b_fail (b_has \<sigma> k) \<sigma>
      else if rcu = FM_ERR_DELETED then (b_erase k \<sigma>)\<lparr>b_live := b_live \<sigma> - 1\<rparr>
      else b_fail False \<sigma>)"

definition b_deleted :: "u64 \<Rightarrow> fm_rc \<Rightarrow> test_b \<Rightarrow> test_b" where
  "b_deleted k rcd \<sigma> =
     (let \<sigma>1 = (if rcd = FM_ERR_OK then (b_erase k \<sigma>)\<lparr>b_live := b_live \<sigma> - 1\<rparr> else \<sigma>) in
      b_fail (b_live \<sigma>1 \<ge> 0) (b_fail (rcd = FM_ERR_OK \<or> rcd = FM_ERR_DELETED) \<sigma>1))"

text \<open>
  A step of a thread. \<open>rng n\<close> is the n-th random number that the step draws, \<open>junk\<close> what is in the
  buffer. No step means waiting for the mutex, or undefined behaviour.
\<close>

fun unique_next :: "(nat \<Rightarrow> u64) \<Rightarrow> image \<Rightarrow> test_b \<Rightarrow> b_thread \<Rightarrow> (test_b \<times> b_thread) option" where
  "unique_next rng junk \<sigma> B_Loop =
     (if b_stop \<sigma> then Some (\<sigma>, B_Exit)
      else (let k = rng 0 mod 200; v = rng 1 mod 1000000; op' = rng 2 mod 10 in
        Some (\<sigma>, if op' < 4 then B_Insert k v else if op' < 7 then B_Update k v else B_Delete k)))"
| "unique_next rng junk \<sigma> (B_Insert k v) = do {
     (rc, idx, ek, s1) \<leftarrow> fm_core_insert_row (b_core \<sigma>) (Rec k v);
     Some (\<sigma>\<lparr>b_core := s1\<rparr>, B_Inserted k v rc) }"
| "unique_next rng junk \<sigma> (B_Inserted k v rc) = (if b_mtx \<sigma> then None else Some (b_inserted k v rc \<sigma>, B_Loop))"
| "unique_next rng junk \<sigma> (B_Update k v) =
     (if b_mtx \<sigma> then None
      else case map_of (b_shadow \<sigma>) k of
        None \<Rightarrow> Some (\<sigma>, B_Loop)
      | Some old \<Rightarrow> (let nk = (if rng 0 mod 2 \<noteq> 0 then k else (k + 1000) mod 200) in
          Some (\<sigma>\<lparr>b_mtx := True\<rparr>, B_Upd_Find k v nk (Rec k old))))"
| "unique_next rng junk \<sigma> (B_Upd_Find k v nk orc) = do {
     ((rc, idx2, buf), s1) \<leftarrow> fm_core_find (b_core \<sigma>) 0 (le64 k) junk (-1);
     let \<sigma>1 = \<sigma>\<lparr>b_core := s1\<rparr>;
     Some (if rc = FM_ERR_OK then (\<sigma>1, B_Upd_Gen k v nk orc idx2)
           else ((b_erase k \<sigma>1)\<lparr>b_live := b_live \<sigma> - 1, b_mtx := False\<rparr>, B_Loop)) }"
| "unique_next rng junk \<sigma> (B_Upd_Gen k v nk orc idx2) = do {
     g \<leftarrow> test_gen_of (b_core \<sigma>) idx2;
     Some (\<sigma>, B_Upd_Row k v nk orc idx2 g) }"
| "unique_next rng junk \<sigma> (B_Upd_Row k v nk orc idx2 g) = do {
     (rcu, ek, s1) \<leftarrow> fm_core_update_row (b_core \<sigma>) idx2 g orc (Rec nk v);
     Some (\<sigma>\<lparr>b_core := s1\<rparr>, B_Upd_Done k v nk rcu) }"
| "unique_next rng junk \<sigma> (B_Upd_Done k v nk rcu) = Some ((b_updated k v nk rcu \<sigma>)\<lparr>b_mtx := False\<rparr>, B_Loop)"
| "unique_next rng junk \<sigma> (B_Delete k) =
     (if b_mtx \<sigma> then None
      else Some (if b_has \<sigma> k then (\<sigma>\<lparr>b_mtx := True\<rparr>, B_Del_Find k) else (\<sigma>, B_Loop)))"
| "unique_next rng junk \<sigma> (B_Del_Find k) = do {
     ((rc, idx2, buf), s1) \<leftarrow> fm_core_find (b_core \<sigma>) 0 (le64 k) junk (-1);
     Some (b_fail (rc = FM_ERR_OK) (\<sigma>\<lparr>b_core := s1\<rparr>), B_Del_Gen k idx2) }"
| "unique_next rng junk \<sigma> (B_Del_Gen k idx2) = do {
     g \<leftarrow> test_gen_of (b_core \<sigma>) idx2;
     Some (\<sigma>, B_Del_Row k idx2 g) }"
| "unique_next rng junk \<sigma> (B_Del_Row k idx2 g) = do {
     (rcd, s1) \<leftarrow> fm_core_delete_row (b_core \<sigma>) idx2 g;
     Some (\<sigma>\<lparr>b_core := s1\<rparr>, B_Del_Done k rcd) }"
| "unique_next rng junk \<sigma> (B_Del_Done k rcd) = Some ((b_deleted k rcd \<sigma>)\<lparr>b_mtx := False\<rparr>, B_Loop)"
| "unique_next rng junk \<sigma> B_Sleep = Some (\<sigma>\<lparr>b_stop := True\<rparr>, B_Exit)"
| "unique_next rng junk \<sigma> B_Exit = None"

definition unique_step :: "test_b \<Rightarrow> b_thread \<Rightarrow> test_b \<Rightarrow> b_thread \<Rightarrow> bool" where
  "unique_step \<sigma> t \<sigma>' t' \<longleftrightarrow> (\<exists>rng junk. unique_next rng junk \<sigma> t = Some (\<sigma>', t'))"

definition unique_start :: "FM_SHARE_CORE_OPS \<Rightarrow> test_b \<times> b_thread multiset" where
  "unique_start o' = (\<lparr>b_core = keyed o' 16, b_stop = False, b_live = 0, b_mtx = False, b_shadow = [], b_dups = 0, b_fails = 0\<rparr>,
     add_mset B_Sleep (replicate_mset 6 B_Loop))"

text \<open>The comparison after the threads are joined.\<close>

partial_function (option) found_loop ::
  "FM_SHARE_CORE \<Rightarrow> nat \<Rightarrow> image \<Rightarrow> (u64 \<times> u64) list \<Rightarrow> nat \<Rightarrow> ((u64 \<times> u64) list \<times> nat) option" where
  "found_loop s pos buf found fails = do {
     (rc, pos', buf') \<leftarrow> fm_core_scan_next s pos buf;
     if rc = FM_ERR_OK
     then found_loop s pos' buf' (AList.update (rec_k buf') (rec_v buf') found) (fails + CHECK (map_of found (rec_k buf') = None))
     else Some (found, fails) }"

definition unique_verify :: "image \<Rightarrow> test_b \<Rightarrow> nat option" where
  "unique_verify buf \<sigma> = do {
     (found, fails) \<leftarrow> found_loop (b_core \<sigma>) 0 buf [] (b_fails \<sigma>);
     let fails' = fails + (if length found \<noteq> length (b_shadow \<sigma>) then 1
       else CHECK (list_all (\<lambda>(k, v). map_of found k = Some v) (b_shadow \<sigma>)));
     s1 \<leftarrow> fm_core_free_share (b_core \<sigma>);
     Some fails' }"

section \<open>The invariant\<close>

interpretation recs: keyed_share Rec "keyed never_fails 16"
  by unfold_locales (simp_all add: keyed_eq)

fun b_owner :: "b_thread \<Rightarrow> bool" where
  "b_owner (B_Upd_Find k v nk orc) = True"
| "b_owner (B_Upd_Gen k v nk orc i) = True"
| "b_owner (B_Upd_Row k v nk orc i g) = True"
| "b_owner (B_Upd_Done k v nk rc) = True"
| "b_owner (B_Del_Find k) = True"
| "b_owner (B_Del_Gen k i) = True"
| "b_owner (B_Del_Row k i g) = True"
| "b_owner (B_Del_Done k rc) = True"
| "b_owner _ = False"

fun b_waits :: "b_thread \<Rightarrow> bool" where
  "b_waits (B_Inserted k v rc) = True"
| "b_waits (B_Update k v) = True"
| "b_waits (B_Delete k) = True"
| "b_waits _ = False"

text \<open>A row that the table has and the shadow map not yet; the shadow map once the owner of the mutex is done.\<close>

fun b_row :: "b_thread \<Rightarrow> (u64 \<times> u64) multiset" where
  "b_row (B_Inserted k v rc) = (if rc = FM_ERR_OK then {#(k, v)#} else {#})"
| "b_row _ = {#}"

abbreviation b_rows :: "b_thread multiset \<Rightarrow> (u64 \<times> u64) multiset" where
  "b_rows T \<equiv> sum_mset (image_mset b_row T)"

fun b_settle :: "b_thread \<Rightarrow> (u64 \<rightharpoonup> u64) \<Rightarrow> (u64 \<rightharpoonup> u64)" where
  "b_settle (B_Upd_Done k v nk rc) m = m(k \<mapsto> v)"
| "b_settle (B_Del_Done k rc) m = m(k := None)"
| "b_settle _ m = m"

fun b_ok :: "test_b \<Rightarrow> (u64 \<rightharpoonup> slot_id \<times> u64) \<Rightarrow> b_thread \<Rightarrow> bool" where
  "b_ok \<sigma> A (B_Insert k v) \<longleftrightarrow> k < 200"
| "b_ok \<sigma> A (B_Inserted k v rc) \<longleftrightarrow> rc = FM_ERR_OK \<or> rc = FM_ERR_DUP_KEY"
| "b_ok \<sigma> A (B_Update k v) \<longleftrightarrow> k < 200"
| "b_ok \<sigma> A (B_Upd_Find k v nk orc) \<longleftrightarrow> nk = k \<and> b_has \<sigma> k \<and> (\<exists>w. orc = Rec k w)"
| "b_ok \<sigma> A (B_Upd_Gen k v nk orc i) \<longleftrightarrow> nk = k \<and> b_has \<sigma> k \<and> (\<exists>w. orc = Rec k w) \<and> (\<exists>w. A k = Some (i, w))"
| "b_ok \<sigma> A (B_Upd_Row k v nk orc i g) \<longleftrightarrow> nk = k \<and> b_has \<sigma> k \<and> (\<exists>w. orc = Rec k w) \<and> (\<exists>w. A k = Some (i, w)) \<and> g = gen_of (b_core \<sigma>) i"
| "b_ok \<sigma> A (B_Upd_Done k v nk rc) \<longleftrightarrow> nk = k \<and> b_has \<sigma> k \<and> rc = FM_ERR_OK"
| "b_ok \<sigma> A (B_Del_Find k) \<longleftrightarrow> b_has \<sigma> k"
| "b_ok \<sigma> A (B_Del_Gen k i) \<longleftrightarrow> b_has \<sigma> k \<and> (\<exists>w. A k = Some (i, w))"
| "b_ok \<sigma> A (B_Del_Row k i g) \<longleftrightarrow> b_has \<sigma> k \<and> (\<exists>w. A k = Some (i, w)) \<and> g = gen_of (b_core \<sigma>) i"
| "b_ok \<sigma> A (B_Del_Done k rc) \<longleftrightarrow> b_has \<sigma> k \<and> rc = FM_ERR_OK"
| "b_ok \<sigma> A _ \<longleftrightarrow> True"

text \<open>The table \<open>A\<close> is the map \<open>m\<close> and the rows \<open>P\<close>, without overlap.\<close>

definition at_most_one :: "'a option \<Rightarrow> 'a multiset" where
  "at_most_one x = (case x of None \<Rightarrow> {#} | Some v \<Rightarrow> {#v#})"

definition values_at :: "u64 \<Rightarrow> (u64 \<times> u64) multiset \<Rightarrow> u64 multiset" where
  "values_at k P = image_mset snd {#p \<in># P. fst p = k#}"

definition splits :: "(u64 \<rightharpoonup> slot_id \<times> u64) \<Rightarrow> (u64 \<rightharpoonup> u64) \<Rightarrow> (u64 \<times> u64) multiset \<Rightarrow> bool" where
  "splits A m P \<longleftrightarrow> (\<forall>k. at_most_one (map_option snd (A k)) = at_most_one (m k) + values_at k P)"

definition b_pool :: "test_b \<Rightarrow> b_thread multiset \<Rightarrow> (u64 \<rightharpoonup> slot_id \<times> u64) \<Rightarrow> (u64 \<rightharpoonup> u64) \<Rightarrow> bool" where
  "b_pool \<sigma> T A m \<longleftrightarrow> holds Rec (keyed never_fails 16) (b_core \<sigma>) A \<and> dom A \<subseteq> {..< 200} \<and> distinct (map fst (b_shadow \<sigma>))
     \<and> b_live \<sigma> = int (card (dom (map_of (b_shadow \<sigma>)))) \<and> b_fails \<sigma> = 0
     \<and> size (filter_mset b_owner T) = (if b_mtx \<sigma> then 1 else 0) \<and> (\<not> b_mtx \<sigma> \<longrightarrow> m = map_of (b_shadow \<sigma>))
     \<and> (\<forall>t \<in># T. b_ok \<sigma> A t \<and> (b_owner t \<longrightarrow> m = b_settle t (map_of (b_shadow \<sigma>)))) \<and> splits A m (b_rows T)"

definition b_inv :: "test_b \<times> b_thread multiset \<Rightarrow> bool" where
  "b_inv p \<longleftrightarrow> (\<exists>A m. b_pool (fst p) (snd p) A m)"

lemma at_most_one_simps [simp]: "at_most_one None = {#}" "at_most_one (Some v) = {#v#}"
  by (simp_all add: at_most_one_def)

lemma values_at_simps [simp]: "values_at k {#} = {#}"
  "values_at k (add_mset (k', v) P) = (if k' = k then add_mset v (values_at k P) else values_at k P)"
  by (simp_all add: values_at_def)

lemma splitsD:
  assumes "splits A m P"
  shows "m k = Some v \<Longrightarrow> \<exists>i. A k = Some (i, v)" "A k = None \<Longrightarrow> m k = None \<and> values_at k P = {#}"
    "P = {#} \<Longrightarrow> map_option snd (A k) = m k"
proof -
  have e: "at_most_one (map_option snd (A k)) = at_most_one (m k) + values_at k P" using assms by (simp add: splits_def)
  show "m k = Some v \<Longrightarrow> \<exists>i. A k = Some (i, v)" "A k = None \<Longrightarrow> m k = None \<and> values_at k P = {#}"
    "P = {#} \<Longrightarrow> map_option snd (A k) = m k"
    using e by (cases "A k"; cases "m k"; auto)+
qed

lemma splits_insert: "splits A m P \<Longrightarrow> A k = None \<Longrightarrow> splits (A(k \<mapsto> (i, v))) m (add_mset (k, v) P)"
  using splitsD(2) [of A m P k] by (simp add: splits_def)

lemma splits_settle:
  assumes "splits A m (add_mset (k, v) P)"
  shows "m k = None" "splits A (m(k \<mapsto> v)) P"
proof -
  have e: "at_most_one (map_option snd (A k)) = at_most_one (m k) + add_mset v (values_at k P)"
    using assms by (auto simp: splits_def dest: spec [of _ k])
  show m: "m k = None" using e by (cases "A k"; cases "m k") auto
  with e assms show "splits A (m(k \<mapsto> v)) P" by (auto simp: splits_def)
qed

lemma splits_update:
  assumes "splits A m P" "m k = Some u" "A k = Some (i, w)"
  shows "splits (A(k \<mapsto> (i, v))) (m(k \<mapsto> v)) P" "splits (A(k := None)) (m(k := None)) P"
proof -
  have "values_at k P = {#}" using assms by (auto simp: splits_def dest: spec [of _ k])
  with assms(1) show "splits (A(k \<mapsto> (i, v))) (m(k \<mapsto> v)) P" "splits (A(k := None)) (m(k := None)) P" by (auto simp: splits_def)
qed

section \<open>Every step keeps the invariant\<close>

lemma b_poolD:
  assumes "b_pool \<sigma> T A m"
  shows "holds Rec (keyed never_fails 16) (b_core \<sigma>) A" "dom A \<subseteq> {..< 200}" "distinct (map fst (b_shadow \<sigma>))"
    "b_live \<sigma> = int (card (dom (map_of (b_shadow \<sigma>))))" "b_fails \<sigma> = 0" "size (filter_mset b_owner T) = (if b_mtx \<sigma> then 1 else 0)"
    "\<not> b_mtx \<sigma> \<Longrightarrow> m = map_of (b_shadow \<sigma>)" "t \<in># T \<Longrightarrow> b_ok \<sigma> A t" "t \<in># T \<Longrightarrow> b_owner t \<Longrightarrow> m = b_settle t (map_of (b_shadow \<sigma>))"
    "splits A m (b_rows T)"
  using assms by (simp_all add: b_pool_def)

lemma b_ok_others: "\<not> b_owner t \<Longrightarrow> b_ok \<sigma> A t \<Longrightarrow> b_ok \<sigma>' A' t"
  by (cases t) auto

text \<open>A step of a thread that has the mutex, or takes it, or gives it back: no other thread has it.\<close>

lemma b_alone:
  assumes p: "b_pool \<sigma> (add_mset t T) A m" and t: "b_owner t \<or> \<not> b_mtx \<sigma>"
    and h: "holds Rec (keyed never_fails 16) (b_core \<sigma>') A'" "dom A' \<subseteq> {..< 200}" and sh: "distinct (map fst (b_shadow \<sigma>'))"
    "b_live \<sigma>' = int (card (dom (map_of (b_shadow \<sigma>'))))" "b_fails \<sigma>' = 0" and mx: "b_mtx \<sigma>' = b_owner t'"
    and ok: "b_ok \<sigma>' A' t'" and sp: "splits A' (b_settle t' (map_of (b_shadow \<sigma>'))) (b_row t' + b_rows T)"
  shows "b_inv (\<sigma>', add_mset t' T)"
proof -
  note d = b_poolD [OF p]
  have "filter_mset b_owner T = {#}" using d(6) t by (auto split: if_splits)
  then have no: "\<not> b_owner u" if "u \<in># T" for u using that by (auto dest: multi_member_split)
  have "b_ok \<sigma>' A' u" if "u \<in># T" for u using b_ok_others [OF no [OF that]] d(8) [of u] that by simp
  moreover have "\<not> b_owner t' \<Longrightarrow> b_settle t' m' = m'" for m' by (cases t') auto
  ultimately have "b_pool \<sigma>' (add_mset t' T) A' (b_settle t' (map_of (b_shadow \<sigma>')))"
    using h sh mx ok sp no \<open>filter_mset b_owner T = {#}\<close> by (auto simp: b_pool_def)
  then show ?thesis by (auto simp: b_inv_def)
qed

text \<open>A step outside the mutex, which another thread may have: at most a row with a new key is added.\<close>

lemma b_outside:
  assumes p: "b_pool \<sigma> (add_mset t T) A m" and t: "\<not> b_owner t" "\<not> b_owner t'"
    and h: "holds Rec (keyed never_fails 16) (b_core \<sigma>') A'" "dom A' \<subseteq> {..< 200}" and sub: "A \<subseteq>\<^sub>m A'" and g: "gen_of (b_core \<sigma>') = gen_of (b_core \<sigma>)"
    and eq: "b_shadow \<sigma>' = b_shadow \<sigma>" "b_live \<sigma>' = b_live \<sigma>" "b_fails \<sigma>' = b_fails \<sigma>" "b_mtx \<sigma>' = b_mtx \<sigma>"
    and ok: "b_ok \<sigma>' A' t'" and sp: "splits A' m (b_row t' + b_rows T)"
  shows "b_inv (\<sigma>', add_mset t' T)"
proof -
  note d = b_poolD [OF p]
  have "b_ok \<sigma>' A' u" if "u \<in># T" for u
  proof -
    have s: "A k = Some x \<Longrightarrow> A' k = Some x" for k x using sub by (auto simp: map_le_def dom_def)
    have "b_ok \<sigma> A u" using d(8) that by simp
    then show ?thesis by (cases u) (auto simp: b_has_def eq g dest: s)
  qed
  then have "b_pool \<sigma>' (add_mset t' T) A' m" using p t h ok sp unfolding b_pool_def eq by auto
  then show ?thesis by (auto simp: b_inv_def)
qed

lemma b_own:
  assumes p: "b_pool \<sigma> (add_mset t T) A m" and t: "b_owner t"
  shows "b_ok \<sigma> A t" "b_mtx \<sigma>" "m = b_settle t (map_of (b_shadow \<sigma>))"
  using b_poolD(8,9) [OF p, of t] b_poolD(6) [OF p] t by (auto split: if_splits)

lemma rng_below: "(w :: u64) mod 200 < 200"
  by (rule word_mod_less_divisor) simp

lemma key_stays: "(k :: u64) < 200 \<Longrightarrow> (k + 1000) mod 200 = k"
proof -
  assume k: "k < 200"
  then have "unat k < 200" by (simp add: word_less_nat_alt)
  then have "unat ((k + 1000) mod 200) = unat k" using mod_mult_self2 [of "unat k" 200 5] by (simp add: unat_mod unat_word_ariths)
  then show ?thesis by (rule word_unat_eq_iff [THEN iffD2])
qed

lemma few_keys:
  assumes "dom A \<subseteq> {..< 200 :: u64}"
  shows "card (dom A) < 2 ^ 20"
proof -
  have "{..< 200 :: u64} \<subseteq> of_nat ` {..< 200 :: nat}"
  proof
    fix k :: u64
    assume "k \<in> {..< 200}"
    then have "unat k < 200" by (simp add: word_less_nat_alt)
    then show "k \<in> of_nat ` {..< 200 :: nat}" by (intro image_eqI [of _ _ "unat k"]) auto
  qed
  then have s: "dom A \<subseteq> of_nat ` {..< 200 :: nat}" using assms by blast
  have "card (dom A) \<le> card (of_nat ` {..< 200 :: nat} :: u64 set)" by (rule card_mono [OF _ s]) simp
  also have "\<dots> \<le> 200" using card_image_le [of "{..< 200 :: nat}" "of_nat :: nat \<Rightarrow> u64"] by simp
  finally show ?thesis by simp
qed

abbreviation moves_on :: "(nat \<Rightarrow> u64) \<Rightarrow> image \<Rightarrow> test_b \<Rightarrow> b_thread \<Rightarrow> b_thread multiset \<Rightarrow> bool" where
  "moves_on rng junk \<sigma> t T \<equiv> \<exists>\<sigma>' t'. unique_next rng junk \<sigma> t = Some (\<sigma>', t') \<and> b_inv (\<sigma>', add_mset t' T)"

lemma moves_loop:
  assumes p: "b_pool \<sigma> (add_mset B_Loop T) A m"
  shows "moves_on rng junk \<sigma> B_Loop T"
proof -
  note d = b_poolD [OF p]
  have "b_inv (\<sigma>, add_mset t' T)" if "t' \<in> {B_Exit} \<union> {B_Insert (rng 0 mod 200) v | v. True} \<union> {B_Update (rng 0 mod 200) v | v. True} \<union> {B_Delete k | k. True}" for t'
    by (rule b_outside [OF p]) (use d(1,2,10) that rng_below in auto)
  then show ?thesis by (auto simp: Let_def)
qed

lemma moves_sleep:
  assumes p: "b_pool \<sigma> (add_mset B_Sleep T) A m"
  shows "moves_on rng junk \<sigma> B_Sleep T"
  using b_outside [OF p, of B_Exit "\<sigma>\<lparr>b_stop := True\<rparr>" A] b_poolD(1,2,10) [OF p] by simp

lemma moves_insert:
  assumes p: "b_pool \<sigma> (add_mset (B_Insert k v) T) A m"
  shows "moves_on rng junk \<sigma> (B_Insert k v) T"
proof -
  note d = b_poolD [OF p]
  have k: "k < 200" using d(8) [of "B_Insert k v"] by simp
  have room: "card (dom A) < max_records (keyed never_fails 16)" using few_keys [OF d(2)] by (simp add: keyed_eq)
  show ?thesis
  proof (rule recs.insert_call [OF d(1) room, of k v], goal_cases)
    case (1 i s')
    have "b_inv (\<sigma>\<lparr>b_core := s'\<rparr>, add_mset (B_Inserted k v FM_ERR_OK) T)"
      by (rule b_outside [OF p, where A' = "A(k \<mapsto> (i, v))"])
        (use 1 d(2,10) k splits_insert [of A m "b_rows T" k i v] in \<open>auto simp: map_le_def\<close>)
    then show ?case using 1(2) by simp
  next
    case (2 ek s')
    have "b_inv (\<sigma>\<lparr>b_core := s'\<rparr>, add_mset (B_Inserted k v FM_ERR_DUP_KEY) T)"
      by (rule b_outside [OF p]) (use 2 d(2,10) in auto)
    then show ?case using 2(2) by simp
  qed
qed

lemma moves_inserted:
  assumes p: "b_pool \<sigma> (add_mset (B_Inserted k v rc) T) A m" and mx: "\<not> b_mtx \<sigma>"
  shows "moves_on rng junk \<sigma> (B_Inserted k v rc) T"
proof -
  note d = b_poolD [OF p]
  have rc: "rc = FM_ERR_OK \<or> rc = FM_ERR_DUP_KEY" using d(8) [of "B_Inserted k v rc"] by simp
  have m: "m = map_of (b_shadow \<sigma>)" using d(7) mx by simp
  have "b_inv (b_inserted k v rc \<sigma>, add_mset B_Loop T)"
  proof (cases "rc = FM_ERR_OK")
    case True
    have sp: "splits A m (add_mset (k, v) (b_rows T))" using d(10) True by simp
    have n: "map_of (b_shadow \<sigma>) k = None" using splits_settle(1) [OF sp] m by simp
    show ?thesis
      by (rule b_alone [OF p])
        (use True n mx d splits_settle(2) [OF sp] m in \<open>simp_all add: b_inserted_def b_fail_def b_has_def CHECK_def Let_def distinct_update update_conv' card_insert_if domIff\<close>)
  next
    case False
    then have "rc = FM_ERR_DUP_KEY" using rc by simp
    then show ?thesis by (intro b_alone [OF p]) (use mx d m in \<open>simp_all add: b_inserted_def\<close>)
  qed
  then show ?thesis using mx by simp
qed

text \<open>The sections of an update.\<close>

lemma moves_update:
  assumes p: "b_pool \<sigma> (add_mset (B_Update k v) T) A m" and mx: "\<not> b_mtx \<sigma>"
  shows "moves_on rng junk \<sigma> (B_Update k v) T"
proof -
  note d = b_poolD [OF p]
  have k: "k < 200" using d(8) [of "B_Update k v"] by simp
  have m: "m = map_of (b_shadow \<sigma>)" using d(7) mx by simp
  show ?thesis
  proof (cases "map_of (b_shadow \<sigma>) k")
    case None
    then show ?thesis using mx b_alone [OF p, of \<sigma> A B_Loop] d m by simp
  next
    case (Some old)
    have nk: "(if b then k else (k + 1000) mod 200) = k" for b using key_stays [OF k] by simp
    have "b_inv (\<sigma>\<lparr>b_mtx := True\<rparr>, add_mset (B_Upd_Find k v k (Rec k old)) T)"
      by (rule b_alone [OF p]) (use mx d m Some in \<open>auto simp: b_has_def\<close>)
    then show ?thesis using mx Some by (simp add: Let_def nk)
  qed
qed

lemma moves_upd_find:
  assumes p: "b_pool \<sigma> (add_mset (B_Upd_Find k v nk orc) T) A m"
  shows "moves_on rng junk \<sigma> (B_Upd_Find k v nk orc) T"
proof -
  note d = b_poolD [OF p]
  note ok = b_own(1) [OF p, simplified] and mx = b_own(2) [OF p, simplified] and m = b_own(3) [OF p, simplified]
  obtain i w where a: "A k = Some (i, w)" using ok m splitsD(1) [OF d(10), of k] by (auto simp: b_has_def)
  have f: "fm_core_find (b_core \<sigma>) 0 (le64 k) junk (-1) = Some ((FM_ERR_OK, i, Rec k w), b_core \<sigma>)"
    using recs.find_call [OF d(1), of k junk "-1"] a by simp
  have "b_inv (\<sigma>, add_mset (B_Upd_Gen k v nk orc i) T)" by (rule b_alone [OF p]) (use mx d m ok a in simp_all)
  then show ?thesis using f by (simp add: Let_def)
qed

lemma moves_upd_gen:
  assumes p: "b_pool \<sigma> (add_mset (B_Upd_Gen k v nk orc i) T) A m"
  shows "moves_on rng junk \<sigma> (B_Upd_Gen k v nk orc i) T"
proof -
  note d = b_poolD [OF p]
  note ok = b_own(1) [OF p, simplified] and mx = b_own(2) [OF p, simplified] and m = b_own(3) [OF p, simplified]
  then obtain w where a: "A k = Some (i, w)" by auto
  have "b_inv (\<sigma>, add_mset (B_Upd_Row k v nk orc i (gen_of (b_core \<sigma>) i)) T)" by (rule b_alone [OF p]) (use mx d m ok in simp_all)
  then show ?thesis using recs.gen_call [OF d(1) a] by simp
qed

lemma moves_upd_row:
  assumes p: "b_pool \<sigma> (add_mset (B_Upd_Row k v nk orc i g) T) A m"
  shows "moves_on rng junk \<sigma> (B_Upd_Row k v nk orc i g) T"
proof -
  note d = b_poolD [OF p]
  note ok = b_own(1) [OF p, simplified] and mx = b_own(2) [OF p, simplified] and m = b_own(3) [OF p, simplified]
  then obtain w u where a: "A k = Some (i, w)" "orc = Rec k u" "nk = k" "g = gen_of (b_core \<sigma>) i" "b_has \<sigma> k" by auto
  then obtain x where x: "m k = Some x" using m by (auto simp: b_has_def)
  obtain s' where s': "fm_core_update_row (b_core \<sigma>) i g orc (Rec nk v) = Some (FM_ERR_OK, None, s')"
    "holds Rec (keyed never_fails 16) s' (A(k \<mapsto> (i, v)))"
    using recs.update_call [OF d(1) a(1), of u v] a(2-4) by auto
  have "b_inv (\<sigma>\<lparr>b_core := s'\<rparr>, add_mset (B_Upd_Done k v nk FM_ERR_OK) T)"
    by (rule b_alone [OF p, where A' = "A(k \<mapsto> (i, v))"])
      (use s'(2) mx d m a x splits_update(1) [OF d(10) x a(1)] in \<open>auto simp: b_has_def\<close>)
  then show ?thesis using s'(1) by simp
qed

lemma moves_upd_done:
  assumes p: "b_pool \<sigma> (add_mset (B_Upd_Done k v nk rc) T) A m"
  shows "moves_on rng junk \<sigma> (B_Upd_Done k v nk rc) T"
proof -
  note d = b_poolD [OF p]
  have ok: "nk = k" "b_has \<sigma> k" "rc = FM_ERR_OK" and m: "m = (map_of (b_shadow \<sigma>))(k \<mapsto> v)"
    using d(8) [of "B_Upd_Done k v nk rc"] d(9) [of "B_Upd_Done k v nk rc"] by auto
  let ?l = "AList.update k v (AList.delete k (b_shadow \<sigma>))"
  have l: "map_of ?l = (map_of (b_shadow \<sigma>))(k \<mapsto> v)" by (simp add: update_conv' delete_conv' fun_eq_iff)
  have dom: "dom ((map_of (b_shadow \<sigma>))(k \<mapsto> v)) = dom (map_of (b_shadow \<sigma>))" using ok(2) by (auto simp: b_has_def)
  have "b_inv ((b_updated k v nk rc \<sigma>)\<lparr>b_mtx := False\<rparr>, add_mset B_Loop T)"
    by (rule b_alone [OF p]) (use d m l dom in \<open>simp_all add: ok(1,3) b_updated_def b_erase_def b_fail_def CHECK_def Let_def distinct_update distinct_delete del: dom_fun_upd\<close>)
  then show ?thesis by simp
qed

text \<open>The sections of a delete.\<close>

lemma moves_delete:
  assumes p: "b_pool \<sigma> (add_mset (B_Delete k) T) A m" and mx: "\<not> b_mtx \<sigma>"
  shows "moves_on rng junk \<sigma> (B_Delete k) T"
proof -
  note d = b_poolD [OF p]
  have m: "m = map_of (b_shadow \<sigma>)" using d(7) mx by simp
  have "b_has \<sigma> k \<Longrightarrow> b_inv (\<sigma>\<lparr>b_mtx := True\<rparr>, add_mset (B_Del_Find k) T)" "b_inv (\<sigma>, add_mset B_Loop T)"
    by (rule b_alone [OF p]; use mx d m in \<open>simp add: b_has_def\<close>)+
  then show ?thesis using mx by simp
qed

lemma moves_del_find:
  assumes p: "b_pool \<sigma> (add_mset (B_Del_Find k) T) A m"
  shows "moves_on rng junk \<sigma> (B_Del_Find k) T"
proof -
  note d = b_poolD [OF p]
  note ok = b_own(1) [OF p, simplified] and mx = b_own(2) [OF p, simplified] and m = b_own(3) [OF p, simplified]
  obtain i w where a: "A k = Some (i, w)" using ok m splitsD(1) [OF d(10), of k] by (auto simp: b_has_def)
  have f: "fm_core_find (b_core \<sigma>) 0 (le64 k) junk (-1) = Some ((FM_ERR_OK, i, Rec k w), b_core \<sigma>)"
    using recs.find_call [OF d(1), of k junk "-1"] a by simp
  have "b_inv (b_fail True \<sigma>, add_mset (B_Del_Gen k i) T)"
    by (rule b_alone [OF p]) (use mx d m ok a in \<open>simp_all add: b_fail_def CHECK_def b_has_def\<close>)
  then show ?thesis using f by simp
qed

lemma moves_del_gen:
  assumes p: "b_pool \<sigma> (add_mset (B_Del_Gen k i) T) A m"
  shows "moves_on rng junk \<sigma> (B_Del_Gen k i) T"
proof -
  note d = b_poolD [OF p]
  note ok = b_own(1) [OF p, simplified] and mx = b_own(2) [OF p, simplified] and m = b_own(3) [OF p, simplified]
  then obtain w where a: "A k = Some (i, w)" by auto
  have "b_inv (\<sigma>, add_mset (B_Del_Row k i (gen_of (b_core \<sigma>) i)) T)" by (rule b_alone [OF p]) (use mx d m ok in simp_all)
  then show ?thesis using recs.gen_call [OF d(1) a] by simp
qed

lemma moves_del_row:
  assumes p: "b_pool \<sigma> (add_mset (B_Del_Row k i g) T) A m"
  shows "moves_on rng junk \<sigma> (B_Del_Row k i g) T"
proof -
  note d = b_poolD [OF p]
  note ok = b_own(1) [OF p, simplified] and mx = b_own(2) [OF p, simplified] and m = b_own(3) [OF p, simplified]
  then obtain w where a: "A k = Some (i, w)" "g = gen_of (b_core \<sigma>) i" "b_has \<sigma> k" by auto
  then obtain x where x: "m k = Some x" using m by (auto simp: b_has_def)
  obtain s' where s': "fm_core_delete_row (b_core \<sigma>) i g = Some (FM_ERR_OK, s')" "holds Rec (keyed never_fails 16) s' (A(k := None))"
    using recs.delete_call [OF d(1) a(1)] a(2) by auto
  have "b_inv (\<sigma>\<lparr>b_core := s'\<rparr>, add_mset (B_Del_Done k FM_ERR_OK) T)"
    by (rule b_alone [OF p, where A' = "A(k := None)"])
      (use s'(2) mx d m a x splits_update(2) [OF d(10) x a(1)] in \<open>auto simp: b_has_def\<close>)
  then show ?thesis using s'(1) by simp
qed

lemma moves_del_done:
  assumes p: "b_pool \<sigma> (add_mset (B_Del_Done k rc) T) A m"
  shows "moves_on rng junk \<sigma> (B_Del_Done k rc) T"
proof -
  note d = b_poolD [OF p]
  have ok: "b_has \<sigma> k" "rc = FM_ERR_OK" and m: "m = (map_of (b_shadow \<sigma>))(k := None)"
    using d(8) [of "B_Del_Done k rc"] d(9) [of "B_Del_Done k rc"] by auto
  have "card (dom (map_of (b_shadow \<sigma>))) = Suc (card (dom (map_of (b_shadow \<sigma>)) - {k}))"
    using ok(1) by (intro card.remove) (auto simp: b_has_def finite_dom_map_of)
  then have "b_inv ((b_deleted k rc \<sigma>)\<lparr>b_mtx := False\<rparr>, add_mset B_Loop T)"
    by (intro b_alone [OF p]) (use d m in \<open>simp_all add: ok(2) b_deleted_def b_erase_def b_fail_def CHECK_def Let_def distinct_delete delete_conv'\<close>)
  then show ?thesis by simp
qed

lemma unique_moves:
  assumes "b_inv (\<sigma>, add_mset t T)" "t \<noteq> B_Exit" "\<not> (b_waits t \<and> b_mtx \<sigma>)"
  shows "moves_on rng junk \<sigma> t T"
proof -
  obtain A m where p: "b_pool \<sigma> (add_mset t T) A m" using assms(1) by (auto simp: b_inv_def)
  note all = moves_loop moves_sleep moves_insert moves_inserted moves_update moves_upd_find moves_upd_gen moves_upd_row
    moves_upd_done moves_delete moves_del_find moves_del_gen moves_del_row moves_del_done
  show ?thesis using p assms(2,3) by (cases t) (simp_all only: b_waits.simps simp_thms all)
qed

interpretation unique: thread_family unique_step b_inv
proof
  fix \<sigma> t T \<sigma>' t'
  assume inv: "b_inv (\<sigma>, add_mset t T)" and step: "unique_step \<sigma> t \<sigma>' t'"
  obtain rng junk where n: "unique_next rng junk \<sigma> t = Some (\<sigma>', t')" using step by (auto simp: unique_step_def)
  then have "t \<noteq> B_Exit" "\<not> (b_waits t \<and> b_mtx \<sigma>)" by (cases t; auto)+
  from unique_moves [OF inv this, of rng junk] n show "b_inv (\<sigma>', add_mset t' T)" by auto
qed

section \<open>The test passes\<close>

lemma unique_start_inv: "b_inv (unique_start never_fails)"
proof -
  have none: "sum_mset (replicate_mset n {#}) = {#}" for n by (induction n) simp_all
  have "b_pool (fst (unique_start never_fails)) (snd (unique_start never_fails)) Map.empty Map.empty"
    using keyed_holds [of Rec 16] by (simp add: b_pool_def unique_start_def splits_def none)
  then show ?thesis by (auto simp: b_inv_def)
qed

text \<open>What a scan has seen before position \<open>pos\<close>.\<close>

definition seen :: "(u64 \<rightharpoonup> slot_id \<times> u64) \<Rightarrow> nat \<Rightarrow> (u64 \<rightharpoonup> u64)" where
  "seen A pos k = (case A k of None \<Rightarrow> None | Some (i, v) \<Rightarrow> if i < int pos then Some v else None)"

lemma found_loop_eq:
  assumes h: "holds Rec (keyed never_fails 16) s A" and "map_of found = seen A pos" "distinct (map fst found)"
  shows "\<exists>found'. found_loop s pos buf found n = Some (found', n) \<and> map_of found' = map_option snd \<circ> A \<and> distinct (map fst found')"
  using assms(2,3)
proof (induction "total_slots s - pos" arbitrary: pos buf found rule: less_induct)
  case less
  show ?case
  proof (rule recs.scan_call [OF h, of pos buf], goal_cases)
    case (1 k v pos')
    have "map_of found k = None" using less.prems(1) 1(2,3) by (simp add: seen_def)
    moreover have "map_of (AList.update k v found) = seen A pos'"
    proof
      fix k'
      show "map_of (AList.update k v found) k' = seen A pos' k'"
        using less.prems(1) 1(2) 1(5) [of k'] by (cases "k' = k") (auto simp: update_conv' seen_def split: option.splits)
    qed
    moreover have "total_slots s - pos' < total_slots s - pos" using 1(3,4) by linarith
    ultimately show ?case using less.hyps [of pos' "AList.update k v found" "Rec k v"] less.prems(2) 1(1)
      by (subst found_loop.simps) (simp add: distinct_update CHECK_def)
  next
    case (2 pos' buf')
    have "seen A pos = map_option snd \<circ> A" using 2(2) by (force simp: seen_def fun_eq_iff split: option.splits)
    then show ?case using 2(1) less.prems by (subst found_loop.simps) simp
  qed
qed

lemma same_length:
  assumes "distinct (map fst xs)" "distinct (map fst ys)" "map_of xs = map_of ys"
  shows "length xs = length ys"
proof -
  have "length l = card (dom (map_of l))" if "distinct (map fst l)" for l :: "('a \<times> 'b) list"
    using distinct_card [OF that] by (simp add: dom_map_of_conv_image_fst)
  then show ?thesis using assms by metis
qed

lemma unique_verified:
  assumes inv: "b_inv (\<sigma>, T)" and T: "\<forall>t \<in># T. t = B_Exit"
  shows "unique_verify buf \<sigma> = Some 0"
proof -
  obtain A m where p: "b_pool \<sigma> T A m" using inv by (auto simp: b_inv_def)
  note d = b_poolD [OF p]
  have no: "filter_mset b_owner T = {#}" "b_rows T = {#}" using T by (auto simp: sum_mset_0_iff)
  have "\<not> b_mtx \<sigma>" using d(6) unfolding no(1) by (auto split: if_splits)
  then have m: "m = map_of (b_shadow \<sigma>)" "map_option snd (A k) = m k" for k using d(7) splitsD(3) [OF d(10) no(2)] by auto
  have e: "map_of [] = seen A 0"
  proof
    fix k
    have "0 \<le> i" if "A k = Some (i, v)" for i v using recs.holds_has_slot [OF d(1) that] by (auto simp: has_slot_def get_chunk_def split: if_splits)
    then show "map_of [] k = seen A 0 k" by (force simp: seen_def split: option.splits)
  qed
  obtain found where f: "found_loop (b_core \<sigma>) 0 buf [] 0 = Some (found, 0)" "map_of found = map_option snd \<circ> A" "distinct (map fst found)"
    using found_loop_eq [OF d(1) e, of buf 0] by auto
  have fm: "map_of found = map_of (b_shadow \<sigma>)" using f(2) m by (simp add: fun_eq_iff)
  then have "list_all (\<lambda>(k, v). map_of found k = Some v) (b_shadow \<sigma>)"
    using d(3) by (auto simp: list_all_iff)
  moreover have "length found = length (b_shadow \<sigma>)" by (rule same_length [OF f(3) d(3) fm])
  moreover obtain s' where "fm_core_free_share (b_core \<sigma>) = Some s'"
    using table_freeable [OF recs.holds_static(7) [OF d(1)]] by (auto simp: freeable_def)
  ultimately show ?thesis using f(1) d(5) by (simp add: unique_verify_def CHECK_def)
qed

text \<open>
  Test B passes on every schedule of its threads in which calls of the core do not overlap: no check fails at
  any time, a thread that has not finished and does not wait for the mutex of the test can always take its next
  step (no call is undefined), and once all threads have finished, the table holds exactly the keys of the shadow map
  with their values.
\<close>

theorem unique_key_test_passes:
  assumes al: "\<And>n z. alloc o' n z" and run: "(interleave unique_step)\<^sup>*\<^sup>* (unique_start o') (\<sigma>, T)"
  shows "b_fails \<sigma> = 0 \<and> (\<forall>t \<in># T. t = B_Exit \<or> b_waits t \<and> b_mtx \<sigma> \<or> (\<forall>rng junk. unique_next rng junk \<sigma> t \<noteq> None))
    \<and> ((\<forall>t \<in># T. t = B_Exit) \<longrightarrow> unique_verify buf \<sigma> = Some 0)"
proof -
  have inv: "b_inv (\<sigma>, T)" using unique.inv_reach [OF run] unique_start_inv never_failsI [OF al] by simp
  have "unique_next rng junk \<sigma> t \<noteq> None" if t: "t \<in># T" "t \<noteq> B_Exit" "\<not> (b_waits t \<and> b_mtx \<sigma>)" for t rng junk
  proof -
    obtain T' where "T = add_mset t T'" using t(1) by (auto dest: multi_member_split)
    with unique_moves [of \<sigma> t T' rng junk] inv t(2,3) show ?thesis by auto
  qed
  moreover have "b_fails \<sigma> = 0" using inv b_poolD(5) by (auto simp: b_inv_def)
  ultimately show ?thesis using unique_verified [OF inv] by blast
qed

lemma all_exit:
  assumes "b_stop \<sigma>"
  shows "(interleave unique_step)\<^sup>*\<^sup>* (\<sigma>, replicate_mset n B_Loop + replicate_mset k B_Exit) (\<sigma>, replicate_mset (n + k) B_Exit)"
proof (induction n arbitrary: k)
  case (Suc n)
  have "unique_step \<sigma> B_Loop \<sigma> B_Exit" using assms by (simp add: unique_step_def)
  from moves_then [where step = unique_step, OF this, of "replicate_mset n B_Loop + replicate_mset k B_Exit"] Suc.IH [of "Suc k"] show ?case by simp
qed simp

theorem unique_key_test_passes_witness:
  "\<exists>\<sigma>. (interleave unique_step)\<^sup>*\<^sup>* (unique_start \<lparr>alloc = \<lambda>_ _. True\<rparr>) (\<sigma>, replicate_mset 7 B_Exit) \<and> unique_verify [] \<sigma> = Some 0"
proof -
  let ?s = "(fst (unique_start never_fails))\<lparr>b_stop := True\<rparr>"
  have "unique_step (fst (unique_start never_fails)) B_Sleep ?s B_Exit" by (simp add: unique_step_def)
  from moves_then [where step = unique_step, OF this, of "replicate_mset 6 B_Loop"] all_exit [of ?s 6 1]
  have run: "(interleave unique_step)\<^sup>*\<^sup>* (unique_start never_fails) (?s, replicate_mset 7 B_Exit)"
    by (simp add: unique_start_def)
  have "unique_verify [] ?s = Some 0" using unique_key_test_passes [OF _ run, of "[]"] by simp
  with run show ?thesis by blast
qed

end
