(* ===== verification/Fm_Test_Torn.thy ===== *)
theory Fm_Test_Torn
  imports Fm_Test_Share Fm_Interleave
begin

text \<open>
  Test A of \<open>src/standalone-test/main.cpp\<close>, \<open>test_torn_read\<close>: 64 rows, four writers that update random
  rows, two readers that scan. The theory has the schedules in which neither calls of the core nor copies of an element of the
  shared array \<open>rows\<close> overlap: they are among the schedules of the program, and enough to show how the test breaks its
  own table. That a read which overlaps with updates is not torn is no matter of this theory but of \<open>Fm_Seqlock\<close>, which has the
  accesses to a slot one by one. The random numbers are arbitrary.

  The test hands \<open>rows[0]\<close> to every insert as the scratch buffer, and the duplicate check reads the rows of the
  bucket into it. So \<open>rows[0]\<close> is the image of another row when the writers start, and the first update of row 0
  gives it the key of that row: the table of the test is no longer a table with a unique key. What the test
  checks still holds: the invariant here is weaker than \<open>table\<close> and speaks of chains, states and images only.
\<close>

section \<open>The test\<close>

definition MAGIC :: u64 where
  "MAGIC = 0xABCD000000000000"

definition Rec2 :: "u64 \<Rightarrow> u64 \<Rightarrow> u64 \<Rightarrow> image" where
  "Rec2 k magic v = le64 k @ le64 magic @ le64 v"

definition rec2_magic :: "image \<Rightarrow> u64" where
  "rec2_magic r = of_le64 (drop 8 r)"

definition rec2_v :: "image \<Rightarrow> u64" where
  "rec2_v r = of_le64 (drop 16 r)"

definition set_v :: "image \<Rightarrow> u64 \<Rightarrow> image" where
  "set_v r v = take 16 r @ le64 v"

text \<open>
  What \<open>fm_core_dup_check\<close> leaves in the scratch buffer of its caller, and the buffer after an insert into a share of one key.
\<close>

partial_function (option) dup_scratch_loop ::
  "FM_SHARE_CORE \<Rightarrow> FM_KEY_CORE \<Rightarrow> nat \<Rightarrow> image \<Rightarrow> slot_id \<Rightarrow> image \<Rightarrow> (fm_rc \<times> image) option" where
  "dup_scratch_loop s kc k rec h buf =
     (if h = FM_NULL_SLOT then Some (FM_ERR_OK, buf)
      else do {
        (rc, buf1) \<leftarrow> fm_core_read_row s h False 0 buf;
        hit \<leftarrow> (if rc = FM_ERR_OK
                then do { cmp \<leftarrow> cmp_rec_rec (kc_ops kc); Some (cmp buf1 rec = 0) }
                else Some False);
        if hit then Some (FM_ERR_DUP_KEY, buf1)
        else do {
          h1 \<leftarrow> fm_key_next s k h;
          dup_scratch_loop s kc k rec h1 buf1 } })"

definition dup_check_scratch :: "FM_SHARE_CORE \<Rightarrow> nat \<Rightarrow> u32 \<Rightarrow> image \<Rightarrow> image \<Rightarrow> (fm_rc \<times> image) option" where
  "dup_check_scratch s k b rec buf = do {
     kc \<leftarrow> fm_key s k;
     if kc_unique kc \<and> \<not> (case has_null_part (kc_ops kc) of None \<Rightarrow> False | Some f \<Rightarrow> f rec \<noteq> 0)
     then do { h \<leftarrow> get_head (keydef s) k b; dup_scratch_loop s kc k rec h buf }
     else Some (FM_ERR_OK, buf) }"

definition insert_scratch :: "FM_SHARE_CORE \<Rightarrow> image \<Rightarrow> image \<Rightarrow> image option" where
  "insert_scratch s rec buf = do {
     s0 \<leftarrow> lock_struct s;
     (idx, s1) \<leftarrow> fm_core_alloc_slot s0;
     if idx = FM_NULL_SLOT then Some buf
     else do {
       s2 \<leftarrow> copy_image s1 idx rec;
       kc \<leftarrow> fm_key s2 0;
       b \<leftarrow> fm_core_key_bucket kc rec;
       s3 \<leftarrow> lock_bucket s2 0 b;
       (dup, buf1) \<leftarrow> dup_check_scratch s3 0 b rec buf;
       Some buf1 } }"

record test_a =
  a_core :: FM_SHARE_CORE
  a_rows :: "image list"
  a_stop :: bool
  a_writes :: nat
  a_reads :: nat
  a_fails :: nat

primrec torn_fill :: "nat list \<Rightarrow> FM_SHARE_CORE \<Rightarrow> image list \<Rightarrow> nat \<Rightarrow> (FM_SHARE_CORE \<times> image list \<times> nat) option" where
  "torn_fill [] s rs n = Some (s, rs, n)"
| "torn_fill (i # is) s rs n = do {
     let r = Rec2 (of_nat i) MAGIC 0;
     let rs1 = rs[i := r];
     buf \<leftarrow> insert_scratch s r (rs1 ! 0);
     (rc, idx, ek, s1) \<leftarrow> fm_core_insert_row s r;
     torn_fill is s1 (rs1[0 := buf]) (n + CHECK (rc = FM_ERR_OK) + CHECK (idx = Some (int i))) }"

text \<open>Program points: the writers with their \<open>epoch\<close>, the readers, the main thread until it stops them.\<close>

datatype a_thread =
    W_Loop u64
  | W_Find u64 nat image
  | W_Gen u64 nat image slot_id
  | W_Row u64 nat image slot_id u32
  | W_Store u64 nat image
  | R_Loop
  | R_Scan nat image
  | A_Sleep
  | A_Exit

definition a_fail :: "bool \<Rightarrow> test_a \<Rightarrow> test_a" where
  "a_fail c \<sigma> = \<sigma>\<lparr>a_fails := a_fails \<sigma> + CHECK c\<rparr>"

text \<open>A step of a thread on such a schedule: one call of the core, or one copy of an element of \<open>rows\<close>.\<close>

fun torn_next :: "u64 \<Rightarrow> image \<Rightarrow> test_a \<Rightarrow> a_thread \<Rightarrow> (test_a \<times> a_thread) option" where
  "torn_next rng junk \<sigma> (W_Loop epoch) =
     (if a_stop \<sigma> then Some (\<sigma>, A_Exit)
      else (let i = unat (rng mod 64); epoch' = epoch + 1; nr = set_v (a_rows \<sigma> ! i) epoch' in Some (\<sigma>, W_Find epoch' i nr)))"
| "torn_next rng junk \<sigma> (W_Find epoch i nr) = do {
     ((rc, out, buf), s1) \<leftarrow> fm_core_find (a_core \<sigma>) 0 (le64 (of_nat i)) junk (-1);
     let \<sigma>1 = \<sigma>\<lparr>a_core := s1\<rparr>;
     Some (if rc = FM_ERR_OK then (\<sigma>1, W_Gen epoch i nr out) else (\<sigma>1\<lparr>a_writes := a_writes \<sigma> + 1\<rparr>, W_Loop epoch)) }"
| "torn_next rng junk \<sigma> (W_Gen epoch i nr out) = do {
     g \<leftarrow> test_gen_of (a_core \<sigma>) out;
     Some (\<sigma>, W_Row epoch i nr out g) }"
| "torn_next rng junk \<sigma> (W_Row epoch i nr out g) = do {
     (rc, ek, s1) \<leftarrow> fm_core_update_row (a_core \<sigma>) out g (a_rows \<sigma> ! i) nr;
     Some (a_fail (rc = FM_ERR_OK) (\<sigma>\<lparr>a_core := s1\<rparr>), W_Store epoch i nr) }"
| "torn_next rng junk \<sigma> (W_Store epoch i nr) =
     Some (\<sigma>\<lparr>a_rows := (a_rows \<sigma>)[i := nr], a_writes := a_writes \<sigma> + 1\<rparr>, W_Loop epoch)"
| "torn_next rng junk \<sigma> R_Loop = Some (\<sigma>, if a_stop \<sigma> then A_Exit else R_Scan 0 junk)"
| "torn_next rng junk \<sigma> (R_Scan pos buf) = do {
     (rc, pos', buf') \<leftarrow> fm_core_scan_next (a_core \<sigma>) pos buf;
     Some (if rc \<noteq> FM_ERR_OK then (\<sigma>, R_Loop)
           else if rec2_magic buf' \<noteq> MAGIC \<or> sint (rec2_v buf') < 0 then ((a_fail False \<sigma>)\<lparr>a_stop := True\<rparr>, A_Exit)
           else (\<sigma>\<lparr>a_reads := a_reads \<sigma> + 1\<rparr>, R_Scan pos' buf')) }"
| "torn_next rng junk \<sigma> A_Sleep = Some (\<sigma>\<lparr>a_stop := True\<rparr>, A_Exit)"
| "torn_next rng junk \<sigma> A_Exit = None"

definition torn_step :: "test_a \<Rightarrow> a_thread \<Rightarrow> test_a \<Rightarrow> a_thread \<Rightarrow> bool" where
  "torn_step \<sigma> t \<sigma>' t' \<longleftrightarrow> (\<exists>rng junk. torn_next rng junk \<sigma> t = Some (\<sigma>', t'))"

definition torn_start :: "FM_SHARE_CORE_OPS \<Rightarrow> image list \<Rightarrow> (test_a \<times> a_thread multiset) option" where
  "torn_start o' rs = do {
     (s, rs', n) \<leftarrow> torn_fill [0 ..< 64] (keyed o' 24) rs 0;
     Some (\<lparr>a_core = s, a_rows = rs', a_stop = False, a_writes = 0, a_reads = 0, a_fails = n\<rparr>,
       add_mset A_Sleep (replicate_mset 4 (W_Loop 0) + replicate_mset 2 R_Loop)) }"

text \<open>The pass over the table after the threads are joined.\<close>

partial_function (option) magic_loop :: "FM_SHARE_CORE \<Rightarrow> nat \<Rightarrow> image \<Rightarrow> nat \<Rightarrow> nat option" where
  "magic_loop s pos buf fails = do {
     (rc, pos', buf') \<leftarrow> fm_core_scan_next s pos buf;
     if rc = FM_ERR_OK then magic_loop s pos' buf' (fails + CHECK (rec2_magic buf' = MAGIC)) else Some fails }"

definition torn_verify :: "image \<Rightarrow> test_a \<Rightarrow> nat option" where
  "torn_verify buf \<sigma> = do {
     fails \<leftarrow> magic_loop (a_core \<sigma>) 0 buf (a_fails \<sigma>);
     s1 \<leftarrow> fm_core_free_share (a_core \<sigma>);
     Some fails }"

section \<open>The rows fill the slots in order\<close>

lemma insert_row_free_list:
  assumes t: "table s" and len: "length rec = reclength s" and ok: "fm_core_insert_row s rec = Some (FM_ERR_OK, Some i, ek, s')"
  shows "\<exists>s1 F1. fm_core_alloc_slot (s\<lparr>struct_mutex := True\<rparr>) = Some (i, s1) \<and> i \<noteq> FM_NULL_SLOT \<and> free_list s1 F1 \<and> free_list s' F1"
proof -
  obtain F where b: "body s (index_of s) {} F" and mx: "\<not> struct_mutex s" using t by (auto simp: table_def)
  let ?s0 = "s\<lparr>struct_mutex := True\<rparr>"
  have l: "lock_struct s = Some ?s0" using mx by (simp add: lock_struct_def spin_lock_def)
  have "body ?s0 (index_of s) {} F" using b by simp
  then show ?thesis
  proof (cases rule: body_alloc)
    case (none m)
    then show ?thesis using ok l by (simp add: fm_core_insert_row_def Let_def split: if_splits)
  next
    case (slot j s1 F1)
    show ?thesis
    proof (rule insert_row_linked [OF t len slot(1-4)], goal_cases)
      case (1 s2 s3)
      have nd: "find (dup_row s rec) [0 ..< keys s] = None" using ok unfolding 1(9) by (auto simp: bind_eq_Some_conv split: option.splits)
      have hs: "has_slot (chunks s3) j" by (rule bodyD(8) [OF 1(6)]) simp
      have s': "i = j" "s' = (put_slot s3 j ((slot_of (chunks s3) j)\<lparr>sl_state := FM_SLOT_ACTIVE\<rparr>))\<lparr>records := records s3 + 1, struct_mutex := False\<rparr>"
        using ok hs unfolding 1(9) by (auto simp: nd fm_slot_eq Let_def unlock_struct_def spin_unlock_def)
      have "free_list s3 F1" by (rule bodyD(4) [OF 1(6)])
      moreover have "sl_free_next (slot_of (chunks s') m) = sl_free_next (slot_of (chunks s3) m)" for m
        using put_slot_views(1) [OF hs] by (simp add: s'(2))
      moreover have "free_head s' = free_head s3" "has_slot (chunks s') = has_slot (chunks s3)"
        by (simp_all add: s'(2) put_slot_def fun_eq_iff)
      ultimately have "free_list s' F1" by (simp add: free_list_def)
      then show ?case using slot(1,2) bodyD(4) [OF slot(3)] s'(1) by blast
    qed
  qed
qed

lemma insert_row_order:
  assumes t: "table s" and len: "length rec = reclength s" and ok: "fm_core_insert_row s rec = Some (FM_ERR_OK, Some i, ek, s')"
    and F: "free_list s F"
  shows "(\<exists>F'. F = i # F' \<and> free_list s' F') \<or> (F = [] \<and> i = int (total_slots s)
    \<and> free_list s' (map int [total_slots s + 1 ..< min (total_slots s + FM_CHUNK_SIZE) (max_records s)]))"
proof -
  let ?s0 = "s\<lparr>struct_mutex := True\<rparr>"
  obtain F0 where "body s (index_of s) {} F0" using t by (auto simp: table_def)
  then have "body ?s0 (index_of s) {} F0" by simp
  then have l: "layout ?s0" by (rule bodyD(1))
  have F0: "free_list ?s0 F" using F by (simp add: free_list_def)
  obtain s1 F1 where s1: "fm_core_alloc_slot ?s0 = Some (i, s1)" "i \<noteq> FM_NULL_SLOT" "free_list s1 F1" "free_list s' F1"
    using insert_row_free_list [OF t len ok] by blast
  have u: "G = F1" if "free_list s1 G" for G using that s1(3) linked_unique by (auto simp: free_list_def)
  from l F0 show ?thesis
  proof (cases rule: fm_core_alloc_slot_cases)
    case (pop j F' s1')
    then have "j = i" "free_list s1 F'" using s1(1) by auto
    then show ?thesis using pop(1) u [of F'] s1(4) by blast
  next
    case (fresh C h m s1')
    then have "i = int (total_slots s)" "s1' = s1" using s1(1) by (auto simp: total_slots_def)
    then show ?thesis using fresh(1,6) u s1(4) by (auto simp: total_slots_def)
  qed (use s1 in auto)
qed

section \<open>What an insert leaves in its scratch buffer\<close>

lemma dup_scratch_loop_eq:
  assumes "quiet s" "k < keys s" "cmp_rec_rec (kc_ops kc) = Some cmp"
    and "linked (next_of (chunks s) k) h xs" "\<forall>i \<in> set xs. has_slot (chunks s) i \<and> (\<exists>r. rows s i = Some r \<and> cmp r rec \<noteq> 0)"
  shows "dup_scratch_loop s kc k rec h buf = Some (FM_ERR_OK, if xs = [] then buf else the (rows s (last xs)))"
  using assms(4,5)
proof (induction xs arbitrary: h buf)
  case Nil
  then show ?case by (simp add: dup_scratch_loop.simps)
next
  case (Cons x xs)
  then obtain r where x: "h = x" "x \<noteq> FM_NULL_SLOT" "has_slot (chunks s) x" "rows s x = Some r" "cmp r rec \<noteq> 0" by auto
  then have "dup_scratch_loop s kc k rec h buf = dup_scratch_loop s kc k rec (next_of (chunks s) k x) r"
    using assms(1-3) by (subst dup_scratch_loop.simps) (simp add: read_row_quiet fm_key_next_def)
  with Cons x(4) show ?case by simp
qed

text \<open>An allocated and filled slot, before it is linked.\<close>

lemma alloc_filled:
  assumes t: "table s" and len: "length rec = reclength s" and al: "fm_core_alloc_slot (s\<lparr>struct_mutex := True\<rparr>) = Some (i, s1)" "i \<noteq> FM_NULL_SLOT"
  obtains s2 F1 where "copy_image s1 i rec = Some s2" "body s2 (index_of s) {i} F1" "same_table (s\<lparr>struct_mutex := True\<rparr>) s2"
proof -
  obtain F where b: "body s (index_of s) {} F" using t by (auto simp: table_def)
  then have "body (s\<lparr>struct_mutex := True\<rparr>) (index_of s) {} F" by simp
  then show thesis
  proof (cases rule: body_alloc)
    case (none m)
    then show thesis using al by simp
  next
    case (slot i' s1' F1)
    then have e: "i' = i" "s1' = s1" using al(1) by auto
    note b1 = slot(3) [unfolded e] and st = slot(4) [unfolded e]
    let ?sl = "slot_of (chunks s1) i"
    let ?v = "?sl\<lparr>sl_data := take (reclength s1) rec\<rparr>"
    note st1 = st [unfolded same_table_def, simplified] and d1 = bodyD [OF b1]
    have hs: "has_slot (chunks s1) i" "\<not> active s1 i" using d1(8,10) by auto
    have na: "sl_state ?v \<noteq> FM_SLOT_ACTIVE" "even (sl_seq ?v)" using hs d1(5) by (simp_all add: active_def quiet_def)
    have p: "body (put_slot s1 i ?v) (index_of s) {i} F1 \<and> same_table s1 (put_slot s1 i ?v)" using put_owned [OF b1, of i ?v] na by auto
    have "copy_image s1 i rec = Some (put_slot s1 i ?v)" using hs(1) len st1 by (simp add: copy_image_def fm_slot_eq)
    moreover have "body (put_slot s1 i ?v) (index_of s) {i} F1" using p by blast
    moreover have "same_table (s\<lparr>struct_mutex := True\<rparr>) (put_slot s1 i ?v)" using same_table_trans [OF st] p by blast
    ultimately show thesis by (rule that)
  qed
qed

context keyed_share begin

lemma insert_scratch_eq:
  assumes h: "holds img sh s A" and k: "A k = None" and ok: "fm_core_insert_row s (img k v) = Some (FM_ERR_OK, Some i, ek, s')"
  shows "\<exists>buf'. insert_scratch s (img k v) buf = Some buf'
    \<and> (buf' = buf \<and> (\<forall>k' i' v'. A k' = Some (i', v') \<longrightarrow> bucket_of (keydef s ! 0) (img k' v') \<noteq> bucket_of (keydef s ! 0) (img k v))
       \<or> (\<exists>k' i' v'. A k' = Some (i', v') \<and> bucket_of (keydef s ! 0) (img k' v') = bucket_of (keydef s ! 0) (img k v) \<and> buf' = img k' v'))"
proof -
  let ?rec = "img k v" and ?s0 = "s\<lparr>struct_mutex := True\<rparr>"
  note d = holds_static [OF h]
  have len: "length ?rec = reclength s" using img_length d(2) by simp
  obtain s1 where s1: "fm_core_alloc_slot ?s0 = Some (i, s1)" "i \<noteq> FM_NULL_SLOT" using insert_row_free_list [OF d(7) len ok] by blast
  obtain s2 F1 where s2: "copy_image s1 i ?rec = Some s2" "body s2 (index_of s) {i} F1" "same_table ?s0 s2"
    by (rule alloc_filled [OF d(7) len s1])
  note b2 = bodyD [OF s2(2)] and e2 = s2(3) [unfolded same_table_def, simplified]
  have k0: "0 < keys s2" using e2 d(1) by simp
  let ?kc = "keydef s ! 0"
  let ?b = "bucket_of ?kc ?rec"
  note ready = key_readyD [OF keys_readyD(1) [OF b2(6) k0], unfolded e2]
  have hb: "has_bucket (keydef s2) 0 ?b" using keys_readyD(3) [OF b2(6) k0] ready(6) e2 by simp
  obtain s3 where s3: "lock_bucket s2 0 ?b = Some s3" "relocked s2 (set_lock (lock_of (keydef s2)) 0 ?b True) s3" "indexed s3 (index_of s)"
    using indexed_lock [OF b2(2,3) k0 hb] by blast
  note r3 = relockedD [OF s3(2)]
  have k3: "0 < keys s3" and hb3: "has_bucket (keydef s3) 0 ?b" using k0 hb r3 by auto
  obtain CH where c: "chains s3 CH" and CH: "set (CH 0 ?b) = {j. index_of s 0 j = Some ?b}"
    using s3(3) k3 hb3 by (auto simp: indexed_def)
  let ?xs = "CH 0 ?b"
  have xs: "j \<in> set ?xs \<longleftrightarrow> (\<exists>k' v'. A k' = Some (j, v') \<and> bucket_of ?kc (img k' v') = ?b)" for j
    by (auto simp: CH index_of_def holds_rows [OF h])
  have rows3: "rows s3 = rows s" using relocked_rows [OF s3(2)] e2 by simp
  have kc3: "kc_ops (keydef s3 ! 0) = hk0_ops" "kc_unique (keydef s3 ! 0)" using relockedD(7,8) [OF s3(2), of 0] d(5,6) e2 by simp_all
  have fk: "fm_key s2 0 = Some ?kc" "fm_key s3 0 = Some (keydef s3 ! 0)"
    "get_head (keydef s3) 0 ?b = Some (head_of (keydef s3) 0 ?b)"
    using keys_readyD(2) [OF b2(6) k0] e2 hb3 by (simp_all add: fm_key_def has_bucket_def split: if_splits)
  have q3: "quiet s3" using relocked_quiet [OF s3(2)] b2(5) by simp
  have live: "\<forall>j \<in> set ?xs. has_slot (chunks s3) j \<and> (\<exists>r. rows s3 j = Some r \<and> hk0_cmp_rec_rec r ?rec \<noteq> 0)"
  proof
    fix j
    assume j: "j \<in> set ?xs"
    then obtain k' v' where k': "A k' = Some (j, v')" using xs by blast
    then have "k' \<noteq> k" using k by auto
    then show "has_slot (chunks s3) j \<and> (\<exists>r. rows s3 j = Some r \<and> hk0_cmp_rec_rec r ?rec \<noteq> 0)"
      using chainsD(2) [OF c k3 hb3] j holds_at [OF h k'] rows3 key_of_img by (auto simp: hk0_cmp_rec_rec_def)
  qed
  have "cmp_rec_rec (kc_ops (keydef s3 ! 0)) = Some hk0_cmp_rec_rec" by (simp add: kc3 hk0_ops_def)
  note loop = dup_scratch_loop_eq [OF q3 k3 this chainsD(1) [OF c k3 hb3] live, of buf]
  have "has_null_part (kc_ops (keydef s3 ! 0)) = Some (\<lambda>_. 0)" by (simp add: kc3 hk0_ops_def)
  then have check: "dup_check_scratch s3 0 ?b ?rec buf = Some (FM_ERR_OK, if ?xs = [] then buf else the (rows s3 (last ?xs)))"
    using fk loop kc3(2) by (simp add: dup_check_scratch_def)
  have kb: "fm_core_key_bucket ?kc ?rec = Some ?b" using ready(5) [of ?rec] e2 by simp
  have "\<not> struct_mutex s" using d(7) by (simp add: table_def)
  then have run: "insert_scratch s ?rec buf = Some (if ?xs = [] then buf else the (rows s3 (last ?xs)))"
    using s1 s2(1) fk(1) kb s3(1) check by (simp add: insert_scratch_def lock_struct_def spin_lock_def)
  show ?thesis
  proof (cases "?xs = []")
    case True
    then have "\<forall>k' i' v'. A k' = Some (i', v') \<longrightarrow> bucket_of ?kc (img k' v') \<noteq> ?b" using xs by fastforce
    then show ?thesis using run True by simp
  next
    case False
    then have "last ?xs \<in> set ?xs" by simp
    then obtain k' v' where k': "A k' = Some (last ?xs, v')" "bucket_of ?kc (img k' v') = ?b" using xs by blast
    then have "insert_scratch s ?rec buf = Some (img k' v')" using run False holds_at [OF h k'(1)] rows3 by simp
    with k' show ?thesis by auto
  qed
qed

end

section \<open>The state when the threads start\<close>

lemma Rec2_simps [simp]: "length (Rec2 k m v) = 24" "rec_k (Rec2 k m v) = k" "rec2_magic (Rec2 k m v) = m" "rec2_v (Rec2 k m v) = v"
  "set_v (Rec2 k m v) w = Rec2 k m w"
proof -
  show "length (Rec2 k m v) = 24" "rec_k (Rec2 k m v) = k" "rec2_magic (Rec2 k m v) = m" "set_v (Rec2 k m v) w = Rec2 k m w"
    by (simp_all add: Rec2_def rec_k_def rec2_magic_def set_v_def)
  have "drop 16 (Rec2 k m v) = le64 v" by (simp add: Rec2_def)
  then show "rec2_v (Rec2 k m v) = v" by (simp add: rec2_v_def)
qed

definition Row2 :: "u64 \<Rightarrow> u64 \<Rightarrow> image" where
  "Row2 k v = Rec2 k MAGIC v"

interpretation recs2: keyed_share Row2 "keyed never_fails 24"
  by unfold_locales (simp_all add: keyed_eq Row2_def)

definition torn_bucket :: "nat \<Rightarrow> u32" where
  "torn_bucket i = hk0_hash_rec (Row2 (of_nat i) 0) AND 63"

definition first_rows :: "nat \<Rightarrow> u64 \<rightharpoonup> slot_id \<times> u64" where
  "first_rows n k = (if unat k < n then Some (int (unat k), 0) else None)"

text \<open>Row \<open>j\<close> is in the bucket of the last of the first \<open>n\<close> inserts that found a row in its bucket; row 0 when there was none.\<close>

definition last_seen :: "nat \<Rightarrow> nat \<Rightarrow> bool" where
  "last_seen n j \<longleftrightarrow> (\<exists>b < n. j < b \<and> torn_bucket j = torn_bucket b \<and> (\<forall>c. b < c \<and> c < n \<longrightarrow> (\<forall>a < c. torn_bucket a \<noteq> torn_bucket c)))
     \<or> (j = 0 \<and> (\<forall>c < n. \<forall>a < c. torn_bucket a \<noteq> torn_bucket c))"

lemma last_seen_Suc:
  "last_seen n j \<Longrightarrow> \<forall>a < n. torn_bucket a \<noteq> torn_bucket n \<Longrightarrow> last_seen (Suc n) j"
  "j < n \<Longrightarrow> torn_bucket j = torn_bucket n \<Longrightarrow> last_seen (Suc n) j"
  unfolding last_seen_def less_Suc_eq by (blast, force)

text \<open>After \<open>n\<close> inserts: row \<open>i\<close> is in slot \<open>i\<close>, and \<open>rows[0]\<close> is the row that the last colliding insert has seen.\<close>

definition filled :: "nat \<Rightarrow> FM_SHARE_CORE \<Rightarrow> image list \<Rightarrow> bool" where
  "filled n s rs \<longleftrightarrow> holds Row2 (keyed never_fails 24) s (first_rows n) \<and> length rs = 64
     \<and> (if n = 0 then free_list s [] \<and> total_slots s = 0 else free_list s (map int [n ..< FM_CHUNK_SIZE]))
     \<and> (\<forall>i. 0 < i \<and> i < n \<longrightarrow> rs ! i = Row2 (of_nat i) 0)
     \<and> (0 < n \<longrightarrow> (\<exists>j < n. rs ! 0 = Row2 (of_nat j) 0 \<and> last_seen n j))"

lemma small_nat: "n < 64 \<Longrightarrow> unat (of_nat n :: u64) = n" "n < 64 \<Longrightarrow> uint (of_nat n :: u64) = int n"
  by (simp_all add: unsigned_of_nat take_bit_nat_eq_self)

lemma first_rows_Suc: "n < 64 \<Longrightarrow> (first_rows n)(of_nat n \<mapsto> (int n, 0)) = first_rows (Suc n)"
proof
  fix k :: u64
  assume n: "n < 64"
  show "((first_rows n)(of_nat n \<mapsto> (int n, 0))) k = first_rows (Suc n) k"
  proof (cases "k = of_nat n")
    case True
    then show ?thesis using small_nat(1) [OF n] by (simp add: first_rows_def)
  next
    case False
    then have "unat k \<noteq> n" by auto
    then show ?thesis using False by (auto simp: first_rows_def less_Suc_eq)
  qed
qed

lemma keyed_nbuckets: "map kc_nbuckets (keydef (keyed never_fails n)) = [64]"
  using init_share_eq(1) [of never_fails "2 ^ 20" _ n 1 64, OF _ _ _ refl] by (simp add: keyed_def wire_keys_def fresh_key_def FM_CHUNK_SIZE_def)

lemma torn_bucket_eq:
  assumes h: "holds Row2 (keyed never_fails 24) s A" and i: "i < 64"
  shows "bucket_of (keydef s ! 0) (Row2 (of_nat i) 0) = torn_bucket i"
proof -
  have "static s = static (keyed never_fails 24)" using h by (simp add: holds_def)
  from arg_cong [OF this, of "\<lambda>st. map (\<lambda>(a, b, c). c) (snd (snd (snd (snd (snd st)))))"]
  have "map kc_nbuckets (keydef s) = [64]" using keyed_nbuckets by (simp add: static_def comp_def)
  then have "kc_nbuckets (keydef s ! 0) = 64" by auto
  moreover have "rec_hash (keydef s ! 0) = hk0_hash_rec" using recs2.holds_static(5) [OF h] by (simp add: rec_hash_def hk0_ops_def)
  ultimately show ?thesis by (simp add: bucket_of_def fm_bucket_def torn_bucket_def)
qed

lemma filled_start: "length rs = 64 \<Longrightarrow> filled 0 (keyed never_fails 24) rs"
proof -
  assume rs: "length rs = 64"
  have m: "(0 :: nat) < 2 ^ 20" "(2 ^ 20 :: nat) \<le> 2 ^ 31 - FM_CHUNK_SIZE" by (simp_all add: FM_CHUNK_SIZE_def)
  note e = init_share_eq [OF _ m refl, of never_fails 24 1 64, simplified]
  have "free_list (keyed never_fails 24) []" "total_slots (keyed never_fails 24) = 0"
    using e by (simp_all add: free_list_def keyed_def wire_keys_def total_slots_def)
  moreover have "first_rows 0 = Map.empty" by (simp add: first_rows_def fun_eq_iff)
  ultimately show ?thesis using rs keyed_holds [of Row2 24] by (simp add: filled_def)
qed

lemma card_first_rows: "n \<le> 64 \<Longrightarrow> card (dom (first_rows n)) < 2 ^ 20"
proof -
  assume n: "n \<le> 64"
  have "dom (first_rows n) \<subseteq> of_nat ` {..< n}" by (auto simp: first_rows_def dom_def split: if_splits intro!: image_eqI [of _ _ "unat _"])
  then have "card (dom (first_rows n)) \<le> card (of_nat ` {..< n} :: u64 set)" by (intro card_mono) simp_all
  also have "\<dots> \<le> n" using card_image_le [of "{..< n}" "of_nat :: nat \<Rightarrow> u64"] by simp
  finally show ?thesis using n by simp
qed

lemma filled_step:
  assumes f: "filled n s rs" and n: "n < 64"
  defines "r \<equiv> Rec2 (of_nat n) MAGIC 0"
  shows "\<exists>buf ek s1. insert_scratch s r (rs[n := r] ! 0) = Some buf \<and> fm_core_insert_row s r = Some (FM_ERR_OK, Some (int n), ek, s1)
    \<and> filled (Suc n) s1 (rs[n := r, 0 := buf])"
proof -
  have h: "holds Row2 (keyed never_fails 24) s (first_rows n)" using f by (simp add: filled_def)
  have r: "r = Row2 (of_nat n) 0" by (simp add: r_def Row2_def)
  have none: "first_rows n (of_nat n) = None" using small_nat(1) [OF n] by (simp add: first_rows_def)
  have room: "card (dom (first_rows n)) < max_records (keyed never_fails 24)" using card_first_rows [of n] n by (simp add: keyed_eq)
  obtain i s1 where s1: "fm_core_insert_row s r = Some (FM_ERR_OK, Some i, None, s1)"
    "holds Row2 (keyed never_fails 24) s1 ((first_rows n)(of_nat n \<mapsto> (i, 0)))"
    by (rule recs2.insert_call [OF h room, of "of_nat n" 0]) (use none r in auto)
  have t: "table s" and len: "length r = reclength s" using recs2.holds_static(2,7) [OF h] by (simp_all add: r_def keyed_eq)
  have c: "FM_CHUNK_SIZE > 64" "max_records s = 2 ^ 20" "min FM_CHUNK_SIZE (2 ^ 20) = FM_CHUNK_SIZE"
    using recs2.holds_static(3) [OF h] by (simp_all add: FM_CHUNK_SIZE_def keyed_eq)
  have i: "i = int n \<and> free_list s1 (map int [Suc n ..< FM_CHUNK_SIZE])"
  proof (cases "n = 0")
    case True
    then show ?thesis using insert_row_order [OF t len s1(1), of "[]"] f c by (simp add: filled_def)
  next
    case False
    then have "free_list s (map int [n ..< FM_CHUNK_SIZE])" using f unfolding filled_def by presburger
    moreover have "[n ..< FM_CHUNK_SIZE] = n # [Suc n ..< FM_CHUNK_SIZE]" using n c(1) by (intro upt_conv_Cons) simp
    ultimately have "free_list s (int n # map int [Suc n ..< FM_CHUNK_SIZE])" by simp
    from insert_row_order [OF t len s1(1) this] show ?thesis by simp
  qed
  have h1: "holds Row2 (keyed never_fails 24) s1 (first_rows (Suc n))" using s1(2) i first_rows_Suc [OF n] by simp
  obtain buf where buf: "insert_scratch s r (rs[n := r] ! 0) = Some buf"
    "buf = rs[n := r] ! 0 \<and> (\<forall>a < n. torn_bucket a \<noteq> torn_bucket n) \<or> (\<exists>a < n. torn_bucket a = torn_bucket n \<and> buf = Row2 (of_nat a) 0)"
  proof -
    note tb = torn_bucket_eq [OF h]
    have fr: "first_rows n k' = Some (i', v') \<longleftrightarrow> (\<exists>a < n. k' = of_nat a \<and> i' = int a \<and> v' = 0)" for k' i' v'
      using n small_nat by (auto simp: first_rows_def intro!: exI [of _ "unat k'"])
    obtain buf where b: "insert_scratch s r (rs[n := r] ! 0) = Some buf"
      "buf = rs[n := r] ! 0 \<and> (\<forall>k' i' v'. first_rows n k' = Some (i', v') \<longrightarrow> bucket_of (keydef s ! 0) (Row2 k' v') \<noteq> bucket_of (keydef s ! 0) r)
       \<or> (\<exists>k' i' v'. first_rows n k' = Some (i', v') \<and> bucket_of (keydef s ! 0) (Row2 k' v') = bucket_of (keydef s ! 0) r \<and> buf = Row2 k' v')"
      using recs2.insert_scratch_eq [OF h none s1(1) [unfolded r], of "rs[n := r] ! 0"] unfolding r by blast
    have tr: "bucket_of (keydef s ! 0) r = torn_bucket n" using tb [OF n] by (simp add: r)
    have "bucket_of (keydef s ! 0) (Row2 (of_nat a) 0) = torn_bucket a \<and> first_rows n (of_nat a) = Some (int a, 0)" if "a < n" for a
      using that n tb fr by auto
    then show thesis using that [OF b(1)] b(2) unfolding tr fr by metis
  qed
  let ?rs = "rs[n := r, 0 := buf]"
  have len64: "length rs = 64" using f by (simp add: filled_def)
  have tail: "?rs ! m = Row2 (of_nat m) 0" if "0 < m" "m < Suc n" for m
    using that f n r by (cases "m = n") (simp_all add: filled_def)
  have head: "\<exists>j < Suc n. ?rs ! 0 = Row2 (of_nat j) 0 \<and> last_seen (Suc n) j"
    using buf(2)
  proof (elim disjE conjE exE)
    assume same: "buf = rs[n := r] ! 0" and new: "\<forall>a < n. torn_bucket a \<noteq> torn_bucket n"
    show ?thesis
    proof (cases "n = 0")
      case True
      then show ?thesis using same len64 r by (auto simp: last_seen_def)
    next
      case False
      then obtain j where j: "j < n" "rs ! 0 = Row2 (of_nat j) 0" "last_seen n j" using f by (auto simp: filled_def)
      have "?rs ! 0 = Row2 (of_nat j) 0" using same j(2) False len64 by simp
      then show ?thesis using j(1) last_seen_Suc(1) [OF j(3) new] by (intro exI [of _ j]) simp
    qed
  next
    fix a
    assume a: "a < n" "torn_bucket a = torn_bucket n" "buf = Row2 (of_nat a) 0"
    have "?rs ! 0 = Row2 (of_nat a) 0" using a(3) len64 by simp
    then show ?thesis using a(1) last_seen_Suc(2) [OF a(1,2)] by (intro exI [of _ a]) simp
  qed
  have "filled (Suc n) s1 ?rs" using h1 len64 i tail head unfolding filled_def by simp
  then show ?thesis using buf(1) s1(1) i by blast
qed

lemma fill_ok:
  assumes "filled n s rs" "n \<le> 64"
  shows "\<exists>s' rs'. torn_fill [n ..< 64] s rs m = Some (s', rs', m) \<and> filled 64 s' rs'"
  using assms
proof (induction "64 - n" arbitrary: n s rs)
  case 0
  then show ?case by auto
next
  case (Suc d)
  then have n: "n < 64" "[n ..< 64] = n # [Suc n ..< 64]" by (simp_all add: upt_conv_Cons)
  from filled_step [OF Suc.prems(1) n(1)] obtain buf ek s1 where s1:
    "insert_scratch s (Rec2 (of_nat n) MAGIC 0) (rs[n := Rec2 (of_nat n) MAGIC 0] ! 0) = Some buf"
    "fm_core_insert_row s (Rec2 (of_nat n) MAGIC 0) = Some (FM_ERR_OK, Some (int n), ek, s1)"
    "filled (Suc n) s1 (rs[n := Rec2 (of_nat n) MAGIC 0, 0 := buf])" by blast
  have "d = 64 - Suc n" "Suc n \<le> 64" using Suc.hyps(2) n(1) by simp_all
  from Suc.hyps(1) [OF this(1) s1(3) this(2)] s1(1,2) show ?case unfolding n(2) by (simp add: Let_def CHECK_def)
qed

section \<open>The invariant\<close>

definition good_row :: "nat \<Rightarrow> image \<Rightarrow> bool" where
  "good_row n r \<longleftrightarrow> (\<exists>k v. r = Row2 k v \<and> unat v \<le> n)"

definition torn_core :: "nat \<Rightarrow> FM_SHARE_CORE \<Rightarrow> index_map \<Rightarrow> bool" where
  "torn_core n s M \<longleftrightarrow> layout s \<and> steady s \<and> indexed s M \<and> (\<forall>i. \<not> held s i) \<and> keys s = 1 \<and> reclength s = 24
     \<and> kc_ops (keydef s ! 0) = hk0_ops \<and> (\<forall>i r. rows s i = Some r \<longrightarrow> good_row n r)"

lemma good_row_mono: "good_row n r \<Longrightarrow> n \<le> m \<Longrightarrow> good_row m r"
  by (auto simp: good_row_def intro: order_trans)

lemma torn_core_mono: "torn_core n s M \<Longrightarrow> n \<le> m \<Longrightarrow> torn_core m s M"
  by (auto simp: torn_core_def intro: good_row_mono)

lemma torn_coreD:
  assumes "torn_core n s M"
  shows "layout s" "steady s" "indexed s M" "\<not> held s i" "keys s = 1" "reclength s = 24" "kc_ops (keydef s ! 0) = hk0_ops"
    "rows s i = Some r \<Longrightarrow> good_row n r" "quiet s" "keys_ready s"
  using assms by (simp_all add: torn_core_def steady_def)

lemma torn_find:
  assumes c: "torn_core n s M"
  obtains (none) buf' where "fm_core_find s 0 (le64 k) buf out = Some ((FM_ERR_NOT_FOUND, out, buf'), s)"
      "\<And>i r. M 0 i = Some (fm_bucket (keydef s ! 0) (hk0_hash_key (le64 k))) \<Longrightarrow> rows s i = Some r \<Longrightarrow> rec_k r \<noteq> k"
  | (hit) i r where "fm_core_find s 0 (le64 k) buf out = Some ((FM_ERR_OK, i, r), s)" "rows s i = Some r" "rec_k r = k"
proof -
  note d = torn_coreD [OF c]
  have k0: "0 < keys s" using d(5) by simp
  have ph: "probe_hash (keydef s ! 0) = hk0_hash_key" using d(7) by (simp add: probe_hash_def hk0_ops_def)
  show thesis
  proof (rule chain_walk [OF d(2,3) k0, of "le64 k"], goal_cases)
    case (1 xs)
    obtain buf' where f: "fm_core_find s 0 (le64 k) buf out = Some (lookup_result s 0 (le64 k) xs out buf', s)" using 1(3) by blast
    show ?case
    proof (cases rule: lookup_result_cases [of s 0 "le64 k" xs out buf'])
      case none
      show ?thesis by (rule that(1)) (use f none 1(2) d(7) ph in auto)
    next
      case (hit i r)
      then show ?thesis using that(2) f d(7) by simp
    qed
  qed
qed

text \<open>An update that keeps the key as far as its own images tell, whatever the row's key is.\<close>

lemma torn_update:
  assumes c: "torn_core n s M" and a: "active s i" and v: "unat v \<le> n"
    and s'_def: "s' = put_slot s i (rewritten (slot_of (chunks s) i) (Row2 k v))"
  shows "fm_core_update_row s i (gen_of s i) (Row2 k w) (Row2 k v) = Some (FM_ERR_OK, None, s')" "torn_core n s' M"
    "active s' = active s" "gen_of s' = gen_of s" "rows s' = (rows s)(i \<mapsto> Row2 k v)"
proof -
  note d = torn_coreD [OF c]
  have hs: "has_slot (chunks s) i" and st: "sl_state (slot_of (chunks s) i) = FM_SLOT_ACTIVE" using a by (simp_all add: active_def)
  have ng: "\<not> slot_gone (slot_of (chunks s) i) (gen_of s i)" using hs st by (simp add: slot_gone_def gen_of_def)
  have len: "length (Row2 k v) = reclength s" using d(6) by (simp add: Row2_def)
  have "changed_of s (Row2 k w) (Row2 k v) = []" using d(5,7) by (simp add: changed_of_def filter_empty_conv Row2_def)
  from update_row_in_place [OF d(10) hs d(4) len this, of "gen_of s i"] ng
  show "fm_core_update_row s i (gen_of s i) (Row2 k w) (Row2 k v) = Some (FM_ERR_OK, None, s')" by (simp add: s'_def)
  note p = put_slot_views(2,3) [OF hs, of "rewritten (slot_of (chunks s) i) (Row2 k v)"]
  have r: "rows s' = (rows s)(i \<mapsto> Row2 k v)" using p(2) st len by (simp add: s'_def)
  have ev: "even (sl_seq (rewritten (slot_of (chunks s) i) (Row2 k v)))" using d(9) hs by (simp add: quiet_def)
  have h: "held s' = held s" "gen_of s' = gen_of s" using put_slot_keeps [OF hs, of "rewritten (slot_of (chunks s) i) (Row2 k v)"] by (simp_all add: s'_def)
  have "steady s'" "indexed s' M" "layout s'" using d(1-3) steady_put_slot [OF hs ev d(2)] by (simp_all add: s'_def)
  then show "torn_core n s' M" using d(4-8) h r v unfolding torn_core_def by (auto simp: s'_def good_row_def split: if_splits)
  show "active s' = active s" using p(1) st a by (auto simp: s'_def fun_eq_iff)
  show "gen_of s' = gen_of s" "rows s' = (rows s)(i \<mapsto> Row2 k v)" by (rule h(2) r)+
qed

lemma torn_scan:
  assumes c: "torn_core n s M"
  obtains (row) k v pos' where "fm_core_scan_next s pos buf = Some (FM_ERR_OK, pos', Row2 k v)" "unat v \<le> n" "pos < pos'" "pos' \<le> total_slots s"
  | (eof) pos' buf' where "fm_core_scan_next s pos buf = Some (FM_ERR_EOF, pos', buf')"
proof -
  note d = torn_coreD [OF c]
  obtain buf' where sc: "fm_core_scan_next s pos buf = Some (case find (\<lambda>i. active s (int i)) [pos ..< total_slots s] of
      None \<Rightarrow> (FM_ERR_EOF, max pos (total_slots s), buf') | Some i \<Rightarrow> (FM_ERR_OK, i + 1, the (rows s (int i))))"
    using scan_next_quiet [OF d(1,9), of pos buf] by blast
  show thesis
  proof (cases "find (\<lambda>i. active s (int i)) [pos ..< total_slots s]")
    case None
    then show thesis using sc eof by simp
  next
    case (Some i)
    then have i: "active s (int i)" "i \<in> set [pos ..< total_slots s]" by (auto simp: find_Some_iff)
    then obtain r where r: "rows s (int i) = Some r" using rows_eq_None_iff [of s "int i"] by auto
    obtain k v where "r = Row2 k v" "unat v \<le> n" using d(8) [OF r] by (auto simp: good_row_def)
    then show thesis using row [of "i + 1" k v] sc Some r i(2) by simp
  qed
qed

text \<open>The key of \<open>rows[i]\<close> is \<open>\<kappa> i\<close>; \<open>n\<close> bounds the epochs.\<close>

fun a_ok :: "nat \<Rightarrow> (nat \<Rightarrow> u64) \<Rightarrow> FM_SHARE_CORE \<Rightarrow> a_thread \<Rightarrow> bool" where
  "a_ok n \<kappa> s (W_Loop e) \<longleftrightarrow> unat e \<le> n"
| "a_ok n \<kappa> s (W_Find e i nr) \<longleftrightarrow> unat e \<le> n \<and> i < 64 \<and> nr = Row2 (\<kappa> i) e"
| "a_ok n \<kappa> s (W_Gen e i nr out) \<longleftrightarrow> unat e \<le> n \<and> i < 64 \<and> nr = Row2 (\<kappa> i) e \<and> active s out"
| "a_ok n \<kappa> s (W_Row e i nr out g) \<longleftrightarrow> unat e \<le> n \<and> i < 64 \<and> nr = Row2 (\<kappa> i) e \<and> active s out \<and> g = gen_of s out"
| "a_ok n \<kappa> s (W_Store e i nr) \<longleftrightarrow> unat e \<le> n \<and> i < 64 \<and> nr = Row2 (\<kappa> i) e"
| "a_ok n \<kappa> s _ \<longleftrightarrow> True"

definition a_pool :: "nat \<Rightarrow> (nat \<Rightarrow> u64) \<Rightarrow> index_map \<Rightarrow> test_a \<times> a_thread multiset \<Rightarrow> bool" where
  "a_pool n \<kappa> M p \<longleftrightarrow> torn_core n (a_core (fst p)) M \<and> length (a_rows (fst p)) = 64
     \<and> (\<forall>i < 64. \<exists>v. a_rows (fst p) ! i = Row2 (\<kappa> i) v) \<and> (\<forall>t \<in># snd p. a_ok n \<kappa> (a_core (fst p)) t) \<and> a_fails (fst p) = 0"

definition a_inv :: "nat \<Rightarrow> test_a \<times> a_thread multiset \<Rightarrow> bool" where
  "a_inv n p \<longleftrightarrow> (n < 2 ^ 63 \<longrightarrow> (\<exists>\<kappa> M. a_pool n \<kappa> M p))"

lemma a_ok_mono: "a_ok n \<kappa> s t \<Longrightarrow> n \<le> m \<Longrightarrow> active s' = active s \<Longrightarrow> gen_of s' = gen_of s \<Longrightarrow> a_ok m \<kappa> s' t"
  by (cases t) auto

lemma a_next:
  assumes p: "a_pool n \<kappa> M (\<sigma>, add_mset t T)" and c: "torn_core (Suc n) (a_core \<sigma>') M" "active (a_core \<sigma>') = active (a_core \<sigma>)"
    "gen_of (a_core \<sigma>') = gen_of (a_core \<sigma>)" and r: "length (a_rows \<sigma>') = 64" "\<forall>i < 64. \<exists>v. a_rows \<sigma>' ! i = Row2 (\<kappa> i) v"
    and f: "a_fails \<sigma>' = 0" and ok: "a_ok (Suc n) \<kappa> (a_core \<sigma>') t'"
  shows "a_pool (Suc n) \<kappa> M (\<sigma>', add_mset t' T)"
proof -
  have "a_ok (Suc n) \<kappa> (a_core \<sigma>') u" if "u \<in># T" for u
  proof -
    have "a_ok n \<kappa> (a_core \<sigma>) u" using p that by (simp add: a_pool_def)
    then show ?thesis by (rule a_ok_mono [OF _ _ c(2,3)]) simp
  qed
  then show ?thesis using c r f ok by (simp add: a_pool_def)
qed

lemma sint_small: "unat (v :: u64) \<le> n \<Longrightarrow> n < 2 ^ 63 \<Longrightarrow> 0 \<le> sint v"
proof -
  assume "unat v \<le> n" "n < 2 ^ 63"
  then have "int (unat v) < int (2 ^ 63)" by linarith
  then have "uint v < 2 ^ 63" by simp
  moreover have "- (2 ^ 63) \<le> uint v" by (rule order_trans [of _ 0]) simp_all
  ultimately have "sint v = uint v" by (simp add: sint_uint signed_take_bit_int_eq_self)
  then show ?thesis by simp
qed

abbreviation a_moves :: "nat \<Rightarrow> (nat \<Rightarrow> u64) \<Rightarrow> index_map \<Rightarrow> u64 \<Rightarrow> image \<Rightarrow> test_a \<Rightarrow> a_thread \<Rightarrow> a_thread multiset \<Rightarrow> bool" where
  "a_moves n \<kappa> M rng junk \<sigma> t T \<equiv> \<exists>\<sigma>' t'. torn_next rng junk \<sigma> t = Some (\<sigma>', t') \<and> a_pool (Suc n) \<kappa> M (\<sigma>', add_mset t' T)"

lemma torn_moves:
  assumes p: "a_pool n \<kappa> M (\<sigma>, add_mset t T)" and n: "n < 2 ^ 63" and t: "t \<noteq> A_Exit"
  shows "a_moves n \<kappa> M rng junk \<sigma> t T"
proof -
  let ?s = "a_core \<sigma>"
  have c: "torn_core n ?s M" and r: "length (a_rows \<sigma>) = 64" "\<forall>i < 64. \<exists>v. a_rows \<sigma> ! i = Row2 (\<kappa> i) v"
    and f: "a_fails \<sigma> = 0" and ok: "a_ok n \<kappa> ?s t" using p by (simp_all add: a_pool_def)
  have c': "torn_core (Suc n) ?s M" by (rule torn_core_mono [OF c]) simp
  note stay = a_next [OF p]
  show ?thesis
  proof (cases t)
    case (W_Loop e)
    let ?i = "unat (rng mod 64)"
    have i: "?i < 64" by (simp add: unat_mod)
    obtain v where v: "a_rows \<sigma> ! ?i = Row2 (\<kappa> ?i) v" using r(2) i by blast
    have e: "unat (e + 1) \<le> Suc n" 
    proof -
      have "unat (e + 1) = (unat e + 1) mod 2 ^ 64" by (simp add: unat_word_ariths)
      also have "\<dots> \<le> unat e + 1" by (rule mod_less_eq_dividend)
      finally show ?thesis using ok W_Loop by simp
    qed
    have "a_ok (Suc n) \<kappa> ?s (W_Find (e + 1) ?i (set_v (a_rows \<sigma> ! ?i) (e + 1)))" using e i v by (simp add: Row2_def)
    then show ?thesis using W_Loop stay [of \<sigma>] c' r f by (auto simp: Let_def)
  next
    case (W_Find e i nr)
    from c show ?thesis
    proof (cases rule: torn_find [where k = "of_nat i" and buf = junk and out = "-1"])
      case (none buf')
      then show ?thesis using W_Find ok stay [of "\<sigma>\<lparr>a_writes := a_writes \<sigma> + 1\<rparr>" "W_Loop e"] c' r f by (simp add: Let_def)
    next
      case (hit j row)
      then have "active ?s j" using rows_eq_None_iff [of ?s j] by auto
      then show ?thesis using W_Find ok hit(1) stay [of \<sigma> "W_Gen e i nr j"] c' r f by (simp add: Let_def)
    qed
  next
    case (W_Gen e i nr out)
    then have "has_slot (chunks ?s) out" using ok by (simp add: active_def)
    from test_gen_of_eq [OF this] show ?thesis using W_Gen ok stay [of \<sigma> "W_Row e i nr out (gen_of ?s out)"] c' r f by simp
  next
    case (W_Row e i nr out g)
    obtain w where w: "a_rows \<sigma> ! i = Row2 (\<kappa> i) w" using r(2) ok W_Row by auto
    let ?s' = "put_slot ?s out (rewritten (slot_of (chunks ?s) out) (Row2 (\<kappa> i) e))"
    have u: "unat e \<le> n" "active ?s out" "nr = Row2 (\<kappa> i) e" "g = gen_of ?s out" "i < 64" using ok W_Row by auto
    note up = torn_update(1) [OF c u(2,1) refl, of "\<kappa> i" w] torn_update(2-5) [OF c u(2,1) refl, of "\<kappa> i"]
    have "torn_core (Suc n) ?s' M" by (rule torn_core_mono [OF up(2)]) simp
    with stay [of "a_fail True (\<sigma>\<lparr>a_core := ?s'\<rparr>)" "W_Store e i nr"] show ?thesis
      using W_Row up r f w u by (simp add: a_fail_def CHECK_def)
  next
    case (W_Store e i nr)
    have "\<exists>v. (a_rows \<sigma>)[i := nr] ! j = Row2 (\<kappa> j) v" if "j < 64" for j
      using r that ok W_Store by (cases "j = i") auto
    then show ?thesis using W_Store stay [of "\<sigma>\<lparr>a_rows := (a_rows \<sigma>)[i := nr], a_writes := a_writes \<sigma> + 1\<rparr>" "W_Loop e"] c' r(1) f ok by simp
  next
    case R_Loop
    then show ?thesis using stay [of \<sigma>] c' r f by auto
  next
    case (R_Scan pos buf)
    from c show ?thesis
    proof (cases rule: torn_scan [where pos = pos and buf = buf])
      case (row k v pos')
      then have "rec2_magic (Row2 k v) = MAGIC" "\<not> sint (rec2_v (Row2 k v)) < 0" using sint_small [OF row(2) n] by (simp_all add: Row2_def)
      then show ?thesis using R_Scan row(1) stay [of "\<sigma>\<lparr>a_reads := a_reads \<sigma> + 1\<rparr>" "R_Scan pos' (Row2 k v)"] c' r f by simp
    next
      case (eof pos' buf')
      then show ?thesis using R_Scan stay [of \<sigma> R_Loop] c' r f by simp
    qed
  next
    case A_Sleep
    then show ?thesis using stay [of "\<sigma>\<lparr>a_stop := True\<rparr>" A_Exit] c' r f by simp
  qed (use t in simp)
qed

interpretation torn: counted_family torn_step a_inv
proof
  fix n \<sigma> t T \<sigma>' t'
  assume inv: "a_inv n (\<sigma>, add_mset t T)" and step: "torn_step \<sigma> t \<sigma>' t'"
  obtain rng junk where nx: "torn_next rng junk \<sigma> t = Some (\<sigma>', t')" using step by (auto simp: torn_step_def)
  have t: "t \<noteq> A_Exit" using nx by auto
  show "a_inv (Suc n) (\<sigma>', add_mset t' T)"
    unfolding a_inv_def
  proof
    assume "Suc n < 2 ^ 63"
    then have n: "n < 2 ^ 63" by simp
    then obtain \<kappa> M where "a_pool n \<kappa> M (\<sigma>, add_mset t T)" using inv by (auto simp: a_inv_def)
    from torn_moves [OF this n t, of rng junk] nx show "\<exists>\<kappa> M. a_pool (Suc n) \<kappa> M (\<sigma>', add_mset t' T)" by auto
  qed
qed

section \<open>The test passes\<close>

lemma torn_start_inv:
  assumes rs: "length rs = 64"
  obtains \<sigma> T where "torn_start never_fails rs = Some (\<sigma>, add_mset A_Sleep (replicate_mset 4 (W_Loop 0) + replicate_mset 2 R_Loop))"
    "a_pool 0 (\<lambda>i. rec_k (a_rows \<sigma> ! i)) (index_of (a_core \<sigma>)) (\<sigma>, add_mset A_Sleep (replicate_mset 4 (W_Loop 0) + replicate_mset 2 R_Loop))"
    "filled 64 (a_core \<sigma>) (a_rows \<sigma>)" "a_fails \<sigma> = 0" "\<not> a_stop \<sigma>"
proof -
  obtain s rs' where f: "torn_fill [0 ..< 64] (keyed never_fails 24) rs 0 = Some (s, rs', 0)" "filled 64 s rs'"
    using fill_ok [OF filled_start [OF rs], of 0] by auto
  let ?\<sigma> = "\<lparr>a_core = s, a_rows = rs', a_stop = False, a_writes = 0, a_reads = 0, a_fails = 0\<rparr>"
  have h: "holds Row2 (keyed never_fails 24) s (first_rows 64)" and len: "length rs' = 64" using f(2) by (simp_all add: filled_def)
  note d = recs2.holds_static [OF h]
  obtain F where b: "body s (index_of s) {} F" using d(7) by (auto simp: table_def)
  have "good_row 0 r" if "rows s i = Some r" for i r
    using that recs2.holds_rows [OF h] by (force simp: first_rows_def good_row_def split: if_splits)
  then have c: "torn_core 0 s (index_of s)" using bodyD(1-3) [OF b] d by (simp add: torn_core_def keyed_eq)
  have "\<exists>v. rs' ! i = Row2 (rec_k (rs' ! i)) v" if i: "i < 64" for i
  proof (cases "i = 0")
    case True
    obtain j where "rs' ! 0 = Row2 (of_nat j) 0" using f(2) by (auto simp: filled_def)
    then show ?thesis using True by (intro exI [of _ 0]) (simp add: Row2_def)
  next
    case False
    then have "rs' ! i = Row2 (of_nat i) 0" using f(2) i by (simp add: filled_def)
    then show ?thesis by (intro exI [of _ 0]) (simp add: Row2_def)
  qed
  then have "a_pool 0 (\<lambda>i. rec_k (rs' ! i)) (index_of s) (?\<sigma>, add_mset A_Sleep (replicate_mset 4 (W_Loop 0) + replicate_mset 2 R_Loop))"
    using c len by (auto simp: a_pool_def)
  then show thesis using that [of ?\<sigma>] f by (simp add: torn_start_def)
qed

lemma magic_loop_ok: "torn_core n s M \<Longrightarrow> magic_loop s pos buf m = Some m"
proof (induction "total_slots s - pos" arbitrary: pos buf rule: less_induct)
  case less
  from less.prems show ?case
  proof (cases rule: torn_scan [where pos = pos and buf = buf])
    case (row k v pos')
    then have "magic_loop s pos' (Row2 k v) m = Some m" using less.hyps [of pos' "Row2 k v"] less.prems by simp
    then show ?thesis using row(1) by (subst magic_loop.simps) (simp add: CHECK_def Row2_def)
  next
    case (eof pos' buf')
    then show ?thesis by (subst magic_loop.simps) simp
  qed
qed

lemma torn_verified:
  assumes "a_pool n \<kappa> M (\<sigma>, T)"
  shows "torn_verify buf \<sigma> = Some 0"
proof -
  have c: "torn_core n (a_core \<sigma>) M" "a_fails \<sigma> = 0" using assms by (simp_all add: a_pool_def)
  have "freeable (a_core \<sigma>)" by (rule freeableI) (use torn_coreD(1,10) [OF c(1)] in \<open>simp_all add: layout_def keys_ready_def\<close>)
  then obtain s1 where "fm_core_free_share (a_core \<sigma>) = Some s1" by (auto simp: freeable_def)
  then show ?thesis using magic_loop_ok [OF c(1)] c(2) by (simp add: torn_verify_def)
qed

lemma torn_run:
  assumes al: "\<And>n z. alloc o' n z" and rs: "length rs = 64"
  obtains p where "torn_start o' rs = Some p" "\<And>n \<sigma> T. n < 2 ^ 63 \<Longrightarrow> (interleave torn_step ^^ n) p (\<sigma>, T) \<Longrightarrow> \<exists>\<kappa> M. a_pool n \<kappa> M (\<sigma>, T)"
proof -
  obtain p where st: "torn_start o' rs = Some p" "\<exists>\<kappa> M. a_pool 0 \<kappa> M p"
    using torn_start_inv [OF rs] never_failsI [OF al] by metis
  have "\<exists>\<kappa> M. a_pool n \<kappa> M (\<sigma>, T)" if "n < 2 ^ 63" "(interleave torn_step ^^ n) p (\<sigma>, T)" for n \<sigma> T
    using torn.inv_after [OF that(2)] st(2) that(1) by (simp add: a_inv_def)
  with st(1) show thesis by (rule that)
qed

text \<open>
  Test A passes on the schedules of its threads in which calls of the core do not overlap, of fewer than \<open>2\<^sup>6\<^sup>3\<close> steps and for all random
  numbers: the rows are inserted into the slots 0 to 63, no check fails at any time, every thread that has not
  finished can take its next step, and the pass over the table at the end finds every magic number intact.
\<close>

theorem torn_read_test_passes:
  assumes al: "\<And>n z. alloc o' n z" and rs: "length rs = 64"
  shows "\<exists>p. torn_start o' rs = Some p \<and> (\<forall>n \<sigma> T. n < 2 ^ 63 \<and> (interleave torn_step ^^ n) p (\<sigma>, T) \<longrightarrow>
    a_fails \<sigma> = 0 \<and> (\<forall>t \<in># T. t = A_Exit \<or> (\<forall>rng junk. torn_next rng junk \<sigma> t \<noteq> None)) \<and> torn_verify buf \<sigma> = Some 0)"
proof -
  obtain p where st: "torn_start o' rs = Some p"
    "\<And>n \<sigma> T. n < 2 ^ 63 \<Longrightarrow> (interleave torn_step ^^ n) p (\<sigma>, T) \<Longrightarrow> \<exists>\<kappa> M. a_pool n \<kappa> M (\<sigma>, T)" by (rule torn_run [OF assms]) blast
  have "a_fails \<sigma> = 0 \<and> (\<forall>t \<in># T. t = A_Exit \<or> (\<forall>rng junk. torn_next rng junk \<sigma> t \<noteq> None)) \<and> torn_verify buf \<sigma> = Some 0"
    if n: "n < 2 ^ 63" and run: "(interleave torn_step ^^ n) p (\<sigma>, T)" for n \<sigma> T
  proof -
    obtain \<kappa> M where p: "a_pool n \<kappa> M (\<sigma>, T)" using st(2) [OF n run] by blast
    have "torn_next rng junk \<sigma> t \<noteq> None" if t: "t \<in># T" "t \<noteq> A_Exit" for t rng junk
    proof -
      obtain T' where "T = add_mset t T'" using t(1) by (auto dest: multi_member_split)
      with torn_moves [of n \<kappa> M \<sigma> t T' rng junk] p n t(2) show ?thesis by auto
    qed
    then show ?thesis using p torn_verified [OF p] by (auto simp: a_pool_def)
  qed
  with st(1) show ?thesis by blast
qed

theorem torn_read_test_passes_witness:
  "\<exists>\<sigma> T. torn_start \<lparr>alloc = \<lambda>_ _. True\<rparr> (replicate 64 []) = Some (\<sigma>, T) \<and> a_fails \<sigma> = 0 \<and> torn_verify [] \<sigma> = Some 0"
proof -
  obtain p where p: "torn_start never_fails (replicate 64 []) = Some p"
    "\<forall>n \<sigma> T. n < 2 ^ 63 \<and> (interleave torn_step ^^ n) p (\<sigma>, T) \<longrightarrow>
      a_fails \<sigma> = 0 \<and> (\<forall>t \<in># T. t = A_Exit \<or> (\<forall>rng junk. torn_next rng junk \<sigma> t \<noteq> None)) \<and> torn_verify [] \<sigma> = Some 0"
    using torn_read_test_passes [of never_fails "replicate 64 []" "[]"] by auto
  obtain \<sigma> T where e: "p = (\<sigma>, T)" by (cases p)
  have "(interleave torn_step ^^ 0) p (\<sigma>, T)" by (simp add: e)
  with p(2) have "a_fails \<sigma> = 0 \<and> torn_verify [] \<sigma> = Some 0" by (meson zero_less_power zero_less_numeral)
  with p(1) e show ?thesis by blast
qed

section \<open>The test breaks its own table\<close>

lemma torn_bucket_eval:
  "torn_bucket i = (let h = foldl fnv_step 1469598103934665603 (le64 (of_nat i)) in ucast (h XOR drop_bit 32 h) AND 63)"
  by (simp add: torn_bucket_def hk0_hash_rec_def Row2_def Let_def)

declare torn_bucket_eval [code]

definition torn_buckets :: "u32 list" where
  "torn_buckets =
    [29, 55, 13, 35, 5, 31, 53, 3, 44, 55, 29, 35, 4, 44, 52, 28, 60, 20, 12, 36, 4, 60, 20, 12, 44, 20, 60, 36, 4, 44, 20, 60,
     35, 53, 12, 36, 3, 29, 55, 13, 35, 53, 31, 37, 3, 45, 55, 29, 35, 21, 15, 37, 3, 61, 23, 13, 34, 10, 63, 37, 2, 42, 22, 62]"

lemma torn_buckets: "map torn_bucket [0 ..< 64] = torn_buckets"
  by code_simp

lemma torn_bucket_nth: "i < 64 \<Longrightarrow> torn_bucket i = torn_buckets ! i"
  by (simp flip: torn_buckets)

lemma torn_collision: "torn_bucket 51 = torn_bucket 59" "torn_bucket 59 \<noteq> torn_bucket 0"
  "c \<in> {60 ..< 64} \<Longrightarrow> a < c \<Longrightarrow> torn_bucket a \<noteq> torn_bucket c"
proof -
  show "torn_bucket 51 = torn_bucket 59" "torn_bucket 59 \<noteq> torn_bucket 0" by (simp_all add: torn_bucket_nth torn_buckets_def)
  assume c: "c \<in> {60 ..< 64}" and a: "a < c"
  have "list_all (\<lambda>c. torn_buckets ! c \<notin> set (take c torn_buckets)) [60 ..< 64]" by code_simp
  then have "torn_buckets ! c \<notin> set (take c torn_buckets)" unfolding list_all_iff set_upt using c by blast
  moreover have "torn_buckets ! a \<in> set (take c torn_buckets)"
    using a c by (auto simp: in_set_conv_nth torn_buckets_def intro!: exI [of _ a])
  ultimately show "torn_bucket a \<noteq> torn_bucket c" using a c by (auto simp: torn_bucket_nth)
qed

lemma scratch_is_other_row:
  assumes "filled 64 s rs"
  obtains j where "0 < j" "j < 64" "rs ! 0 = Row2 (of_nat j) 0"
proof -
  obtain j where j: "j < 64" "rs ! 0 = Row2 (of_nat j) 0" "last_seen 64 j" using assms by (auto simp: filled_def)
  have "\<not> (\<forall>c < 64. \<forall>a < c. torn_bucket a \<noteq> torn_bucket c)"
  proof
    assume "\<forall>c < 64. \<forall>a < c. torn_bucket a \<noteq> torn_bucket c"
    from this [rule_format, of 59 51] torn_collision(1) show False by simp
  qed
  then obtain b where b: "b < 64" "j < b" "torn_bucket j = torn_bucket b" "\<forall>c. b < c \<and> c < 64 \<longrightarrow> (\<forall>a < c. torn_bucket a \<noteq> torn_bucket c)"
    using j(3) unfolding last_seen_def by blast
  have "\<not> b < 59" using b(4) [rule_format, of 59 51] torn_collision(1) by auto
  moreover have "b \<notin> {60 ..< 64}" using b(2,3) torn_collision(3) by blast
  ultimately have "b = 59" using b(1) by auto
  then have "j \<noteq> 0" using b(3) torn_collision(2) by metis
  with j show thesis by (intro that) auto
qed

text \<open>
  C35: Test A can break the unique key of its table without noticing. The inserts of the set-up leave the image of another
  row in \<open>rows[0]\<close>, their scratch buffer. The first writer that picks row 0 takes its old and its new image from there, so
  the update sees no key change and row 0 gets the key of the other row. No check fails.
\<close>

theorem torn_read_test_breaks_key:
  assumes al: "\<And>n z. alloc o' n z" and rs: "length rs = 64"
  shows "\<exists>p \<sigma> T i j r r'. torn_start o' rs = Some p \<and> (interleave torn_step)\<^sup>*\<^sup>* p (\<sigma>, T) \<and> a_fails \<sigma> = 0
    \<and> i \<noteq> j \<and> rows (a_core \<sigma>) i = Some r \<and> rows (a_core \<sigma>) j = Some r' \<and> rec_k r = rec_k r' \<and> \<not> uniq (a_core \<sigma>)"
proof -
  let ?T = "add_mset A_Sleep (replicate_mset 4 (W_Loop 0) + replicate_mset 2 R_Loop)"
  obtain \<sigma> where st: "torn_start never_fails rs = Some (\<sigma>, ?T)"
    "a_pool 0 (\<lambda>i. rec_k (a_rows \<sigma> ! i)) (index_of (a_core \<sigma>)) (\<sigma>, ?T)" "filled 64 (a_core \<sigma>) (a_rows \<sigma>)" "a_fails \<sigma> = 0" "\<not> a_stop \<sigma>"
    by (rule torn_start_inv [OF rs])
  let ?s = "a_core \<sigma>"
  obtain j where j: "0 < j" "j < 64" "a_rows \<sigma> ! 0 = Row2 (of_nat j) 0" by (rule scratch_is_other_row [OF st(3)])
  have h: "holds Row2 (keyed never_fails 24) ?s (first_rows 64)" using st(3) by (simp add: filled_def)
  note d = recs2.holds_static [OF h]
  have at: "first_rows 64 0 = Some (0, 0)" "first_rows 64 (of_nat j) = Some (int j, 0)" using small_nat [OF j(2)] j(2) by (simp_all add: first_rows_def)
  note r0 = recs2.holds_at [OF h at(1)] and rj = recs2.holds_at [OF h at(2)]
  have act: "active ?s 0" using r0 rows_eq_None_iff [of ?s 0] by auto
  have c: "torn_core 1 ?s (index_of ?s)" using st(2) torn_core_mono [of 0 ?s "index_of ?s" 1] by (simp add: a_pool_def)
  let ?s' = "put_slot ?s 0 (rewritten (slot_of (chunks ?s) 0) (Row2 (of_nat j) 1))"
  have one: "unat (1 :: u64) \<le> 1" by simp
  note up = torn_update(1) [OF c act one refl, of "of_nat j" 0] torn_update(5) [OF c act one refl, of "of_nat j"]
  let ?\<sigma>' = "a_fail True (\<sigma>\<lparr>a_core := ?s'\<rparr>)" and ?nr = "Row2 (of_nat j) 1" and ?g = "gen_of ?s 0"
  obtain buf' where f: "fm_core_find ?s 0 (le64 0) [] (-1) = Some ((FM_ERR_OK, 0, buf'), ?s)"
    using recs2.find_call [OF h, of 0 "[]" "-1"] at(1) by auto
  have "torn_next 0 [] \<sigma> (W_Loop 0) = Some (\<sigma>, W_Find 1 0 ?nr)" using st(5) j(3) by (simp add: Let_def Row2_def)
  moreover have "torn_next 0 [] \<sigma> (W_Find 1 0 ?nr) = Some (\<sigma>, W_Gen 1 0 ?nr 0)" using f by (simp add: Let_def)
  moreover have "torn_next 0 [] \<sigma> (W_Gen 1 0 ?nr 0) = Some (\<sigma>, W_Row 1 0 ?nr 0 ?g)" using recs2.gen_call [OF h at(1)] by simp
  moreover have "torn_next 0 [] \<sigma> (W_Row 1 0 ?nr 0 ?g) = Some (?\<sigma>', W_Store 1 0 ?nr)" using up(1) j(3) by simp
  ultimately have steps: "torn_step \<sigma> (W_Loop 0) \<sigma> (W_Find 1 0 ?nr)" "torn_step \<sigma> (W_Find 1 0 ?nr) \<sigma> (W_Gen 1 0 ?nr 0)"
    "torn_step \<sigma> (W_Gen 1 0 ?nr 0) \<sigma> (W_Row 1 0 ?nr 0 ?g)" "torn_step \<sigma> (W_Row 1 0 ?nr 0 ?g) ?\<sigma>' (W_Store 1 0 ?nr)"
    unfolding torn_step_def by blast+
  note mt = moves_then [where step = torn_step]
  have run: "(interleave torn_step)\<^sup>*\<^sup>* (\<sigma>, add_mset (W_Loop 0) T) (?\<sigma>', add_mset (W_Store 1 0 ?nr) T)" for T
    by (rule mt [OF steps(1)], rule mt [OF steps(2)], rule mt [OF steps(3)], rule mt [OF steps(4)]) (rule rtranclp.rtrancl_refl)
  have T: "?T = add_mset (W_Loop 0) (add_mset A_Sleep (replicate_mset 3 (W_Loop 0) + replicate_mset 2 R_Loop))"
    by (simp add: numeral_eq_Suc add_mset_commute)
  have rows': "rows ?s' 0 = Some (Row2 (of_nat j) 1)" "rows ?s' (int j) = Some (Row2 (of_nat j) 0)" using up(2) rj j(1) by simp_all
  have k: "kc_unique (keydef ?s' ! 0)" "0 < keys ?s'" "kc_ops (keydef ?s' ! 0) = hk0_ops" using d(1,5,6) by simp_all
  have "rec_cmp (keydef ?s' ! 0) (Row2 (of_nat j) 1) (Row2 (of_nat j) 0) = 0" "\<not> null_key (keydef ?s' ! 0) (Row2 (of_nat j) 1)" "0 \<noteq> int j"
    using k(3) j(1) by (simp_all add: Row2_def)
  then have nu: "\<not> uniq ?s'" using k(1,2) rows' unfolding uniq_def by blast
  have c': "a_core ?\<sigma>' = ?s'" "a_fails ?\<sigma>' = 0" using st(4) by (simp_all add: a_fail_def CHECK_def)
  have start: "torn_start o' rs = Some (\<sigma>, ?T)" using st(1) never_failsI [OF al] by simp
  have "rec_k (Row2 (of_nat j) 1) = rec_k (Row2 (of_nat j) 0)" by (simp add: Row2_def)
  then show ?thesis
    using start run [of "add_mset A_Sleep (replicate_mset 3 (W_Loop 0) + replicate_mset 2 R_Loop)", folded T] c' nu rows' \<open>0 \<noteq> int j\<close> by metis
qed

theorem torn_read_test_breaks_key_witness:
  "\<exists>p \<sigma> T i j r r'. torn_start \<lparr>alloc = \<lambda>_ _. True\<rparr> (replicate 64 []) = Some p \<and> (interleave torn_step)\<^sup>*\<^sup>* p (\<sigma>, T) \<and> a_fails \<sigma> = 0
    \<and> i \<noteq> j \<and> rows (a_core \<sigma>) i = Some r \<and> rows (a_core \<sigma>) j = Some r' \<and> rec_k r = rec_k r' \<and> \<not> uniq (a_core \<sigma>)"
  by (rule torn_read_test_breaks_key) simp_all

end
