(* ===== verification/Fm_Test_Main.thy ===== *)
theory Fm_Test_Main
  imports Fm_Test_Unique Fm_Test_Torn
begin

text \<open>
  The main program of the standalone test (\<open>src/standalone-test/main.cpp\<close>): the four tests one after the other, and
  the exit code from the number of failures. The threaded tests contribute a run of their threads to the end; \<open>n\<close> is the
  number of steps of test A.
\<close>

inductive main_exits :: "FM_SHARE_CORE_OPS \<Rightarrow> image \<Rightarrow> image list \<Rightarrow> nat \<Rightarrow> int \<Rightarrow> bool" for o' junk rs n where
  exits: "main_exits o' junk rs n (if fa + fb + fc + fd = 0 then 0 else 1)"
  if "torn_start o' rs = Some p" "(interleave torn_step ^^ n) p (\<sigma>A, TA)" "\<forall>t \<in># TA. t = A_Exit" "torn_verify junk \<sigma>A = Some fa"
    "(interleave unique_step)\<^sup>*\<^sup>* (unique_start o') (\<sigma>B, TB)" "\<forall>t \<in># TB. t = B_Exit" "unique_verify junk \<sigma>B = Some fb"
    "test_stale_pos o' junk = Some fc" "test_multikey o' junk = Some fd"

text \<open>
  On the schedules in which calls of the core do not overlap the program exits with 0, whatever the random numbers and the
  contents of uninitialised memory, as long as memory suffices and test A makes fewer than \<open>2\<^sup>6\<^sup>3\<close> steps.
\<close>

theorem test_program_passes:
  assumes al: "\<And>n z. alloc o' n z" and rs: "length rs = 64" and n: "n < 2 ^ 63" and run: "main_exits o' junk rs n code"
  shows "code = 0"
  using run
proof cases
  case (exits p \<sigma>A TA fa \<sigma>B TB fb fc fd)
  obtain \<kappa> M where "a_pool n \<kappa> M (\<sigma>A, TA)" using torn_run [OF al rs] exits(2,3) n by (metis option.inject)
  then have "fa = 0" using torn_verified exits(5) by fastforce
  moreover have "b_inv (\<sigma>B, TB)" using unique.inv_reach [OF exits(6)] unique_start_inv never_failsI [OF al] by simp
  then have "fb = 0" using unique_verified exits(7,8) by fastforce
  moreover have "fc = 0" "fd = 0" using exits(9,10) test_stale_pos_ok [OF al, of junk] test_multikey_ok [OF al, of junk] by simp_all
  ultimately show ?thesis using exits(1) by simp
qed

theorem test_program_passes_witness:
  "\<exists>n code. n < 2 ^ 63 \<and> main_exits \<lparr>alloc = \<lambda>_ _. True\<rparr> [] (replicate 64 []) n code \<and> code = 0"
proof -
  let ?TA = "add_mset A_Sleep (replicate_mset 4 (W_Loop 0) + replicate_mset 2 R_Loop)" and ?sB = "fst (unique_start never_fails)"
  obtain \<sigma> where st: "torn_start never_fails (replicate 64 []) = Some (\<sigma>, ?TA)" "a_pool 0 (\<lambda>i. rec_k (a_rows \<sigma> ! i)) (index_of (a_core \<sigma>)) (\<sigma>, ?TA)"
    by (rule torn_start_inv [of "replicate 64 []"]) simp_all
  let ?A = "\<sigma>\<lparr>a_stop := True\<rparr>" and ?B = "?sB\<lparr>b_stop := True\<rparr>"
  have "torn_step \<sigma> A_Sleep ?A A_Exit" by (simp add: torn_step_def)
  note a1 = interleave.moves [where step = torn_step, OF this, of "replicate_mset 4 (W_Loop 0) + replicate_mset 2 R_Loop"]
  let ?R = "replicate_mset 4 (W_Loop 0) + replicate_mset 2 R_Loop" and ?x = "\<lambda>_. A_Exit"
  have "torn_step ?A t ?A (?x t)" if "t \<in># ?R" for t
    using that by (auto simp: torn_step_def in_replicate_mset split: if_splits)
  note a2 = all_move [of ?R torn_step ?A ?x "{#A_Exit#}", OF this]
  have runA: "(interleave torn_step ^^ Suc (size ?R)) (\<sigma>, ?TA) (?A, image_mset ?x ?R + {#A_Exit#})"
    by (rule relpowp_Suc_I2 [where P = "interleave torn_step", OF a1]) (use a2 in \<open>simp only: union_mset_add_mset_right add_0_right\<close>)
  have exitA: "\<forall>t \<in># image_mset ?x ?R + {#A_Exit#}. t = A_Exit" by auto
  have "a_pool 0 (\<lambda>i. rec_k (a_rows \<sigma> ! i)) (index_of (a_core \<sigma>)) (?A, {#})" using st(2) by (simp add: a_pool_def)
  note vA = torn_verified [OF this, of "[]"]
  have "unique_step ?sB B_Sleep ?B B_Exit" by (simp add: unique_step_def)
  from moves_then [where step = unique_step, OF this, of "replicate_mset 6 B_Loop"] all_exit [of ?B 6 1]
  have runB: "(interleave unique_step)\<^sup>*\<^sup>* (unique_start never_fails) (?B, replicate_mset 7 B_Exit)" by (simp add: unique_start_def)
  have exitB: "\<forall>t \<in># replicate_mset 7 B_Exit. t = B_Exit" by (simp add: in_replicate_mset)
  have "b_inv (?B, replicate_mset 7 B_Exit)" using unique.inv_reach [OF runB] unique_start_inv by simp
  note vB = unique_verified [OF this exitB, of "[]"]
  have al: "alloc never_fails n z" for n z by simp
  have run: "main_exits never_fails [] (replicate 64 []) (Suc (size ?R)) (if (0 :: nat) + 0 + 0 + 0 = 0 then 0 else 1)"
    by (rule main_exits.exits [OF st(1) runA exitA vA runB exitB vB test_stale_pos_ok [OF al] test_multikey_ok [OF al]])
  have n: "Suc (size ?R) < 2 ^ 63" by simp
  have "(if (0 :: nat) + 0 + 0 + 0 = 0 then 0 else 1 :: int) = 0" by (rule test_program_passes [OF al _ n run]) simp
  with n run show ?thesis by blast
qed

end
