(* ===== verification/Spec2Isabelle.thy ===== *)
theory Spec2Isabelle
  imports Ha_Plugin Fm_Seqlock Fm_Deadlock Fm_Races Fm_Test_Main
begin

text \<open>
  A verification development for FASTMEM, an in-memory storage engine for MariaDB without table locks
  (the sources are under \<open>src/\<close>).

  \<^bold>\<open>The program.\<close> A table is a share. Its rows live in fixed-size slots that are allocated in chunks and
  recycled through a free list; every key has a hash table of buckets whose chains run through arrays
  parallel to the slots. Writers take a spinlock per slot, one per bucket and one structure mutex per
  table; readers take none and rely on a sequence counter per slot. A position of a row is its slot and
  the generation of the slot, which a delete raises. On top of this core are the callbacks that hash
  and compare keys, the calls of an open handle with its cursor, the registry of shares, and the
  handler object that the server drives, which holds the lock of a row from its read to its update.

  \<^bold>\<open>The theories\<close>, in the order of their imports:

  \<^item> \<open>Fm_Prelude\<close>: words, lists and option facts, the collections of rewrite rules that carry the
    proofs.
  \<^item> \<open>Fm_Core\<close> (\<open>fm_core.h\<close>, data and lifecycle): slots, chunks, keys and the share as records, the
    locks as flags, \<open>fm_core_init_share\<close>, \<open>fm_core_free_share\<close>.
  \<^item> \<open>Fm_Slots\<close>: \<open>fm_core_grow_chunk\<close>, \<open>fm_core_alloc_slot\<close>, \<open>fm_core_free_slot\<close>; the free list holds
    exactly the slots that are not in use.
  \<^item> \<open>Fm_Chain\<close>, \<open>Fm_Index\<close>: chains, \<open>fm_core_find\<close>, \<open>fm_core_find_next\<close>, \<open>fm_core_scan_next\<close>, the
    duplicate check; the interface \<open>key_contract\<close> that the callbacks of a key must keep; the chains
    represent the index of the rows.
  \<^item> \<open>Fm_Lockset\<close>: which buckets an update locks and in which order.
  \<^item> \<open>Fm_Rows\<close>, \<open>Fm_Table\<close>, \<open>Fm_Store\<close>: insert, update, delete (each also under the lock of the caller)
    and clear, the invariant \<open>table\<close> of a share at rest, the abstract table it implements (a map from
    slots to images, and the generations), the steps of the core and their simulation.
  \<^item> \<open>Fm_Interleave\<close>: pools of threads over a shared state, and the interfaces \<open>thread_family\<close>, \<open>counted_family\<close>
    (safety) and \<open>finite_threads\<close> (safety and termination) that the pools below instantiate.
  \<^item> \<open>Fm_Threads\<close>, \<open>Fm_Pool\<close>, \<open>Fm_Races\<close>: the write calls of the core cut into their lock-protected sections, any
    number of them interleaved; what holds in such a pool, and the two races that break it.
  \<^item> \<open>Fm_Auto_Inc\<close>: the auto-increment counter, as calls and as interleaved compare-and-swap loops.
  \<^item> \<open>Fm_Seqlock\<close>: readers and writers of one slot, interleaved access by access.
  \<^item> \<open>Fm_Deadlock\<close>: the lock acquisitions of each call, interleaved between sessions; an interface for
    lock hierarchies and its instance for the engine.
  \<^item> \<open>Fm_Key_Hash\<close> (\<open>fm_hash.cc\<close>): hashing, comparison and packing of keys; every key whose segments are
    sound keeps the contract of the core.
  \<^item> \<open>Fm_Def\<close>, \<open>Fm_Create\<close>, \<open>Fm_Registry\<close> (\<open>fm_def.h\<close>, \<open>fm_create.cc\<close>): the registry of shares and handles
    at addresses, with the mutex, the blocks in use and allocations that fail; preparation of keys,
    create, open, close, drop, rename, free; the invariant of the registry over all these steps.
  \<^item> \<open>Fm_Data\<close> (\<open>fm_data.cc\<close>): the calls of an open handle: write, update, delete, positions, scans, key
    reads, auto-increment, statistics.
  \<^item> \<open>Ha_Fastmem\<close>, \<open>Ha_Session\<close> (\<open>ha_fastmem.cc\<close>, \<open>ha_fastmem.h\<close>): the methods of the handler; sessions as
    lists of calls; the invariant that ties the row lock of the share to the handler.
  \<^item> \<open>Ha_Open\<close> and this theory: the composition, from opening a table to a session on it.
  \<^item> \<open>Ha_Plugin\<close>: the plugin as the server sees it (\<open>fastmem_init\<close>, the costs) and \<open>clone\<close>.
  \<^item> \<open>Fm_Test\<close>, \<open>Fm_Test_Share\<close>, \<open>Fm_Test_Unique\<close>, \<open>Fm_Test_Torn\<close>, \<open>Fm_Test_Main\<close>
    (\<open>standalone-test/main.cpp\<close>): the sequential tests, a share with one key as an interface for the threaded ones, the
    two threaded tests with their threads interleaved call by call, and the main program.

  \<^bold>\<open>How code becomes definitions.\<close> A function that can go wrong in C++ (a null or dangling pointer, an
  index out of range, a lock that is never released) returns an option, and None is that behaviour;
  an error code is a value of \<open>fm_rc\<close> or \<open>ha_err\<close>. So a statement that a call returns Some rules out both
  memory errors and self-deadlock. Counters, generations, sequence numbers and hash values are words of
  their width. Spinlocks are flags in the sequential model: taking a lock that is taken is None.
  Allocation may fail at any call, by a function of the environment.

  \<^bold>\<open>Bounds and termination.\<close> Chain walks are partial functions over option and are shown to return on
  every share that satisfies the invariant; the only fuel is in
  the client loop that scans a table, where one more than the number of slots is enough. The results on
  a new share assume at most
  \<open>2\<^sup>3\<^sup>1 - FM_CHUNK_SIZE\<close> rows, so that slot numbers fit their type, and at most
  \<open>FM_MAX_CHANGED_KEYS\<close> keys, the size of the arrays of an update.

  \<^bold>\<open>What the theorems show.\<close> Sequentially, every sequence of core calls keeps the invariant and refines
  the abstract table, unique keys hold, stale positions are rejected, lookups and scans are exact. For
  the handler, no sequence of calls within the rules of the server gets stuck, a read-modify-write cycle
  changes exactly the row that was read, and no row stays locked. For the registry, counts, lists and
  memory agree with the open handles after every history. Under interleaving, reads of a row are not
  torn by updates, auto-increment intervals are disjoint and write sessions do not deadlock; inserts,
  deletes and updates that keep the keys implement the abstract table whatever the order of their
  sections, and come to their end. The test program exits with 0 on every schedule. Where the
  code does not keep its promise there is a theorem with the counterexample: a read can be torn when its
  slot is recycled, an insert and a key-changing update can both win a unique key, a delete and a clear can
  free one slot twice, emptying a table can deadlock with a delete, a key with a short VARCHAR does not match
  its row, and others.

  \<^bold>\<open>Parameters.\<close> The character sets and the byte order of the server, its number conversions, its
  allocator, \<open>handler::update_auto_increment\<close>, \<open>get_new_handler\<close> and \<open>handler::ha_open\<close> are arguments, with what
  the engine needs of them as named hypotheses (\<open>charset_ok\<close>, \<open>key_parts_ok\<close>, \<open>server_ok\<close>).

  \<^bold>\<open>Not modelled.\<close> The memory order of the atomics below sequential consistency. In the pools of writers an
  update and a clear are one section each, and chain walks of readers are not interleaved with the sections of
  writers (the reads of one slot are, in \<open>Fm_Seqlock\<close>). Doubles are real numbers, without rounding. The constant flag words
  of the handler and the plugin descriptor have no behaviour, and the output of the test program is left out.
\<close>

section \<open>From the registry to a session\<close>

text \<open>
  C9: Opening a table the engine does not know yet creates it and yields a usable session. For a table
  definition the engine supports, with enough memory, \<open>open\<close> succeeds: the new share is empty, the
  registry stays consistent with the open handles, the handler is at rest with no row locked, and
  every list of calls that respects the rules of the server then runs to its end.
\<close>

theorem open_establishes_session:
  assumes tbl: "table_supported tbl" "\<forall>k \<in> set (t_key_info tbl). key_parts_ok env k" "length (t_key_info tbl) \<le> FM_MAX_CHANGED_KEYS"
      "estimate_max_records tbl (max (max_heap_table_size env) 8) \<le> 2 ^ 31 - FM_CHUNK_SIZE"
    and mem: "\<And>n z. alloc (fm_core_ops env) n z" "\<And>n. env_malloc env n"
    and ok: "reg_ok r pins" and nm: "\<forall>i sh. rg_shares r i = Some sh \<longrightarrow> sh_internal sh \<or> sh_name sh \<noteq> nm"
  shows "\<exists>ha h info sh r'. ha_open env tbl nm md False ha_fastmem_init r = Some (True, ha, r') \<and> ha_file ha = Some h
    \<and> rg_infos r' h = Some info \<and> rg_shares r' (inf_s info) = Some sh \<and> rows (sh_core sh) = Map.empty \<and> reg_ok r' pins
    \<and> ha_inv ha info sh \<and> (\<forall>kr sv cs buf. calls_ok kr sv cs \<lparr>s_ha = ha, s_info = info, s_sh = sh, s_buf = buf\<rparr>
         \<longrightarrow> (\<exists>es st. ha_run kr sv cs \<lparr>s_ha = ha, s_info = info, s_sh = sh, s_buf = buf\<rparr> = Some (es, st) \<and> session_ok st))"
proof -
  let ?ha = "ha_fastmem_init\<lparr>internal_table := False\<rparr>" and ?r = "r\<lparr>my_errno := ENOENT\<rparr>"
  have r: "reg_ok ?r pins" "\<forall>i sh. rg_shares ?r i = Some sh \<longrightarrow> sh_internal sh \<or> sh_name sh \<noteq> nm" using ok nm by (simp_all add: reg_ok_def)
  have run: "ha_open env tbl nm md False ha_fastmem_init r = open_new env tbl nm md False ?ha ?r"
    by (simp add: ha_open_def Let_def fm_open_unknown [OF ok nm])
  show ?thesis
  proof (rule open_new_ready [OF tbl mem r, of md ?ha], goal_cases)
    case (1 h i sh info r')
    let ?ha1 = "?ha\<lparr>internal_share := i, implicit_emptied := True, ha_file := Some h\<rparr>"
    have inv: "ha_inv ?ha1 info sh"
      using 1 by (simp add: ha_inv_def cursor_ok_def locks_ok_def ha_fastmem_init_def)
    then have s: "session_ok \<lparr>s_ha = ?ha1, s_info = info, s_sh = sh, s_buf = buf\<rparr>" for buf by (simp add: session_ok_def)
    show ?case
      by (rule exI [of _ ?ha1], rule exI [of _ h], rule exI [of _ info], rule exI [of _ sh], rule exI [of _ r'])
        (use 1 inv run ha_run_total [OF s] in \<open>simp, blast\<close>)
  qed
qed

theorem open_establishes_session_witness:
  "\<exists>ha h info sh r'. ha_open demo_env demo_TABLE ''t'' 0 False ha_fastmem_init empty_registry = Some (True, ha, r') \<and> ha_file ha = Some h
    \<and> rg_infos r' h = Some info \<and> rg_shares r' (inf_s info) = Some sh \<and> rows (sh_core sh) = Map.empty \<and> reg_ok r' (\<lambda>_. 0)
    \<and> ha_inv ha info sh"
proof -
  have t: "table_supported demo_TABLE" "length (t_key_info demo_TABLE) \<le> FM_MAX_CHANGED_KEYS"
    by (simp_all add: table_supported_def demo_TABLE_def FM_MAX_CHANGED_KEYS_def)
  have m: "estimate_max_records demo_TABLE (max (max_heap_table_size demo_env) 8) \<le> 2 ^ 31 - FM_CHUNK_SIZE"
    using estimate_bounds [of demo_TABLE "max (max_heap_table_size demo_env) 8"] by (auto simp: demo_TABLE_def)
  have a: "alloc (fm_core_ops demo_env) n z" "env_malloc demo_env n" for n z by (simp_all add: demo_env_def)
  have n: "\<forall>i sh. rg_shares empty_registry i = Some sh \<longrightarrow> sh_internal sh \<or> sh_name sh \<noteq> ''t''" by (simp add: empty_registry_def)
  from open_establishes_session [OF t(1) demo_TABLE_parts_ok t(2) m a empty_registry_ok n, of 0] show ?thesis by blast
qed

text \<open>
  C26: Opening a table the engine already has adds a handle: the share counts and lists one handle more and has its key
  callbacks wired, with the uniqueness of its keys. At the first open after \<open>CREATE TABLE\<close> this is what makes the share a
  usable table, at every further open it changes nothing any more. The rows, their generations, their number and the row
  locks are the same, no other share and no other handle is touched, and the registry stays consistent.
\<close>

theorem open_existing_joins:
  assumes ok: "reg_ok r pins" and m: "\<And>n. env_malloc env n"
    and i: "rg_shares r i = Some sh" "\<not> sh_internal sh" "sh_name sh = nm"
    and one: "\<forall>j sh'. rg_shares r j = Some sh' \<longrightarrow> \<not> sh_internal sh' \<longrightarrow> sh_name sh' = nm \<longrightarrow> j = i"
    and t: "table (fm_key_ops_init (env_server env) (sh_keydef sh) (sh_core sh))"
  shows "\<exists>h info sh' r'. ha_open env tbl nm md False ha r = Some (True, ha\<lparr>internal_table := False, ha_file := Some h\<rparr>, r')
    \<and> rg_infos r h = None \<and> rg_infos r' = (rg_infos r)(h \<mapsto> info) \<and> inf_s info = i \<and> reg_ok r' pins
    \<and> rg_shares r' = (rg_shares r)(i \<mapsto> sh')
    \<and> sh' = sh\<lparr>sh_open_count := sh_open_count sh + 1, sh_open_list := h # sh_open_list sh, sh_core := sh_core sh'\<rparr>
    \<and> table (sh_core sh') \<and> view (sh_core sh') = view (sh_core sh) \<and> held (sh_core sh') = held (sh_core sh)
    \<and> records (sh_core sh') = records (sh_core sh)
    \<and> sh_core sh' = fm_key_ops_init (env_server env) (sh_keydef sh) (sh_core sh)
    \<and> fm_key_ops_init (env_server env) (sh_keydef sh') (sh_core sh') = sh_core sh'"
proof -
  from open_joins [OF assms, of tbl md ha] obtain h info r' where
    o: "ha_open env tbl nm md False ha r = Some (True, ha\<lparr>internal_table := False, ha_file := Some h\<rparr>, r')"
      "rg_infos r h = None" "rg_infos r' = (rg_infos r)(h \<mapsto> info)" "inf_s info = i" "reg_ok r' pins"
      "rg_shares r' = (rg_shares r)(i \<mapsto> joined (env_server env) sh h)" by blast
  show ?thesis
    by (intro exI [of _ h] exI [of _ info] exI [of _ "joined (env_server env) sh h"] exI [of _ r'] conjI o)
      (simp_all add: joined_def t fm_key_ops_init_idem)
qed

theorem open_existing_joins_witness:
  "\<exists>h info r'. ha_open demo_env demo_TABLE ''t'' 0 False ha_fastmem_init demo_registry
        = Some (True, ha_fastmem_init\<lparr>internal_table := False, ha_file := Some h\<rparr>, r')
    \<and> rg_infos r' = [h \<mapsto> info] \<and> reg_ok r' (\<lambda>_. 0)
    \<and> (\<exists>sh. rg_shares r' = [0 \<mapsto> sh] \<and> sh_open_count sh = 1 \<and> sh_open_list sh = [h] \<and> table (sh_core sh))"
proof -
  have i: "rg_shares demo_registry 0 = Some demo_FM_SHARE" "\<not> sh_internal demo_FM_SHARE" "sh_name demo_FM_SHARE = ''t''"
    "\<forall>j sh'. rg_shares demo_registry j = Some sh' \<longrightarrow> \<not> sh_internal sh' \<longrightarrow> sh_name sh' = ''t'' \<longrightarrow> j = 0"
    by (simp_all add: demo_registry_def demo_FM_SHARE_def)
  have "env_malloc demo_env n" for n by (simp add: demo_env_def)
  from open_existing_joins [OF demo_registry_ok this i demo_FM_SHARE_table, of demo_TABLE 0 ha_fastmem_init] obtain h info sh' r' where
    o: "ha_open demo_env demo_TABLE ''t'' 0 False ha_fastmem_init demo_registry
        = Some (True, ha_fastmem_init\<lparr>internal_table := False, ha_file := Some h\<rparr>, r')"
      "rg_infos r' = (rg_infos demo_registry)(h \<mapsto> info)" "reg_ok r' (\<lambda>_. 0)" "rg_shares r' = (rg_shares demo_registry)(0 \<mapsto> sh')"
      "sh' = demo_FM_SHARE\<lparr>sh_open_count := sh_open_count demo_FM_SHARE + 1, sh_open_list := h # sh_open_list demo_FM_SHARE, sh_core := sh_core sh'\<rparr>"
      "table (sh_core sh')" by blast
  have "sh_open_count sh' = 1" "sh_open_list sh' = [h]" by (subst o(5), simp add: demo_FM_SHARE_def)+
  moreover have "rg_infos r' = [h \<mapsto> info]" "rg_shares r' = [0 \<mapsto> sh']" using o(2,4) by (simp_all add: demo_registry_def)
  ultimately show ?thesis using o(1,3,6) by (intro exI [of _ h] exI [of _ info] exI [of _ r'] conjI exI [of _ sh']) simp_all
qed

text \<open>
  Opening an existing table when no memory is left for the handle does not report the error: the
  call goes on with the null handle to wire the key callbacks, which is undefined behaviour.
\<close>

theorem open_without_memory_crashes:
  assumes ok: "reg_ok r pins" and i: "rg_shares r i = Some sh" "\<not> sh_internal sh" "sh_name sh = nm"
    and m: "\<not> env_malloc env (rg_mallocs r)" "env_errno env \<noteq> ENOENT"
  shows "ha_open env tbl nm md False ha r = None"
proof -
  have lk: "\<not> THR_LOCK_fastmem r" "reg_inv {} (r\<lparr>THR_LOCK_fastmem := True\<rparr>) pins" using ok by (simp_all add: reg_ok_def)
  from lk(2) obtain j sj where "fm_find_named_share (r\<lparr>THR_LOCK_fastmem := True\<rparr>) nm = Some (Some j)" "rg_shares r j = Some sj"
    by (cases rule: find_named_share_cases [where nm = nm]) (use i in auto)
  then show ?thesis using lk(1) m
    by (simp add: ha_open_def fm_open_def mysql_mutex_lock_def mysql_mutex_unlock_def fm_open_from_share_locked_def my_malloc_def open_finish_def Let_def)
qed

theorem open_without_memory_crashes_witness:
  "ha_open (demo_env\<lparr>env_malloc := \<lambda>_. False\<rparr>) demo_TABLE ''t'' 0 False ha_fastmem_init demo_registry = None"
  by (rule open_without_memory_crashes [OF demo_registry_ok, of 0 demo_FM_SHARE]) (simp_all add: demo_registry_def demo_FM_SHARE_def demo_env_def)

end
